(* ===== verification/Prelude.thy ===== *)
theory Prelude
  imports Main "HOL-Library.Word"
begin

text \<open>
  Shared vocabulary of the kernel development: the integer types of \<^verbatim>\<open>include/types.h\<close>, the
  outcomes of kernel code (a value, or one of the ways in which it does not come back), the flat
  byte-addressed physical memory with its little-endian 32-bit accesses, the port I/O of the
  machine, and linked structures in a heap of 32-bit addresses together with the hand-over-hand
  traversal that all list walks of the kernel share.
\<close>

unbundle bit_operations_syntax

named_theorems outcome_simps \<open>unfolding of sequencing and of outcomes\<close>
named_theorems list_seg \<open>facts on list segments in a heap\<close>
named_theorems mem_simps \<open>reads after writes in the physical memory\<close>

section \<open>Integer types\<close>

type_synonym u8 = "8 word"
type_synonym u16 = "16 word"
type_synonym u32 = "32 word"
type_synonym u64 = "64 word"

text \<open>\<^verbatim>\<open>NULL\<close> is defined as 0 in \<^verbatim>\<open>include/defs.h\<close>.\<close>

abbreviation (input) NULL :: u32 where
  "NULL \<equiv> 0"

section \<open>Outcomes\<close>

text \<open>
  Kernel code may fail to return: \<open>Panic\<close> is a call of \<^verbatim>\<open>kpanic()\<close> or \<^verbatim>\<open>panic()\<close> (both end in an
  endless loop with interrupts off), \<open>Undef\<close> is an access the C language leaves undefined (a NULL
  or dangling table pointer, an index past the end of a static array), \<open>Diverge\<close> is a loop that
  never ends, \<open>NoInput\<close> says that the device script supplied for the run has no further answer.
\<close>

datatype kerr = Panic | Undef | Diverge | NoInput

definition kbind :: "'e + 'a \<Rightarrow> ('a \<Rightarrow> 'e + 'b) \<Rightarrow> 'e + 'b" where
  "kbind r f = (case r of Inl e \<Rightarrow> Inl e | Inr x \<Rightarrow> f x)"

definition kassert :: "bool \<Rightarrow> kerr + unit" where
  "kassert b = (if b then Inr () else Inl Panic)"

definition krun :: "(kerr + 'a) option \<Rightarrow> kerr + 'a" where
  "krun r = (case r of None \<Rightarrow> Inl Diverge | Some x \<Rightarrow> x)"

lemma kbind_simps [simp, outcome_simps]:
  "kbind (Inl e) f = Inl e"
  "kbind (Inr x) f = f x"
  by (simp_all add: kbind_def)

lemma krun_simps [simp, outcome_simps]:
  "krun None = Inl Diverge"
  "krun (Some x) = x"
  by (simp_all add: krun_def)

lemma kassert_simps [simp, outcome_simps]:
  "kassert True = Inr ()"
  "kassert False = Inl Panic"
  by (simp_all add: kassert_def)

lemma kassert_eq_Inr [simp]: "kassert b = Inr x \<longleftrightarrow> b"
  by (simp add: kassert_def)

lemma kbind_eq_Inr: "kbind r f = Inr y \<longleftrightarrow> (\<exists>x. r = Inr x \<and> f x = Inr y)"
  by (cases r) simp_all

lemma kbind_assoc: "kbind (kbind r f) g = kbind r (\<lambda>x. kbind (f x) g)"
  by (cases r) simp_all

lemma kbind_if: "kbind (if b then r else r') f = (if b then kbind r f else kbind r' f)"
  by simp

text \<open>
  \<open>kok r Q\<close>: the code returns, and its result satisfies \<open>Q\<close>. It composes along \<^const>\<open>kbind\<close> the
  way a weakest precondition does.
\<close>

definition kok :: "'e + 'a \<Rightarrow> ('a \<Rightarrow> bool) \<Rightarrow> bool" where
  "kok r Q \<longleftrightarrow> (\<exists>x. r = Inr x \<and> Q x)"

lemma kok_simps [simp, outcome_simps]:
  "kok (Inr x) Q = Q x"
  "kok (Inl e) Q = False"
  by (simp_all add: kok_def)

lemma kok_bind: "kok (kbind r f) Q \<longleftrightarrow> kok r (\<lambda>x. kok (f x) Q)"
  by (cases r) simp_all

lemma kok_assert [simp]: "kok (kassert b) Q \<longleftrightarrow> b \<and> Q ()"
  by (simp add: kassert_def)

lemma kok_mono: "kok r P \<Longrightarrow> (\<And>x. P x \<Longrightarrow> Q x) \<Longrightarrow> kok r Q"
  by (auto simp: kok_def)

lemma kok_conj: "kok r P \<Longrightarrow> kok r Q \<Longrightarrow> kok r (\<lambda>x. P x \<and> Q x)"
  by (auto simp: kok_def)

lemma kokI: "r = Inr x \<Longrightarrow> Q x \<Longrightarrow> kok r Q"
  by (simp add: kok_def)

lemma kokE: "kok r Q \<Longrightarrow> (\<And>x. r = Inr x \<Longrightarrow> Q x \<Longrightarrow> R) \<Longrightarrow> R"
  by (auto simp: kok_def)

section \<open>Words\<close>

lemma unat_ucast: "unat (ucast (x :: 'a::len word) :: 'b::len word) = unat x mod 2 ^ LENGTH('b)"
  by (simp add: unsigned_ucast_eq take_bit_eq_mod)

lemma unat_drop: "unat (drop_bit k v) = unat v div 2 ^ k"
  unfolding unat_drop_bit_eq by (rule drop_bit_eq_div)

lemma sint_small:
  fixes v :: u32
  assumes "unat v < 2 ^ 31"
  shows "sint v = int (unat v)"
proof -
  obtain n where n: "unat v = n" by blast
  have "int (unat v) = uint v" by (rule of_nat_unat)
  then have "uint v = int n" unfolding n ..
  moreover have "signed_take_bit 31 (int n) = int n"
    using assms n by (intro signed_take_bit_int_eq_self) simp_all
  ultimately show ?thesis using n unfolding sint_uint by simp
qed

lemma in_range32:
  fixes a :: u32
  assumes "unat a + unat n < 2 ^ 32"
  shows "x - a < n \<longleftrightarrow> unat a \<le> unat x \<and> unat x < unat a + unat n"
  using assms unsigned_less [of x, where ?'a = nat] by (auto simp: word_less_nat_alt unat_sub_if' word_le_nat_alt)

text \<open>Masking the top \<open>w\<close> bits before shifting them down changes nothing.\<close>

lemma top_mask:
  fixes v :: u32
  assumes "k + w = 32" and "c = push_bit k (mask w)"
  shows "drop_bit k (v AND c) = drop_bit k v" and "v AND c = 0 \<longleftrightarrow> drop_bit k v = 0"
proof -
  have hi: "bit v n \<Longrightarrow> n < 32" for n using bit_imp_le_length [of v n] by simp
  have c: "bit c n \<longleftrightarrow> k \<le> n \<and> n < 32" for n
    unfolding assms(2) bit_push_bit_iff bit_mask_iff using assms(1) by auto
  show d: "drop_bit k (v AND c) = drop_bit k v"
    by (rule bit_word_eqI) (auto simp: bit_drop_bit_eq bit_and_iff c dest: hi)
  have "v AND c = push_bit k (drop_bit k v)"
    by (rule bit_word_eqI) (auto simp: bit_drop_bit_eq bit_and_iff bit_push_bit_iff c dest: hi)
  then show "v AND c = 0 \<longleftrightarrow> drop_bit k v = 0" using d by (metis drop_bit_of_0 push_bit_of_0)
qed

lemma unat_top_mask:
  fixes v :: u32
  assumes "k + w = 32" and "c = push_bit k (mask w)"
  shows "unat (v AND c) = unat v div 2 ^ k * 2 ^ k"
proof -
  have "unat (v AND c) = unat (drop_bit k (v AND c)) * 2 ^ k + unat (v AND c) mod 2 ^ k"
    unfolding unat_drop by (rule div_mult_mod_eq [symmetric])
  also have "unat (v AND c) mod 2 ^ k = 0"
  proof -
    have "take_bit k (v AND c) = 0"
      unfolding assms(2) by (rule bit_word_eqI) (auto simp: bit_take_bit_iff bit_and_iff bit_push_bit_iff)
    then have "take_bit k (unat (v AND c)) = 0" unfolding unsigned_take_bit_eq [symmetric] by simp
    then show ?thesis unfolding take_bit_eq_mod .
  qed
  finally show ?thesis unfolding top_mask(1) [OF assms] unat_drop by simp
qed

section \<open>Physical memory\<close>

text \<open>
  The kernel runs without paging: every 32-bit address is readable and writable, so memory is a
  total function. Multi-byte accesses are little-endian.
\<close>

type_synonym memory = "u32 \<Rightarrow> u8"

definition load32 :: "memory \<Rightarrow> u32 \<Rightarrow> u32" where
  "load32 m a = ucast (m a) OR push_bit 8 (ucast (m (a + 1)))
     OR push_bit 16 (ucast (m (a + 2))) OR push_bit 24 (ucast (m (a + 3)))"

definition store32 :: "memory \<Rightarrow> u32 \<Rightarrow> u32 \<Rightarrow> memory" where
  "store32 m a v = m(a := ucast v, a + 1 := ucast (drop_bit 8 v),
     a + 2 := ucast (drop_bit 16 v), a + 3 := ucast (drop_bit 24 v))"

definition load16 :: "memory \<Rightarrow> u32 \<Rightarrow> u16" where
  "load16 m a = ucast (m a) OR push_bit 8 (ucast (m (a + 1)))"

definition store16 :: "memory \<Rightarrow> u32 \<Rightarrow> u16 \<Rightarrow> memory" where
  "store16 m a v = m(a := ucast v, a + 1 := ucast (drop_bit 8 v))"

definition load64 :: "memory \<Rightarrow> u32 \<Rightarrow> u64" where
  "load64 m a = ucast (load32 m a) OR push_bit 32 (ucast (load32 m (a + 4)))"

text \<open>The four bytes of a longword are distinct cells.\<close>

lemma word_offsets_distinct [simp]:
  "(a :: u32) + 1 \<noteq> a" "a + 2 \<noteq> a" "a + 3 \<noteq> a"
  "a + 2 \<noteq> a + 1" "a + 3 \<noteq> a + 1" "a + 3 \<noteq> a + 2"
  by (simp_all add: add_eq_0_iff)

lemma load32_store32_same [simp, mem_simps]: "load32 (store32 m a v) a = v"
proof (rule bit_word_eqI)
  fix n :: nat
  assume "n < LENGTH(32)"
  then consider "n < 8" | "8 \<le> n \<and> n < 16" | "16 \<le> n \<and> n < 24" | "24 \<le> n \<and> n < 32"
    by force
  then show "bit (load32 (store32 m a v) a) n = bit v n"
    by cases (auto simp: load32_def store32_def bit_simps)
qed

lemma load16_store16_same [simp, mem_simps]: "load16 (store16 m a v) a = v"
proof (rule bit_word_eqI)
  fix n :: nat
  assume "n < LENGTH(16)"
  then consider "n < 8" | "8 \<le> n \<and> n < 16" by force
  then show "bit (load16 (store16 m a v) a) n = bit v n"
    by cases (auto simp: load16_def store16_def bit_simps)
qed

lemma store16_other: "x \<noteq> a \<Longrightarrow> x \<noteq> a + 1 \<Longrightarrow> store16 m a v x = m x"
  by (simp add: store16_def)

lemma load16_store16_other [mem_simps]:
  assumes "b \<noteq> a" and "b \<noteq> a + 1" and "b + 1 \<noteq> a"
  shows "load16 (store16 m a v) b = load16 m b"
  using assms by (simp add: load16_def store16_def)

text \<open>Two longwords are apart when no byte of one is a byte of the other.\<close>

definition apart4 :: "u32 \<Rightarrow> u32 \<Rightarrow> bool" where
  "apart4 a b \<longleftrightarrow> 4 \<le> b - a \<and> 4 \<le> a - b"

lemma apart4_sym: "apart4 a b \<Longrightarrow> apart4 b a"
  by (simp add: apart4_def)

lemma apart4_neq:
  assumes "apart4 a b" and "c < 4" and "d < 4"
  shows "b + c \<noteq> a + d"
proof
  assume "b + c = a + d"
  then have "b - a = d - c" and "a - b = c - d"
    by (simp_all add: algebra_simps)
  with assms(1) have "4 \<le> d - c" and "4 \<le> c - d"
    by (simp_all add: apart4_def)
  with assms(2,3) show False
    by (cases "c \<le> d") (auto simp: word_le_nat_alt word_less_nat_alt unat_sub_if')
qed

lemma store32_other:
  assumes "4 \<le> b - a"
  shows "store32 m a v b = m b"
proof -
  have "b \<noteq> a + c" if "c < 4" for c
    using assms that by auto
  from this [of 0] this [of 1] this [of 2] this [of 3] show ?thesis
    by (simp add: store32_def)
qed

lemma load32_cong:
  assumes "\<And>i. i < 4 \<Longrightarrow> m (a + i) = m' (a + i)"
  shows "load32 m a = load32 m' a"
  using assms [of 0] assms [of 1] assms [of 2] assms [of 3] by (simp add: load32_def)

lemma load32_store32_other [mem_simps]:
  assumes "apart4 a b"
  shows "load32 (store32 m a v) b = load32 m b"
proof -
  have "b + c \<noteq> a" "b + c \<noteq> a + 1" "b + c \<noteq> a + 2" "b + c \<noteq> a + 3" if "c < 4" for c
    using apart4_neq [OF assms that, of 0] apart4_neq [OF assms that, of 1]
      apart4_neq [OF assms that, of 2] apart4_neq [OF assms that, of 3] by simp_all
  from this [of 0] this [of 1] this [of 2] this [of 3] show ?thesis
    by (simp add: load32_def store32_def)
qed

definition al4 :: "u32 \<Rightarrow> bool" where
  "al4 a \<longleftrightarrow> a AND 3 = 0"

lemma al4_unat: "al4 a \<longleftrightarrow> 4 dvd unat a"
proof -
  have "a AND 3 = a AND mask 2" by (simp add: mask_eq_exp_minus_1)
  then have "a AND 3 = 0 \<longleftrightarrow> unat a mod 4 = 0"
    by (simp flip: take_bit_eq_mask add: take_bit_eq_mod unat_mod word_unat_eq_iff)
  then show ?thesis by (simp add: al4_def dvd_eq_mod_eq_0)
qed

lemma al4_apart4:
  assumes "al4 a" and "al4 b" and "a \<noteq> b"
  shows "apart4 a b"
proof -
  have *: "4 \<le> unat (y - x)" if "4 dvd unat x" "4 dvd unat y" "x \<noteq> y" for x y :: u32
  proof -
    have "4 dvd unat (y - x)"
      using that(1,2) unsigned_less [of x, where ?'a = nat]
      by (auto simp: unat_sub_if' word_le_nat_alt intro!: dvd_diff_nat dvd_add)
    moreover have "unat (y - x) \<noteq> 0"
      using that(3) by (simp add: unat_eq_0)
    ultimately show ?thesis by (auto dest: dvd_imp_le)
  qed
  from assms show ?thesis
    using * [of a b] * [of b a] by (simp add: apart4_def word_le_nat_alt al4_unat)
qed

lemma load32_store32_al [mem_simps]:
  assumes "al4 a" and "al4 b"
  shows "load32 (store32 m a v) b = (if a = b then v else load32 m b)"
  using assms by (simp add: load32_store32_other al4_apart4)

section \<open>Linked structures\<close>

text \<open>
  \<open>lseg nx p as q\<close>: following the successor function from \<open>p\<close> visits exactly the non-NULL
  addresses \<open>as\<close> and arrives at \<open>q\<close>. A NULL-terminated list is the segment that ends at 0.
\<close>

fun lseg :: "(u32 \<Rightarrow> u32) \<Rightarrow> u32 \<Rightarrow> u32 list \<Rightarrow> u32 \<Rightarrow> bool" where
  "lseg nx p [] q \<longleftrightarrow> p = q"
| "lseg nx p (a # as) q \<longleftrightarrow> p = a \<and> a \<noteq> 0 \<and> lseg nx (nx a) as q"

abbreviation llist :: "(u32 \<Rightarrow> u32) \<Rightarrow> u32 \<Rightarrow> u32 list \<Rightarrow> bool" where
  "llist nx p as \<equiv> lseg nx p as 0"

lemma lseg_append [list_seg]:
  "lseg nx p (as @ bs) q \<longleftrightarrow> (\<exists>r. lseg nx p as r \<and> lseg nx r bs q)"
  by (induction as arbitrary: p) auto

lemma lseg_upd_other [simp, list_seg]:
  "x \<notin> set as \<Longrightarrow> lseg (nx(x := v)) p as q = lseg nx p as q"
  by (induction as arbitrary: p) auto

lemma lseg_cong:
  "(\<And>x. x \<in> set as \<Longrightarrow> nx x = nx' x) \<Longrightarrow> lseg nx p as q = lseg nx' p as q"
  by (induction as arbitrary: p) auto

lemma lseg_nonnull: "lseg nx p as q \<Longrightarrow> 0 \<notin> set as"
  by (induction as arbitrary: p) auto

lemma lseg_Cons_head: "lseg nx p (a # as) q \<Longrightarrow> p = a"
  by simp

lemma last_nonnull: "0 \<notin> set xs \<Longrightarrow> xs \<noteq> [] \<Longrightarrow> last xs \<noteq> (0 :: u32)"
  by (metis last_in_set)

lemma llist_null [simp]: "llist nx 0 as \<longleftrightarrow> as = []"
  by (cases as) auto

lemma llist_nonnull: "p \<noteq> 0 \<Longrightarrow> llist nx p as \<longleftrightarrow> (\<exists>bs. as = p # bs \<and> llist nx (nx p) bs)"
  by (cases as) auto

lemma llist_unique: "llist nx p as \<Longrightarrow> llist nx p bs \<Longrightarrow> as = bs"
proof (induction as arbitrary: p bs)
  case Nil
  then show ?case by (cases bs) auto
next
  case (Cons a as)
  then show ?case by (cases bs) auto
qed

lemma llist_head_notin: "llist nx (nx a) as \<Longrightarrow> a \<notin> set as"
proof
  assume l: "llist nx (nx a) as" and "a \<in> set as"
  then obtain bs cs where as: "as = bs @ a # cs" by (auto dest: split_list)
  with l have "llist nx (nx a) cs" by (auto simp: list_seg)
  with l have "as = cs" by (rule llist_unique)
  with as show False by simp
qed

lemma llist_distinct: "llist nx p as \<Longrightarrow> distinct as"
  by (induction as arbitrary: p) (auto dest: llist_head_notin)

lemma lseg_end: "lseg nx p as q \<Longrightarrow> as \<noteq> [] \<Longrightarrow> nx (last as) = q"
  by (induction as arbitrary: p) auto

lemma lseg_relink:
  assumes "lseg nx p as q" and "as \<noteq> []" and "distinct as"
  shows "lseg (nx(last as := r)) p as r"
  using assms
proof (induction as arbitrary: p)
  case (Cons a as)
  show ?case
  proof (cases "as = []")
    case False
    have "lseg (nx(last as := r)) (nx a) as r"
      by (rule Cons.IH) (use Cons.prems False in auto)
    moreover have "a \<noteq> last as" using Cons.prems False by auto
    ultimately show ?thesis using Cons.prems False by (simp add: fun_upd_def)
  qed (use Cons.prems in simp)
qed simp

text \<open>The address at the front of a NULL-terminated list.\<close>

definition front :: "u32 list \<Rightarrow> u32" where
  "front as = (case as of [] \<Rightarrow> 0 | a # _ \<Rightarrow> a)"

lemma front_simps [simp]: "front [] = 0" "front (a # as) = a"
  by (simp_all add: front_def)

lemma lseg_front: "llist nx p as \<Longrightarrow> p = front as"
  by (cases as) auto

lemma lseg_split: "llist nx p (as @ bs) \<longleftrightarrow> lseg nx p as (front bs) \<and> llist nx (front bs) bs"
  by (auto simp: lseg_append dest: lseg_front)

text \<open>
  The hand-over-hand traversal of the kernel's list walks: \<open>prev\<close> trails \<open>cur\<close>, and the walk goes
  on while \<open>cur\<close> is not NULL and the test holds. It is \<open>None\<close> when the walk never ends.
\<close>

partial_function (option) walk ::
  "(u32 \<Rightarrow> kerr + bool) \<Rightarrow> (u32 \<Rightarrow> u32) \<Rightarrow> u32 \<Rightarrow> u32 \<Rightarrow> (kerr + u32 \<times> u32) option" where
  "walk P nx prev cur =
     (if cur = 0 then Some (Inr (prev, cur))
      else case P cur of
        Inl e \<Rightarrow> Some (Inl e)
      | Inr go \<Rightarrow> if go then walk P nx cur (nx cur) else Some (Inr (prev, cur)))"

lemma walk_null [simp]: "walk P nx prev 0 = Some (Inr (prev, 0))"
  by (simp add: walk.simps)

lemma walk_llist:
  assumes "llist nx p as" and "\<And>x. x \<in> set as \<Longrightarrow> P x = Inr (Q x)"
  shows "walk P nx prev p
    = Some (Inr (last (prev # takeWhile Q as), front (dropWhile Q as)))"
  using assms
proof (induction as arbitrary: p prev)
  case (Cons a as)
  then have p: "p = a" "a \<noteq> 0" and l: "llist nx (nx a) as" and Pa: "P a = Inr (Q a)" by auto
  have "walk P nx a (nx a) = Some (Inr (last (a # takeWhile Q as), front (dropWhile Q as)))"
    by (rule Cons.IH [OF l]) (use Cons.prems(2) in simp)
  then show ?case
    by (subst walk.simps) (simp add: p Pa)
qed simp

section \<open>The machine\<close>

text \<open>
  Physical memory; the answers the devices give to successive \<^verbatim>\<open>inb()\<close> instructions; and the trace
  of \<^verbatim>\<open>outb()\<close> instructions executed so far, latest last (\<^verbatim>\<open>include/x86/ops.h\<close> wraps both in
  assembly).
\<close>

record machine =
  mem :: memory
  io_in :: "u8 list"
  io_out :: "(u16 \<times> u8) list"

definition inb :: "u16 \<Rightarrow> 'z machine_scheme \<Rightarrow> kerr + u8 \<times> 'z machine_scheme" where
  "inb port s = (case io_in s of [] \<Rightarrow> Inl NoInput | x # xs \<Rightarrow> Inr (x, s\<lparr>io_in := xs\<rparr>))"

definition outb :: "u16 \<Rightarrow> u8 \<Rightarrow> 'z machine_scheme \<Rightarrow> 'z machine_scheme" where
  "outb port v s = s\<lparr>io_out := io_out s @ [(port, v)]\<rparr>"

text \<open>A store of a longword into the machine's memory.\<close>

definition poke32 :: "u32 \<Rightarrow> u32 \<Rightarrow> 'z machine_scheme \<Rightarrow> 'z machine_scheme" where
  "poke32 a v s = s\<lparr>mem := store32 (mem s) a v\<rparr>"

lemma mem_poke32 [simp]: "mem (poke32 a v s) = store32 (mem s) a v"
  by (simp add: poke32_def)

lemma io_poke32 [simp]:
  "io_in (poke32 a v s) = io_in s" "io_out (poke32 a v s) = io_out s"
  by (simp_all add: poke32_def)

end
