(* ===== verification/Lib_Mem.thy ===== *)
theory Lib_Mem
  imports Prelude
begin

text \<open>
  The memory routines of \<^verbatim>\<open>lib/\<close>: \<^verbatim>\<open>memset.c\<close>, \<^verbatim>\<open>memclr.c\<close>, \<^verbatim>\<open>memcpy.c\<close>, \<^verbatim>\<open>memmove.c\<close> and
  \<^verbatim>\<open>blkmov.c\<close>, on the flat byte memory. A \<^verbatim>\<open>while( len-- )\<close> loop runs \<^verbatim>\<open>len\<close> times, so its model
  recurses on that count; the pointers advance with 32-bit wrap-around. The lemmas give the
  resulting memory cell by cell: \<^verbatim>\<open>memmove\<close> copies correctly for every overlap of regions that do
  not wrap around, and the longword version \<^verbatim>\<open>blkmov\<close> agrees with it.
\<close>

section \<open>The routines\<close>

fun memset_loop :: "nat \<Rightarrow> u32 \<Rightarrow> u8 \<Rightarrow> memory \<Rightarrow> memory" where
  "memset_loop 0 bp v m = m"
| "memset_loop (Suc n) bp v m = memset_loop n (bp + 1) v (m(bp := v))"

definition memset :: "u32 \<Rightarrow> u32 \<Rightarrow> u32 \<Rightarrow> memory \<Rightarrow> memory" where
  "memset buf len v m = memset_loop (unat len) buf (ucast v) m"

fun memclr_loop :: "nat \<Rightarrow> u32 \<Rightarrow> memory \<Rightarrow> memory" where
  "memclr_loop 0 dest m = m"
| "memclr_loop (Suc n) dest m = memclr_loop n (dest + 1) (m(dest := 0))"

definition memclr :: "u32 \<Rightarrow> u32 \<Rightarrow> memory \<Rightarrow> memory" where
  "memclr buf len m = memclr_loop (unat len) buf m"

text \<open>The ascending byte copy, shared by \<^verbatim>\<open>memcpy()\<close> and one branch of \<^verbatim>\<open>memmove()\<close>.\<close>

fun copy_up :: "nat \<Rightarrow> u32 \<Rightarrow> u32 \<Rightarrow> memory \<Rightarrow> memory" where
  "copy_up 0 dest source m = m"
| "copy_up (Suc n) dest source m = copy_up n (dest + 1) (source + 1) (m(dest := m source))"

text \<open>The descending byte copy of \<^verbatim>\<open>memmove()\<close>: the pointers are decremented before each access.\<close>

fun copy_down :: "nat \<Rightarrow> u32 \<Rightarrow> u32 \<Rightarrow> memory \<Rightarrow> memory" where
  "copy_down 0 dest source m = m"
| "copy_down (Suc n) dest source m =
     copy_down n (dest - 1) (source - 1) (m(dest - 1 := m (source - 1)))"

definition memcpy :: "u32 \<Rightarrow> u32 \<Rightarrow> u32 \<Rightarrow> memory \<Rightarrow> memory" where
  "memcpy dst src len m = copy_up (unat len) dst src m"

definition memmove :: "u32 \<Rightarrow> u32 \<Rightarrow> u32 \<Rightarrow> memory \<Rightarrow> memory" where
  "memmove dst src len m =
     (if src < dst \<and> src + len > dst
      then copy_down (unat len) (dst + len) (src + len) m
      else copy_up (unat len) dst src m)"

fun copy4_up :: "nat \<Rightarrow> u32 \<Rightarrow> u32 \<Rightarrow> memory \<Rightarrow> memory" where
  "copy4_up 0 dest source m = m"
| "copy4_up (Suc n) dest source m =
     copy4_up n (dest + 4) (source + 4) (store32 m dest (load32 m source))"

fun copy4_down :: "nat \<Rightarrow> u32 \<Rightarrow> u32 \<Rightarrow> memory \<Rightarrow> memory" where
  "copy4_down 0 dest source m = m"
| "copy4_down (Suc n) dest source m =
     copy4_down n (dest - 4) (source - 4) (store32 m (dest - 4) (load32 m (source - 4)))"

text \<open>
  \<^verbatim>\<open>blkmov()\<close>: falls back to \<^verbatim>\<open>memmove()\<close> unless both addresses and the length are multiples of
  four; then \<^verbatim>\<open>len\<close> becomes a count of longwords and the pointers are longword pointers.
\<close>

definition blkmov :: "u32 \<Rightarrow> u32 \<Rightarrow> u32 \<Rightarrow> memory \<Rightarrow> memory" where
  "blkmov dst src len m =
     (if dst AND 3 \<noteq> 0 \<or> src AND 3 \<noteq> 0 \<or> len AND 3 \<noteq> 0 then memmove dst src len m
      else let n = len div 4 in
        if src < dst \<and> src + 4 * n > dst
        then copy4_down (unat n) (dst + 4 * n) (src + 4 * n) m
        else copy4_up (unat n) dst src m)"

section \<open>Filling\<close>

lemma unat_diff_Suc:
  assumes "x \<noteq> a"
  shows "unat (x - a) = Suc (unat (x - (a + 1 :: u32)))"
proof -
  have "x - a \<noteq> 0" using assms by simp
  then have "unat (x - a - 1) = unat (x - a) - 1" and "0 < unat (x - a)"
    by (simp_all add: unat_minus_one unat_gt_0)
  then show ?thesis by (simp add: diff_diff_add)
qed

lemma memset_loop_cell:
  "n \<le> 2 ^ 32 \<Longrightarrow> memset_loop n a v m x = (if unat (x - a) < n then v else m x)"
proof (induction n arbitrary: a m)
  case (Suc n)
  then have IH: "memset_loop n (a + 1) v (m(a := v)) x
      = (if unat (x - (a + 1)) < n then v else (m(a := v)) x)"
    by simp
  show ?case
  proof (cases "x = a")
    case False
    then show ?thesis using IH unat_diff_Suc [OF False] by simp
  qed (use IH in simp)
qed simp

lemma memclr_loop_memset: "memclr_loop n a m = memset_loop n a 0 m"
  by (induction n arbitrary: a m) simp_all

lemma unat_le_2p32: "unat (len :: u32) \<le> 2 ^ 32"
  using unsigned_less [of len, where ?'a = nat] by simp

lemma memset_cell: "memset a len v m x = (if x - a < len then ucast v else m x)"
  by (simp add: memset_def memset_loop_cell [OF unat_le_2p32] word_less_nat_alt)

lemma memclr_cell: "memclr a len m x = (if x - a < len then 0 else m x)"
  by (simp add: memclr_def memclr_loop_memset memset_loop_cell [OF unat_le_2p32] word_less_nat_alt)

section \<open>Copying\<close>

lemma unat_of_nat_small: "n < 2 ^ 32 \<Longrightarrow> unat (of_nat n :: u32) = n"
  by (simp add: unat_of_nat take_bit_nat_eq_self)

lemma offset_eq_iff:
  "n < 2 ^ 32 \<Longrightarrow> x = (d :: u32) + of_nat n \<longleftrightarrow> unat (x - d) = n"
proof -
  assume "n < 2 ^ 32"
  then have "unat (of_nat n :: u32) = n" by (rule unat_of_nat_small)
  moreover have "x = d + of_nat n \<longleftrightarrow> x - d = of_nat n" by (auto simp: algebra_simps)
  ultimately show ?thesis by (simp add: word_unat_eq_iff)
qed

lemma copy_up_cell:
  assumes "n \<le> 2 ^ 32"
    and "\<And>i j. i < j \<Longrightarrow> j < n \<Longrightarrow> dst + of_nat i \<noteq> src + of_nat j"
  shows "copy_up n dst src m x = (if unat (x - dst) < n then m (src + (x - dst)) else m x)"
  using assms
proof (induction n arbitrary: dst src m)
  case (Suc n)
  let ?m = "m(dst := m src)"
  have IH: "copy_up n (dst + 1) (src + 1) ?m x
      = (if unat (x - (dst + 1)) < n then ?m (src + 1 + (x - (dst + 1))) else ?m x)"
  proof (rule Suc.IH)
    fix i j assume "i < j" "j < n"
    then show "dst + 1 + of_nat i \<noteq> src + 1 + of_nat j"
      using Suc.prems(2) [of "Suc i" "Suc j"] by (simp add: add.assoc)
  qed (use Suc.prems in simp)
  show ?case
  proof (cases "x = dst")
    case True
    then show ?thesis using IH Suc.prems(1) by simp
  next
    case False
    have clear: "src + (x - dst) \<noteq> dst" if "unat (x - dst) < Suc n"
      using Suc.prems(2) [of 0 "unat (x - dst)"] that False
      by (auto simp: unat_gt_0)
    show ?thesis
      using IH unat_diff_Suc [OF False] False clear by (simp add: algebra_simps)
  qed
qed simp

lemma copy_down_cell:
  assumes "n \<le> 2 ^ 32"
    and "\<And>i j. j < i \<Longrightarrow> i < n \<Longrightarrow> dst + of_nat i \<noteq> src + of_nat j"
  shows "copy_down n (dst + of_nat n) (src + of_nat n) m x
    = (if unat (x - dst) < n then m (src + (x - dst)) else m x)"
  using assms
proof (induction n arbitrary: m)
  case (Suc n)
  let ?m = "m(dst + of_nat n := m (src + of_nat n))"
  have IH: "copy_down n (dst + of_nat n) (src + of_nat n) ?m x
      = (if unat (x - dst) < n then ?m (src + (x - dst)) else ?m x)"
    by (rule Suc.IH) (use Suc.prems in simp_all)
  have at: "x = dst + of_nat n \<longleftrightarrow> unat (x - dst) = n"
    by (rule offset_eq_iff) (use Suc.prems in simp)
  have clear: "src + (x - dst) \<noteq> dst + of_nat n" if "unat (x - dst) < n"
    using Suc.prems(2) [of "unat (x - dst)" n] that by auto
  show ?case
    using IH at clear by (auto simp: less_Suc_eq algebra_simps)
qed simp

lemma unat_add_of_nat:
  "unat (a :: u32) + i < 2 ^ 32 \<Longrightarrow> unat (a + of_nat i) = unat a + i"
  by (simp add: unat_word_ariths unat_of_nat take_bit_nat_def)

lemma memmove_cell:
  assumes "unat src + unat len < 2 ^ 32" and "unat dst + unat len \<le> 2 ^ 32"
  shows "memmove dst src len m x = (if x - dst < len then m (src + (x - dst)) else m x)"
proof (cases "src < dst \<and> src + len > dst")
  case True
  have "copy_down (unat len) (dst + of_nat (unat len)) (src + of_nat (unat len)) m x
      = (if unat (x - dst) < unat len then m (src + (x - dst)) else m x)"
  proof (rule copy_down_cell [OF unat_le_2p32])
    fix i j assume "j < i" "i < unat len"
    then have "unat (dst + of_nat i) = unat dst + i" "unat (src + of_nat j) = unat src + j"
      using assms by (auto intro!: unat_add_of_nat)
    then show "dst + of_nat i \<noteq> src + of_nat j"
      using True \<open>j < i\<close> by (auto simp: word_less_nat_alt)
  qed
  with True show ?thesis by (simp add: memmove_def word_less_nat_alt)
next
  case False
  have "unat (src + len) = unat src + unat len"
    using assms(1) unat_add_of_nat [of src "unat len"] by simp
  with False have far: "unat dst \<le> unat src \<or> unat src + unat len \<le> unat dst"
    by (auto simp: word_less_nat_alt not_less)
  have "copy_up (unat len) dst src m x
      = (if unat (x - dst) < unat len then m (src + (x - dst)) else m x)"
  proof (rule copy_up_cell [OF unat_le_2p32])
    fix i j assume "i < j" "j < unat len"
    then have "unat (dst + of_nat i) = unat dst + i" "unat (src + of_nat j) = unat src + j"
      using assms by (auto intro!: unat_add_of_nat)
    then show "dst + of_nat i \<noteq> src + of_nat j"
      using far \<open>i < j\<close> \<open>j < unat len\<close> by (auto simp: word_unat_eq_iff)
  qed
  with False show ?thesis by (auto simp add: memmove_def word_less_nat_alt)
qed

text \<open>C19. \<^verbatim>\<open>memmove()\<close> copies correctly whatever the overlap: as long as neither region wraps around
  the top of the address space, every byte of the destination receives the byte that was at the
  corresponding source address before the call, and no other byte changes.\<close>

theorem memmove_correct:
  assumes "unat src + unat len < 2 ^ 32" and "unat dst + unat len \<le> 2 ^ 32"
  shows "memmove dst src len m x = (if x - dst < len then m (src + (x - dst)) else m x)"
  using memmove_cell [OF assms] .

theorem memmove_correct_witness:
  "memmove 0x102 0x100 4 (\<lambda>a. ucast a) 0x103 = 1"
  using memmove_correct [where src = "0x100" and len = 4 and dst = "0x102" and x = "0x103"
      and m = "\<lambda>a. ucast a"] by simp

section \<open>Longword copying\<close>

lemma copy_up_add:
  "copy_up (k + n) dst src m
    = copy_up n (dst + of_nat k) (src + of_nat k) (copy_up k dst src m)"
  by (induction k arbitrary: dst src m) (simp_all add: algebra_simps)

lemma copy_down_add:
  "copy_down (k + n) dst src m
    = copy_down n (dst - of_nat k) (src - of_nat k) (copy_down k dst src m)"
  by (induction k arbitrary: dst src m) (simp_all add: algebra_simps)

lemma bit_beyond_8: "8 \<le> n \<Longrightarrow> \<not> bit (w :: u8) n"
  by (auto dest: bit_imp_le_length)

lemma load32_bytes:
  "(ucast (load32 m a) :: u8) = m a"
  "(ucast (drop_bit 8 (load32 m a)) :: u8) = m (a + 1)"
  "(ucast (drop_bit 16 (load32 m a)) :: u8) = m (a + 2)"
  "(ucast (drop_bit 24 (load32 m a)) :: u8) = m (a + 3)"
  by (auto intro!: bit_word_eqI simp: load32_def bit_simps bit_beyond_8)

lemma store32_load32:
  "store32 m d (load32 m s)
    = m(d := m s, d + 1 := m (s + 1), d + 2 := m (s + 2), d + 3 := m (s + 3))"
  by (simp add: store32_def load32_bytes)

lemma al4_add4 [simp]: "al4 (a + 4) = al4 a" "al4 (a - 4) = al4 a"
proof -
  have *: "al4 (b + 4) = al4 b" for b :: u32
    by (simp add: al4_unat unat_word_ariths dvd_mod_iff)
  show "al4 (a + 4) = al4 a" by (rule *)
  show "al4 (a - 4) = al4 a" using * [of "a - 4"] by simp
qed

lemma al4_off_neq:
  assumes "al4 a" and "al4 b" and "c < 4" and "d < 4" and "c \<noteq> d"
  shows "a + c \<noteq> b + d"
proof (cases "a = b")
  case False
  with assms have "apart4 b a" by (simp add: al4_apart4)
  then show ?thesis using assms by (simp add: apart4_neq)
qed (use assms in simp)

lemma copy4_step:
  assumes "al4 d" and "al4 s"
  shows "store32 m d (load32 m s) = copy_up 4 d s m"
    and "store32 m d (load32 m s) = copy_down 4 (d + 4) (s + 4) m"
proof -
  note neq = al4_off_neq [OF assms(2,1)]
  have four: "4 = Suc (Suc (Suc (Suc 0)))" by simp
  have off: "a + 1 + 1 = a + 2" "a + 2 + 1 = a + 3" "a + 4 - 1 = a + 3"
    "a + 3 - 1 = a + 2" "a + 2 - 1 = a + 1" "a + 1 - 1 = a" for a :: u32
    by simp_all
  show "store32 m d (load32 m s) = copy_up 4 d s m"
    using neq [of 1 0] neq [of 2 0] neq [of 3 0] neq [of 2 1] neq [of 3 1] neq [of 3 2]
    by (simp only: four copy_up.simps off store32_load32) simp
  show "store32 m d (load32 m s) = copy_down 4 (d + 4) (s + 4) m"
    using neq [of 0 1] neq [of 0 2] neq [of 0 3] neq [of 1 2] neq [of 1 3] neq [of 2 3]
    by (simp only: four copy_down.simps off store32_load32) (auto simp: fun_eq_iff)
qed

lemma copy4_up_bytes: "al4 d \<Longrightarrow> al4 s \<Longrightarrow> copy4_up n d s m = copy_up (4 * n) d s m"
proof (induction n arbitrary: d s m)
  case (Suc n)
  then show ?case
    using copy_up_add [of 4 "4 * n" d s m] by (simp add: copy4_step(1) flip: mult_Suc_right)
qed simp

lemma copy4_down_bytes: "al4 d \<Longrightarrow> al4 s \<Longrightarrow> copy4_down n d s m = copy_down (4 * n) d s m"
proof (induction n arbitrary: d s m)
  case (Suc n)
  then show ?case
    using copy_down_add [of 4 "4 * n" d s m] copy4_step(2) [of "d - 4" "s - 4" m]
    by (simp flip: mult_Suc_right)
qed simp

lemma al4_mult_div:
  assumes "len AND 3 = 0"
  shows "4 * (len div 4) = (len :: u32)" and "unat len = 4 * unat (len div 4)"
proof -
  have dvd: "4 dvd unat len" using assms al4_unat [of len] by (simp add: al4_def)
  then show "unat len = 4 * unat (len div 4)" by (simp add: unat_div)
  moreover have "unat (4 * (len div 4)) = 4 * unat (len div 4)"
    using calculation unsigned_less [of len, where ?'a = nat]
    by (simp add: unat_word_ariths del: unsigned_less)
  ultimately show "4 * (len div 4) = len" by (simp add: word_unat_eq_iff)
qed

text \<open>C20. \<^verbatim>\<open>blkmov()\<close>, which copies longwords when everything is aligned, computes exactly what the
  byte-wise \<^verbatim>\<open>memmove()\<close> computes, for all addresses and lengths.\<close>

theorem blkmov_memmove: "blkmov dst src len m = memmove dst src len m"
proof (cases "dst AND 3 \<noteq> 0 \<or> src AND 3 \<noteq> 0 \<or> len AND 3 \<noteq> 0")
  case False
  then have al: "al4 dst" "al4 src" and len: "len AND 3 = 0"
    by (simp_all add: al4_def)
  have al': "al4 (dst + len)" "al4 (src + len)"
    using al len al4_def [of len] by (simp_all add: al4_unat unat_word_ariths dvd_mod_iff)
  show ?thesis
    using al al' al4_mult_div [OF len]
    by (auto simp: blkmov_def memmove_def Let_def al4_def copy4_up_bytes copy4_down_bytes)
qed (auto simp: blkmov_def)

text \<open>\<^verbatim>\<open>memcpy()\<close> is the ascending copy, so it is right whenever the destination does not begin inside
  the source.\<close>

lemma memcpy_cell:
  assumes "unat src + unat len \<le> 2 ^ 32" and "unat dst + unat len \<le> 2 ^ 32"
    and "unat dst \<le> unat src \<or> unat src + unat len \<le> unat dst"
  shows "memcpy dst src len m x = (if x - dst < len then m (src + (x - dst)) else m x)"
proof -
  have "copy_up (unat len) dst src m x
      = (if unat (x - dst) < unat len then m (src + (x - dst)) else m x)"
  proof (rule copy_up_cell [OF unat_le_2p32])
    fix i j assume "i < j" "j < unat len"
    then have "unat (dst + of_nat i) = unat dst + i" "unat (src + of_nat j) = unat src + j"
      using assms by (auto intro!: unat_add_of_nat)
    then show "dst + of_nat i \<noteq> src + of_nat j"
      using assms(3) \<open>i < j\<close> \<open>j < unat len\<close> by (auto simp: word_unat_eq_iff)
  qed
  then show ?thesis by (simp add: memcpy_def word_less_nat_alt)
qed

end
