(* ===== verification/Kmem.thy ===== *)
theory Kmem
  imports Lib_Mem
begin

text \<open>
  The kernel memory allocator, \<^verbatim>\<open>kernel/kmem.c\<close>: the free list of page blocks ordered by address, its
  construction from the memory map the BIOS left behind, first-fit allocation, coalescing
  deallocation, and the list of 1 KB slices carved out of pages.

  A free block carries its own header (\<^verbatim>\<open>blkinfo_t\<close>) at its base address; headers live in the heap
  field \<open>blk\<close> of the state, indexed by that address.
\<close>

section \<open>State\<close>

record blkinfo =
  blk_pages :: u32
  blk_next :: u32

record kmem_st = machine +
  blk :: "u32 \<Rightarrow> blkinfo"
  free_pages :: u32
  free_slices :: u32
  n_pages :: u32
  n_slices :: u32
  km_initialized :: bool

text \<open>A region descriptor of the memory map: 24 packed bytes.\<close>

record region_t =
  reg_base :: u64
  reg_length :: u64
  reg_type :: u32
  reg_acpi :: u32

definition SZ_PAGE :: u32 where "SZ_PAGE = 0x1000"
definition SZ_SLICE :: u32 where "SZ_SLICE = drop_bit 2 SZ_PAGE"
definition KM_LOW_CUTOFF :: u64 where "KM_LOW_CUTOFF = 0x00100000"
definition KM_HIGH_CUTOFF :: u64 where "KM_HIGH_CUTOFF = 0x40000000"
definition MMAP_ADDR :: u32 where "MMAP_ADDR = 0x2D00"
definition REGION_IGNORE :: u32 where "REGION_IGNORE = 0x01"
definition REGION_NONVOL :: u32 where "REGION_NONVOL = 0x02"
definition REGION_USABLE :: u32 where "REGION_USABLE = 1"

lemmas kmem_consts = SZ_PAGE_def SZ_SLICE_def KM_LOW_CUTOFF_def KM_HIGH_CUTOFF_def MMAP_ADDR_def
  REGION_IGNORE_def REGION_NONVOL_def REGION_USABLE_def

definition P2B :: "u32 \<Rightarrow> u32" where "P2B x = push_bit 12 x"
definition B2P :: "u32 \<Rightarrow> u32" where "B2P x = drop_bit 12 x"

definition set_blk_next :: "u32 \<Rightarrow> u32 \<Rightarrow> 'z kmem_st_scheme \<Rightarrow> 'z kmem_st_scheme" where
  "set_blk_next b v s = s\<lparr>blk := (blk s)(b := (blk s b)\<lparr>blk_next := v\<rparr>)\<rparr>"

definition set_blk_pages :: "u32 \<Rightarrow> u32 \<Rightarrow> 'z kmem_st_scheme \<Rightarrow> 'z kmem_st_scheme" where
  "set_blk_pages b v s = s\<lparr>blk := (blk s)(b := (blk s b)\<lparr>blk_pages := v\<rparr>)\<rparr>"

text \<open>\<^verbatim>\<open>adjacent(first,second)\<close>: the second block begins where the first one ends.\<close>

definition adjacent :: "'z kmem_st_scheme \<Rightarrow> u32 \<Rightarrow> u32 \<Rightarrow> bool" where
  "adjacent s first second \<longleftrightarrow> first + P2B (blk_pages (blk s first)) = second"

section \<open>Building the free list\<close>

definition add_block :: "u32 \<Rightarrow> u32 \<Rightarrow> 'z kmem_st_scheme \<Rightarrow> kerr + 'z kmem_st_scheme" where
  "add_block base len s =
     (if len < SZ_PAGE then Inr s
      else
        let len = (if len AND 0xfff \<noteq> 0 then len AND 0xfffff000 else len);
            block = base;
            s = s\<lparr>blk := (blk s)(block := \<lparr>blk_pages = B2P len, blk_next = NULL\<rparr>)\<rparr>
        in
          if free_pages s = NULL
          then Inr (s\<lparr>free_pages := block, n_pages := blk_pages (blk s block)\<rparr>)
          else
            kbind (krun (walk (\<lambda>c. Inr (c < block)) (\<lambda>a. blk_next (blk s a)) NULL (free_pages s)))
              (\<lambda>(prev, cur).
                let s = set_blk_next block cur s in
                kbind
                  (if prev = NULL
                   then kbind (kassert (cur \<noteq> NULL)) (\<lambda>_. Inr (s\<lparr>free_pages := block\<rparr>))
                   else Inr (set_blk_next prev block s))
                  (\<lambda>s. Inr (s\<lparr>n_pages := n_pages s + blk_pages (blk s block)\<rparr>))))"

definition read_region :: "memory \<Rightarrow> u32 \<Rightarrow> region_t" where
  "read_region m a = \<lparr>reg_base = load64 m a, reg_length = load64 m (a + 8),
     reg_type = load32 m (a + 16), reg_acpi = load32 m (a + 20)\<rparr>"

text \<open>
  The body of the loop in \<^verbatim>\<open>km_init()\<close>. The part of a usable region that lies between the two
  cutoffs is \<open>Some (base, length)\<close>; \<open>None\<close> stands for the \<^verbatim>\<open>continue\<close> statements.
\<close>

definition km_region :: "region_t \<Rightarrow> (u32 \<times> u32) option" where
  "km_region region =
     (if reg_acpi region AND REGION_IGNORE = 0 then None
      else if reg_acpi region AND REGION_NONVOL \<noteq> 0 then None
      else if reg_type region \<noteq> REGION_USABLE then None
      else
        let base = reg_base region;
            length = reg_length region;
            endpt = base + length
        in
          if (base \<ge> KM_HIGH_CUTOFF \<or> endpt \<ge> KM_HIGH_CUTOFF) \<and> base > KM_HIGH_CUTOFF then None
          else
            let endpt = (if base \<ge> KM_HIGH_CUTOFF \<or> endpt \<ge> KM_HIGH_CUTOFF
                         then KM_HIGH_CUTOFF else endpt)
            in
              if (base < KM_LOW_CUTOFF \<or> endpt < KM_LOW_CUTOFF) \<and> endpt < KM_LOW_CUTOFF then None
              else
                let base = (if base < KM_LOW_CUTOFF \<or> endpt < KM_LOW_CUTOFF
                            then KM_LOW_CUTOFF else base);
                    length = endpt - base
                in Some (ucast base, ucast length))"

fun km_init_loop :: "nat \<Rightarrow> u32 \<Rightarrow> 'z kmem_st_scheme \<Rightarrow> kerr + 'z kmem_st_scheme" where
  "km_init_loop 0 region s = Inr s"
| "km_init_loop (Suc n) region s =
     kbind (case km_region (read_region (mem s) region) of
              None \<Rightarrow> Inr s
            | Some (b32, l32) \<Rightarrow> add_block b32 l32 s)
       (\<lambda>s. km_init_loop n (region + 24) s)"

definition km_init :: "'z kmem_st_scheme \<Rightarrow> kerr + 'z kmem_st_scheme" where
  "km_init s =
     (let s = s\<lparr>free_slices := NULL, free_pages := NULL, n_pages := 0, n_slices := 0,
                km_initialized := False\<rparr>;
          entries = load32 (mem s) MMAP_ADDR
      in
        if sint entries < 1 then Inr s
        else kbind (km_init_loop (nat (sint entries)) (MMAP_ADDR + 4) s)
               (\<lambda>s. Inr (s\<lparr>km_initialized := True\<rparr>)))"

section \<open>Pages\<close>

text \<open>
  \<^verbatim>\<open>pointer\<close> in \<^verbatim>\<open>km_page_alloc()\<close> is the address of the link that leads to the current block: the
  list head when \<open>prev\<close> is NULL, the \<^verbatim>\<open>next\<close> field of \<open>prev\<close> otherwise.
\<close>

definition set_link :: "u32 \<Rightarrow> u32 \<Rightarrow> 'z kmem_st_scheme \<Rightarrow> 'z kmem_st_scheme" where
  "set_link prev v s = (if prev = NULL then s\<lparr>free_pages := v\<rparr> else set_blk_next prev v s)"

definition km_page_alloc :: "u32 \<Rightarrow> 'z kmem_st_scheme \<Rightarrow> kerr + u32 \<times> 'z kmem_st_scheme" where
  "km_page_alloc count s =
     kbind (kassert (km_initialized s)) (\<lambda>_.
       if count < 1 then Inr (NULL, s)
       else
         kbind (krun (walk (\<lambda>b. Inr (blk_pages (blk s b) < count)) (\<lambda>a. blk_next (blk s a))
                       NULL (free_pages s)))
           (\<lambda>(prev, block).
             if block = NULL then Inr (NULL, s)
             else
               let s = (if blk_pages (blk s block) = count
                        then set_link prev (blk_next (blk s block)) s
                        else
                          let excess = blk_pages (blk s block) - count;
                              fragment = block + P2B count;
                              s = set_blk_pages fragment excess s;
                              s = set_blk_next fragment (blk_next (blk s block)) s
                          in set_link prev fragment s)
               in Inr (block, s\<lparr>n_pages := n_pages s - count\<rparr>)))"

text \<open>The first half of \<^verbatim>\<open>km_page_free_multi()\<close>: join the block with its predecessor or insert it.\<close>

definition link_block :: "u32 \<Rightarrow> u32 \<Rightarrow> 'z kmem_st_scheme \<Rightarrow> u32 \<times> 'z kmem_st_scheme" where
  "link_block prev used s =
     (if prev \<noteq> NULL
      then if adjacent s prev used
           then (prev, set_blk_pages prev (blk_pages (blk s prev) + blk_pages (blk s used)) s)
           else (used, set_blk_next prev used (set_blk_next used (blk_next (blk s prev)) s))
      else (used, (set_blk_next used (free_pages s) s)\<lparr>free_pages := used\<rparr>))"

text \<open>The second half of \<^verbatim>\<open>km_page_free_multi()\<close>: join the inserted block with its successor.\<close>

definition join_next :: "u32 \<Rightarrow> u32 \<Rightarrow> 'z kmem_st_scheme \<Rightarrow> 'z kmem_st_scheme" where
  "join_next used cur s =
     (if cur \<noteq> NULL \<and> adjacent s used cur
      then let s = set_blk_next used (blk_next (blk s cur)) s
           in set_blk_pages used (blk_pages (blk s used) + blk_pages (blk s cur)) s
      else s)"

definition km_page_free_multi :: "u32 \<Rightarrow> u32 \<Rightarrow> 'z kmem_st_scheme \<Rightarrow> kerr + 'z kmem_st_scheme" where
  "km_page_free_multi block count s =
     kbind (kassert (km_initialized s)) (\<lambda>_.
       if block = NULL then Inr s
       else
         let used = block;
             s = set_blk_pages used count s
         in
           kbind (krun (walk (\<lambda>c. Inr (c < used)) (\<lambda>a. blk_next (blk s a)) NULL (free_pages s)))
             (\<lambda>(prev, cur).
               let (used, s) = link_block prev used s;
                   s = join_next used cur s
               in Inr (s\<lparr>n_pages := n_pages s + count\<rparr>)))"

definition km_page_free :: "u32 \<Rightarrow> 'z kmem_st_scheme \<Rightarrow> kerr + 'z kmem_st_scheme" where
  "km_page_free block s = (if block = NULL then Inr s else km_page_free_multi block 1 s)"

section \<open>Slices\<close>

definition km_slice_free :: "u32 \<Rightarrow> 'z kmem_st_scheme \<Rightarrow> kerr + 'z kmem_st_scheme" where
  "km_slice_free block s =
     kbind (kassert (km_initialized s)) (\<lambda>_.
       let slice = block;
           s = set_blk_next slice (free_slices s) (set_blk_pages slice SZ_SLICE s)
       in Inr (s\<lparr>free_slices := slice, n_slices := n_slices s + 1\<rparr>))"

fun carve_loop :: "nat \<Rightarrow> u32 \<Rightarrow> 'z kmem_st_scheme \<Rightarrow> kerr + 'z kmem_st_scheme" where
  "carve_loop 0 ptr s = Inr s"
| "carve_loop (Suc n) ptr s =
     kbind (km_slice_free ptr s)
       (\<lambda>s. carve_loop n (ptr + SZ_SLICE) (s\<lparr>n_slices := n_slices s + 1\<rparr>))"

definition carve_slices :: "'z kmem_st_scheme \<Rightarrow> kerr + 'z kmem_st_scheme" where
  "carve_slices s =
     kbind (km_page_alloc 1 s) (\<lambda>(page, s).
     kbind (kassert (page \<noteq> NULL)) (\<lambda>_. carve_loop 4 page s))"

text \<open>Clearing the slice also clears the header that overlays its first bytes.\<close>

definition km_slice_alloc :: "'z kmem_st_scheme \<Rightarrow> kerr + u32 \<times> 'z kmem_st_scheme" where
  "km_slice_alloc s =
     kbind (kassert (km_initialized s)) (\<lambda>_.
     kbind (if free_slices s = NULL then carve_slices s else Inr s) (\<lambda>s.
       let slice = free_slices s in
       kbind (kassert (slice \<noteq> NULL)) (\<lambda>_.
         let s = s\<lparr>n_slices := n_slices s - 1\<rparr>;
             s = s\<lparr>free_slices := blk_next (blk s slice)\<rparr>;
             s = s\<lparr>mem := memclr slice SZ_SLICE (mem s),
                   blk := (blk s)(slice := \<lparr>blk_pages = 0, blk_next = 0\<rparr>)\<rparr>
         in Inr (slice, s))))"

section \<open>Abstract page allocator\<close>

text \<open>
  The free list as a list of pairs (base address, number of pages), in address order. \<open>wf_blocks lo\<close>:
  the blocks are page-aligned, not empty, begin at \<open>lo\<close> or above, do not overlap and end below 4 GB.
\<close>

type_synonym blocks = "(nat \<times> nat) list"

fun wf_blocks :: "nat \<Rightarrow> blocks \<Rightarrow> bool" where
  "wf_blocks lo [] \<longleftrightarrow> True"
| "wf_blocks lo ((b, n) # bs) \<longleftrightarrow>
     lo \<le> b \<and> 4096 dvd b \<and> 0 < n \<and> b + 4096 * n < 2 ^ 32 \<and> wf_blocks (b + 4096 * n) bs"

fun bend :: "nat \<Rightarrow> blocks \<Rightarrow> nat" where
  "bend lo [] = lo"
| "bend lo ((b, n) # bs) = bend (b + 4096 * n) bs"

definition extent :: "nat \<Rightarrow> nat \<Rightarrow> nat set" where
  "extent b n = {b ..< b + 4096 * n}"

definition free_cells :: "blocks \<Rightarrow> nat set" where
  "free_cells bs = (\<Union>(b, n) \<in> set bs. extent b n)"

definition page_total :: "blocks \<Rightarrow> nat" where
  "page_total bs = sum_list (map snd bs)"

fun alloc_blocks :: "nat \<Rightarrow> blocks \<Rightarrow> (nat \<times> blocks) option" where
  "alloc_blocks k [] = None"
| "alloc_blocks k ((b, n) # bs) =
     (if n < k then map_option (\<lambda>(r, bs). (r, (b, n) # bs)) (alloc_blocks k bs)
      else if n = k then Some (b, bs)
      else Some (b, (b + 4096 * k, n - k) # bs))"

fun merge_next :: "nat \<Rightarrow> nat \<Rightarrow> blocks \<Rightarrow> blocks" where
  "merge_next u k [] = [(u, k)]"
| "merge_next u k ((b, n) # bs) =
     (if u + 4096 * k = b then (u, k + n) # bs else (u, k) # (b, n) # bs)"

fun free_blocks :: "nat \<Rightarrow> nat \<Rightarrow> blocks \<Rightarrow> blocks" where
  "free_blocks u k [] = [(u, k)]"
| "free_blocks u k ((b, n) # bs) =
     (if b < u
      then if b + 4096 * n = u then merge_next b (n + k) bs else (b, n) # free_blocks u k bs
      else merge_next u k ((b, n) # bs))"

lemma wf_blocks_mono: "wf_blocks lo bs \<Longrightarrow> lo' \<le> lo \<Longrightarrow> wf_blocks lo' bs"
  by (cases bs) auto

lemma wf_blocks_append:
  "wf_blocks lo (xs @ ys) \<longleftrightarrow> wf_blocks lo xs \<and> wf_blocks (bend lo xs) ys"
  by (induction lo xs rule: bend.induct) auto

lemma bend_ge: "wf_blocks lo bs \<Longrightarrow> lo \<le> bend lo bs"
  by (induction lo bs rule: bend.induct) fastforce+

lemma wf_blocks_bounds:
  "wf_blocks lo bs \<Longrightarrow> (b, n) \<in> set bs \<Longrightarrow>
     lo \<le> b \<and> 0 < n \<and> b + 4096 * n \<le> bend lo bs \<and> b + 4096 * n < 2 ^ 32"
proof (induction lo bs rule: bend.induct)
  case (2 lo b' n' bs)
  then show ?case
    using bend_ge [of "b' + 4096 * n'" bs] by auto
qed simp

lemma free_cells_simps [simp]:
  "free_cells [] = {}"
  "free_cells ((b, n) # bs) = extent b n \<union> free_cells bs"
  "free_cells (xs @ ys) = free_cells xs \<union> free_cells ys"
  by (auto simp: free_cells_def)

lemma page_total_simps [simp]:
  "page_total [] = 0"
  "page_total ((b, n) # bs) = n + page_total bs"
  "page_total (xs @ ys) = page_total xs + page_total ys"
  by (simp_all add: page_total_def)

lemma extent_split: "extent b (j + k) = extent b j \<union> extent (b + 4096 * j) k"
  by (auto simp: extent_def)

lemma extent_disjoint_iff:
  "0 < n \<Longrightarrow> 0 < k \<Longrightarrow>
     extent b n \<inter> extent u k = {} \<longleftrightarrow> b + 4096 * n \<le> u \<or> u + 4096 * k \<le> b"
proof
  assume pos: "0 < n" "0 < k" and dis: "extent b n \<inter> extent u k = {}"
  have "b \<notin> extent u k" "u \<notin> extent b n" using pos dis by (auto simp: extent_def)
  then show "b + 4096 * n \<le> u \<or> u + 4096 * k \<le> b"
    using pos by (auto simp: extent_def)
qed (auto simp: extent_def)

lemma page_total_bound: "wf_blocks lo bs \<Longrightarrow> lo < 2 ^ 32 \<Longrightarrow> lo + 4096 * page_total bs < 2 ^ 32"
proof (induction bs arbitrary: lo)
  case (Cons bn bs)
  obtain b n where bn: "bn = (b, n)" by force
  then have "b + 4096 * n + 4096 * page_total bs < 2 ^ 32" using Cons by auto
  then show ?case using Cons.prems bn by simp
qed simp

lemma wf_blocks_cells_ge: "wf_blocks lo bs \<Longrightarrow> x \<in> free_cells bs \<Longrightarrow> lo \<le> x"
  by (fastforce simp: free_cells_def extent_def dest: wf_blocks_bounds)

text \<open>First fit: fails exactly when no block is large enough, and otherwise carves the request from
  the front of one block.\<close>

lemma alloc_blocks_None: "alloc_blocks k bs = None \<longleftrightarrow> (\<forall>(b, n) \<in> set bs. n < k)"
  by (induction k bs rule: alloc_blocks.induct) (auto split: prod.splits)

lemma alloc_blocks_Some:
  assumes "alloc_blocks k bs = Some (r, bs')" and "wf_blocks lo bs" and "0 < k"
  shows "wf_blocks lo bs'" and "lo \<le> r" and "4096 dvd r" and "r + 4096 * k < 2 ^ 32"
    and "free_cells bs = extent r k \<union> free_cells bs'"
    and "extent r k \<inter> free_cells bs' = {}"
    and "page_total bs = k + page_total bs'"
  using assms
proof (atomize (full), induction k bs arbitrary: lo bs' rule: alloc_blocks.induct)
  case (2 k b n bs)
  consider "n < k" | "n = k" | "k < n" by linarith
  then show ?case
  proof cases
    case 1
    with "2.prems" obtain bs'' where a: "alloc_blocks k bs = Some (r, bs'')" and bs': "bs' = (b, n) # bs''"
      by auto
    have wf: "wf_blocks (b + 4096 * n) bs" using "2.prems" by simp
    note IH = "2.IH" [OF 1 a wf \<open>0 < k\<close>]
    have "extent r k \<inter> extent b n = {}" using IH by (auto simp: extent_def)
    then show ?thesis using IH "2.prems" bs' by auto
  next
    case 2
    with "2.prems" have [simp]: "r = b" "bs' = bs" by auto
    have "extent b n \<inter> free_cells bs = {}"
      using "2.prems" wf_blocks_cells_ge [of "b + 4096 * n" bs] by (fastforce simp: extent_def)
    then show ?thesis using "2.prems" 2 by (auto intro: wf_blocks_mono)
  next
    case 3
    with "2.prems" have [simp]: "r = b" "bs' = (b + 4096 * k, n - k) # bs" by auto
    have "extent b n \<inter> free_cells bs = {}"
      using "2.prems" wf_blocks_cells_ge [of "b + 4096 * n" bs] by (fastforce simp: extent_def)
    moreover have "extent b n = extent b k \<union> extent (b + 4096 * k) (n - k)"
      using extent_split [of b k "n - k"] 3 by simp
    moreover have "extent b k \<inter> extent (b + 4096 * k) (n - k) = {}"
      by (auto simp: extent_def)
    moreover have "b + 4096 * k + 4096 * (n - k) = b + 4096 * n"
      using 3 by (simp add: diff_mult_distrib2)
    ultimately show ?thesis using "2.prems" 3 by (auto simp: add.assoc)
  qed
qed simp

text \<open>Deallocation: the block joins the free list in address order and coalesces with its
  neighbours.\<close>

lemma merge_next_props:
  assumes "wf_blocks (u + 4096 * k) bs" and "lo \<le> u" and "4096 dvd u" and "0 < k"
    and "u + 4096 * k < 2 ^ 32"
  shows "wf_blocks lo (merge_next u k bs)"
    and "free_cells (merge_next u k bs) = extent u k \<union> free_cells bs"
    and "page_total (merge_next u k bs) = k + page_total bs"
proof (atomize (full), cases bs)
  case (Cons bn bs')
  obtain b n where bn: "bn = (b, n)" by force
  have "u + 4096 * (k + n) = u + 4096 * k + 4096 * n" by simp
  then show "wf_blocks lo (merge_next u k bs) \<and>
      free_cells (merge_next u k bs) = extent u k \<union> free_cells bs \<and>
      page_total (merge_next u k bs) = k + page_total bs"
    using assms Cons bn extent_split [of u k n] by (auto simp: add.assoc)
qed (use assms in auto)

lemma free_blocks_props:
  assumes "wf_blocks lo bs" and "lo \<le> u" and "4096 dvd u" and "0 < k" and "u + 4096 * k < 2 ^ 32"
    and "extent u k \<inter> free_cells bs = {}"
  shows "wf_blocks lo (free_blocks u k bs)"
    and "free_cells (free_blocks u k bs) = extent u k \<union> free_cells bs"
    and "page_total (free_blocks u k bs) = k + page_total bs"
  using assms
proof (atomize (full), induction u k bs arbitrary: lo rule: free_blocks.induct)
  case (2 u k b n bs)
  have wf: "wf_blocks (b + 4096 * n) bs" and bn: "lo \<le> b" "4096 dvd b" "0 < n"
    using "2.prems" by auto
  have "extent b n \<inter> extent u k = {}" using "2.prems" by auto
  then have apart: "b + 4096 * n \<le> u \<or> u + 4096 * k \<le> b"
    using extent_disjoint_iff [of n k b u] bn "2.prems" by auto
  consider (join) "b < u" "b + 4096 * n = u" | (skip) "b < u" "b + 4096 * n < u" | (here) "u < b"
    using apart bn "2.prems" by fastforce
  then show ?case
  proof cases
    case join
    have eq: "b + 4096 * (n + k) = u + 4096 * k" using join by simp
    have wf': "wf_blocks (b + 4096 * (n + k)) bs"
    proof (cases bs)
      case (Cons c cs)
      then obtain b' n' where c: "c = (b', n')" by force
      have "extent b' n' \<inter> extent u k = {}" "0 < n'" "u \<le> b'"
        using "2.prems" Cons c join by auto
      then have "u + 4096 * k \<le> b'"
        using extent_disjoint_iff [of n' k b' u] "2.prems" by auto
      then show ?thesis using wf Cons c eq by auto
    qed simp
    have "extent b (n + k) = extent b n \<union> extent u k"
      using extent_split [of b n k] join by simp
    then show ?thesis
      using merge_next_props [OF wf' \<open>lo \<le> b\<close> \<open>4096 dvd b\<close>] join "2.prems" eq by auto
  next
    case skip
    have "wf_blocks (b + 4096 * n) (free_blocks u k bs) \<and>
        free_cells (free_blocks u k bs) = extent u k \<union> free_cells bs \<and>
        page_total (free_blocks u k bs) = k + page_total bs"
      by (rule "2.IH") (use skip wf "2.prems" in auto)
    then show ?thesis using skip "2.prems" by auto
  next
    case here
    have "wf_blocks (u + 4096 * k) ((b, n) # bs)"
      using here apart bn "2.prems" by auto
    then show ?thesis
      using merge_next_props [of u k "(b, n) # bs" lo] here "2.prems" by auto
  qed
qed (simp add: extent_def)

lemma free_blocks_skip:
  assumes "\<forall>(b, n) \<in> set xs. b < u \<and> b + 4096 * n \<noteq> u"
  shows "free_blocks u k (xs @ ys) = xs @ free_blocks u k ys"
  using assms by (induction xs) auto

section \<open>Refinement\<close>

definition blocks_of :: "'z kmem_st_scheme \<Rightarrow> u32 list \<Rightarrow> blocks" where
  "blocks_of s as = map (\<lambda>a. (unat a, unat (blk_pages (blk s a)))) as"

text \<open>\<open>kmem_abs s bs\<close>: the module is initialized and the free list in the heap represents the
  well-formed block list \<open>bs\<close>, whose pages \<^verbatim>\<open>n_pages\<close> counts.\<close>

definition kmem_abs :: "'z kmem_st_scheme \<Rightarrow> blocks \<Rightarrow> bool" where
  "kmem_abs s bs \<longleftrightarrow> km_initialized s \<and> wf_blocks 1 bs \<and> unat (n_pages s) = page_total bs \<and>
     (\<exists>as. llist (\<lambda>a. blk_next (blk s a)) (free_pages s) as \<and> blocks_of s as = bs)"

lemma blocks_of_simps [simp]:
  "blocks_of s [] = []"
  "blocks_of s (a # as) = (unat a, unat (blk_pages (blk s a))) # blocks_of s as"
  "blocks_of s (xs @ ys) = blocks_of s xs @ blocks_of s ys"
  by (simp_all add: blocks_of_def)

lemma blocks_of_cong:
  "(\<And>a. a \<in> set as \<Longrightarrow> blk_pages (blk s a) = blk_pages (blk s' a)) \<Longrightarrow> blocks_of s as = blocks_of s' as"
  by (simp add: blocks_of_def)

lemma blocks_of_mem: "a \<in> set as \<Longrightarrow> (unat a, unat (blk_pages (blk s a))) \<in> set (blocks_of s as)"
  by (force simp: blocks_of_def)

lemma page_bytes:
  assumes "unat b + 4096 * unat n < 2 ^ 32"
  shows "unat (b + P2B n) = unat b + 4096 * unat n"
proof -
  have "unat (P2B n) = 4096 * unat n"
    using assms by (simp add: P2B_def push_bit_eq_mult unat_word_ariths mult.commute)
  then show ?thesis using assms by (simp add: unat_word_ariths)
qed

lemma heap_fields [simp]:
  "blk_next (blk (set_blk_next b v s) a) = (if a = b then v else blk_next (blk s a))"
  "blk_pages (blk (set_blk_next b v s) a) = blk_pages (blk s a)"
  "blk_next (blk (set_blk_pages b v s) a) = blk_next (blk s a)"
  "blk_pages (blk (set_blk_pages b v s) a) = (if a = b then v else blk_pages (blk s a))"
  "free_pages (set_blk_next b v s) = free_pages s" "free_pages (set_blk_pages b v s) = free_pages s"
  "n_pages (set_blk_next b v s) = n_pages s" "n_pages (set_blk_pages b v s) = n_pages s"
  "km_initialized (set_blk_next b v s) = km_initialized s"
  "km_initialized (set_blk_pages b v s) = km_initialized s"
  by (simp_all add: set_blk_next_def set_blk_pages_def)

lemma set_link_fields [simp]:
  "blk_pages (blk (set_link p v s) a) = blk_pages (blk s a)"
  "n_pages (set_link p v s) = n_pages s"
  "km_initialized (set_link p v s) = km_initialized s"
  by (simp_all add: set_link_def)

text \<open>Redirecting the link that leaves the prefix \<open>ps\<close> of a list to another list.\<close>

lemma set_link_llist:
  assumes "lseg (\<lambda>a. blk_next (blk s a)) (free_pages s) ps r" and "distinct ps"
    and "llist (\<lambda>a. blk_next (blk s a)) q ds" and "set ps \<inter> set ds = {}"
  shows "llist (\<lambda>a. blk_next (blk (set_link (last (0 # ps)) q s) a))
    (free_pages (set_link (last (0 # ps)) q s)) (ps @ ds)"
proof (cases "ps = []")
  case False
  let ?nx = "\<lambda>a. blk_next (blk s a)"
  have nz: "last ps \<noteq> 0" using assms(1) False by (metis last_in_set lseg_nonnull)
  have nx: "(\<lambda>a. blk_next (blk (set_link (last (0 # ps)) q s) a)) = ?nx(last ps := q)"
    using False nz by (simp add: set_link_def fun_eq_iff)
  have "lseg (?nx(last ps := q)) (free_pages s) ps q"
    by (rule lseg_relink [OF assms(1) False assms(2)])
  moreover have "last ps \<notin> set ds" using False assms(4) by (auto dest: last_in_set)
  moreover have fp: "free_pages (set_link (last (0 # ps)) q s) = free_pages s"
    using False nz by (simp add: set_link_def)
  ultimately show ?thesis
    using assms(3) unfolding nx fp lseg_append by auto
qed (use assms in \<open>simp add: set_link_def\<close>)

lemma alloc_blocks_skip:
  assumes "\<forall>(b, n) \<in> set xs. n < k"
  shows "alloc_blocks k (xs @ ys) = map_option (\<lambda>(r, bs). (r, xs @ bs)) (alloc_blocks k ys)"
  using assms
  by (induction xs) (auto simp: option.map_comp comp_def case_prod_beta' option.map_ident)

text \<open>The parts of a free list around the place where a walk stops.\<close>

lemma kmem_walk:
  fixes s :: "'z kmem_st_scheme"
  assumes "llist (\<lambda>a. blk_next (blk s a)) (free_pages s) as" and "wf_blocks 1 (blocks_of s as)"
  obtains ps cs where "as = ps @ cs" and "\<forall>a \<in> set ps. P a" and "cs = [] \<or> \<not> P (hd cs)"
    and "walk (\<lambda>a. Inr (P a)) (\<lambda>a. blk_next (blk s a)) 0 (free_pages s)
      = Some (Inr (last (0 # ps), front cs))"
    and "distinct as" and "0 \<notin> set as"
    and "lseg (\<lambda>a. blk_next (blk s a)) (free_pages s) ps (front cs)"
    and "llist (\<lambda>a. blk_next (blk s a)) (front cs) cs"
proof
  show "as = takeWhile P as @ dropWhile P as" by simp
  show "\<forall>a \<in> set (takeWhile P as). P a" by (auto dest: set_takeWhileD)
  show "dropWhile P as = [] \<or> \<not> P (hd (dropWhile P as))" using hd_dropWhile by blast
  show "walk (\<lambda>a. Inr (P a)) (\<lambda>a. blk_next (blk s a)) 0 (free_pages s)
      = Some (Inr (last (0 # takeWhile P as), front (dropWhile P as)))"
    by (rule walk_llist [OF assms(1)]) simp
  show "distinct as" by (rule llist_distinct [OF assms(1)])
  show "0 \<notin> set as" by (rule lseg_nonnull [OF assms(1)])
  have "llist (\<lambda>a. blk_next (blk s a)) (free_pages s) (takeWhile P as @ dropWhile P as)"
    using assms(1) by simp
  then show "lseg (\<lambda>a. blk_next (blk s a)) (free_pages s) (takeWhile P as) (front (dropWhile P as))"
    and "llist (\<lambda>a. blk_next (blk s a)) (front (dropWhile P as)) (dropWhile P as)"
    by (simp_all only: lseg_split)
qed

text \<open>The fragment that stays in the free list lies inside the block it was cut from.\<close>

lemma fragment_fresh:
  assumes "wf_blocks 1 (blocks_of s (ps @ b # cs))" and "0 < count" and "count < blk_pages (blk s b)"
  shows "unat (b + P2B count) = unat b + 4096 * unat count"
    and "b + P2B count \<notin> set (ps @ b # cs)" and "b + P2B count \<noteq> 0"
proof -
  let ?f = "b + P2B count"
  have wf: "wf_blocks 1 (blocks_of s ps)" "wf_blocks (bend 1 (blocks_of s ps)) (blocks_of s (b # cs))"
    using assms(1) by (auto simp: wf_blocks_append)
  have c: "0 < unat count" "unat count < unat (blk_pages (blk s b))"
    using assms(2,3) by (simp_all add: word_less_nat_alt unat_gt_0)
  show f: "unat ?f = unat b + 4096 * unat count"
    by (rule page_bytes) (use wf(2) c in auto)
  then show "?f \<noteq> 0" using c by (auto simp: unat_eq_0)
  have "unat ?f < unat a" if "a \<in> set cs" for a
    using wf_blocks_bounds [of "unat b + 4096 * unat (blk_pages (blk s b))" "blocks_of s cs"]
      blocks_of_mem [OF that, of s] wf(2) f c by fastforce
  moreover have "unat a < unat ?f" if "a \<in> set ps" for a
    using wf_blocks_bounds [OF wf(1) blocks_of_mem [OF that, of s]] wf(2) f c by auto
  moreover have "unat b < unat ?f" using f c by simp
  ultimately show "?f \<notin> set (ps @ b # cs)" by auto
qed

lemma kmem_abs_after_alloc:
  assumes "kmem_abs s bs" and "0 < count"
    and "alloc_blocks (unat count) bs = Some (r, blocks_of t as)"
    and "llist (\<lambda>a. blk_next (blk t a)) (free_pages t) as"
    and "km_initialized t" and "n_pages t = n_pages s"
  shows "kmem_abs (t\<lparr>n_pages := n_pages t - count\<rparr>) (blocks_of t as)"
proof -
  have wf: "wf_blocks 1 bs" and tot: "unat (n_pages s) = page_total bs"
    using assms(1) by (auto simp: kmem_abs_def)
  have c: "0 < unat count" using assms(2) by (simp add: unat_gt_0)
  note post = alloc_blocks_Some [OF assms(3) wf c]
  have "unat (n_pages s - count) = page_total (blocks_of t as)"
    using tot post(7) by (simp add: unat_sub_if')
  moreover have "blocks_of (t\<lparr>n_pages := n_pages t - count\<rparr>) as = blocks_of t as"
    by (rule blocks_of_cong) simp
  ultimately show ?thesis
    using assms(4-6) post(1) by (auto simp: kmem_abs_def)
qed

lemma km_page_alloc_refines:
  assumes abs: "kmem_abs s bs" and "0 < count"
  shows "case alloc_blocks (unat count) bs of
      None \<Rightarrow> km_page_alloc count s = Inr (0, s)
    | Some (r, bs') \<Rightarrow> \<exists>s'. km_page_alloc count s = Inr (of_nat r, s') \<and> kmem_abs s' bs'"
proof -
  let ?nx = "\<lambda>a. blk_next (blk s a)" and ?P = "\<lambda>a. blk_pages (blk s a) < count"
  from abs obtain as where l: "llist ?nx (free_pages s) as" and bs: "bs = blocks_of s as"
    and wf: "wf_blocks 1 (blocks_of s as)" and init: "km_initialized s"
    by (auto simp: kmem_abs_def)
  obtain ps cs where as: "as = ps @ cs" and small: "\<forall>a \<in> set ps. ?P a"
    and fit: "cs = [] \<or> \<not> ?P (hd cs)"
    and w: "walk (\<lambda>a. Inr (?P a)) ?nx 0 (free_pages s) = Some (Inr (last (0 # ps), front cs))"
    and dist: "distinct as" and nz: "0 \<notin> set as"
    and seg: "lseg ?nx (free_pages s) ps (front cs)" and rest: "llist ?nx (front cs) cs"
    by (rule kmem_walk [OF l wf, of ?P])
  have skip: "\<forall>(b, n) \<in> set (blocks_of s ps). n < unat count"
    using small by (auto simp: blocks_of_def word_less_nat_alt)
  have cnt: "\<not> count < 1" using \<open>0 < count\<close> by (simp add: word_less_nat_alt unat_gt_0)
  show ?thesis
  proof (cases cs)
    case Nil
    then show ?thesis
      using w skip cnt init alloc_blocks_None [of "unat count" bs]
      by (simp add: km_page_alloc_def bs as)
  next
    case (Cons b cs')
    have b0: "b \<noteq> 0" using nz as Cons by auto
    have ge: "\<not> unat (blk_pages (blk s b)) < unat count"
      using fit Cons by (simp add: word_less_nat_alt)
    have lcs': "llist ?nx (blk_next (blk s b)) cs'" using rest Cons by simp
    have run: "krun (walk (\<lambda>a. Inr (?P a)) ?nx 0 (free_pages s)) = Inr (last (0 # ps), b)"
      using w Cons by simp
    show ?thesis
    proof (cases "blk_pages (blk s b) = count")
      case True
      define t where "t = set_link (last (0 # ps)) (blk_next (blk s b)) s"
      have lt: "llist (\<lambda>a. blk_next (blk t a)) (free_pages t) (ps @ cs')"
        unfolding t_def by (rule set_link_llist [OF seg _ lcs']) (use dist as Cons in auto)
      have a: "alloc_blocks (unat count) bs = Some (unat b, blocks_of t (ps @ cs'))"
        using alloc_blocks_skip [OF skip] True
        by (simp add: bs as Cons t_def blocks_of_cong [of _ "set_link p v s" s for p v])
      have "kmem_abs (t\<lparr>n_pages := n_pages t - count\<rparr>) (blocks_of t (ps @ cs'))"
        by (rule kmem_abs_after_alloc [OF abs \<open>0 < count\<close> a lt]) (simp_all add: t_def init)
      moreover have "km_page_alloc count s = Inr (b, t\<lparr>n_pages := n_pages t - count\<rparr>)"
        using run b0 True init cnt by (simp add: km_page_alloc_def t_def)
      ultimately show ?thesis using a by simp
    next
      case False
      have less: "count < blk_pages (blk s b)"
        using ge False by (simp add: word_less_nat_alt word_unat_eq_iff)
      let ?f = "b + P2B count"
      define u where "u = set_blk_next ?f (blk_next (blk s b))
        (set_blk_pages ?f (blk_pages (blk s b) - count) s)"
      define t where "t = set_link (last (0 # ps)) ?f u"
      note fresh = fragment_fresh [of s ps b cs' count, folded Cons, folded as, OF wf \<open>0 < count\<close> less]
      have segu: "lseg (\<lambda>a. blk_next (blk u a)) (free_pages u) ps (front cs)"
        using seg fresh(2) unfolding u_def by (subst lseg_cong [where nx' = ?nx]) (auto simp: as)
      have lu: "llist (\<lambda>a. blk_next (blk u a)) ?f (?f # cs')"
        using lcs' fresh(2,3) unfolding u_def
        by (simp, subst lseg_cong [where nx' = ?nx]) (auto simp: as Cons)
      have lt: "llist (\<lambda>a. blk_next (blk t a)) (free_pages t) (ps @ ?f # cs')"
        unfolding t_def by (rule set_link_llist [OF segu _ lu]) (use dist fresh(2) as Cons in auto)
      have pg: "blocks_of t ps = blocks_of s ps" "blocks_of t cs' = blocks_of s cs'"
        using fresh(2) by (auto simp: t_def u_def as Cons intro!: blocks_of_cong)
      have a: "alloc_blocks (unat count) bs = Some (unat b, blocks_of t (ps @ ?f # cs'))"
        using alloc_blocks_skip [OF skip] less fresh(1) ge
        by (simp add: bs as Cons pg) (simp add: t_def u_def unat_sub_if' word_less_nat_alt)
      have "kmem_abs (t\<lparr>n_pages := n_pages t - count\<rparr>) (blocks_of t (ps @ ?f # cs'))"
        by (rule kmem_abs_after_alloc [OF abs \<open>0 < count\<close> a lt]) (simp_all add: t_def u_def init)
      moreover have "km_page_alloc count s = Inr (b, t\<lparr>n_pages := n_pages t - count\<rparr>)"
        using run b0 False init cnt fresh(2)
        by (simp add: km_page_alloc_def t_def u_def Let_def as Cons)
      ultimately show ?thesis using a by simp
    qed
  qed
qed

subsection \<open>Deallocation\<close>

lemma adjacent_iff:
  assumes "unat a + 4096 * unat (blk_pages (blk s a)) < 2 ^ 32"
  shows "adjacent s a b \<longleftrightarrow> unat a + 4096 * unat (blk_pages (blk s a)) = unat b"
  using page_bytes [OF assms] by (auto simp: adjacent_def word_unat_eq_iff)

text \<open>Where a block that overlaps no free block fits in the free list.\<close>

lemma wf_blocks_insert:
  assumes "wf_blocks lo (xs @ ys)" and "lo \<le> u" and "0 < k"
    and "extent u k \<inter> free_cells (xs @ ys) = {}"
    and "\<forall>(b, n) \<in> set xs. b < u" and "\<forall>(b, n) \<in> set ys. \<not> b < u"
  shows "bend lo xs \<le> u" and "wf_blocks (u + 4096 * k) ys"
proof -
  have wf: "wf_blocks lo xs" "wf_blocks (bend lo xs) ys" using assms(1) by (auto simp: wf_blocks_append)
  show "bend lo xs \<le> u"
  proof (cases xs rule: rev_cases)
    case (snoc zs z)
    obtain b n where z: "z = (b, n)" by force
    have "b < u" "0 < n" "extent b n \<inter> extent u k = {}"
      using assms(4,5) wf(1) snoc z by (auto simp: wf_blocks_append)
    moreover have "bend lo xs = b + 4096 * n" unfolding snoc z
      by (induction zs arbitrary: lo) auto
    ultimately show ?thesis using extent_disjoint_iff [of n k b u] assms(3) by auto
  qed (use assms(2) in simp)
  show "wf_blocks (u + 4096 * k) ys"
  proof (cases ys)
    case (Cons y zs)
    obtain b n where y: "y = (b, n)" by force
    have "\<not> b < u" "0 < n" "extent b n \<inter> extent u k = {}"
      using assms(4,6) wf(2) Cons y by auto
    then have "u + 4096 * k \<le> b" using extent_disjoint_iff [of n k b u] assms(3) by auto
    then show ?thesis using wf(2) Cons y by simp
  qed simp
qed

lemma free_blocks_here:
  assumes "\<forall>(b, n) \<in> set ys. \<not> b < u"
  shows "free_blocks u k ys = merge_next u k ys"
  using assms by (cases ys) auto

lemma free_blocks_after:
  assumes "wf_blocks lo (xs @ [(b, n)])" and "b < u" and "\<forall>(b, n) \<in> set ys. \<not> b < u"
  shows "free_blocks u k (xs @ (b, n) # ys) =
    (if b + 4096 * n = u then xs @ merge_next b (n + k) ys
     else xs @ (b, n) # merge_next u k ys)"
proof -
  have wf: "wf_blocks lo xs" "bend lo xs \<le> b"
    using assms(1) by (auto simp: wf_blocks_append)
  have "\<forall>(b', n') \<in> set xs. b' < u \<and> b' + 4096 * n' \<noteq> u"
  proof clarify
    fix b' n' assume "(b', n') \<in> set xs"
    from wf_blocks_bounds [OF wf(1) this] wf(2) assms(2) show "b' < u \<and> b' + 4096 * n' \<noteq> u" by simp
  qed
  then show ?thesis using assms(2,3) by (simp add: free_blocks_skip free_blocks_here)
qed

lemma join_next_fields [simp]:
  "n_pages (join_next u c s) = n_pages s" "km_initialized (join_next u c s) = km_initialized s"
  "free_pages (join_next u c s) = free_pages s"
  by (simp_all add: join_next_def Let_def)

lemma join_next_refines:
  assumes l: "llist (\<lambda>a. blk_next (blk s a)) (free_pages s) (xs @ u # cs)"
    and wf: "wf_blocks 1 (blocks_of s (xs @ u # cs))"
  shows "\<exists>as. llist (\<lambda>a. blk_next (blk (join_next u (front cs) s) a)) (free_pages s) as \<and>
    blocks_of (join_next u (front cs) s) as =
      blocks_of s xs @ merge_next (unat u) (unat (blk_pages (blk s u))) (blocks_of s cs)"
proof -
  let ?nx = "\<lambda>a. blk_next (blk s a)" and ?s = "join_next u (front cs) s"
  have bu: "unat u + 4096 * unat (blk_pages (blk s u)) < 2 ^ 32"
    using wf by (auto simp: wf_blocks_append)
  have dist: "distinct (xs @ u # cs)" and nz: "0 \<notin> set (xs @ u # cs)"
    using llist_distinct [OF l] lseg_nonnull [OF l] by auto
  show ?thesis
  proof (cases "cs = [] \<or> \<not> adjacent s u (front cs)")
    case True
    then have "?s = s" by (auto simp: join_next_def front_def)
    moreover have "merge_next (unat u) (unat (blk_pages (blk s u))) (blocks_of s cs)
        = blocks_of s (u # cs)"
      using True adjacent_iff [OF bu] by (cases cs) (auto simp: front_def)
    ultimately show ?thesis using l by (intro exI [of _ "xs @ u # cs"]) simp
  next
    case False
    then obtain c cs' where cs: "cs = c # cs'" and adj: "adjacent s u c" by (cases cs) (auto simp: front_def)
    have eq: "unat u + 4096 * unat (blk_pages (blk s u)) = unat c" using adj adjacent_iff [OF bu] by simp
    have c: "unat c + 4096 * unat (blk_pages (blk s c)) < 2 ^ 32" "c \<noteq> 0" "c \<noteq> u"
      using wf cs nz dist by (auto simp: wf_blocks_append)
    have pages: "unat (blk_pages (blk s u) + blk_pages (blk s c))
        = unat (blk_pages (blk s u)) + unat (blk_pages (blk s c))"
      using c(1) eq by (simp add: unat_word_ariths)
    have nx: "(\<lambda>a. blk_next (blk ?s a)) = ?nx(u := ?nx c)"
      using adj c by (auto simp: join_next_def cs front_def Let_def fun_eq_iff)
    have "llist (?nx(u := ?nx c)) (free_pages s) (xs @ u # cs')"
      using l cs dist by (auto simp: lseg_append)
    moreover have "blocks_of ?s xs = blocks_of s xs" "blocks_of ?s cs' = blocks_of s cs'"
      using adj dist c by (auto simp: join_next_def cs front_def Let_def intro!: blocks_of_cong)
    moreover have "unat (blk_pages (blk ?s u)) = unat (blk_pages (blk s u)) + unat (blk_pages (blk s c))"
      using adj c pages by (simp add: join_next_def cs front_def Let_def)
    ultimately show ?thesis
      using eq cs unfolding nx by (intro exI [of _ "xs @ u # cs'"]) simp
  qed
qed

lemma link_block_fields:
  assumes "link_block p u s = (v, t)"
  shows "n_pages t = n_pages s" and "km_initialized t = km_initialized s"
  using assms by (auto simp: link_block_def split: if_splits)

lemma link_block_refines:
  assumes seg: "lseg (\<lambda>a. blk_next (blk s a)) (free_pages s) ps (front cs)"
    and rest: "llist (\<lambda>a. blk_next (blk s a)) (front cs) cs"
    and new: "block \<notin> set (ps @ cs)" "block \<noteq> 0" "distinct (ps @ cs)"
    and fits: "unat block + 4096 * unat (blk_pages (blk s block)) < 2 ^ 32" "0 < blk_pages (blk s block)"
    and al: "4096 dvd unat block"
    and wf: "wf_blocks 1 (blocks_of s ps)" "bend 1 (blocks_of s ps) \<le> unat block"
      "wf_blocks (unat block + 4096 * unat (blk_pages (blk s block))) (blocks_of s cs)"
    and pos: "\<forall>(b, n) \<in> set (blocks_of s ps). b < unat block" "\<forall>(b, n) \<in> set (blocks_of s cs). \<not> b < unat block"
  shows "\<exists>xs u t. link_block (last (0 # ps)) block s = (u, t) \<and>
    llist (\<lambda>a. blk_next (blk t a)) (free_pages t) (xs @ u # cs) \<and>
    wf_blocks 1 (blocks_of t (xs @ u # cs)) \<and>
    free_blocks (unat block) (unat (blk_pages (blk s block))) (blocks_of s (ps @ cs)) =
      blocks_of t xs @ merge_next (unat u) (unat (blk_pages (blk t u))) (blocks_of t cs)"
proof (cases ps rule: rev_cases)
  case Nil
  define t where "t = (set_blk_next block (free_pages s) s)\<lparr>free_pages := block\<rparr>"
  have "llist (\<lambda>a. blk_next (blk t a)) block (block # cs)"
    using seg rest new Nil unfolding t_def
    by (simp, subst lseg_cong [where nx' = "\<lambda>a. blk_next (blk s a)"]) auto
  moreover have "blocks_of t cs = blocks_of s cs" unfolding t_def by (rule blocks_of_cong) simp
  ultimately show ?thesis
    using Nil wf new fits al pos
    by (intro exI [of _ "[]"] exI [of _ block] exI [of _ t])
      (simp add: link_block_def t_def free_blocks_here Suc_le_eq unat_gt_0)
next
  case (snoc qs p)
  let ?n = "blk_pages (blk s p)" and ?k = "blk_pages (blk s block)"
  have p: "p \<noteq> 0" "p \<noteq> block" "p \<notin> set qs" "p \<notin> set cs" using seg snoc new by (auto dest: lseg_nonnull)
  have wfp: "wf_blocks 1 (blocks_of s qs @ [(unat p, unat ?n)])" using wf snoc by simp
  have ends: "unat p + 4096 * unat ?n \<le> unat block" "unat p < unat block"
    using wf_blocks_bounds [OF wf(1) blocks_of_mem [of p]] wf(2) pos(1) snoc by auto
  note after = free_blocks_after [OF wfp ends(2) pos(2), of "unat ?k"]
  have b32: "unat p + 4096 * unat ?n < 2 ^ 32" using ends(1) fits(1) by simp
  show ?thesis
  proof (cases "adjacent s p block")
    case True
    define t where "t = set_blk_pages p (?n + ?k) s"
    have eq: "unat p + 4096 * unat ?n = unat block" using True adjacent_iff [OF b32] by simp
    have sum: "unat (?n + ?k) = unat ?n + unat ?k" using eq fits(1) by (simp add: unat_word_ariths)
    have same: "blocks_of t qs = blocks_of s qs" "blocks_of t cs = blocks_of s cs"
      using p by (auto simp: t_def intro!: blocks_of_cong)
    have "llist (\<lambda>a. blk_next (blk t a)) (free_pages t) (qs @ p # cs)"
      using seg rest snoc by (auto simp: t_def lseg_append)
    moreover have "unat p + 4096 * unat (blk_pages (blk t p)) = unat block + 4096 * unat ?k"
      using sum eq by (simp add: t_def)
    then have "wf_blocks 1 (blocks_of t (qs @ p # cs))"
      using wfp wf(3) fits sum by (simp add: wf_blocks_append same) (simp add: t_def)
    ultimately show ?thesis
      using after eq snoc True p sum same
      by (intro exI [of _ qs] exI [of _ p] exI [of _ t]) (simp add: link_block_def t_def)
  next
    case False
    define t where "t = set_blk_next p block (set_blk_next block (blk_next (blk s p)) s)"
    have neq: "unat p + 4096 * unat ?n \<noteq> unat block" using False adjacent_iff [OF b32] by simp
    have same: "blocks_of t xs = blocks_of s xs" for xs
      by (auto simp: t_def intro!: blocks_of_cong)
    have q: "lseg (\<lambda>a. blk_next (blk t a)) (free_pages t) qs p"
      "llist (\<lambda>a. blk_next (blk t a)) (front cs) cs"
      using seg rest snoc new p
      by (auto simp: t_def lseg_append intro!: lseg_cong [THEN iffD2, of _ _ "\<lambda>a. blk_next (blk s a)"])
    have "blk_next (blk s p) = front cs" using seg snoc by (simp add: lseg_append)
    then have "llist (\<lambda>a. blk_next (blk t a)) (free_pages t) (ps @ block # cs)"
      using q p new snoc by (simp add: lseg_append) (simp add: t_def)
    moreover have "wf_blocks 1 (blocks_of t (ps @ block # cs))"
      using wf fits al by (simp add: same wf_blocks_append unat_gt_0) (simp add: t_def unat_gt_0)
    ultimately show ?thesis
      using after neq snoc False p same
      by (intro exI [of _ ps] exI [of _ block] exI [of _ t]) (simp add: link_block_def t_def)
  qed
qed

text \<open>The position of a block in the free list of a state.\<close>

lemma kmem_position:
  assumes abs: "kmem_abs s bs" and b0: "block \<noteq> 0" and c0: "0 < k"
    and dis: "extent (unat block) k \<inter> free_cells bs = {}"
  obtains ps cs where "llist (\<lambda>a. blk_next (blk s a)) (free_pages s) (ps @ cs)"
    and "blocks_of s (ps @ cs) = bs" and "block \<notin> set (ps @ cs)" and "distinct (ps @ cs)"
    and "walk (\<lambda>a. Inr (a < block)) (\<lambda>a. blk_next (blk s a)) 0 (free_pages s)
      = Some (Inr (last (0 # ps), front cs))"
    and "\<forall>(b, n) \<in> set (blocks_of s ps). b < unat block"
    and "\<forall>(b, n) \<in> set (blocks_of s cs). \<not> b < unat block"
    and "bend 1 (blocks_of s ps) \<le> unat block"
    and "wf_blocks (unat block + 4096 * k) (blocks_of s cs)"
proof -
  let ?u = "unat block"
  from abs obtain as where l: "llist (\<lambda>a. blk_next (blk s a)) (free_pages s) as"
    and bs: "blocks_of s as = bs" and wf: "wf_blocks 1 (blocks_of s as)"
    by (auto simp: kmem_abs_def)
  have "?u \<in> extent ?u k" using c0 by (simp add: extent_def)
  then have "?u \<notin> free_cells bs" using dis by blast
  have notin: "block \<notin> set as"
  proof
    assume in_as: "block \<in> set as"
    note mem = blocks_of_mem [OF this, of s]
    then have "?u \<in> free_cells bs"
      using wf_blocks_bounds [OF wf mem] unfolding bs by (fastforce simp: free_cells_def extent_def)
    with \<open>?u \<notin> free_cells bs\<close> show False ..
  qed
  obtain ps cs where as: "as = ps @ cs" and lo: "\<forall>a \<in> set ps. a < block"
    and hi: "cs = [] \<or> \<not> hd cs < block"
    and w: "walk (\<lambda>a. Inr (a < block)) (\<lambda>a. blk_next (blk s a)) 0 (free_pages s)
      = Some (Inr (last (0 # ps), front cs))" and dist: "distinct as"
    by (rule kmem_walk [OF l wf, of "\<lambda>a. a < block"])
  have low: "\<forall>(b, n) \<in> set (blocks_of s ps). b < ?u"
    using lo by (auto simp: blocks_of_def word_less_nat_alt)
  have wf': "wf_blocks 1 (blocks_of s ps @ blocks_of s cs)" using wf as by simp
  have high: "\<forall>(b, n) \<in> set (blocks_of s cs). \<not> b < ?u"
    using hi wf' by (cases cs) (fastforce simp: wf_blocks_append word_less_nat_alt dest: wf_blocks_bounds)+
  have "1 \<le> ?u" using b0 by (simp add: unat_gt_0 Suc_le_eq)
  note pos = wf_blocks_insert [OF wf' this c0 _ low high]
  show thesis
    by (rule that [of ps cs]) (use l bs notin dist w low high pos dis as in auto)
qed

lemma km_page_free_refines:
  assumes abs: "kmem_abs s bs" and b0: "block \<noteq> 0" and al: "4096 dvd unat block" and c0: "0 < count"
    and fits: "unat block + 4096 * unat count < 2 ^ 32"
    and dis: "extent (unat block) (unat count) \<inter> free_cells bs = {}"
  shows "\<exists>s'. km_page_free_multi block count s = Inr s' \<and>
    kmem_abs s' (free_blocks (unat block) (unat count) bs)"
proof -
  define s1 where "s1 = set_blk_pages block count s"
  let ?bs' = "free_blocks (unat block) (unat count) bs"
  have k0: "0 < unat count" "1 \<le> unat block" using c0 b0 by (simp_all add: unat_gt_0 Suc_le_eq)
  obtain ps cs where l: "llist (\<lambda>a. blk_next (blk s a)) (free_pages s) (ps @ cs)"
    and bs: "blocks_of s (ps @ cs) = bs" and new: "block \<notin> set (ps @ cs)" and dist: "distinct (ps @ cs)"
    and w: "walk (\<lambda>a. Inr (a < block)) (\<lambda>a. blk_next (blk s a)) 0 (free_pages s)
      = Some (Inr (last (0 # ps), front cs))"
    and pos: "\<forall>(b, n) \<in> set (blocks_of s ps). b < unat block"
      "\<forall>(b, n) \<in> set (blocks_of s cs). \<not> b < unat block"
      "bend 1 (blocks_of s ps) \<le> unat block"
      "wf_blocks (unat block + 4096 * unat count) (blocks_of s cs)"
    by (rule kmem_position [OF abs b0 k0(1) dis])
  have wf: "wf_blocks 1 bs" and init: "km_initialized s" and tot: "unat (n_pages s) = page_total bs"
    using abs by (auto simp: kmem_abs_def)
  have same: "blocks_of s1 ps = blocks_of s ps" "blocks_of s1 cs = blocks_of s cs"
    using new by (auto simp: s1_def intro!: blocks_of_cong)
  have seg: "lseg (\<lambda>a. blk_next (blk s1 a)) (free_pages s1) ps (front cs)"
    "llist (\<lambda>a. blk_next (blk s1 a)) (front cs) cs"
    using l by (simp_all add: s1_def lseg_split)
  have "\<exists>xs u t. link_block (last (0 # ps)) block s1 = (u, t) \<and>
      llist (\<lambda>a. blk_next (blk t a)) (free_pages t) (xs @ u # cs) \<and>
      wf_blocks 1 (blocks_of t (xs @ u # cs)) \<and>
      free_blocks (unat block) (unat (blk_pages (blk s1 block))) (blocks_of s1 (ps @ cs)) =
        blocks_of t xs @ merge_next (unat u) (unat (blk_pages (blk t u))) (blocks_of t cs)"
    by (rule link_block_refines [OF seg new b0 dist])
      (use fits c0 al wf bs pos same in \<open>auto simp: s1_def wf_blocks_append\<close>)
  then obtain xs u t where lk: "link_block (last (0 # ps)) block s1 = (u, t)"
    and lt: "llist (\<lambda>a. blk_next (blk t a)) (free_pages t) (xs @ u # cs)"
    and wft: "wf_blocks 1 (blocks_of t (xs @ u # cs))"
    and res: "?bs' = blocks_of t xs @ merge_next (unat u) (unat (blk_pages (blk t u))) (blocks_of t cs)"
    using bs same by (auto simp: s1_def)
  have t: "n_pages t = n_pages s" "km_initialized t"
    using link_block_fields [OF lk] init by (simp_all add: s1_def)
  note props = free_blocks_props [OF wf k0(2) al k0(1) fits dis]
  let ?s' = "(join_next u (front cs) t)\<lparr>n_pages := n_pages t + count\<rparr>"
  have run: "km_page_free_multi block count s = Inr ?s'"
    using init b0 w lk by (simp add: km_page_free_multi_def s1_def)
  obtain as where "llist (\<lambda>a. blk_next (blk (join_next u (front cs) t) a)) (free_pages t) as"
    "blocks_of (join_next u (front cs) t) as = ?bs'"
    using join_next_refines [OF lt wft] res by auto
  moreover have "blocks_of ?s' as = blocks_of (join_next u (front cs) t) as"
    by (rule blocks_of_cong) simp
  moreover have "unat (n_pages s + count) = page_total ?bs'"
    using props(3) tot page_total_bound [OF props(1)] by (simp add: unat_word_ariths)
  ultimately have "kmem_abs ?s' ?bs'" using t props(1) by (auto simp: kmem_abs_def)
  with run show ?thesis by blast
qed

end
