(* ===== verification/Page_Store.thy ===== *)
theory Page_Store
  imports Kmem
begin

text \<open>
  What the page allocator promises its clients (stacks, queue nodes, slices): the interface
  \<open>page_store\<close>, its interpretation on the definitions of \<^verbatim>\<open>kernel/kmem.c\<close>, and what follows for any
  sequence of allocations and deallocations. The second part shows that \<^verbatim>\<open>km_init()\<close> establishes the
  allocator's invariant from the BIOS memory map.
\<close>

section \<open>The interface\<close>

text \<open>
  A run of a client: the state and the list of blocks (address, pages) it holds. It may ask for pages
  and give back any block it holds.
\<close>

inductive page_run ::
    "(u32 \<Rightarrow> 's \<Rightarrow> kerr + u32 \<times> 's) \<Rightarrow> (u32 \<Rightarrow> u32 \<Rightarrow> 's \<Rightarrow> kerr + 's) \<Rightarrow>
     's \<Rightarrow> 's \<Rightarrow> (u32 \<times> u32) list \<Rightarrow> bool"
  for palloc pfree s0 where
  run_start: "page_run palloc pfree s0 s0 []"
| run_alloc: "page_run palloc pfree s0 s held \<Longrightarrow> 0 < k \<Longrightarrow> palloc k s = Inr (r, s') \<Longrightarrow> r \<noteq> 0 \<Longrightarrow>
    page_run palloc pfree s0 s' ((r, k) # held)"
| run_none: "page_run palloc pfree s0 s held \<Longrightarrow> 0 < k \<Longrightarrow> palloc k s = Inr (0, s') \<Longrightarrow>
    page_run palloc pfree s0 s' held"
| run_free: "page_run palloc pfree s0 s (xs @ (r, k) # ys) \<Longrightarrow> pfree r k s = Inr s' \<Longrightarrow>
    page_run palloc pfree s0 s' (xs @ ys)"

definition cells_of :: "u32 \<times> u32 \<Rightarrow> nat set" where
  "cells_of rk = extent (unat (fst rk)) (unat (snd rk))"

definition held_cells :: "(u32 \<times> u32) list \<Rightarrow> nat set" where
  "held_cells held = (\<Union>rk \<in> set held. cells_of rk)"

text \<open>A block that may be given back: not NULL, whole pages, below 4 GB.\<close>

definition block_ok :: "u32 \<times> u32 \<Rightarrow> bool" where
  "block_ok rk \<longleftrightarrow> fst rk \<noteq> 0 \<and> 0 < snd rk \<and> 4096 dvd unat (fst rk) \<and>
     unat (fst rk) + 4096 * unat (snd rk) < 2 ^ 32"

lemma held_cells_simps [simp]:
  "held_cells [] = {}"
  "held_cells (rk # held) = cells_of rk \<union> held_cells held"
  "held_cells (xs @ ys) = held_cells xs \<union> held_cells ys"
  by (auto simp: held_cells_def)

locale page_store =
  fixes palloc :: "u32 \<Rightarrow> 's \<Rightarrow> kerr + u32 \<times> 's"
    and pfree :: "u32 \<Rightarrow> u32 \<Rightarrow> 's \<Rightarrow> kerr + 's"
    and avail :: "'s \<Rightarrow> nat set \<Rightarrow> bool"
  assumes alloc_law: "avail s F \<Longrightarrow> 0 < k \<Longrightarrow>
      \<exists>r s'. palloc k s = Inr (r, s') \<and>
        (if r = 0 then s' = s
         else block_ok (r, k) \<and> cells_of (r, k) \<subseteq> F \<and> avail s' (F - cells_of (r, k)))"
    and free_law: "avail s F \<Longrightarrow> block_ok (r, k) \<Longrightarrow> cells_of (r, k) \<inter> F = {} \<Longrightarrow>
      \<exists>s'. pfree r k s = Inr s' \<and> avail s' (F \<union> cells_of (r, k))"
begin

lemma alloc_cases:
  assumes "avail s F" and "0 < k" and "palloc k s = Inr (r, s')"
  shows "if r = 0 then s' = s
    else block_ok (r, k) \<and> cells_of (r, k) \<subseteq> F \<and> avail s' (F - cells_of (r, k))"
  using alloc_law [OF assms(1,2)] assms(3) by auto

lemma alloc_free_roundtrip:
  assumes "avail s F" and "0 < k" and "palloc k s = Inr (r, s')" and "r \<noteq> 0"
  shows "\<exists>s''. pfree r k s' = Inr s'' \<and> avail s'' F"
proof -
  from alloc_cases [OF assms(1-3)] assms(4)
  have ok: "block_ok (r, k)" and sub: "cells_of (r, k) \<subseteq> F" and av: "avail s' (F - cells_of (r, k))"
    by auto
  then obtain s'' where "pfree r k s' = Inr s''" "avail s'' (F - cells_of (r, k) \<union> cells_of (r, k))"
    using free_law [OF av ok] by auto
  moreover have "F - cells_of (r, k) \<union> cells_of (r, k) = F" using sub by auto
  ultimately show ?thesis by auto
qed

text \<open>Nothing is lost and nothing is handed out twice.\<close>

lemma run_conserves:
  assumes "page_run palloc pfree s0 s held" and "avail s0 F0"
  shows "\<exists>F. avail s F \<and> F \<union> held_cells held = F0 \<and> F \<inter> held_cells held = {} \<and>
    sorted_wrt (\<lambda>x y. cells_of x \<inter> cells_of y = {}) held \<and> (\<forall>x \<in> set held. block_ok x)"
  using assms
proof (induction rule: page_run.induct)
  case run_start
  then show ?case by (intro exI [of _ F0]) simp
next
  case (run_alloc s held k r s')
  then obtain F where F: "avail s F" "F \<union> held_cells held = F0" "F \<inter> held_cells held = {}"
    "sorted_wrt (\<lambda>x y. cells_of x \<inter> cells_of y = {}) held" "\<forall>x \<in> set held. block_ok x"
    by blast
  from alloc_cases [OF F(1) run_alloc.hyps(2,3)] run_alloc.hyps(4)
  have new: "block_ok (r, k)" "cells_of (r, k) \<subseteq> F" "avail s' (F - cells_of (r, k))" by auto
  have apart: "cells_of (r, k) \<inter> cells_of y = {}" if "y \<in> set held" for y
    using new(2) F(3) that unfolding held_cells_def by blast
  show ?case
    by (rule exI [of _ "F - cells_of (r, k)"]) (use new F apart in auto)
next
  case (run_none s held k s')
  then obtain F where "avail s F" "F \<union> held_cells held = F0" "F \<inter> held_cells held = {}"
    "sorted_wrt (\<lambda>x y. cells_of x \<inter> cells_of y = {}) held" "\<forall>x \<in> set held. block_ok x"
    by blast
  with alloc_cases [OF this(1) run_none.hyps(2,3)] show ?case by auto
next
  case (run_free s xs r k ys s')
  then obtain F where F: "avail s F" "F \<union> held_cells (xs @ (r, k) # ys) = F0"
    "F \<inter> held_cells (xs @ (r, k) # ys) = {}"
    "sorted_wrt (\<lambda>x y. cells_of x \<inter> cells_of y = {}) (xs @ (r, k) # ys)"
    "\<forall>x \<in> set (xs @ (r, k) # ys). block_ok x"
    by blast
  have "cells_of (r, k) \<inter> F = {}" using F(3) by auto
  then have av: "avail s' (F \<union> cells_of (r, k))"
    using free_law [OF F(1), of r k] F(5) run_free.hyps(2) by auto
  have "cells_of (r, k) \<inter> held_cells (xs @ ys) = {}"
    using F(4) by (fastforce simp: sorted_wrt_append held_cells_def)
  then show ?case
    by (intro exI [of _ "F \<union> cells_of (r, k)"]) (use av F in \<open>auto simp: sorted_wrt_append\<close>)
qed

lemma run_never_stuck:
  assumes "page_run palloc pfree s0 s held" and "avail s0 F0"
  shows "0 < k \<Longrightarrow> \<exists>r s'. palloc k s = Inr (r, s')"
    and "(r, k) \<in> set held \<Longrightarrow> \<exists>s'. pfree r k s = Inr s'"
proof -
  from run_conserves [OF assms] obtain F where F: "avail s F" "F \<inter> held_cells held = {}"
    "\<forall>x \<in> set held. block_ok x" by blast
  show "\<exists>r s'. palloc k s = Inr (r, s')" if "0 < k" using alloc_law [OF F(1) that] by blast
  show "\<exists>s'. pfree r k s = Inr s'" if "(r, k) \<in> set held"
    using free_law [OF F(1), of r k] F(2,3) that unfolding held_cells_def by blast
qed

end

section \<open>The kernel's allocator implements it\<close>

definition km_avail :: "'z kmem_st_scheme \<Rightarrow> nat set \<Rightarrow> bool" where
  "km_avail s F \<longleftrightarrow> (\<exists>bs. kmem_abs s bs \<and> free_cells bs = F)"

lemma km_alloc_law:
  assumes "km_avail s F" and "0 < k"
  shows "\<exists>r s'. km_page_alloc k s = Inr (r, s') \<and>
    (if r = 0 then s' = s
     else block_ok (r, k) \<and> cells_of (r, k) \<subseteq> F \<and> km_avail s' (F - cells_of (r, k)))"
proof -
  from assms(1) obtain bs where abs: "kmem_abs s bs" and F: "free_cells bs = F" by (auto simp: km_avail_def)
  have wf: "wf_blocks 1 bs" using abs by (simp add: kmem_abs_def)
  have k: "0 < unat k" using assms(2) by (simp add: unat_gt_0)
  show ?thesis
  proof (cases "alloc_blocks (unat k) bs")
    case None
    then show ?thesis using km_page_alloc_refines [OF abs assms(2)] by auto
  next
    case (Some rb)
    obtain r bs' where rb: "rb = (r, bs')" by force
    note post = alloc_blocks_Some [OF Some [unfolded rb] wf k]
    obtain s' where run: "km_page_alloc k s = Inr (of_nat r, s')" and abs': "kmem_abs s' bs'"
      using km_page_alloc_refines [OF abs assms(2)] Some rb by auto
    have r: "unat (of_nat r :: u32) = r" using post(4) by (intro unat_of_nat_small) simp
    have "(of_nat r :: u32) \<noteq> 0" using r post(2) by (metis not_one_le_zero unat_0)
    moreover have "block_ok (of_nat r, k)"
      using calculation post(3,4) r assms(2) by (simp add: block_ok_def)
    moreover have "free_cells bs' = F - cells_of (of_nat r, k)"
      using post(5,6) r F by (auto simp: cells_of_def)
    ultimately show ?thesis
      using run abs' post(5) r F by (auto simp: km_avail_def cells_of_def)
  qed
qed

lemma km_free_law:
  assumes "km_avail s F" and "block_ok (r, k)" and "cells_of (r, k) \<inter> F = {}"
  shows "\<exists>s'. km_page_free_multi r k s = Inr s' \<and> km_avail s' (F \<union> cells_of (r, k))"
proof -
  from assms(1) obtain bs where abs: "kmem_abs s bs" and F: "free_cells bs = F" by (auto simp: km_avail_def)
  have ok: "r \<noteq> 0" "4096 dvd unat r" "0 < k" "unat r + 4096 * unat k < 2 ^ 32"
    "extent (unat r) (unat k) \<inter> free_cells bs = {}"
    using assms(2,3) F by (auto simp: block_ok_def cells_of_def)
  have "wf_blocks 1 bs" "1 \<le> unat r" "0 < unat k"
    using abs ok by (auto simp: kmem_abs_def unat_gt_0 Suc_le_eq)
  then have "free_cells (free_blocks (unat r) (unat k) bs) = F \<union> cells_of (r, k)"
    using free_blocks_props(2) ok F by (auto simp: cells_of_def)
  with km_page_free_refines [OF abs ok] show ?thesis by (auto simp: km_avail_def)
qed

interpretation km: page_store km_page_alloc km_page_free_multi km_avail
  by unfold_locales (rule km_alloc_law, assumption+, rule km_free_law)

text \<open>A concrete allocator state: one free block of \<open>n\<close> pages at \<open>b\<close>.\<close>

definition one_block :: "u32 \<Rightarrow> u32 \<Rightarrow> kmem_st" where
  "one_block b n = \<lparr>mem = (\<lambda>_. 0), io_in = [], io_out = [],
     blk = (\<lambda>_. \<lparr>blk_pages = 0, blk_next = 0\<rparr>)(b := \<lparr>blk_pages = n, blk_next = 0\<rparr>),
     free_pages = b, free_slices = 0, n_pages = n, n_slices = 0, km_initialized = True\<rparr>"

lemma kmem_abs_single:
  assumes "free_pages s = b" and "b \<noteq> 0" and "blk s b = \<lparr>blk_pages = n, blk_next = 0\<rparr>" and "n_pages s = n"
    and "km_initialized s" and "4096 dvd unat b" and "0 < n" and "unat b + 4096 * unat n < 2 ^ 32"
  shows "kmem_abs s [(unat b, unat n)]"
proof -
  have "llist (\<lambda>a. blk_next (blk s a)) (free_pages s) [b]" "blocks_of s [b] = [(unat b, unat n)]"
    using assms by simp_all
  then have "\<exists>as. llist (\<lambda>a. blk_next (blk s a)) (free_pages s) as \<and> blocks_of s as = [(unat b, unat n)]" by blast
  then show ?thesis using assms by (simp add: kmem_abs_def unat_gt_0 Suc_le_eq)
qed

lemma one_block_abs: "kmem_abs (one_block 0x100000 4) [(0x100000, 4)]"
  using kmem_abs_single [of "one_block 0x100000 4" "0x100000" 4] by (simp add: one_block_def)

text \<open>C4. \<^verbatim>\<open>km_page_alloc()\<close> is first fit over the address-ordered free list: when no free block has
  \<open>count\<close> pages it returns NULL and changes nothing, otherwise it returns the first one that is large
  enough, cut from its front, and the heap represents the remaining free list with the page count
  reduced. It never panics and always returns.\<close>

theorem km_page_alloc_first_fit:
  assumes "kmem_abs s bs" and "0 < count"
  shows "case alloc_blocks (unat count) bs of
      None \<Rightarrow> km_page_alloc count s = Inr (NULL, s)
    | Some (r, bs') \<Rightarrow> \<exists>s'. km_page_alloc count s = Inr (of_nat r, s') \<and> kmem_abs s' bs'"
  using km_page_alloc_refines [OF assms] .

theorem km_page_alloc_first_fit_witness:
  "\<exists>s'. km_page_alloc 3 (one_block 0x100000 4) = Inr (0x100000, s') \<and> kmem_abs s' [(0x103000, 1)]"
  using km_page_alloc_first_fit [OF one_block_abs, of 3] by simp

text \<open>C5. \<^verbatim>\<open>km_page_free_multi()\<close> returns a block that overlaps no free block to the free list in address
  order and joins it with the free neighbours on both sides, keeping the page count right.\<close>

theorem km_page_free_coalesces:
  assumes "kmem_abs s bs" and "block \<noteq> NULL" and "4096 dvd unat block" and "0 < count"
    and "unat block + 4096 * unat count < 2 ^ 32"
    and "extent (unat block) (unat count) \<inter> free_cells bs = {}"
  shows "\<exists>s'. km_page_free_multi block count s = Inr s' \<and>
    kmem_abs s' (free_blocks (unat block) (unat count) bs)"
  using km_page_free_refines [OF assms] .

theorem km_page_free_coalesces_witness:
  "\<exists>s'. km_page_free_multi 0x104000 2 (one_block 0x100000 4) = Inr s' \<and> kmem_abs s' [(0x100000, 6)]"
proof -
  have "\<exists>s'. km_page_free_multi 0x104000 2 (one_block 0x100000 4) = Inr s' \<and>
      kmem_abs s' (free_blocks (unat (0x104000 :: u32)) (unat (2 :: u32)) [(0x100000, 4)])"
    by (rule km_page_free_coalesces [OF one_block_abs]) (auto simp: extent_def)
  then show ?thesis by simp
qed

text \<open>C3. Through any sequence of page allocations and deallocations of held blocks, the free pages and
  the blocks handed out partition the memory the allocator started with: blocks never overlap each
  other or the free list, and no page is lost. Every request is answered without a panic.\<close>

theorem km_pages_conserved:
  assumes "page_run km_page_alloc km_page_free_multi s0 s held" and "kmem_abs s0 bs0"
  shows "(\<exists>bs. kmem_abs s bs \<and> free_cells bs \<union> held_cells held = free_cells bs0 \<and>
      free_cells bs \<inter> held_cells held = {}) \<and>
    sorted_wrt (\<lambda>x y. cells_of x \<inter> cells_of y = {}) held \<and>
    (\<forall>k > 0. \<exists>r s'. km_page_alloc k s = Inr (r, s')) \<and>
    (\<forall>(r, k) \<in> set held. \<exists>s'. km_page_free_multi r k s = Inr s')"
proof -
  have av: "km_avail s0 (free_cells bs0)" using assms(2) by (auto simp: km_avail_def)
  show ?thesis
    using km.run_conserves [OF assms(1) av] km.run_never_stuck [OF assms(1) av]
    unfolding km_avail_def by blast
qed

theorem km_pages_conserved_witness:
  "\<exists>s bs. page_run km_page_alloc km_page_free_multi (one_block 0x100000 4) s [(0x100000, 3)] \<and>
     kmem_abs s bs \<and> free_cells bs \<inter> held_cells [(0x100000, 3)] = {}"
proof -
  obtain s where "km_page_alloc 3 (one_block 0x100000 4) = Inr (0x100000, s)"
    using km_page_alloc_refines [OF one_block_abs, of 3] by auto
  then have run: "page_run km_page_alloc km_page_free_multi (one_block 0x100000 4) s [(0x100000, 3)]"
    by (intro run_alloc [OF run_start]) simp_all
  from km_pages_conserved [OF run one_block_abs] run show ?thesis by blast
qed

section \<open>Initialization\<close>

text \<open>Headers outside the free pages do not matter to the page list.\<close>

lemma kmem_abs_frame:
  assumes "kmem_abs s bs" and "\<And>a. unat a \<in> free_cells bs \<Longrightarrow> blk s' a = blk s a"
    and "free_pages s' = free_pages s" and "n_pages s' = n_pages s" and "km_initialized s'"
  shows "kmem_abs s' bs"
proof -
  from assms(1) obtain as where l: "llist (\<lambda>a. blk_next (blk s a)) (free_pages s) as"
    and bs: "blocks_of s as = bs" and wf: "wf_blocks 1 bs"
    by (auto simp: kmem_abs_def)
  have same: "blk s' a = blk s a" if "a \<in> set as" for a
  proof (rule assms(2))
    note mem = blocks_of_mem [OF that, of s, unfolded bs]
    from wf_blocks_bounds [OF wf this] mem show "unat a \<in> free_cells bs"
      by (fastforce simp: free_cells_def extent_def)
  qed
  have "llist (\<lambda>a. blk_next (blk s' a)) (free_pages s') as"
    using l same assms(3) by (subst lseg_cong [where nx' = "\<lambda>a. blk_next (blk s a)"]) auto
  moreover have "blocks_of s' as = bs" unfolding bs [symmetric] by (rule blocks_of_cong) (simp add: same)
  ultimately show ?thesis using assms wf by (auto simp: kmem_abs_def)
qed

definition kmem_list :: "'z kmem_st_scheme \<Rightarrow> blocks \<Rightarrow> bool" where
  "kmem_list s bs \<longleftrightarrow> kmem_abs (s\<lparr>km_initialized := True\<rparr>) bs"

lemma blocks_of_init [simp]: "blocks_of (s\<lparr>km_initialized := v\<rparr>) as = blocks_of s as"
  by (simp add: blocks_of_def)

lemma kmem_list_iff:
  "kmem_list s bs \<longleftrightarrow> wf_blocks 1 bs \<and> unat (n_pages s) = page_total bs \<and>
     (\<exists>as. llist (\<lambda>a. blk_next (blk s a)) (free_pages s) as \<and> blocks_of s as = bs)"
  by (simp add: kmem_list_def kmem_abs_def)

text \<open>The block list with a block added in address order, not joined with its neighbours.\<close>

fun insert_block :: "nat \<times> nat \<Rightarrow> blocks \<Rightarrow> blocks" where
  "insert_block uk [] = [uk]"
| "insert_block uk (bn # bs) = (if fst bn < fst uk then bn # insert_block uk bs else uk # bn # bs)"

lemma insert_block_split:
  assumes "\<forall>(b, n) \<in> set xs. b < u" and "\<forall>(b, n) \<in> set ys. \<not> b < u"
  shows "insert_block (u, k) (xs @ ys) = xs @ (u, k) # ys"
  using assms by (induction xs) (cases ys; auto)+

lemma insert_block_cells [simp]: "free_cells (insert_block uk bs) = extent (fst uk) (snd uk) \<union> free_cells bs"
  by (induction bs) (auto simp: free_cells_def)

lemma mask_pages: "B2P (if len AND 0xfff \<noteq> 0 then len AND 0xfffff000 else len) = B2P len"
proof -
  have eq: "(0xfffff000 :: u32) = push_bit 12 (mask 20)"
    by (simp add: mask_eq_exp_minus_1 push_bit_eq_mult)
  have "drop_bit 12 (len AND 0xfffff000) = drop_bit 12 len"
  proof (rule bit_word_eqI)
    fix n assume "n < LENGTH(32)"
    have "bit len (12 + n) \<Longrightarrow> n < 20" using bit_imp_le_length [of len "12 + n"] by simp
    then show "bit (drop_bit 12 (len AND 0xfffff000)) n \<longleftrightarrow> bit (drop_bit 12 len) n"
      unfolding eq bit_drop_bit_eq comp_def bit_and_iff bit_push_bit_iff bit_mask_iff by auto
  qed
  then show ?thesis by (simp add: B2P_def)
qed

lemma unat_B2P: "unat (B2P x) = unat x div 4096"
  by (simp add: B2P_def drop_bit_eq_div unat_div)

lemma add_block_correct:
  assumes abs: "kmem_list s bs" and b0: "base \<noteq> 0" and al: "4096 dvd unat base"
    and fits: "unat base + unat len < 2 ^ 32" and big: "\<not> len < SZ_PAGE"
    and dis: "extent (unat base) (unat len div 4096) \<inter> free_cells bs = {}"
  shows "\<exists>s'. add_block base len s = Inr s' \<and> mem s' = mem s \<and>
    kmem_list s' (insert_block (unat base, unat len div 4096) bs)"
proof -
  define k where "k = B2P len"
  define s1 where "s1 = s\<lparr>blk := (blk s)(base := \<lparr>blk_pages = k, blk_next = NULL\<rparr>)\<rparr>"
  have k: "unat k = unat len div 4096" by (simp add: k_def unat_B2P)
  have k0: "0 < unat k" using big by (simp add: k word_less_nat_alt SZ_PAGE_def div_greater_zero_iff)
  have kb: "unat base + 4096 * unat k < 2 ^ 32"
    using fits k by (metis add_le_cancel_left le_less_trans mult.commute div_times_less_eq_dividend)
  have "kmem_abs (s1\<lparr>km_initialized := True\<rparr>) bs"
    by (rule kmem_abs_frame [OF abs [unfolded kmem_list_def]])
      (use dis k0 k in \<open>auto simp: s1_def extent_def disjoint_iff\<close>)
  then obtain ps cs where l: "llist (\<lambda>a. blk_next (blk s1 a)) (free_pages s1) (ps @ cs)"
    and bs: "blocks_of s1 (ps @ cs) = bs" and new: "base \<notin> set (ps @ cs)" and dist: "distinct (ps @ cs)"
    and w: "walk (\<lambda>a. Inr (a < base)) (\<lambda>a. blk_next (blk s1 a)) 0 (free_pages s1)
      = Some (Inr (last (0 # ps), front cs))"
    and pos: "\<forall>(b, n) \<in> set (blocks_of s1 ps). b < unat base"
      "\<forall>(b, n) \<in> set (blocks_of s1 cs). \<not> b < unat base"
      "bend 1 (blocks_of s1 ps) \<le> unat base"
      "wf_blocks (unat base + 4096 * unat k) (blocks_of s1 cs)"
    using kmem_position [of "s1\<lparr>km_initialized := True\<rparr>" bs base "unat k"] b0 k0 dis k by auto
  have seg: "lseg (\<lambda>a. blk_next (blk s1 a)) (free_pages s1) ps (front cs)"
    "llist (\<lambda>a. blk_next (blk s1 a)) (front cs) cs" and nz: "0 \<notin> set (ps @ cs)"
    using l lseg_nonnull [OF l] by (simp_all add: lseg_split)
  define s2 where "s2 = set_link (last (0 # ps)) base (set_blk_next base (front cs) s1)"
  have "lseg (\<lambda>a. blk_next (blk (set_blk_next base (front cs) s1) a)) (free_pages s1) ps (front cs)"
    "llist (\<lambda>a. blk_next (blk (set_blk_next base (front cs) s1) a)) base (base # cs)"
    using seg new b0 by (auto simp: intro!: lseg_cong [THEN iffD2, of _ _ "\<lambda>a. blk_next (blk s1 a)"])
  then have l2: "llist (\<lambda>a. blk_next (blk s2 a)) (free_pages s2) (ps @ base # cs)"
    unfolding s2_def by (intro set_link_llist) (use dist new in auto)
  have "blocks_of s2 xs = blocks_of s1 xs" for xs
    by (rule blocks_of_cong) (simp add: s2_def)
  moreover have pages2: "blk_pages (blk s2 base) = k" by (simp add: s2_def s1_def)
  ultimately have b2: "blocks_of s2 (ps @ base # cs) = insert_block (unat base, unat k) bs"
    unfolding bs [symmetric] using insert_block_split [OF pos(1,2)] by simp
  have n2: "n_pages s2 = n_pages s" "mem s2 = mem s"
    by (simp_all add: s2_def s1_def set_link_def set_blk_next_def)
  have n0: "n_pages s = 0" if "free_pages s = 0"
  proof -
    have "ps @ cs = []" using l that by (simp add: s1_def llist_null)
    then show ?thesis using abs bs by (simp add: kmem_list_iff unat_eq_0)
  qed
  have run: "add_block base len s = Inr (s2\<lparr>n_pages := n_pages s2 + k\<rparr>)"
  proof (cases "free_pages s = 0")
    case True
    then have "ps = []" "cs = []" using l by (simp_all add: s1_def llist_null)
    then show ?thesis
      using big True n0
      unfolding add_block_def Let_def mask_pages k_def [symmetric] s1_def [symmetric]
      by (simp add: s2_def set_link_def front_def) (simp add: s1_def set_blk_next_def)
  next
    case False
    have "last (0 # ps) = 0 \<longleftrightarrow> ps = []" using nz by (cases ps rule: rev_cases) auto
    moreover have "ps = [] \<Longrightarrow> front cs \<noteq> 0" using False l nz by (cases cs) (auto simp: s1_def front_def)
    moreover have "free_pages s1 \<noteq> 0" using False by (simp add: s1_def)
    ultimately show ?thesis
      using big w
      unfolding add_block_def Let_def mask_pages k_def [symmetric] s1_def [symmetric]
      by (cases "ps = []") (simp_all add: s2_def set_link_def, simp_all add: s1_def)
  qed
  have wf': "wf_blocks 1 (insert_block (unat base, unat k) bs)"
    unfolding bs [symmetric] blocks_of_simps insert_block_split [OF pos(1,2)]
    using abs bs pos al k0 kb by (auto simp: kmem_list_iff wf_blocks_append)
  moreover have "unat (n_pages s + k) = page_total (insert_block (unat base, unat k) bs)"
    using page_total_bound [OF wf'] abs unfolding bs [symmetric] blocks_of_simps insert_block_split [OF pos(1,2)]
    by (simp add: kmem_list_iff unat_word_ariths)
  moreover have "blocks_of (s2\<lparr>n_pages := n_pages s2 + k\<rparr>) xs = blocks_of s2 xs" for xs
    by (rule blocks_of_cong) simp
  ultimately show ?thesis
    using run l2 b2 n2 by (auto simp: kmem_list_iff k intro!: exI [of _ "ps @ base # cs"])
qed

text \<open>
  What the memory map has to say for the allocator to be sound. \<open>usable s n\<close> lists the pieces (base and
  length) that the first \<open>n\<close> entries contribute; pieces smaller than a page are ignored.
\<close>

fun usable :: "memory \<Rightarrow> nat \<Rightarrow> u32 \<Rightarrow> (u32 \<times> u32) list" where
  "usable m 0 region = []"
| "usable m (Suc n) region =
     (case km_region (read_region m region) of
        None \<Rightarrow> []
      | Some (b, l) \<Rightarrow> if l < SZ_PAGE then [] else [(b, l)])
     @ usable m n (region + 24)"

definition piece :: "u32 \<times> u32 \<Rightarrow> nat \<times> nat" where
  "piece bl = (unat (fst bl), unat (snd bl) div 4096)"

definition map_sound :: "(u32 \<times> u32) list \<Rightarrow> bool" where
  "map_sound ps \<longleftrightarrow>
     (\<forall>bl \<in> set ps. fst bl \<noteq> 0 \<and> 4096 dvd unat (fst bl) \<and> unat (fst bl) + unat (snd bl) < 2 ^ 32) \<and>
     sorted_wrt (\<lambda>x y. extent (fst (piece x)) (snd (piece x)) \<inter>
       extent (fst (piece y)) (snd (piece y)) = {}) ps"

lemma add_block_small: "len < SZ_PAGE \<Longrightarrow> add_block base len s = Inr s"
  by (simp add: add_block_def)

lemma km_init_loop_correct:
  assumes "kmem_list s bs" and "map_sound (usable (mem s) n region)"
    and "\<forall>p \<in> piece ` set (usable (mem s) n region). extent (fst p) (snd p) \<inter> free_cells bs = {}"
  shows "\<exists>s' bs'. km_init_loop n region s = Inr s' \<and> kmem_list s' bs' \<and>
    bs' = fold insert_block (map piece (usable (mem s) n region)) bs"
  using assms
proof (induction n arbitrary: region s bs)
  case (Suc n)
  show ?case
  proof (cases "usable (mem s) (Suc n) region = usable (mem s) n (region + 24)")
    case True
    have "km_init_loop (Suc n) region s = km_init_loop n (region + 24) s"
      using True by (auto simp: add_block_small split: option.splits if_splits)
    then show ?thesis using Suc.IH [of s bs "region + 24"] Suc.prems True by simp
  next
    case False
    then obtain b l where r: "km_region (read_region (mem s) region) = Some (b, l)"
      and big: "\<not> l < SZ_PAGE" by (auto split: option.splits if_splits)
    have us: "usable (mem s) (Suc n) region = (b, l) # usable (mem s) n (region + 24)"
      using r big by simp
    have ok: "b \<noteq> 0" "4096 dvd unat b" "unat b + unat l < 2 ^ 32"
      "extent (unat b) (unat l div 4096) \<inter> free_cells bs = {}"
      using Suc.prems(2,3) unfolding us by (auto simp: map_sound_def piece_def)
    obtain s1 where run: "add_block b l s = Inr s1" "mem s1 = mem s"
      and l1: "kmem_list s1 (insert_block (piece (b, l)) bs)"
      using add_block_correct [OF Suc.prems(1) ok(1-3) big ok(4)] by (auto simp: piece_def)
    have "map_sound (usable (mem s1) n (region + 24))"
      "\<forall>p \<in> piece ` set (usable (mem s1) n (region + 24)).
         extent (fst p) (snd p) \<inter> free_cells (insert_block (piece (b, l)) bs) = {}"
      using Suc.prems(2,3) unfolding us run(2) by (auto simp: map_sound_def Int_Un_distrib Int_commute)
    from Suc.IH [OF l1 this] run us r show ?thesis by simp
  qed
qed simp

lemma fold_insert_cells:
  "free_cells (fold insert_block ps bs) = (\<Union>(b, n) \<in> set ps. extent b n) \<union> free_cells bs"
  by (induction ps arbitrary: bs) auto

lemma km_init_run:
  assumes "0 < sint (load32 (mem s) MMAP_ADDR)"
    and "us = usable (mem s) (nat (sint (load32 (mem s) MMAP_ADDR))) (MMAP_ADDR + 4)"
    and "map_sound us"
  shows "\<exists>s'. km_init s = Inr s' \<and> kmem_abs s' (fold insert_block (map piece us) [])"
proof -
  let ?n = "nat (sint (load32 (mem s) MMAP_ADDR))"
  let ?s = "s\<lparr>free_slices := NULL, free_pages := NULL, n_pages := 0, n_slices := 0,
    km_initialized := False\<rparr>"
  have "kmem_list ?s []" by (simp add: kmem_list_iff)
  from km_init_loop_correct [OF this, of ?n "MMAP_ADDR + 4"] assms
  obtain s' where run: "km_init_loop ?n (MMAP_ADDR + 4) ?s = Inr s'"
    and l: "kmem_list s' (fold insert_block (map piece us) [])" by auto
  have "km_init s = Inr (s'\<lparr>km_initialized := True\<rparr>)"
    using assms(1) run by (simp add: km_init_def)
  then show ?thesis using l unfolding kmem_list_def by blast
qed

text \<open>C18. When the usable entries of the BIOS memory map are page-aligned and do not overlap,
  \<^verbatim>\<open>km_init()\<close> returns with a well-formed, address-ordered free list that holds exactly the whole pages
  of those entries (clipped to the managed range), and marks the module initialized.\<close>

theorem km_init_builds_free_list:
  assumes "0 < sint (load32 (mem s) MMAP_ADDR)"
    and "us = usable (mem s) (nat (sint (load32 (mem s) MMAP_ADDR))) (MMAP_ADDR + 4)"
    and "map_sound us"
  shows "\<exists>s' bs. km_init s = Inr s' \<and> kmem_abs s' bs \<and>
    free_cells bs = (\<Union>(b, l) \<in> set us. extent (unat b) (unat l div 4096))"
proof -
  have "free_cells (fold insert_block (map piece us) []) = (\<Union>(b, l) \<in> set us. extent (unat b) (unat l div 4096))"
    by (simp add: fold_insert_cells piece_def case_prod_beta)
  then show ?thesis using km_init_run [OF assms] by blast
qed

text \<open>A memory map with one usable region of four pages at 1 MB.\<close>

definition mmap_mem :: memory where
  "mmap_mem = (\<lambda>_. 0)(0x2D00 := 1, 0x2D06 := 0x10, 0x2D0D := 0x40, 0x2D14 := 1, 0x2D18 := 1)"

theorem km_init_builds_free_list_witness:
  "\<exists>s' bs. km_init ((one_block 0 0)\<lparr>mem := mmap_mem\<rparr>) = Inr s' \<and> kmem_abs s' bs \<and>
     free_cells bs = extent 0x100000 4"
proof -
  let ?s = "(one_block 0 0)\<lparr>mem := mmap_mem\<rparr>"
  have n: "load32 (mem ?s) MMAP_ADDR = 1" by (simp add: mmap_mem_def load32_def MMAP_ADDR_def)
  have r: "read_region mmap_mem 0x2D04 =
      \<lparr>reg_base = 0x100000, reg_length = 0x4000, reg_type = 1, reg_acpi = 1\<rparr>"
    by (simp add: read_region_def mmap_mem_def load32_def load64_def)
  have k: "km_region (read_region mmap_mem 0x2D04) = Some (0x100000, 0x4000)"
    unfolding r by (simp add: km_region_def kmem_consts)
  have us: "usable (mem ?s) (nat (sint (load32 (mem ?s) MMAP_ADDR))) (MMAP_ADDR + 4) = [(0x100000, 0x4000)]"
    unfolding n using k by (simp add: kmem_consts)
  have "\<exists>s' bs. km_init ?s = Inr s' \<and> kmem_abs s' bs \<and>
      free_cells bs = (\<Union>(b, l) \<in> set [(0x100000 :: u32, 0x4000 :: u32)]. extent (unat b) (unat l div 4096))"
    by (rule km_init_builds_free_list [OF _ us [symmetric]]) (simp_all add: n [simplified] map_sound_def)
  then show ?thesis by simp
qed

text \<open>A piece that \<^verbatim>\<open>km_init()\<close> takes from a memory map entry lies between the low cutoff (1 MB)
  and the high cutoff (1 GB) and inside the entry, whatever the entry says, as long as the entry's
  end does not wrap around in 64 bits.\<close>

theorem km_region_managed_range:
  assumes "km_region r = Some (b, l)" and "unat (reg_base r) + unat (reg_length r) < 2 ^ 64"
  shows "0x100000 \<le> unat b \<and> unat b + unat l \<le> 0x40000000 \<and>
    (0 < unat l \<longrightarrow> unat (reg_base r) \<le> unat b \<and> unat b + unat l \<le> unat (reg_base r) + unat (reg_length r))"
proof -
  have e: "unat (reg_base r + reg_length r) = unat (reg_base r) + unat (reg_length r)"
    using assms(2) by (simp add: unat_word_ariths)
  define E where "E = (if KM_HIGH_CUTOFF \<le> reg_base r \<or> KM_HIGH_CUTOFF \<le> reg_base r + reg_length r
    then KM_HIGH_CUTOFF else reg_base r + reg_length r)"
  define B where "B = (if reg_base r < KM_LOW_CUTOFF \<or> E < KM_LOW_CUTOFF then KM_LOW_CUTOFF else reg_base r)"
  have b: "b = ucast B" and l: "l = ucast (E - B)"
    and in_range: "\<not> E < KM_LOW_CUTOFF" "\<not> KM_HIGH_CUTOFF < reg_base r"
    using assms(1) unfolding km_region_def Let_def E_def [symmetric] B_def [symmetric]
    by (auto simp: E_def kmem_consts split: if_splits)
  have hi: "unat E = min 0x40000000 (unat (reg_base r) + unat (reg_length r))"
    using in_range(2) by (auto simp: E_def kmem_consts word_le_nat_alt word_less_nat_alt e)
  have lo: "unat B = max 0x100000 (unat (reg_base r))"
    using in_range(1) by (auto simp: B_def kmem_consts word_less_nat_alt)
  have BE: "unat B \<le> unat E"
    using lo hi in_range by (auto simp: kmem_consts word_less_nat_alt)
  have "unat b = unat B" using b lo hi BE by (simp add: unat_ucast)
  moreover have "unat l = unat E - unat B"
    using l hi BE by (simp add: unat_ucast unat_sub_if')
  ultimately show ?thesis using lo hi BE by auto
qed

theorem km_region_managed_range_witness:
  "km_region \<lparr>reg_base = 0x9000, reg_length = 0x80000000, reg_type = 1, reg_acpi = 1\<rparr> =
     Some (0x100000, 0x3ff00000) \<and> 0x100000 \<le> unat (0x100000 :: u32) \<and>
     unat (0x100000 :: u32) + unat (0x3ff00000 :: u32) \<le> 0x40000000"
proof -
  have k: "km_region \<lparr>reg_base = 0x9000, reg_length = 0x80000000, reg_type = 1, reg_acpi = 1\<rparr> =
      Some (0x100000, 0x3ff00000)"
    by (simp add: km_region_def kmem_consts)
  from km_region_managed_range [OF k] k show ?thesis by simp
qed

end
