(* ===== verification/Slices.thy ===== *)
theory Slices
  imports Page_Store
begin

text \<open>
  The slice allocator of \<^verbatim>\<open>kernel/kmem.c\<close>: a stack of 1 KB slices, refilled by carving a page into four.
  The headers of free slices share the heap with the headers of free pages; the invariant keeps the
  two apart.
\<close>

definition slice_ok :: "blocks \<Rightarrow> u32 \<Rightarrow> bool" where
  "slice_ok bs a \<longleftrightarrow> a \<noteq> 0 \<and> 1024 dvd unat a \<and> unat a + 1024 < 2 ^ 32 \<and>
     {unat a ..< unat a + 1024} \<inter> free_cells bs = {}"

text \<open>\<open>slice_inv s bs ss\<close>: the page list is \<open>bs\<close>, and the free slices are \<open>ss\<close>, top first.\<close>

definition slice_inv :: "'z kmem_st_scheme \<Rightarrow> blocks \<Rightarrow> u32 list \<Rightarrow> bool" where
  "slice_inv s bs ss \<longleftrightarrow> kmem_abs s bs \<and> llist (\<lambda>a. blk_next (blk s a)) (free_slices s) ss \<and>
     (\<forall>a \<in> set ss. slice_ok bs a)"

lemma slice_ok_notin: "slice_ok bs a \<Longrightarrow> unat a \<notin> free_cells bs"
  by (simp add: slice_ok_def disjoint_iff)

lemma slice_ok_mono: "slice_ok bs a \<Longrightarrow> free_cells bs' \<subseteq> free_cells bs \<Longrightarrow> slice_ok bs' a"
  by (auto simp: slice_ok_def)

text \<open>Page allocation does not touch headers outside the free pages.\<close>

lemma set_link_blk: "blk (set_link p v s) a = blk s a" if "a \<noteq> p"
  using that by (simp add: set_link_def set_blk_next_def)

lemma slice_push:
  assumes "slice_inv s bs ss" and "slice_ok bs a" and "a \<notin> set ss"
  shows "\<exists>s'. km_slice_free a s = Inr s' \<and> slice_inv s' bs (a # ss) \<and> n_slices s' = n_slices s + 1 \<and>
    mem s' = mem s"
proof -
  define s' where "s' = (set_blk_next a (free_slices s) (set_blk_pages a SZ_SLICE s))
    \<lparr>free_slices := a, n_slices := n_slices s + 1\<rparr>"
  have abs: "kmem_abs s bs" and l: "llist (\<lambda>x. blk_next (blk s x)) (free_slices s) ss"
    and ok: "\<forall>x \<in> set ss. slice_ok bs x"
    using assms(1) by (auto simp: slice_inv_def)
  have run: "km_slice_free a s = Inr s'"
    using abs by (simp add: km_slice_free_def kmem_abs_def s'_def Let_def set_blk_next_def set_blk_pages_def)
  have abs': "kmem_abs s' bs"
  proof (rule kmem_abs_frame [OF abs])
    fix x :: u32 assume "unat x \<in> free_cells bs"
    then have "x \<noteq> a" using slice_ok_notin [OF assms(2)] by auto
    then show "blk s' x = blk s x" by (simp add: s'_def set_blk_next_def set_blk_pages_def)
  qed (use abs in \<open>auto simp: s'_def kmem_abs_def\<close>)
  have "llist (\<lambda>x. blk_next (blk s' x)) (free_slices s') (a # ss)"
    using l assms(2,3) by (auto simp: s'_def slice_ok_def intro!: lseg_cong [THEN iffD2, of _ _ "\<lambda>x. blk_next (blk s x)"])
  with run abs' ok assms(2) show ?thesis
    by (intro exI [of _ s']) (auto simp: slice_inv_def s'_def set_blk_next_def set_blk_pages_def)
qed

fun carved :: "nat \<Rightarrow> u32 \<Rightarrow> u32 list" where
  "carved 0 p = []"
| "carved (Suc n) p = carved n (p + SZ_SLICE) @ [p]"

lemma carve_loop_correct:
  assumes "slice_inv s bs ss" and "\<forall>a \<in> set (carved n p). slice_ok bs a" and "distinct (carved n p @ ss)"
  shows "\<exists>s'. carve_loop n p s = Inr s' \<and> n_slices s' = n_slices s + 2 * of_nat n \<and> mem s' = mem s \<and>
    slice_inv s' bs (carved n p @ ss)"
  using assms
proof (induction n arbitrary: p s ss)
  case (Suc n)
  obtain s1 where s1: "km_slice_free p s = Inr s1" "slice_inv s1 bs (p # ss)"
    "n_slices s1 = n_slices s + 1" "mem s1 = mem s"
    using slice_push [OF Suc.prems(1), of p] Suc.prems(2,3) by auto
  let ?s = "s1\<lparr>n_slices := n_slices s1 + 1\<rparr>"
  have "slice_inv ?s bs (p # ss)"
    using s1(2) kmem_abs_frame [of s1 bs ?s] by (auto simp: slice_inv_def kmem_abs_def)
  then obtain s' where "carve_loop n (p + SZ_SLICE) ?s = Inr s'" "n_slices s' = n_slices ?s + 2 * of_nat n"
    "mem s' = mem ?s" "slice_inv s' bs (carved n (p + SZ_SLICE) @ p # ss)"
    using Suc.IH [of ?s "p # ss" "p + SZ_SLICE"] Suc.prems(2,3) by auto
  then show ?case using s1 by (simp add: algebra_simps)
qed simp

text \<open>The four slices of a page.\<close>

lemma SZ_SLICE_val: "SZ_SLICE = 0x400"
  by (simp add: SZ_SLICE_def SZ_PAGE_def drop_bit_eq_div)

lemma carved_four: "carved 4 p = [p + 3072, p + 2048, p + 1024, p]"
proof -
  have "carved (Suc (Suc (Suc (Suc 0)))) p = [p + 3072, p + 2048, p + 1024, p]"
    by (simp add: SZ_SLICE_val algebra_simps)
  then show ?thesis by (simp add: eval_nat_numeral)
qed

lemma page_slices:
  assumes "block_ok (p, 1)" and "cells_of (p, 1) \<inter> free_cells bs = {}"
  shows "\<forall>a \<in> set (carved 4 p). slice_ok bs a" and "distinct (carved 4 p)"
proof -
  have p: "p \<noteq> 0" "4096 dvd unat p" "unat p + 4096 < 2 ^ 32"
    using assms(1) by (auto simp: block_ok_def)
  have d: "1024 dvd unat p" using p(2) by (rule dvd_trans [rotated]) simp
  have u: "unat (p + of_nat k) = unat p + k" if "k < 4096" for k
    using that p(3) by (intro unat_add_of_nat) simp
  have u': "unat (p + 1024) = unat p + 1024" "unat (p + 2048) = unat p + 2048" "unat (p + 3072) = unat p + 3072"
    using u [of 1024] u [of 2048] u [of 3072] by simp_all
  have one: "slice_ok bs a" if a: "unat a = unat p + k" "1024 dvd k" "k + 1024 \<le> 4096" for a k
  proof -
    have "{unat a ..< unat a + 1024} \<subseteq> cells_of (p, 1)" using a by (auto simp: cells_of_def extent_def)
    moreover have "a \<noteq> 0" using a(1) p(1) by (auto simp: unat_eq_0)
    ultimately show ?thesis using assms(2) a p d by (auto simp: slice_ok_def)
  qed
  show "\<forall>a \<in> set (carved 4 p). slice_ok bs a"
    unfolding carved_four using u' one [of "p + 3072" 3072] one [of "p + 2048" 2048] one [of "p + 1024" 1024] one [of p 0]
    by simp
  show "distinct (carved 4 p)" unfolding carved_four using u' by (auto simp: word_unat_eq_iff)
qed

lemma km_page_alloc_frame:
  assumes "km_page_alloc k s = Inr (r, s')"
  shows "free_slices s' = free_slices s" and "n_slices s' = n_slices s" and "mem s' = mem s"
  using assms
  by (auto simp: km_page_alloc_def Let_def set_link_def set_blk_next_def set_blk_pages_def kbind_eq_Inr
      split: if_splits)

lemma carve_slices_correct:
  assumes inv: "slice_inv s bs []"
  shows "case alloc_blocks 1 bs of
      None \<Rightarrow> carve_slices s = Inl Panic
    | Some (r, bs') \<Rightarrow> \<exists>s'. carve_slices s = Inr s' \<and> n_slices s' = n_slices s + 8 \<and> mem s' = mem s \<and>
        slice_inv s' bs' [of_nat r + 3072, of_nat r + 2048, of_nat r + 1024, of_nat r] \<and>
        block_ok (of_nat r, 1)"
proof (cases "alloc_blocks 1 bs")
  case None
  then have "km_page_alloc 1 s = Inr (0, s)"
    using km_page_alloc_refines [of s bs 1] inv by (simp add: slice_inv_def)
  then show ?thesis using None by (simp add: carve_slices_def)
next
  case (Some rb)
  obtain r bs' where rb: "rb = (r, bs')" by force
  have abs: "kmem_abs s bs" using inv by (simp add: slice_inv_def)
  obtain s1 where run: "km_page_alloc 1 s = Inr (of_nat r, s1)" and abs1: "kmem_abs s1 bs'"
    using km_page_alloc_refines [OF abs, of 1] Some rb by auto
  note fr = km_page_alloc_frame [OF run]
  have wf: "wf_blocks 1 bs" using abs by (simp add: kmem_abs_def)
  note post = alloc_blocks_Some [OF Some [unfolded rb] wf]
  have r: "unat (of_nat r :: u32) = r" using post(4) by (intro unat_of_nat_small) simp
  have ok: "block_ok (of_nat r, 1)" "cells_of (of_nat r, 1) \<inter> free_cells bs' = {}"
    using post r by (auto simp: block_ok_def cells_of_def unat_eq_0)
  have "slice_inv s1 bs' []" using abs1 inv fr by (simp add: slice_inv_def)
  from carve_loop_correct [OF this page_slices(1) [OF ok]] page_slices(2) [OF ok]
  obtain s' where "carve_loop 4 (of_nat r) s1 = Inr s'" "n_slices s' = n_slices s + 8" "mem s' = mem s"
    "slice_inv s' bs' (carved 4 (of_nat r))"
    using fr by auto
  then show ?thesis using run ok Some rb by (auto simp: carve_slices_def carved_four block_ok_def)
qed

lemma slice_pop:
  assumes "slice_inv s bs (a # ss)"
  shows "\<exists>s'. km_slice_alloc s = Inr (a, s') \<and> slice_inv s' bs ss \<and>
    (\<forall>x. mem s' x = (if x - a < SZ_SLICE then 0 else mem s x)) \<and> n_slices s' = n_slices s - 1"
proof -
  have abs: "kmem_abs s bs" and l: "llist (\<lambda>x. blk_next (blk s x)) (free_slices s) (a # ss)"
    and ok: "slice_ok bs a" "\<forall>x \<in> set ss. slice_ok bs x"
    using assms by (auto simp: slice_inv_def)
  define s' where "s' = s\<lparr>n_slices := n_slices s - 1, free_slices := blk_next (blk s a),
    mem := memclr a SZ_SLICE (mem s), blk := (blk s)(a := \<lparr>blk_pages = 0, blk_next = 0\<rparr>)\<rparr>"
  have run: "km_slice_alloc s = Inr (a, s')"
    using abs l by (auto simp: km_slice_alloc_def kmem_abs_def s'_def Let_def)
  have "kmem_abs s' bs"
  proof (rule kmem_abs_frame [OF abs])
    fix x :: u32 assume "unat x \<in> free_cells bs"
    then have "x \<noteq> a" using slice_ok_notin [OF ok(1)] by auto
    then show "blk s' x = blk s x" by (simp add: s'_def)
  qed (use abs in \<open>auto simp: s'_def kmem_abs_def\<close>)
  moreover have "llist (\<lambda>x. blk_next (blk s' x)) (free_slices s') ss"
    using l llist_distinct [OF l]
    by (auto simp: s'_def intro!: lseg_cong [THEN iffD2, of _ _ "\<lambda>x. blk_next (blk s x)"])
  ultimately show ?thesis
    using run ok by (intro exI [of _ s']) (auto simp: slice_inv_def s'_def memclr_cell)
qed

text \<open>\<^verbatim>\<open>km_slice_alloc()\<close> returns the slice on top of the free slice stack, cleared to zero; with an
  empty stack it first splits the page that first fit gives into four slices and returns the one at
  the highest address. It panics exactly when no slice and no page is left.\<close>

theorem km_slice_alloc_correct:
  assumes "slice_inv s bs ss"
  shows "case ss of
      a # ss' \<Rightarrow> \<exists>s'. km_slice_alloc s = Inr (a, s') \<and> slice_inv s' bs ss' \<and>
        (\<forall>x. mem s' x = (if x - a < SZ_SLICE then 0 else mem s x))
    | [] \<Rightarrow> (case alloc_blocks 1 bs of
        None \<Rightarrow> km_slice_alloc s = Inl Panic
      | Some (r, bs') \<Rightarrow> \<exists>s'. km_slice_alloc s = Inr (of_nat r + 3072, s') \<and>
          slice_inv s' bs' [of_nat r + 2048, of_nat r + 1024, of_nat r] \<and>
          (\<forall>x. mem s' x = (if x - (of_nat r + 3072) < SZ_SLICE then 0 else mem s x)))"
proof (cases ss)
  case Nil
  have init: "km_initialized s" and empty: "free_slices s = 0"
    using assms Nil by (auto simp: slice_inv_def kmem_abs_def)
  show ?thesis
  proof (cases "alloc_blocks 1 bs")
    case None
    then show ?thesis
      using carve_slices_correct [of s bs] assms Nil init empty by (simp add: km_slice_alloc_def)
  next
    case (Some rb)
    obtain r bs' where rb: "rb = (r, bs')" by force
    obtain s1 where c: "carve_slices s = Inr s1" "mem s1 = mem s"
      and inv: "slice_inv s1 bs' [of_nat r + 3072, of_nat r + 2048, of_nat r + 1024, of_nat r]"
      using carve_slices_correct [of s bs] assms Nil Some rb by auto
    have "km_slice_alloc s = km_slice_alloc s1"
      using c init empty inv by (auto simp: km_slice_alloc_def slice_inv_def kmem_abs_def)
    then show ?thesis using slice_pop [OF inv] c Nil Some rb by auto
  qed
next
  case (Cons a ss')
  then show ?thesis using slice_pop [of s bs a ss'] assms by auto
qed

theorem km_slice_alloc_correct_witness:
  "\<exists>s'. km_slice_alloc (one_block 0x100000 4) = Inr (0x100c00, s') \<and>
     slice_inv s' [(0x101000, 3)] [0x100800, 0x100400, 0x100000]"
proof -
  have "slice_inv (one_block 0x100000 4) [(0x100000, 4)] []"
    using one_block_abs by (simp add: slice_inv_def) (simp add: one_block_def)
  from km_slice_alloc_correct [OF this] show ?thesis by auto
qed

text \<open>Carving a page adds four slices to the free slice stack but raises \<^verbatim>\<open>n_slices\<close> by eight: both
  \<^verbatim>\<open>km_slice_free()\<close> and the carving loop count each slice.\<close>

theorem carve_slices_double_count:
  assumes "slice_inv s bs []" and "alloc_blocks 1 bs = Some (r, bs')"
  shows "\<exists>s' ss. carve_slices s = Inr s' \<and> slice_inv s' bs' ss \<and> length ss = 4 \<and>
    n_slices s' = n_slices s + 8"
  using carve_slices_correct [OF assms(1)] assms(2) by fastforce

theorem carve_slices_double_count_witness:
  "\<exists>s' ss. carve_slices (one_block 0x100000 4) = Inr s' \<and> slice_inv s' [(0x101000, 3)] ss \<and>
     length ss = 4 \<and> n_slices s' = 8"
proof -
  have "slice_inv (one_block 0x100000 4) [(0x100000, 4)] []" "n_slices (one_block 0x100000 4) = 0"
    using one_block_abs by (simp_all add: slice_inv_def one_block_def)
  with carve_slices_double_count [OF this(1), of "0x100000" "[(0x101000, 3)]"] show ?thesis by simp
qed

end
