(* ===== verification/Queues.thy ===== *)
theory Queues
  imports Slices
begin

text \<open>
  The queue module, \<^verbatim>\<open>kernel/queues.c\<close>: eight queues of singly linked nodes, FIFO or ordered by a
  comparison function, with a free list of nodes that is refilled from pages.

  Nodes live in the heap field \<open>qn\<close>, indexed by address. A queue holds pointers to process control
  blocks: \<open>None\<close> is NULL and \<open>Some i\<close> is \<^verbatim>\<open>&ptable[i]\<close>. A \<^verbatim>\<open>queue_t\<close> is \<open>None\<close> for NULL and
  \<open>Some i\<close> for \<^verbatim>\<open>&queues[i]\<close>. A comparison function is a code, and the operation that uses it takes the
  meaning of the codes, \<open>call\<close>, as an argument.
\<close>

section \<open>State\<close>

type_synonym qdata = "nat option"
type_synonym queue_t = "nat option"

record qnode =
  qn_data :: qdata
  qn_next :: u32

record queue_s =
  q_head :: u32
  q_tail :: u32
  q_count :: u32
  q_compare :: "nat option"

record que_st = kmem_st +
  qn :: "u32 \<Rightarrow> qnode"
  free_qnodes :: u32
  queues :: "queue_s list"
  queue_free :: "u8 list"

definition N_QUEUES :: nat where "N_QUEUES = 8"
definition QNODES_PER_PAGE :: nat where "QNODES_PER_PAGE = 512"
definition QUE_FREE :: u8 where "QUE_FREE = 1"
definition QUE_INUSE :: u8 where "QUE_INUSE = 0"

datatype ecode = E_SUCCESS | E_FAILURE | E_BAD_CHAN | E_BAD_PARAM | E_EMPTY | E_NOT_FOUND
  | E_NO_CHILDREN | E_NO_PCBS | E_NO_QNODES

lemmas que_consts = N_QUEUES_def QNODES_PER_PAGE_def QUE_FREE_def QUE_INUSE_def

section \<open>Nodes\<close>

definition que_ix :: "queue_t \<Rightarrow> int" where
  "que_ix q = (case q of None \<Rightarrow> -1 | Some i \<Rightarrow> if i \<ge> N_QUEUES then -1 else int i)"

definition set_qn_next :: "u32 \<Rightarrow> u32 \<Rightarrow> 'z que_st_scheme \<Rightarrow> 'z que_st_scheme" where
  "set_qn_next a v s = s\<lparr>qn := (qn s)(a := (qn s a)\<lparr>qn_next := v\<rparr>)\<rparr>"

definition set_qn_data :: "u32 \<Rightarrow> qdata \<Rightarrow> 'z que_st_scheme \<Rightarrow> 'z que_st_scheme" where
  "set_qn_data a v s = s\<lparr>qn := (qn s)(a := (qn s a)\<lparr>qn_data := v\<rparr>)\<rparr>"

definition qnode_free :: "u32 \<Rightarrow> 'z que_st_scheme \<Rightarrow> kerr + 'z que_st_scheme" where
  "qnode_free a s =
     kbind (kassert (a \<noteq> NULL)) (\<lambda>_.
       let s = set_qn_next a (free_qnodes s) s in Inr (s\<lparr>free_qnodes := a\<rparr>))"

fun qnode_add_loop :: "nat \<Rightarrow> u32 \<Rightarrow> 'z que_st_scheme \<Rightarrow> kerr + 'z que_st_scheme" where
  "qnode_add_loop 0 block s = Inr s"
| "qnode_add_loop (Suc n) block s = kbind (qnode_free block s) (\<lambda>s. qnode_add_loop n (block + 8) s)"

definition qnode_add_page :: "'z que_st_scheme \<Rightarrow> kerr + 'z que_st_scheme" where
  "qnode_add_page s =
     kbind (km_page_alloc 1 s) (\<lambda>(block, s).
     kbind (kassert (block \<noteq> NULL)) (\<lambda>_. qnode_add_loop QNODES_PER_PAGE block s))"

definition qnode_alloc :: "'z que_st_scheme \<Rightarrow> kerr + u32 \<times> 'z que_st_scheme" where
  "qnode_alloc s =
     kbind (if free_qnodes s = NULL then qnode_add_page s else Inr s) (\<lambda>s.
       if free_qnodes s = NULL then Inr (NULL, s)
       else
         let tmp = free_qnodes s;
             s = s\<lparr>free_qnodes := qn_next (qn s tmp)\<rparr>;
             s = s\<lparr>qn := (qn s)(tmp := \<lparr>qn_data = None, qn_next = NULL\<rparr>)\<rparr>
         in Inr (tmp, s))"

section \<open>Queues\<close>

definition empty_queue :: queue_s where
  "empty_queue = \<lparr>q_head = NULL, q_tail = NULL, q_count = 0, q_compare = None\<rparr>"

definition que_init :: "'z que_st_scheme \<Rightarrow> kerr + 'z que_st_scheme" where
  "que_init s =
     qnode_add_page (s\<lparr>queues := replicate N_QUEUES empty_queue,
       queue_free := replicate N_QUEUES QUE_FREE, free_qnodes := NULL\<rparr>)"

text \<open>The search loops of the kernel: the first index below \<open>n\<close> that passes a test.\<close>

definition first_ix :: "(nat \<Rightarrow> bool) \<Rightarrow> nat \<Rightarrow> nat option" where
  "first_ix P n = List.find P [0..<n]"

definition que_alloc :: "nat option \<Rightarrow> 'z que_st_scheme \<Rightarrow> queue_t \<times> 'z que_st_scheme" where
  "que_alloc compare s =
     (case first_ix (\<lambda>i. queue_free s ! i \<noteq> 0) N_QUEUES of
        None \<Rightarrow> (None, s)
      | Some i \<Rightarrow>
          let s = s\<lparr>queue_free := (queue_free s)[i := QUE_INUSE]\<rparr>;
              s = s\<lparr>queues := (queues s)[i := empty_queue\<lparr>q_compare := compare\<rparr>]\<rparr>
          in (Some i, s))"

definition que_free :: "queue_t \<Rightarrow> 'z que_st_scheme \<Rightarrow> kerr + 'z que_st_scheme" where
  "que_free q s =
     (let ix = que_ix q in
      if ix < 0 then Inl Panic
      else if queue_free s ! nat ix \<noteq> 0 then Inl Panic
      else Inr (s\<lparr>queue_free := (queue_free s)[nat ix := QUE_FREE],
                  queues := (queues s)[nat ix := empty_queue]\<rparr>))"

definition que_length :: "queue_t \<Rightarrow> 'z que_st_scheme \<Rightarrow> kerr + int" where
  "que_length q s =
     (let ix = que_ix q in
      if ix < 0 then Inl Panic
      else if queue_free s ! nat ix \<noteq> 0 then Inl Panic
      else Inr (sint (q_count (queues s ! nat ix))))"

text \<open>A dereference of a queue pointer is undefined outside the array.\<close>

definition que_deref :: "queue_t \<Rightarrow> kerr + nat" where
  "que_deref q = (case q of None \<Rightarrow> Inl Undef | Some i \<Rightarrow> if i < N_QUEUES then Inr i else Inl Undef)"

definition upd_queue :: "nat \<Rightarrow> (queue_s \<Rightarrow> queue_s) \<Rightarrow> 'z que_st_scheme \<Rightarrow> 'z que_st_scheme" where
  "upd_queue i f s = s\<lparr>queues := (queues s)[i := f (queues s ! i)]\<rparr>"

text \<open>The part of \<^verbatim>\<open>que_insert()\<close> that links the new node \<open>a\<close>, which holds \<open>data\<close>, into queue \<open>i\<close>.\<close>

definition que_link ::
    "(nat \<Rightarrow> 'z que_st_scheme \<Rightarrow> qdata \<Rightarrow> qdata \<Rightarrow> kerr + int) \<Rightarrow> nat \<Rightarrow> u32 \<Rightarrow> qdata \<Rightarrow>
     'z que_st_scheme \<Rightarrow> kerr + ecode \<times> 'z que_st_scheme" where
  "que_link call i a data s =
     (let Q = queues s ! i in
      if q_count Q = 0
      then
        kbind (kassert (q_head Q = NULL \<and> q_tail Q = NULL)) (\<lambda>_.
          Inr (E_SUCCESS, upd_queue i (\<lambda>Q. Q\<lparr>q_head := a, q_tail := a, q_count := 1\<rparr>) s))
      else
        kbind (kassert (q_head Q \<noteq> NULL \<and> q_tail Q \<noteq> NULL)) (\<lambda>_.
          case q_compare Q of
            None \<Rightarrow>
              let s = set_qn_next (q_tail Q) a s
              in Inr (E_SUCCESS, upd_queue i (\<lambda>Q. Q\<lparr>q_tail := a, q_count := q_count Q + 1\<rparr>) s)
          | Some fcn \<Rightarrow>
              kbind (krun (walk
                  (\<lambda>c. kbind (call fcn s data (qn_data (qn s c))) (\<lambda>r. Inr (r \<ge> 0)))
                  (\<lambda>c. qn_next (qn s c)) NULL (q_head Q)))
                (\<lambda>(prev, cur).
                  let s = set_qn_next a cur s;
                      s = (if prev = NULL then upd_queue i (\<lambda>Q. Q\<lparr>q_head := a\<rparr>) s
                           else
                             let s = set_qn_next prev a s
                             in if cur = NULL then upd_queue i (\<lambda>Q. Q\<lparr>q_tail := a\<rparr>) s else s)
                  in Inr (E_SUCCESS, upd_queue i (\<lambda>Q. Q\<lparr>q_count := q_count Q + 1\<rparr>) s))))"

definition que_insert ::
    "(nat \<Rightarrow> 'z que_st_scheme \<Rightarrow> qdata \<Rightarrow> qdata \<Rightarrow> kerr + int) \<Rightarrow> queue_t \<Rightarrow> qdata \<Rightarrow>
     'z que_st_scheme \<Rightarrow> kerr + ecode \<times> 'z que_st_scheme" where
  "que_insert call q data s =
     kbind (kassert (que_ix q \<ge> 0)) (\<lambda>_.
     kbind (qnode_alloc s) (\<lambda>(a, s).
       if a = NULL then Inr (E_NO_QNODES, s)
       else que_link call (nat (que_ix q)) a data (set_qn_data a data s)))"

text \<open>
  The \<^verbatim>\<open>void **data\<close> parameter is \<open>None\<close> for a NULL pointer and otherwise the cell's content, which the
  operation returns updated.
\<close>

definition que_peek ::
    "queue_t \<Rightarrow> qdata option \<Rightarrow> 'z que_st_scheme \<Rightarrow> kerr + ecode \<times> qdata option" where
  "que_peek q data s =
     kbind (kassert (q \<noteq> None)) (\<lambda>_.
       if data = None then Inr (E_BAD_PARAM, data)
       else
         kbind (que_deref q) (\<lambda>i.
           let Q = queues s ! i in
           if q_count Q < 1 then Inr (E_EMPTY, data)
           else
             kbind (kassert (q_head Q \<noteq> NULL \<and> q_tail Q \<noteq> NULL)) (\<lambda>_.
               Inr (E_SUCCESS, Some (qn_data (qn s (q_head Q)))))))"

definition que_remove ::
    "queue_t \<Rightarrow> qdata option \<Rightarrow> 'z que_st_scheme \<Rightarrow> kerr + ecode \<times> qdata option \<times> 'z que_st_scheme" where
  "que_remove q data s =
     kbind (kassert (q \<noteq> None)) (\<lambda>_.
       if data = None then Inr (E_BAD_PARAM, data, s)
       else
         kbind (que_deref q) (\<lambda>i.
           let Q = queues s ! i in
           if q_count Q < 1 then Inr (E_EMPTY, data, s)
           else
             kbind (kassert (q_head Q \<noteq> NULL \<and> q_tail Q \<noteq> NULL)) (\<lambda>_.
               let a = q_head Q;
                   data = Some (qn_data (qn s a));
                   s = upd_queue i (\<lambda>Q. Q\<lparr>q_head := qn_next (qn s a)\<rparr>) s;
                   s = (if q_head (queues s ! i) = NULL then upd_queue i (\<lambda>Q. Q\<lparr>q_tail := NULL\<rparr>) s else s);
                   s = upd_queue i (\<lambda>Q. Q\<lparr>q_count := q_count Q - 1\<rparr>) s
               in kbind (qnode_free a s) (\<lambda>s. Inr (E_SUCCESS, data, s)))))"

definition que_remove_by ::
    "queue_t \<Rightarrow> qdata \<Rightarrow> 'z que_st_scheme \<Rightarrow> kerr + ecode \<times> 'z que_st_scheme" where
  "que_remove_by q data s =
     kbind (kassert (q \<noteq> None)) (\<lambda>_.
       if data = None then Inr (E_BAD_PARAM, s)
       else
         kbind (que_deref q) (\<lambda>i.
           let Q = queues s ! i in
           if q_count Q < 1 then Inr (E_EMPTY, s)
           else
             kbind (kassert (q_head Q \<noteq> NULL \<and> q_tail Q \<noteq> NULL)) (\<lambda>_.
             kbind (krun (walk (\<lambda>c. Inr (data \<noteq> qn_data (qn s c))) (\<lambda>c. qn_next (qn s c)) NULL (q_head Q)))
               (\<lambda>(prev, cur).
                 if cur = NULL then Inr (E_NOT_FOUND, s)
                 else
                   let nxt = qn_next (qn s cur);
                       s = (if prev = NULL then upd_queue i (\<lambda>Q. Q\<lparr>q_head := nxt\<rparr>) s
                            else set_qn_next prev nxt s);
                       s = (if nxt = NULL then upd_queue i (\<lambda>Q. Q\<lparr>q_tail := prev\<rparr>) s else s);
                       s = upd_queue i (\<lambda>Q. Q\<lparr>q_count := q_count Q - 1\<rparr>) s
                   in kbind (qnode_free cur s) (\<lambda>s. Inr (E_SUCCESS, s))))))"

section \<open>Representation\<close>

abbreviation "q_next s \<equiv> (\<lambda>a. qn_next (qn s a))"

text \<open>Queue \<open>i\<close> is the chain of nodes \<open>as\<close>.\<close>

definition q_chain :: "'z que_st_scheme \<Rightarrow> nat \<Rightarrow> u32 list \<Rightarrow> bool" where
  "q_chain s i as \<longleftrightarrow> llist (q_next s) (q_head (queues s ! i)) as \<and>
     q_tail (queues s ! i) = last (0 # as) \<and> unat (q_count (queues s ! i)) = length as"

text \<open>
  \<open>que_rep s bs fs N\<close>: the page list is \<open>bs\<close>, the free nodes are \<open>fs\<close> and queue \<open>i\<close> consists of the nodes
  \<open>N i\<close>; these lists share no node, and no node lies in a free page.
\<close>

definition que_rep :: "'z que_st_scheme \<Rightarrow> blocks \<Rightarrow> u32 list \<Rightarrow> (nat \<Rightarrow> u32 list) \<Rightarrow> bool" where
  "que_rep s bs fs N \<longleftrightarrow> kmem_abs s bs \<and> length (queues s) = N_QUEUES \<and> length (queue_free s) = N_QUEUES \<and>
     llist (q_next s) (free_qnodes s) fs \<and> (\<forall>i < N_QUEUES. q_chain s i (N i)) \<and>
     (\<forall>i < N_QUEUES. set fs \<inter> set (N i) = {}) \<and>
     (\<forall>i < N_QUEUES. \<forall>j < N_QUEUES. i \<noteq> j \<longrightarrow> set (N i) \<inter> set (N j) = {}) \<and>
     (\<forall>a \<in> set fs. unat a \<notin> free_cells bs) \<and>
     (\<forall>i < N_QUEUES. \<forall>a \<in> set (N i). unat a \<notin> free_cells bs)"

text \<open>The contents of the queues, as their users see them.\<close>

definition que_abs :: "'z que_st_scheme \<Rightarrow> blocks \<Rightarrow> (nat \<Rightarrow> qdata list) \<Rightarrow> bool" where
  "que_abs s bs Q \<longleftrightarrow> (\<exists>fs N. que_rep s bs fs N \<and>
     (\<forall>i < N_QUEUES. Q i = map (\<lambda>a. qn_data (qn s a)) (N i)))"

text \<open>What the queue operations leave alone.\<close>

definition que_frame :: "'z que_st_scheme \<Rightarrow> 'z que_st_scheme \<Rightarrow> bool" where
  "que_frame s s' \<longleftrightarrow> que_st.more s' = que_st.more s \<and> mem s' = mem s \<and> io_in s' = io_in s \<and> io_out s' = io_out s \<and>
     queue_free s' = queue_free s \<and> map q_compare (queues s') = map q_compare (queues s)"

lemma kmem_abs_cong:
  assumes "blk s' = blk s" "free_pages s' = free_pages s" "n_pages s' = n_pages s"
    "km_initialized s' = km_initialized s"
  shows "kmem_abs s' bs = kmem_abs s bs"
  using assms by (simp add: kmem_abs_def blocks_of_def)

lemma que_fields [simp]:
  "qn_next (qn (set_qn_next a v s) x) = (if x = a then v else qn_next (qn s x))"
  "qn_data (qn (set_qn_next a v s) x) = qn_data (qn s x)"
  "qn_next (qn (set_qn_data a d s) x) = qn_next (qn s x)"
  "qn_data (qn (set_qn_data a d s) x) = (if x = a then d else qn_data (qn s x))"
  "queues (set_qn_next a v s) = queues s" "queues (set_qn_data a d s) = queues s"
  "free_qnodes (set_qn_next a v s) = free_qnodes s" "free_qnodes (set_qn_data a d s) = free_qnodes s"
  "kmem_abs (set_qn_next a v s) bs = kmem_abs s bs" "kmem_abs (set_qn_data a d s) bs = kmem_abs s bs"
  "kmem_abs (upd_queue i f s) bs = kmem_abs s bs" "kmem_abs (s\<lparr>free_qnodes := v\<rparr>) bs = kmem_abs s bs"
  "kmem_abs (s\<lparr>queues := qs\<rparr>) bs = kmem_abs s bs" "kmem_abs (s\<lparr>queue_free := fl\<rparr>) bs = kmem_abs s bs"
  "queue_free (set_qn_next a v s) = queue_free s" "queue_free (set_qn_data a d s) = queue_free s"
  "queue_free (upd_queue i f s) = queue_free s"
  "qn (upd_queue i f s) = qn s" "free_qnodes (upd_queue i f s) = free_qnodes s"
  "queues (upd_queue i f s) = (queues s)[i := f (queues s ! i)]"
  by (simp_all add: set_qn_next_def set_qn_data_def upd_queue_def kmem_abs_def blocks_of_def)

lemma que_frame_refl [simp]: "que_frame s s"
  by (simp add: que_frame_def)

lemma que_frame_trans: "que_frame s t \<Longrightarrow> que_frame t u \<Longrightarrow> que_frame s u"
  by (simp add: que_frame_def)

lemma que_frame_upd [simp]:
  "que_frame s (set_qn_next a v t) = que_frame s t"
  "que_frame s (set_qn_data a d t) = que_frame s t"
  "que_frame s (t\<lparr>free_qnodes := v\<rparr>) = que_frame s t"
  by (simp_all add: que_frame_def set_qn_next_def set_qn_data_def)

lemma que_frame_upd_queue:
  assumes "que_frame s t" and "q_compare (f (queues t ! i)) = q_compare (queues t ! i)"
  shows "que_frame s (upd_queue i f t)"
proof -
  have "map q_compare ((queues t)[i := f (queues t ! i)]) = map q_compare (queues t)"
    using assms(2) by (intro nth_equalityI) (simp_all, metis nth_list_update_eq nth_list_update_neq)
  then show ?thesis using assms(1) by (simp add: que_frame_def upd_queue_def)
qed

lemma llist_length: "llist nx p as \<Longrightarrow> length as < 2 ^ 32"
proof -
  assume l: "llist nx p as"
  have "set as \<subseteq> UNIV - {0}" using lseg_nonnull [OF l] by auto
  then have "card (set as) \<le> card (UNIV - {0 :: u32})" by (intro card_mono) auto
  also have "\<dots> < 2 ^ 32" by (simp add: card_word)
  finally show ?thesis using distinct_card [OF llist_distinct [OF l]] by simp
qed

lemma que_rep_update:
  assumes "que_rep s bs fs N" and "i < N_QUEUES" and "kmem_abs s' bs"
    and "length (queues s') = N_QUEUES" and "length (queue_free s') = N_QUEUES"
    and "\<And>j. j < N_QUEUES \<Longrightarrow> j \<noteq> i \<Longrightarrow> queues s' ! j = queues s ! j"
    and "\<And>j x. j < N_QUEUES \<Longrightarrow> j \<noteq> i \<Longrightarrow> x \<in> set (N j) \<Longrightarrow> qn_next (qn s' x) = qn_next (qn s x)"
    and "llist (q_next s') (free_qnodes s') fs'" and "q_chain s' i as" and "set fs' \<inter> set as = {}"
    and "\<And>x. x \<in> set fs' \<union> set as \<Longrightarrow> unat x \<notin> free_cells bs"
    and "\<And>x j. x \<in> set fs' \<union> set as \<Longrightarrow> j < N_QUEUES \<Longrightarrow> j \<noteq> i \<Longrightarrow> x \<notin> set (N j)"
  shows "que_rep s' bs fs' (N(i := as))"
proof -
  have chain: "q_chain s' j (N j)" if "j < N_QUEUES" "j \<noteq> i" for j
  proof -
    have "lseg (q_next s') p (N j) 0 = lseg (q_next s) p (N j) 0" for p
      by (rule lseg_cong) (rule assms(7) [OF that])
    then show ?thesis using assms(1) that by (simp add: que_rep_def q_chain_def assms(6))
  qed
  have "set (N j) \<inter> set (N k) = {}" if "j < N_QUEUES" "k < N_QUEUES" "j \<noteq> k" for j k
    using assms(1) that by (simp add: que_rep_def)
  moreover have "\<forall>j < N_QUEUES. \<forall>a \<in> set (N j). unat a \<notin> free_cells bs"
    using assms(1) by (simp add: que_rep_def)
  moreover have "set fs' \<inter> set (N j) = {}" "set as \<inter> set (N j) = {}" if "j < N_QUEUES" "j \<noteq> i" for j
    using assms(12) [OF _ that] by auto
  ultimately show ?thesis
    using assms(2-5,8-11) chain by (auto simp: que_rep_def Int_commute)
qed

section \<open>Node allocation\<close>

lemma qnode_free_rep:
  assumes "que_rep s bs fs N" and "a \<noteq> 0" and "a \<notin> set fs" and "unat a \<notin> free_cells bs"
    and "\<forall>i < N_QUEUES. a \<notin> set (N i)"
  shows "\<exists>s'. qnode_free a s = Inr s' \<and> que_rep s' bs (a # fs) N \<and> que_frame s s' \<and>
    (\<forall>x. qn_data (qn s' x) = qn_data (qn s x)) \<and> queues s' = queues s"
proof -
  let ?s = "(set_qn_next a (free_qnodes s) s)\<lparr>free_qnodes := a\<rparr>"
  have "lseg (q_next ?s) p xs 0 = lseg (q_next s) p xs 0" if "a \<notin> set xs" for p xs
    using that by (intro lseg_cong) auto
  then have "que_rep ?s bs (a # fs) N"
    using assms by (auto simp: que_rep_def q_chain_def)
  then show ?thesis using assms(2) by (intro exI [of _ ?s]) (simp add: qnode_free_def Let_def)
qed

text \<open>The nodes of a page, last one first, as the loop of \<^verbatim>\<open>qnode_add_page()\<close> leaves them.\<close>

fun page_nodes :: "nat \<Rightarrow> u32 \<Rightarrow> u32 list" where
  "page_nodes 0 p = []"
| "page_nodes (Suc n) p = page_nodes n (p + 8) @ [p]"

lemma length_page_nodes: "length (page_nodes n p) = n"
  by (induction n arbitrary: p) simp_all

lemma qnode_add_loop_rep:
  assumes "que_rep s bs fs N" and "distinct (page_nodes n p @ fs)" and "0 \<notin> set (page_nodes n p)"
    and "\<forall>a \<in> set (page_nodes n p). unat a \<notin> free_cells bs \<and> (\<forall>i < N_QUEUES. a \<notin> set (N i))"
  shows "\<exists>s'. qnode_add_loop n p s = Inr s' \<and> que_rep s' bs (page_nodes n p @ fs) N \<and> que_frame s s' \<and>
    (\<forall>x. qn_data (qn s' x) = qn_data (qn s x)) \<and> queues s' = queues s"
  using assms
proof (induction n arbitrary: p s fs)
  case (Suc n)
  obtain s1 where s1: "qnode_free p s = Inr s1" "que_rep s1 bs (p # fs) N" "que_frame s s1"
    "\<forall>x. qn_data (qn s1 x) = qn_data (qn s x)" "queues s1 = queues s"
    using qnode_free_rep [OF Suc.prems(1), of p] Suc.prems(2-4) by auto
  obtain s' where "qnode_add_loop n (p + 8) s1 = Inr s'" "que_rep s' bs (page_nodes n (p + 8) @ p # fs) N"
    "que_frame s1 s'" "\<forall>x. qn_data (qn s' x) = qn_data (qn s1 x)" "queues s' = queues s1"
    using Suc.IH [OF s1(2), of "p + 8"] Suc.prems(2-4) by auto
  then show ?case using s1 by (auto intro: que_frame_trans)
qed simp

lemma page_nodes_set: "set (page_nodes n p) = (\<lambda>i. p + 8 * of_nat i) ` {..<n}"
proof (induction n arbitrary: p)
  case (Suc n)
  have "(\<lambda>i. p + 8 * of_nat i) ` {..<Suc n} = insert p ((\<lambda>i. p + 8 + 8 * of_nat i) ` {..<n})"
    unfolding lessThan_Suc_eq_insert_0 by (simp add: image_image algebra_simps)
  then show ?case using Suc.IH [of "p + 8"] by simp
qed simp

lemma page_nodes_bounds:
  assumes "unat p + 8 * n < 2 ^ 32" and "a \<in> set (page_nodes n p)"
  shows "unat p \<le> unat a" and "unat a < unat p + 8 * n"
proof -
  obtain i where i: "i < n" "a = p + 8 * of_nat i" using assms(2) by (auto simp: page_nodes_set)
  have "unat (p + of_nat (8 * i)) = unat p + 8 * i"
    using assms(1) i by (intro unat_add_of_nat) simp
  then show "unat p \<le> unat a" "unat a < unat p + 8 * n" using i by simp_all
qed

lemma page_nodes_distinct: "unat p + 8 * n < 2 ^ 32 \<Longrightarrow> distinct (page_nodes n p)"
proof (induction n arbitrary: p)
  case (Suc n)
  have u: "unat (p + 8) = unat p + 8" using Suc.prems unat_add_of_nat [of p 8] by simp
  have "p \<notin> set (page_nodes n (p + 8))"
    using page_nodes_bounds(1) [of "p + 8" n p] Suc.prems u by auto
  then show ?case using Suc u by simp
qed simp

lemma kmem_more:
  assumes "kmem_st.more s = kmem_st.more t"
  shows "qn s = qn t" and "free_qnodes s = free_qnodes t" and "queues s = queues t"
    and "queue_free s = queue_free t" and "que_st.more s = que_st.more t"
  using assms by (cases s; cases t; simp)+

lemma km_page_alloc_more:
  assumes "km_page_alloc k s = Inr (r, s')"
  shows "kmem_st.more s' = kmem_st.more s" and "io_in s' = io_in s" and "io_out s' = io_out s"
  using assms
  by (auto simp: km_page_alloc_def Let_def set_link_def set_blk_next_def set_blk_pages_def kbind_eq_Inr
      split: if_splits)

lemma qnode_add_page_rep:
  assumes rep: "que_rep s bs [] N"
  shows "case alloc_blocks 1 bs of
      None \<Rightarrow> qnode_add_page s = Inl Panic
    | Some (r, bs') \<Rightarrow> \<exists>s'. qnode_add_page s = Inr s' \<and> que_frame s s' \<and> queues s' = queues s \<and>
        que_rep s' bs' (page_nodes 512 (of_nat r)) N \<and> (\<forall>x. qn_data (qn s' x) = qn_data (qn s x))"
proof (cases "alloc_blocks 1 bs")
  case None
  then have "km_page_alloc 1 s = Inr (0, s)"
    using km_page_alloc_refines [of s bs 1] rep by (simp add: que_rep_def)
  then show ?thesis using None by (simp add: qnode_add_page_def)
next
  case (Some rb)
  obtain r bs' where rb: "rb = (r, bs')" by force
  have abs: "kmem_abs s bs" using rep by (simp add: que_rep_def)
  obtain s1 where run: "km_page_alloc 1 s = Inr (of_nat r, s1)" and abs1: "kmem_abs s1 bs'"
    using km_page_alloc_refines [OF abs, of 1] Some rb by auto
  note fr = km_page_alloc_frame [OF run] and mo = km_page_alloc_more [OF run]
  note same = kmem_more [OF mo(1)]
  have wf: "wf_blocks 1 bs" using abs by (simp add: kmem_abs_def)
  note post = alloc_blocks_Some [OF Some [unfolded rb] wf, simplified]
  have r: "unat (of_nat r :: u32) = r" using post(4) by (intro unat_of_nat_small) simp
  have r0: "(of_nat r :: u32) \<noteq> 0" using r post(2) by (metis not_one_le_zero unat_0 One_nat_def)
  have rep1: "que_rep s1 bs' [] N"
    using rep abs1 post(5) by (auto simp: que_rep_def q_chain_def same)
  have in_page: "unat a \<in> extent r 1" if "a \<in> set (page_nodes 512 (of_nat r))" for a
    using page_nodes_bounds [OF _ that] r post(4) by (auto simp: extent_def)
  have nz: "0 \<notin> set (page_nodes 512 (of_nat r))"
    using in_page [of 0] post(2) by (auto simp: extent_def)
  have fresh: "\<forall>a \<in> set (page_nodes 512 (of_nat r)). unat a \<notin> free_cells bs' \<and> (\<forall>i < N_QUEUES. a \<notin> set (N i))"
  proof (intro ballI conjI allI impI notI)
    fix a i assume a: "a \<in> set (page_nodes 512 (of_nat r))"
    show False if "unat a \<in> free_cells bs'" using in_page [OF a] post(6) that by auto
    show False if "i < N_QUEUES" "a \<in> set (N i)"
      using in_page [OF a] post(5) rep that unfolding que_rep_def by auto
  qed
  have "distinct (page_nodes 512 (of_nat r) @ [])" using page_nodes_distinct [of "of_nat r" 512] r post(4) by simp
  from qnode_add_loop_rep [OF rep1 this nz fresh] obtain s' where
    "qnode_add_loop 512 (of_nat r) s1 = Inr s'" "que_rep s' bs' (page_nodes 512 (of_nat r)) N"
    "que_frame s1 s'" "\<forall>x. qn_data (qn s' x) = qn_data (qn s1 x)" "queues s' = queues s1" by auto
  moreover have "que_frame s s1" using fr mo same by (simp add: que_frame_def)
  ultimately show ?thesis
    using run r0 Some rb same by (auto simp: qnode_add_page_def QNODES_PER_PAGE_def intro: que_frame_trans)
qed

lemma page_nodes_512: "page_nodes 512 p \<noteq> []"
proof -
  have "p + 8 * of_nat 0 \<in> set (page_nodes 512 p)" unfolding page_nodes_set by (rule imageI) simp
  then show ?thesis by auto
qed

text \<open>\<open>node_supply s bs\<close>: a node can be had without a panic.\<close>

definition node_supply :: "'z que_st_scheme \<Rightarrow> blocks \<Rightarrow> bool" where
  "node_supply s bs \<longleftrightarrow> free_qnodes s \<noteq> NULL \<or> alloc_blocks 1 bs \<noteq> None"

lemma qnode_take:
  assumes "que_rep s bs (a # fs) N"
  shows "\<exists>s'. qnode_alloc s = Inr (a, s') \<and> a \<noteq> 0 \<and> que_rep s' bs fs N \<and> a \<notin> set fs \<and>
    (\<forall>i < N_QUEUES. a \<notin> set (N i)) \<and> unat a \<notin> free_cells bs \<and> que_frame s s' \<and> queues s' = queues s \<and>
    qn_next (qn s' a) = 0 \<and> (\<forall>x. x \<noteq> a \<longrightarrow> qn_data (qn s' x) = qn_data (qn s x))"
proof -
  let ?s = "s\<lparr>free_qnodes := qn_next (qn s a), qn := (qn s)(a := \<lparr>qn_data = None, qn_next = NULL\<rparr>)\<rparr>"
  have l: "llist (q_next s) (free_qnodes s) (a # fs)" using assms by (simp add: que_rep_def)
  have a: "a \<noteq> 0" "free_qnodes s = a" "a \<notin> set fs" using l llist_distinct [OF l] by auto
  have "lseg (q_next ?s) p xs 0 = lseg (q_next s) p xs 0" if "a \<notin> set xs" for p xs
    using that by (intro lseg_cong) auto
  moreover have N: "\<forall>i < N_QUEUES. a \<notin> set (N i)" "unat a \<notin> free_cells bs"
    using assms by (auto simp: que_rep_def)
  ultimately have "que_rep ?s bs fs N"
    using assms a l by (auto simp: que_rep_def q_chain_def kmem_abs_cong [of ?s s])
  then show ?thesis
    using a N by (intro exI [of _ ?s]) (simp add: qnode_alloc_def Let_def que_frame_def)
qed

lemma qnode_alloc_rep:
  assumes rep: "que_rep s bs fs N" and sup: "node_supply s bs"
  shows "\<exists>a s' bs' fs'. qnode_alloc s = Inr (a, s') \<and> a \<noteq> 0 \<and> que_rep s' bs' fs' N \<and> a \<notin> set fs' \<and>
    (\<forall>i < N_QUEUES. a \<notin> set (N i)) \<and> unat a \<notin> free_cells bs' \<and> que_frame s s' \<and> queues s' = queues s \<and>
    qn_next (qn s' a) = 0 \<and> (\<forall>x. x \<noteq> a \<longrightarrow> qn_data (qn s' x) = qn_data (qn s x)) \<and>
    (free_qnodes s \<noteq> 0 \<longrightarrow> bs' = bs \<and> fs' = tl fs)"
proof (cases fs)
  case (Cons a fs')
  with qnode_take [of s bs a fs' N] rep show ?thesis by fastforce
next
  case Nil
  then have e: "free_qnodes s = 0" using rep by (simp add: que_rep_def)
  then obtain r bs' where al: "alloc_blocks 1 bs = Some (r, bs')" using sup by (auto simp: node_supply_def)
  obtain s1 where s1: "qnode_add_page s = Inr s1" "que_frame s s1" "queues s1 = queues s"
    "que_rep s1 bs' (page_nodes 512 (of_nat r)) N" "\<forall>x. qn_data (qn s1 x) = qn_data (qn s x)"
    using qnode_add_page_rep [of s bs N] rep Nil al by auto
  obtain a fs' where fs': "page_nodes 512 (of_nat r) = a # fs'" using page_nodes_512 by (cases "page_nodes 512 (of_nat r)") auto
  have "free_qnodes s1 \<noteq> 0" using s1(4) fs' by (auto simp: que_rep_def)
  then have "qnode_alloc s = qnode_alloc s1" using e s1(1) by (simp add: qnode_alloc_def)
  moreover obtain s' where s': "qnode_alloc s1 = Inr (a, s')" "a \<noteq> 0" "que_rep s' bs' fs' N" "a \<notin> set fs'"
    "\<forall>i < N_QUEUES. a \<notin> set (N i)" "unat a \<notin> free_cells bs'" "que_frame s1 s'" "queues s' = queues s1"
    "qn_next (qn s' a) = 0" "\<forall>x. x \<noteq> a \<longrightarrow> qn_data (qn s' x) = qn_data (qn s1 x)"
    using qnode_take [OF s1(4) [unfolded fs']] by blast
  ultimately show ?thesis
    using s1 e que_frame_trans [OF s1(2) s'(7)]
    by (intro exI [of _ a] exI [of _ s'] exI [of _ bs'] exI [of _ fs']) simp
qed

section \<open>Linking and unlinking a node\<close>

lemma lseg_redirect:
  assumes "lseg nx p ps q" and "distinct ps" and "\<And>x. x \<in> set (butlast ps) \<Longrightarrow> nx' x = nx x"
    and "ps \<noteq> [] \<Longrightarrow> nx' (last ps) = r"
  shows "lseg nx' (if ps = [] then r else p) ps r"
proof (cases "ps = []")
  case False
  have "lseg (nx(last ps := r)) p ps r" by (rule lseg_relink [OF assms(1) False assms(2)])
  moreover have "lseg nx' p ps r = lseg (nx(last ps := r)) p ps r"
  proof (rule lseg_cong)
    fix x assume "x \<in> set ps"
    then show "nx' x = (nx(last ps := r)) x"
      using assms(3,4) False by (cases ps rule: rev_cases) auto
  qed
  ultimately show ?thesis using False by simp
qed simp

lemma q_chain_insert:
  assumes ch: "q_chain s i (ps @ cs)" and a: "a \<notin> set (ps @ cs)" "a \<noteq> 0"
    and nx: "\<And>x. x \<in> set (butlast ps) \<union> set cs \<Longrightarrow> qn_next (qn s' x) = qn_next (qn s x)"
      "qn_next (qn s' a) = front cs" "ps \<noteq> [] \<Longrightarrow> qn_next (qn s' (last ps)) = a"
    and hd: "q_head (queues s' ! i) = (if ps = [] then a else q_head (queues s ! i))"
    and tl: "q_tail (queues s' ! i) = (if cs = [] then a else q_tail (queues s ! i))"
    and ct: "q_count (queues s' ! i) = q_count (queues s ! i) + 1"
  shows "q_chain s' i (ps @ a # cs)"
proof -
  let ?h = "q_head (queues s ! i)"
  have l: "llist (q_next s) ?h (ps @ cs)" using ch by (simp add: q_chain_def)
  have sp: "lseg (q_next s) ?h ps (front cs)" "llist (q_next s) (front cs) cs" using l by (simp_all add: lseg_split)
  have "lseg (q_next s') (q_head (queues s' ! i)) ps a"
    unfolding hd by (rule lseg_redirect [OF sp(1)]) (use llist_distinct [OF l] nx in auto)
  moreover have "llist (q_next s') (front cs) cs"
    using sp(2) nx(1) by (subst lseg_cong [where nx' = "q_next s"]) auto
  ultimately have l': "llist (q_next s') (q_head (queues s' ! i)) (ps @ a # cs)"
    using a nx(2) by (auto simp: lseg_append)
  have "unat (q_count (queues s' ! i)) = length (ps @ a # cs)"
    using llist_length [OF l'] ch by (simp add: q_chain_def ct unat_word_ariths)
  moreover have "q_tail (queues s' ! i) = last (0 # ps @ a # cs)"
    using ch by (simp add: q_chain_def tl)
  ultimately show ?thesis using l' by (simp add: q_chain_def)
qed

lemma q_chain_delete:
  assumes ch: "q_chain s i (ps @ a # cs)"
    and nx: "\<And>x. x \<in> set (butlast ps) \<union> set cs \<Longrightarrow> qn_next (qn s' x) = qn_next (qn s x)"
      "ps \<noteq> [] \<Longrightarrow> qn_next (qn s' (last ps)) = front cs"
    and hd: "q_head (queues s' ! i) = (if ps = [] then front cs else q_head (queues s ! i))"
    and tl: "q_tail (queues s' ! i) = (if cs = [] then last (0 # ps) else q_tail (queues s ! i))"
    and ct: "q_count (queues s' ! i) = q_count (queues s ! i) - 1"
  shows "q_chain s' i (ps @ cs)"
proof -
  let ?h = "q_head (queues s ! i)"
  have l: "llist (q_next s) ?h (ps @ a # cs)" using ch by (simp add: q_chain_def)
  have sp: "lseg (q_next s) ?h ps a" "llist (q_next s) (qn_next (qn s a)) cs"
    using l by (auto simp: lseg_append)
  have fr: "qn_next (qn s a) = front cs" using lseg_front [OF sp(2)] .
  have "lseg (q_next s') (q_head (queues s' ! i)) ps (front cs)"
    unfolding hd by (rule lseg_redirect [OF sp(1)]) (use llist_distinct [OF l] nx in auto)
  moreover have "llist (q_next s') (front cs) cs"
    using sp(2) nx(1) fr by (subst lseg_cong [where nx' = "q_next s"]) auto
  ultimately have "llist (q_next s') (q_head (queues s' ! i)) (ps @ cs)" by (auto simp: lseg_append)
  moreover have "1 \<le> unat (q_count (queues s ! i))" using ch by (simp add: q_chain_def)
  then have "unat (q_count (queues s' ! i)) = length (ps @ cs)"
    using ch by (simp add: q_chain_def ct unat_sub_if')
  moreover have "q_tail (queues s' ! i) = last (0 # ps @ cs)" using ch by (simp add: q_chain_def tl)
  ultimately show ?thesis by (simp add: q_chain_def)
qed

section \<open>Queue operations on sequences\<close>

text \<open>Where a value goes: at the end of a FIFO queue, otherwise before the first value it must precede.\<close>

definition que_place :: "(qdata \<Rightarrow> int) option \<Rightarrow> qdata \<Rightarrow> qdata list \<Rightarrow> qdata list" where
  "que_place ord d xs = (case ord of None \<Rightarrow> xs @ [d]
     | Some c \<Rightarrow> takeWhile (\<lambda>x. 0 \<le> c x) xs @ d # dropWhile (\<lambda>x. 0 \<le> c x) xs)"

text \<open>\<open>ord\<close> is what the comparison function of queue \<open>i\<close> says of \<open>d\<close> and the values in the queue, in every
  state that agrees with \<open>s\<close> outside the queue module.\<close>

definition orders ::
    "(nat \<Rightarrow> 'z que_st_scheme \<Rightarrow> qdata \<Rightarrow> qdata \<Rightarrow> kerr + int) \<Rightarrow> 'z que_st_scheme \<Rightarrow> nat \<Rightarrow>
     qdata \<Rightarrow> qdata list \<Rightarrow> (qdata \<Rightarrow> int) option \<Rightarrow> bool" where
  "orders call s i d xs ord \<longleftrightarrow> (case q_compare (queues s ! i) of
       None \<Rightarrow> ord = None
     | Some f \<Rightarrow> \<exists>c. ord = Some c \<and>
         (\<forall>s1. que_st.more s1 = que_st.more s \<longrightarrow> (\<forall>x \<in> set xs. call f s1 d x = Inr (c x))))"

lemma que_insert_ordered:
  assumes ch: "q_chain s i (as)" and i: "i < length (queues s)" and a: "a \<notin> set (as)" "a \<noteq> 0" "as \<noteq> []"
    and cmp: "\<forall>c \<in> set (as). call f s d (qn_data (qn s c)) = Inr (k (qn_data (qn s c)))"
    and ps: "ps = takeWhile (\<lambda>c. 0 \<le> k (qn_data (qn s c))) (as)"
    and cs: "cs = dropWhile (\<lambda>c. 0 \<le> k (qn_data (qn s c))) (as)"
  shows "walk (\<lambda>c. kbind (call f s d (qn_data (qn s c))) (\<lambda>r. Inr (r \<ge> 0))) (q_next s) NULL (q_head (queues s ! i))
      = Some (Inr (last (0 # ps), front cs))" (is ?walk)
    and "q_chain (upd_queue i (\<lambda>Q. Q\<lparr>q_count := q_count Q + 1\<rparr>)
        (if last (0 # ps) = NULL then upd_queue i (\<lambda>Q. Q\<lparr>q_head := a\<rparr>) (set_qn_next a (front cs) s)
         else if front cs = NULL
         then upd_queue i (\<lambda>Q. Q\<lparr>q_tail := a\<rparr>) (set_qn_next (last (0 # ps)) a (set_qn_next a (front cs) s))
         else set_qn_next (last (0 # ps)) a (set_qn_next a (front cs) s))) i (ps @ a # cs)" (is ?chain)
proof -
  have l: "llist (q_next s) (q_head (queues s ! i)) (as)" using ch by (simp add: q_chain_def)
  show ?walk unfolding ps cs by (rule walk_llist [OF l]) (use cmp in simp)
  have N: "as = ps @ cs" by (simp add: ps cs)
  have dist: "distinct (ps @ cs)" "0 \<notin> set (ps @ cs)"
    using llist_distinct [OF l] lseg_nonnull [OF l] by (simp_all add: N)
  have p0: "ps \<noteq> [] \<Longrightarrow> last ps \<noteq> 0" and c0: "front cs = 0 \<longleftrightarrow> cs = []"
    using dist(2) by (cases ps rule: rev_cases; cases cs; auto simp: front_def)+
  have bl: "x \<noteq> last ps" if "x \<in> set (butlast ps) \<union> set cs" "ps \<noteq> []" for x
    using dist(1) that by (cases ps rule: rev_cases) auto
  have ab: "a \<noteq> x" if "x \<in> set (butlast ps) \<union> set cs" for x
    using a that by (auto simp: N dest: in_set_butlastD)
  have al: "a \<noteq> last ps" if "ps \<noteq> []" using a that by (auto simp: N)
  show ?chain
    by (rule q_chain_insert [OF ch [unfolded N]])
      (use a i bl ab al p0 in \<open>auto simp: N c0 split: if_splits\<close>)
qed

lemma que_rep_disjoint:
  "que_rep s bs fs N \<Longrightarrow> i < N_QUEUES \<Longrightarrow> j < N_QUEUES \<Longrightarrow> i \<noteq> j \<Longrightarrow> set (N i) \<inter> set (N j) = {}"
  by (simp add: que_rep_def)

lemma que_rep_nodes:
  assumes "que_rep s bs fs N" and "i < N_QUEUES"
  shows "q_chain s i (N i)" and "i < length (queues s)" and "llist (q_next s) (q_head (queues s ! i)) (N i)"
    and "q_count (queues s ! i) = 0 \<longleftrightarrow> N i = []"
    and "N i = [] \<Longrightarrow> q_head (queues s ! i) = 0 \<and> q_tail (queues s ! i) = 0"
    and "N i \<noteq> [] \<Longrightarrow> q_head (queues s ! i) \<noteq> 0 \<and> q_tail (queues s ! i) \<noteq> 0"
proof -
  show ch: "q_chain s i (N i)" and "i < length (queues s)" using assms by (simp_all add: que_rep_def)
  then show l: "llist (q_next s) (q_head (queues s ! i)) (N i)" by (simp add: q_chain_def)
  show "q_count (queues s ! i) = 0 \<longleftrightarrow> N i = []"
    using ch unfolding q_chain_def by (metis length_0_conv unat_eq_0)
  show "N i = [] \<Longrightarrow> q_head (queues s ! i) = 0 \<and> q_tail (queues s ! i) = 0"
    using ch by (simp add: q_chain_def)
  show "q_head (queues s ! i) \<noteq> 0 \<and> q_tail (queues s ! i) \<noteq> 0" if "N i \<noteq> []"
  proof
    show "q_head (queues s ! i) \<noteq> 0" using l that by (metis llist_null)
    show "q_tail (queues s ! i) \<noteq> 0"
      using ch last_nonnull [OF lseg_nonnull [OF l] that] that by (simp add: q_chain_def)
  qed
qed

lemma takeWhile_map_data:
  "map g (takeWhile (\<lambda>c. P (g c)) xs @ a # dropWhile (\<lambda>c. P (g c)) xs) =
     takeWhile P (map g xs) @ g a # dropWhile P (map g xs)"
  by (simp add: takeWhile_map dropWhile_map comp_def)

text \<open>Adding a fresh node to a queue.\<close>

lemma que_rep_enqueue:
  assumes rep: "que_rep s bs fs N" and i: "i < N_QUEUES" and frame: "que_frame s s'"
    and same: "kmem_abs s' bs" "free_qnodes s' = free_qnodes s" "length (queues s') = length (queues s)"
      "\<And>j. j \<noteq> i \<Longrightarrow> queues s' ! j = queues s ! j"
      "\<And>x. x \<noteq> a \<Longrightarrow> x \<notin> set (N i) \<Longrightarrow> qn_next (qn s' x) = qn_next (qn s x)"
    and ch: "q_chain s' i as" and as: "set as = insert a (set (N i))"
    and a: "a \<notin> set fs" "\<forall>j < N_QUEUES. a \<notin> set (N j)" "unat a \<notin> free_cells bs"
  shows "que_rep s' bs fs (N(i := as))"
proof (rule que_rep_update [OF rep i same(1)])
  show "length (queues s') = N_QUEUES" "length (queue_free s') = N_QUEUES"
    using rep same frame by (auto simp: que_rep_def que_frame_def)
  have l: "llist (q_next s) (free_qnodes s) fs" "set fs \<inter> set (N i) = {}"
    using rep i by (auto simp: que_rep_def)
  have "lseg (q_next s') (free_qnodes s) fs 0 = lseg (q_next s) (free_qnodes s) fs 0"
    by (rule lseg_cong) (rule same(5), use a l in auto)
  then show "llist (q_next s') (free_qnodes s') fs" using l same by simp
  show "set fs \<inter> set as = {}" using as l a by auto
  fix x j
  show "unat x \<notin> free_cells bs" if "x \<in> set fs \<union> set as"
    using rep i that as a by (auto simp: que_rep_def)
  show "x \<notin> set (N j)" if "x \<in> set fs \<union> set as" "j < N_QUEUES" "j \<noteq> i"
  proof -
    have "set fs \<inter> set (N j) = {}" "set (N i) \<inter> set (N j) = {}" using rep i that by (simp_all add: que_rep_def)
    then show ?thesis using that a as by auto
  qed
  show "qn_next (qn s' x) = qn_next (qn s x)" if "j < N_QUEUES" "j \<noteq> i" "x \<in> set (N j)"
    by (rule same(5)) (use que_rep_disjoint [OF rep i that(1)] that a in auto)
qed (use same ch in auto)

lemma que_insert_rep:
  assumes rep: "que_rep s bs fs N" and i: "i < N_QUEUES" and sup: "node_supply s bs"
    and ord: "orders call s i d (map (\<lambda>a. qn_data (qn s a)) (N i)) ord"
  shows "\<exists>s' bs' fs' as. que_insert call (Some i) d s = Inr (E_SUCCESS, s') \<and> que_frame s s' \<and>
    que_rep s' bs' fs' (N(i := as)) \<and> (\<forall>j < N_QUEUES. j \<noteq> i \<longrightarrow>
      map (\<lambda>a. qn_data (qn s' a)) (N j) = map (\<lambda>a. qn_data (qn s a)) (N j)) \<and>
    map (\<lambda>a. qn_data (qn s' a)) as = que_place ord d (map (\<lambda>a. qn_data (qn s a)) (N i)) \<and>
    (free_qnodes s \<noteq> 0 \<longrightarrow> bs' = bs \<and> fs' = tl fs)"
proof -
  obtain a s1 bs' fs' where al: "qnode_alloc s = Inr (a, s1)" and a: "a \<noteq> 0" "a \<notin> set fs'"
      "\<forall>j < N_QUEUES. a \<notin> set (N j)" "unat a \<notin> free_cells bs'"
    and rep1: "que_rep s1 bs' fs' N" and fr1: "que_frame s s1" "queues s1 = queues s"
    and nx1: "qn_next (qn s1 a) = 0" and d1: "\<forall>x. x \<noteq> a \<longrightarrow> qn_data (qn s1 x) = qn_data (qn s x)"
    and bs': "free_qnodes s \<noteq> 0 \<longrightarrow> bs' = bs \<and> fs' = tl fs"
    using qnode_alloc_rep [OF rep sup] by blast
  define s2 where "s2 = set_qn_data a d s1"
  have ai: "a \<notin> set (N i)" using a(3) i by blast
  have rep2: "que_rep s2 bs' fs' N" using rep1 by (simp add: que_rep_def q_chain_def s2_def)
  have dat: "map (\<lambda>a. qn_data (qn s2 a)) (N j) = map (\<lambda>a. qn_data (qn s a)) (N j)" if "j < N_QUEUES" for j
    using a(3) d1 that by (auto simp: s2_def)
  have q2: "queues s2 = queues s" "qn_data (qn s2 a) = d" "qn_next (qn s2 a) = 0" "que_frame s s2"
    using fr1 nx1 by (simp_all add: s2_def)
  note nodes = que_rep_nodes [OF rep2 i]
  have run: "que_insert call (Some i) d s = que_link call i a d s2"
    using i al a(1) by (simp add: que_insert_def que_ix_def s2_def)
  have finish: ?thesis
    if "que_insert call (Some i) d s = Inr (E_SUCCESS, s')" and "que_frame s2 s'" and "kmem_abs s' bs'"
      and "free_qnodes s' = free_qnodes s2" and "length (queues s') = length (queues s2)"
      and "\<And>j. j \<noteq> i \<Longrightarrow> queues s' ! j = queues s2 ! j"
      and "\<And>x. x \<noteq> a \<Longrightarrow> x \<notin> set (N i) \<Longrightarrow> qn_next (qn s' x) = qn_next (qn s2 x)"
      and "q_chain s' i as" and "set as = insert a (set (N i))"
      and dt: "\<And>x. qn_data (qn s' x) = qn_data (qn s2 x)"
      and "map (\<lambda>a. qn_data (qn s2 a)) as = que_place ord d (map (\<lambda>a. qn_data (qn s a)) (N i))"
    for s' as
  proof -
    have "que_rep s' bs' fs' (N(i := as))"
      by (rule que_rep_enqueue [OF rep2 i that(2-9) a(2-4)])
    moreover have "que_frame s s'" by (rule que_frame_trans [OF q2(4) that(2)])
    ultimately show ?thesis using that(1,11) dat bs'
      by (intro exI [of _ s'] exI [of _ bs'] exI [of _ fs'] exI [of _ as]) (simp add: dt)
  qed
  have abs2: "kmem_abs s2 bs'" using rep2 by (simp add: que_rep_def)
  show ?thesis
  proof (cases "N i = []")
    case True
    let ?s = "upd_queue i (\<lambda>Q. Q\<lparr>q_head := a, q_tail := a, q_count := 1\<rparr>) s2"
    show ?thesis
    proof (rule finish [of ?s "[a]"])
      show "que_insert call (Some i) d s = Inr (E_SUCCESS, ?s)"
        unfolding run using True nodes(4,5) by (simp add: que_link_def)
      show "que_frame s2 ?s" by (rule que_frame_upd_queue) simp_all
    qed (use True abs2 nodes(2) a q2 in \<open>auto simp: q_chain_def que_place_def split: option.splits\<close>)
  next
    case False
    note head = nodes(6) [OF False]
    show ?thesis
    proof (cases "q_compare (queues s ! i)")
      case None
      then have o: "ord = None" using ord by (simp add: orders_def)
      let ?t = "q_tail (queues s2 ! i)"
      let ?s = "upd_queue i (\<lambda>Q. Q\<lparr>q_tail := a, q_count := q_count Q + 1\<rparr>) (set_qn_next ?t a s2)"
      have t: "?t = last (N i)" "?t \<in> set (N i)" using nodes(1) False by (auto simp: q_chain_def)
      show ?thesis
      proof (rule finish [of ?s "N i @ [a]"])
        show "que_insert call (Some i) d s = Inr (E_SUCCESS, ?s)"
          unfolding run using False nodes(4) head None q2 by (simp add: que_link_def)
        show "que_frame s2 ?s" by (rule que_frame_upd_queue) simp_all
        show "q_chain ?s i (N i @ [a])"
        proof (rule q_chain_insert [where cs = "[]"])
          show "q_chain s2 i (N i @ [])" using nodes(1) by simp
          have "distinct (N i)" using llist_distinct [OF nodes(3)] .
          then have "last (N i) \<notin> set (butlast (N i))" by (cases "N i" rule: rev_cases) auto
          then show "qn_next (qn ?s x) = qn_next (qn s2 x)" if "x \<in> set (butlast (N i)) \<union> set []" for x
            using that t by auto
        qed (use ai a(1) t False nodes(2) q2(3) in \<open>auto simp: front_def\<close>)
      qed (use abs2 nodes(2) t dat [OF i] q2 o in \<open>auto simp: que_place_def\<close>)
    next
      case (Some f)
      then obtain k where o: "ord = Some k" and c: "\<forall>s1. que_st.more s1 = que_st.more s \<longrightarrow>
          (\<forall>x \<in> set (N i). call f s1 d (qn_data (qn s x)) = Inr (k (qn_data (qn s x))))"
        using ord by (auto simp: orders_def)
      have dd: "qn_data (qn s2 x) = qn_data (qn s x)" if "x \<in> set (N i)" for x
        using dat [OF i] that by auto
      let ?ps = "takeWhile (\<lambda>c. 0 \<le> k (qn_data (qn s2 c))) (N i)"
      let ?cs = "dropWhile (\<lambda>c. 0 \<le> k (qn_data (qn s2 c))) (N i)"
      have "\<forall>x \<in> set (N i). call f s2 d (qn_data (qn s2 x)) = Inr (k (qn_data (qn s2 x)))"
        using c q2(4) by (simp add: dd que_frame_def)
      note ins = que_insert_ordered [where k = k and call = call and f = f and d = d,
        OF nodes(1,2) ai a(1) False this refl refl]
      let ?s = "upd_queue i (\<lambda>Q. Q\<lparr>q_count := q_count Q + 1\<rparr>)
        (if last (0 # ?ps) = NULL then upd_queue i (\<lambda>Q. Q\<lparr>q_head := a\<rparr>) (set_qn_next a (front ?cs) s2)
         else if front ?cs = NULL
         then upd_queue i (\<lambda>Q. Q\<lparr>q_tail := a\<rparr>) (set_qn_next (last (0 # ?ps)) a (set_qn_next a (front ?cs) s2))
         else set_qn_next (last (0 # ?ps)) a (set_qn_next a (front ?cs) s2))"
      show ?thesis
      proof (rule finish [of ?s "?ps @ a # ?cs"])
        show "que_insert call (Some i) d s = Inr (E_SUCCESS, ?s)"
          unfolding run using False nodes(4) head Some q2(1) ins(1)
          by (simp add: que_link_def Let_def del: last.simps)
        show "que_frame s2 ?s" by (auto intro!: que_frame_upd_queue)
        show "q_chain ?s i (?ps @ a # ?cs)" by (rule ins(2))
        have "last (0 # ?ps) \<in> set (N i) \<or> last (0 # ?ps) = 0"
          by (cases "?ps = []") (auto dest!: last_in_set set_takeWhileD)
        then show "qn_next (qn ?s x) = qn_next (qn s2 x)" if "x \<noteq> a" "x \<notin> set (N i)" for x
          using that by auto
        show "set (?ps @ a # ?cs) = insert a (set (N i))"
          by (metis Un_insert_right list.simps(15) set_append takeWhile_dropWhile_id)
        have "map (\<lambda>a. qn_data (qn s2 a)) (?ps @ a # ?cs) =
            que_place ord (qn_data (qn s2 a)) (map (\<lambda>a. qn_data (qn s2 a)) (N i))"
          using takeWhile_map_data [of "\<lambda>a. qn_data (qn s2 a)" "\<lambda>x. 0 \<le> k x" "N i" a]
          by (simp add: que_place_def o)
        then show "map (\<lambda>a. qn_data (qn s2 a)) (?ps @ a # ?cs) =
            que_place ord d (map (\<lambda>a. qn_data (qn s a)) (N i))"
          using dat [OF i] q2(2) by simp
      qed (use abs2 in \<open>auto simp: split: if_splits\<close>)
    qed
  qed
qed

text \<open>Taking a node out of a queue and giving it back.\<close>

lemma que_rep_dequeue:
  assumes rep: "que_rep s bs fs N" and i: "i < N_QUEUES" and N: "N i = ps @ a # cs"
    and frame: "que_frame s s1"
    and same: "kmem_abs s1 bs" "free_qnodes s1 = free_qnodes s" "length (queues s1) = length (queues s)"
      "\<And>j. j \<noteq> i \<Longrightarrow> queues s1 ! j = queues s ! j"
      "\<And>x. x \<notin> set (N i) \<Longrightarrow> qn_next (qn s1 x) = qn_next (qn s x)"
      "\<And>x. qn_data (qn s1 x) = qn_data (qn s x)"
    and ch: "q_chain s1 i (ps @ cs)"
  shows "\<exists>s'. qnode_free a s1 = Inr s' \<and> que_frame s s' \<and> que_rep s' bs (a # fs) (N(i := ps @ cs)) \<and>
    (\<forall>x. qn_data (qn s' x) = qn_data (qn s x))"
proof -
  have l: "llist (q_next s) (free_qnodes s) fs" "set fs \<inter> set (N i) = {}" "\<forall>x \<in> set (N i). unat x \<notin> free_cells bs"
    "\<forall>x \<in> set fs. unat x \<notin> free_cells bs"
    using rep i by (auto simp: que_rep_def)
  have dist: "distinct (ps @ a # cs)" "0 \<notin> set (ps @ a # cs)"
    using llist_distinct [OF que_rep_nodes(3) [OF rep i]] lseg_nonnull [OF que_rep_nodes(3) [OF rep i]]
    by (simp_all add: N)
  have "que_rep s1 bs fs (N(i := ps @ cs))"
  proof (rule que_rep_update [OF rep i same(1)])
    show "length (queues s1) = N_QUEUES" "length (queue_free s1) = N_QUEUES"
      using rep same frame by (auto simp: que_rep_def que_frame_def)
    have "lseg (q_next s1) (free_qnodes s) fs 0 = lseg (q_next s) (free_qnodes s) fs 0"
      by (rule lseg_cong) (rule same(5), use l in auto)
    then show "llist (q_next s1) (free_qnodes s1) fs" using l same by simp
    fix x j
    show "x \<notin> set (N j)" if "x \<in> set fs \<union> set (ps @ cs)" "j < N_QUEUES" "j \<noteq> i"
      using que_rep_disjoint [OF rep i that(2)] rep that N by (auto simp: que_rep_def)
    show "qn_next (qn s1 x) = qn_next (qn s x)" if "j < N_QUEUES" "j \<noteq> i" "x \<in> set (N j)"
      by (rule same(5)) (use que_rep_disjoint [OF rep i that(1)] that in auto)
  qed (use same ch l N in auto)
  moreover have "\<forall>j < N_QUEUES. a \<notin> set ((N(i := ps @ cs)) j)"
    using que_rep_disjoint [OF rep i] N dist by auto
  ultimately have "\<exists>s'. qnode_free a s1 = Inr s' \<and> que_rep s' bs (a # fs) (N(i := ps @ cs)) \<and> que_frame s1 s' \<and>
      (\<forall>x. qn_data (qn s' x) = qn_data (qn s1 x)) \<and> queues s' = queues s1"
    by (intro qnode_free_rep) (use dist l N in auto)
  then show ?thesis using frame same(6) by (auto intro: que_frame_trans)
qed

lemma que_remove_rep:
  assumes rep: "que_rep s bs fs N" and i: "i < N_QUEUES" and N: "N i = a # cs"
  shows "\<exists>s'. que_remove (Some i) (Some v) s = Inr (E_SUCCESS, Some (qn_data (qn s a)), s') \<and> que_frame s s' \<and>
    que_rep s' bs (a # fs) (N(i := cs)) \<and> (\<forall>x. qn_data (qn s' x) = qn_data (qn s x))"
proof -
  note nodes = que_rep_nodes [OF rep i]
  have nx: "q_head (queues s ! i) = a" "qn_next (qn s a) = front cs"
    using nodes(3) N by (auto dest: lseg_front)
  have c0: "front cs = 0 \<longleftrightarrow> cs = []" using lseg_nonnull [OF nodes(3)] N by (cases cs) (auto simp: front_def)
  define s1 where "s1 = upd_queue i (\<lambda>Q. Q\<lparr>q_count := q_count Q - 1\<rparr>)
    (if cs = [] then upd_queue i (\<lambda>Q. Q\<lparr>q_tail := NULL\<rparr>) (upd_queue i (\<lambda>Q. Q\<lparr>q_head := front cs\<rparr>) s)
     else upd_queue i (\<lambda>Q. Q\<lparr>q_head := front cs\<rparr>) s)"
  have fr: "que_frame s s1" unfolding s1_def by (auto intro!: que_frame_upd_queue)
  have ch: "q_chain s1 i ([] @ cs)"
    by (rule q_chain_delete [where a = a and s = s]) (use nodes N in \<open>auto simp: s1_def\<close>)
  have "\<exists>s'. qnode_free a s1 = Inr s' \<and> que_frame s s' \<and> que_rep s' bs (a # fs) (N(i := [] @ cs)) \<and>
      (\<forall>x. qn_data (qn s' x) = qn_data (qn s x))"
    by (rule que_rep_dequeue [OF rep i _ fr _ _ _ _ _ _ ch])
      (use rep N in \<open>auto simp: s1_def que_rep_def\<close>)
  moreover have "que_remove (Some i) (Some v) s =
      kbind (qnode_free a s1) (\<lambda>s'. Inr (E_SUCCESS, Some (qn_data (qn s a)), s'))"
    using nodes(2,4,6) N i nx c0 by (auto simp: que_remove_def que_deref_def Let_def s1_def word_less_1)
  ultimately show ?thesis by auto
qed

lemma que_remove_by_rep:
  assumes rep: "que_rep s bs fs N" and i: "i < N_QUEUES" and d: "d \<noteq> None"
    and N: "N i = ps @ a # cs" and ps: "\<forall>x \<in> set ps. qn_data (qn s x) \<noteq> d" and a: "qn_data (qn s a) = d"
  shows "\<exists>s'. que_remove_by (Some i) d s = Inr (E_SUCCESS, s') \<and> que_frame s s' \<and>
    que_rep s' bs (a # fs) (N(i := ps @ cs)) \<and> (\<forall>x. qn_data (qn s' x) = qn_data (qn s x))"
proof -
  note nodes = que_rep_nodes [OF rep i]
  have l: "llist (q_next s) (q_head (queues s ! i)) (ps @ a # cs)" using nodes(3) N by simp
  have dist: "distinct (ps @ a # cs)" "0 \<notin> set (ps @ a # cs)" using llist_distinct [OF l] lseg_nonnull [OF l] by auto
  have tw: "takeWhile (\<lambda>x. d \<noteq> qn_data (qn s x)) (ps @ a # cs) = ps"
    "dropWhile (\<lambda>x. d \<noteq> qn_data (qn s x)) (ps @ a # cs) = a # cs"
    using ps a by (auto simp: takeWhile_append dropWhile_append)
  have w: "walk (\<lambda>c. Inr (d \<noteq> qn_data (qn s c))) (q_next s) 0 (q_head (queues s ! i)) = Some (Inr (last (0 # ps), a))"
    using walk_llist [OF l, of "\<lambda>c. Inr (d \<noteq> qn_data (qn s c))" "\<lambda>c. d \<noteq> qn_data (qn s c)" 0]
    unfolding tw by (simp add: front_def)
  have nx: "qn_next (qn s a) = front cs" using l by (auto simp: lseg_append dest: lseg_front)
  have c0: "front cs = 0 \<longleftrightarrow> cs = []" using dist by (cases cs) (auto simp: front_def)
  have p0: "ps \<noteq> [] \<Longrightarrow> last ps \<noteq> 0" using last_nonnull [of ps] dist by auto
  define t where "t = (if ps = [] then upd_queue i (\<lambda>Q. Q\<lparr>q_head := front cs\<rparr>) s
    else set_qn_next (last ps) (front cs) s)"
  define s1 where "s1 = upd_queue i (\<lambda>Q. Q\<lparr>q_count := q_count Q - 1\<rparr>)
    (if cs = [] then upd_queue i (\<lambda>Q. Q\<lparr>q_tail := last (0 # ps)\<rparr>) t else t)"
  have fr: "que_frame s s1" unfolding s1_def t_def by (auto intro!: que_frame_upd_queue)
  have bl: "x \<noteq> last ps" if "x \<in> set (butlast ps) \<union> set cs" "ps \<noteq> []" for x
    using dist(1) that by (cases ps rule: rev_cases) auto
  have ch: "q_chain s1 i (ps @ cs)"
    by (rule q_chain_delete [where a = a and s = s]) (use nodes N bl in \<open>auto simp: s1_def t_def\<close>)
  have "\<exists>s'. qnode_free a s1 = Inr s' \<and> que_frame s s' \<and> que_rep s' bs (a # fs) (N(i := ps @ cs)) \<and>
      (\<forall>x. qn_data (qn s' x) = qn_data (qn s x))"
    by (rule que_rep_dequeue [OF rep i N fr _ _ _ _ _ _ ch])
      (use rep N in \<open>auto simp: s1_def t_def que_rep_def\<close>)
  moreover have "que_remove_by (Some i) d s = kbind (qnode_free a s1) (\<lambda>s. Inr (E_SUCCESS, s))"
    using w nodes(2,4,6) N i nx c0 p0 d dist
    by (auto simp: que_remove_by_def que_deref_def Let_def s1_def t_def word_less_1)
  ultimately show ?thesis by auto
qed

end
