(* ===== verification/Queue_Service.thy ===== *)
theory Queue_Service
  imports Queues
begin

text \<open>
  The queue module as its users see it: eight sequences of process pointers. The interface
  \<open>queue_service\<close> states what the scheduler, the clock and the system calls rely on, and is interpreted
  on the definitions of \<^verbatim>\<open>kernel/queues.c\<close>.
\<close>

section \<open>Operations on the abstract queues\<close>

text \<open>There are \<open>n\<close> free nodes.\<close>

definition que_nodes :: "'z que_st_scheme \<Rightarrow> nat \<Rightarrow> bool" where
  "que_nodes s n \<longleftrightarrow> (\<exists>fs. llist (q_next s) (free_qnodes s) fs \<and> length fs = n)"

lemma que_nodes_rep: "que_rep s bs fs N \<Longrightarrow> que_nodes s n \<longleftrightarrow> n = length fs"
  by (auto simp: que_nodes_def que_rep_def dest: llist_unique)

lemma que_nodes_cong: "qn s' = qn s \<Longrightarrow> free_qnodes s' = free_qnodes s \<Longrightarrow> que_nodes s' = que_nodes s"
  by (simp add: que_nodes_def fun_eq_iff)

lemma que_nodes_supply: "que_nodes s n \<Longrightarrow> 0 < n \<Longrightarrow> free_qnodes s \<noteq> 0"
  by (auto simp: que_nodes_def)

lemma que_insert_abs:
  assumes abs: "que_abs s bs Q" and i: "i < N_QUEUES" and ord: "orders call s i d (Q i) ord"
    and sup: "node_supply s bs"
  shows "\<exists>s' bs'. que_insert call (Some i) d s = Inr (E_SUCCESS, s') \<and> que_frame s s' \<and>
    que_abs s' bs' (Q(i := que_place ord d (Q i))) \<and> (free_qnodes s \<noteq> 0 \<longrightarrow> bs' = bs) \<and>
    (\<forall>n. que_nodes s (Suc n) \<longrightarrow> que_nodes s' n)"
proof -
  obtain fs N where rep: "que_rep s bs fs N" and Q: "\<forall>i < N_QUEUES. Q i = map (\<lambda>a. qn_data (qn s a)) (N i)"
    using abs by (auto simp: que_abs_def)
  obtain s' bs' fs' as where run: "que_insert call (Some i) d s = Inr (E_SUCCESS, s')" "que_frame s s'"
    and rep': "que_rep s' bs' fs' (N(i := as))"
    and other: "\<forall>j < N_QUEUES. j \<noteq> i \<longrightarrow>
      map (\<lambda>a. qn_data (qn s' a)) (N j) = map (\<lambda>a. qn_data (qn s a)) (N j)"
    and new: "map (\<lambda>a. qn_data (qn s' a)) as = que_place ord d (map (\<lambda>a. qn_data (qn s a)) (N i))"
    and bs': "free_qnodes s \<noteq> 0 \<longrightarrow> bs' = bs \<and> fs' = tl fs"
    using que_insert_rep [OF rep i sup, of call d ord] ord Q i by auto
  have "que_abs s' bs' (Q(i := que_place ord d (Q i)))"
    unfolding que_abs_def
    by (rule exI [of _ fs'], rule exI [of _ "N(i := as)"]) (use rep' other new Q i in auto)
  moreover have "que_nodes s' n" if "que_nodes s (Suc n)" for n
    using that que_nodes_supply [OF that] bs' que_nodes_rep [OF rep] que_nodes_rep [OF rep'] by (cases fs) auto
  ultimately show ?thesis using run bs' by blast
qed

lemma que_insert_panic:
  assumes "que_abs s bs Q" and "i < N_QUEUES" and "\<not> node_supply s bs"
  shows "que_insert call (Some i) d s = Inl Panic"
proof -
  obtain fs N where rep: "que_rep s bs fs N" using assms(1) by (auto simp: que_abs_def)
  have "free_qnodes s = 0" "alloc_blocks 1 bs = None" using assms(3) unfolding node_supply_def by blast+
  moreover from this have "fs = []" using rep by (simp add: que_rep_def)
  ultimately have "qnode_add_page s = Inl Panic" using qnode_add_page_rep [of s bs N] rep by simp
  then show ?thesis
    using assms(2) \<open>free_qnodes s = 0\<close> by (simp add: que_insert_def que_ix_def qnode_alloc_def)
qed

lemma que_remove_abs:
  assumes abs: "que_abs s bs Q" and i: "i < N_QUEUES" and Q: "Q i = d # ds"
  shows "\<exists>s'. que_remove (Some i) (Some v) s = Inr (E_SUCCESS, Some d, s') \<and> que_frame s s' \<and>
    que_abs s' bs (Q(i := ds)) \<and> free_qnodes s' \<noteq> 0 \<and> (\<forall>n. que_nodes s n \<longrightarrow> que_nodes s' (Suc n))"
proof -
  obtain fs N where rep: "que_rep s bs fs N" and QN: "\<forall>i < N_QUEUES. Q i = map (\<lambda>a. qn_data (qn s a)) (N i)"
    using abs by (auto simp: que_abs_def)
  then obtain a cs where N: "N i = a # cs" "d = qn_data (qn s a)" "ds = map (\<lambda>a. qn_data (qn s a)) cs"
    using Q i by (cases "N i") auto
  obtain s' where run: "que_remove (Some i) (Some v) s = Inr (E_SUCCESS, Some d, s')" "que_frame s s'"
    and rep': "que_rep s' bs (a # fs) (N(i := cs))" and same: "\<forall>x. qn_data (qn s' x) = qn_data (qn s x)"
    using que_remove_rep [OF rep i N(1), of v] N by auto
  have "que_abs s' bs (Q(i := ds))"
    unfolding que_abs_def
    by (rule exI [of _ "a # fs"], rule exI [of _ "N(i := cs)"]) (use rep' same QN i N in auto)
  moreover have "free_qnodes s' \<noteq> 0" using rep' by (auto simp: que_rep_def)
  ultimately show ?thesis using run que_nodes_rep [OF rep] que_nodes_rep [OF rep'] by auto
qed

lemma que_count_abs:
  assumes "que_abs s bs Q" and "i < N_QUEUES"
  shows "q_count (queues s ! i) < 1 \<longleftrightarrow> Q i = []" and "i < length (queues s)"
    and "Q i \<noteq> [] \<Longrightarrow> q_head (queues s ! i) \<noteq> 0 \<and> q_tail (queues s ! i) \<noteq> 0"
    and "Q i \<noteq> [] \<Longrightarrow> qn_data (qn s (q_head (queues s ! i))) = hd (Q i)"
proof -
  obtain fs N where rep: "que_rep s bs fs N" and QN: "Q i = map (\<lambda>a. qn_data (qn s a)) (N i)"
    using assms by (auto simp: que_abs_def)
  note nodes = que_rep_nodes [OF rep assms(2)]
  show "q_count (queues s ! i) < 1 \<longleftrightarrow> Q i = []" "i < length (queues s)"
    and "Q i \<noteq> [] \<Longrightarrow> q_head (queues s ! i) \<noteq> 0 \<and> q_tail (queues s ! i) \<noteq> 0"
    using nodes QN by (auto simp: word_less_1)
  show "Q i \<noteq> [] \<Longrightarrow> qn_data (qn s (q_head (queues s ! i))) = hd (Q i)"
    using nodes(3) QN by (cases "N i") auto
qed

lemma que_remove_empty:
  assumes "que_abs s bs Q" and "i < N_QUEUES" and "Q i = []"
  shows "que_remove (Some i) (Some v) s = Inr (E_EMPTY, Some v, s)"
  using que_count_abs [OF assms(1,2)] assms(2,3) by (simp add: que_remove_def que_deref_def Let_def)

lemma que_remove_by_abs:
  assumes abs: "que_abs s bs Q" and i: "i < N_QUEUES" and d: "d \<noteq> None" "d \<in> set (Q i)"
  shows "\<exists>s'. que_remove_by (Some i) d s = Inr (E_SUCCESS, s') \<and> que_frame s s' \<and>
    que_abs s' bs (Q(i := remove1 d (Q i))) \<and> free_qnodes s' \<noteq> 0 \<and> (\<forall>n. que_nodes s n \<longrightarrow> que_nodes s' (Suc n))"
proof -
  obtain fs N where rep: "que_rep s bs fs N" and QN: "\<forall>i < N_QUEUES. Q i = map (\<lambda>a. qn_data (qn s a)) (N i)"
    using abs by (auto simp: que_abs_def)
  have "\<exists>a \<in> set (N i). qn_data (qn s a) = d" using QN i d by auto
  then obtain ps a cs where N: "N i = ps @ a # cs" "qn_data (qn s a) = d" "\<forall>x \<in> set ps. qn_data (qn s x) \<noteq> d"
    by (rule split_list_first_propE) auto
  obtain s' where run: "que_remove_by (Some i) d s = Inr (E_SUCCESS, s')" "que_frame s s'"
    and rep': "que_rep s' bs (a # fs) (N(i := ps @ cs))" and same: "\<forall>x. qn_data (qn s' x) = qn_data (qn s x)"
    using que_remove_by_rep [OF rep i d(1) N(1,3,2)] by auto
  have "remove1 d (Q i) = map (\<lambda>a. qn_data (qn s a)) (ps @ cs)"
    using QN i N by (auto simp: remove1_append)
  then have "que_abs s' bs (Q(i := remove1 d (Q i)))"
    unfolding que_abs_def
    by (intro exI [of _ "a # fs"] exI [of _ "N(i := ps @ cs)"]) (use rep' same QN i in auto)
  moreover have "free_qnodes s' \<noteq> 0" using rep' by (auto simp: que_rep_def)
  ultimately show ?thesis using run que_nodes_rep [OF rep] que_nodes_rep [OF rep'] by auto
qed

lemma que_remove_by_absent:
  assumes abs: "que_abs s bs Q" and i: "i < N_QUEUES" and d: "d \<noteq> None" "d \<notin> set (Q i)"
  shows "que_remove_by (Some i) d s = Inr (if Q i = [] then E_EMPTY else E_NOT_FOUND, s)"
proof (cases "Q i = []")
  case True
  then show ?thesis
    using que_count_abs [OF abs i] i d by (simp add: que_remove_by_def que_deref_def Let_def)
next
  case False
  obtain fs N where rep: "que_rep s bs fs N" and QN: "Q i = map (\<lambda>a. qn_data (qn s a)) (N i)"
    using abs i by (auto simp: que_abs_def)
  have l: "llist (q_next s) (q_head (queues s ! i)) (N i)" by (rule que_rep_nodes(3) [OF rep i])
  have "walk (\<lambda>c. Inr (d \<noteq> qn_data (qn s c))) (q_next s) 0 (q_head (queues s ! i)) = Some (Inr (last (0 # N i), 0))"
    using walk_llist [OF l, of "\<lambda>c. Inr (d \<noteq> qn_data (qn s c))" "\<lambda>c. d \<noteq> qn_data (qn s c)" 0] d QN
    by (simp add: takeWhile_eq_all_conv [THEN iffD2] dropWhile_eq_Nil_conv [THEN iffD2] front_def image_iff)
  then show ?thesis
    using que_count_abs [OF abs i] i d False by (simp add: que_remove_by_def que_deref_def Let_def)
qed

section \<open>The interface\<close>

fun drain :: "('s \<Rightarrow> kerr + ecode \<times> qdata option \<times> 's) \<Rightarrow> nat \<Rightarrow> 's \<Rightarrow> kerr + qdata list \<times> 's" where
  "drain rem 0 s = Inr ([], s)"
| "drain rem (Suc n) s =
     kbind (rem s) (\<lambda>(e, d, s). kbind (drain rem n s) (\<lambda>(ds, s). Inr (the d # ds, s)))"

fun fill :: "(qdata \<Rightarrow> 's \<Rightarrow> kerr + ecode \<times> 's) \<Rightarrow> qdata list \<Rightarrow> 's \<Rightarrow> kerr + 's" where
  "fill ins [] s = Inr s"
| "fill ins (d # ds) s = kbind (ins d s) (\<lambda>(e, s). fill ins ds s)"

locale queue_service =
  fixes ins :: "nat \<Rightarrow> qdata \<Rightarrow> 's \<Rightarrow> kerr + ecode \<times> 's"
    and rem :: "nat \<Rightarrow> 's \<Rightarrow> kerr + ecode \<times> qdata option \<times> 's"
    and view :: "'s \<Rightarrow> (nat \<Rightarrow> qdata list) \<Rightarrow> bool"
    and fifo :: "'s \<Rightarrow> nat \<Rightarrow> bool"
  assumes ins_law: "view s Q \<Longrightarrow> fifo s i \<Longrightarrow> ins i d s = Inr (e, s') \<Longrightarrow>
      e = E_SUCCESS \<and> view s' (Q(i := Q i @ [d])) \<and> fifo s' = fifo s"
    and rem_law: "view s Q \<Longrightarrow> fifo s i \<Longrightarrow> Q i = d # ds \<Longrightarrow>
      \<exists>s'. rem i s = Inr (E_SUCCESS, Some d, s') \<and> view s' (Q(i := ds)) \<and> fifo s' = fifo s"
begin

lemma drain_all:
  "view s Q \<Longrightarrow> fifo s i \<Longrightarrow> Q i = xs @ ys \<Longrightarrow>
     \<exists>s'. drain (rem i) (length xs) s = Inr (xs, s') \<and> view s' (Q(i := ys)) \<and> fifo s' = fifo s"
proof (induction xs arbitrary: s Q)
  case (Cons x xs)
  then obtain s1 where s1: "rem i s = Inr (E_SUCCESS, Some x, s1)" "view s1 (Q(i := xs @ ys))" "fifo s1 = fifo s"
    using rem_law [of s Q i x "xs @ ys"] by auto
  obtain s' where "drain (rem i) (length xs) s1 = Inr (xs, s')" "view s' (Q(i := ys))" "fifo s' = fifo s1"
    using Cons.IH [OF s1(2)] Cons.prems(2) s1(3) by (auto simp del: fun_upd_apply simp: fun_upd_same)
  with s1 show ?case by (simp del: fun_upd_apply)
next
  case Nil
  then have "Q(i := ys) = Q" by auto
  with Nil show ?case by auto
qed

lemma fill_all:
  "view s Q \<Longrightarrow> fifo s i \<Longrightarrow> fill (ins i) ds s = Inr s' \<Longrightarrow>
     view s' (Q(i := Q i @ ds)) \<and> fifo s' = fifo s"
proof (induction ds arbitrary: s Q)
  case (Cons d ds)
  from Cons.prems(3) obtain e s1 where i: "ins i d s = Inr (e, s1)" and f: "fill (ins i) ds s1 = Inr s'"
    by (auto simp: kbind_eq_Inr)
  from ins_law [OF Cons.prems(1,2) i] have "view s1 (Q(i := Q i @ [d]))" "fifo s1 = fifo s" by auto
  with Cons.IH [OF this(1) _ f] Cons.prems(2) show ?case by (simp del: fun_upd_apply add: fun_upd_same)
qed simp

text \<open>First in, first out: what goes in comes out in the same order, after what was there.\<close>

lemma first_in_first_out:
  assumes "view s Q" and "fifo s i" and "fill (ins i) ds s = Inr s'"
  shows "\<exists>s''. drain (rem i) (length (Q i) + length ds) s' = Inr (Q i @ ds, s'') \<and> view s'' (Q(i := []))"
  using drain_all [of s' "Q(i := Q i @ ds)" i "Q i @ ds" "[]"] fill_all [OF assms] assms(2)
  by (auto simp del: fun_upd_apply simp: fun_upd_same)

end

definition que_view :: "'z que_st_scheme \<Rightarrow> (nat \<Rightarrow> qdata list) \<Rightarrow> bool" where
  "que_view s Q \<longleftrightarrow> (\<exists>bs. que_abs s bs Q)"

definition que_fifo :: "'z que_st_scheme \<Rightarrow> nat \<Rightarrow> bool" where
  "que_fifo s i \<longleftrightarrow> i < N_QUEUES \<and> map q_compare (queues s) ! i = None"

lemma que_frame_fifo: "que_frame s s' \<Longrightarrow> que_fifo s' = que_fifo s"
  by (simp add: que_frame_def que_fifo_def fun_eq_iff)

lemma que_fifo_orders:
  assumes "que_abs s bs Q" and "que_fifo s i"
  shows "orders call s i d (Q i) None"
  using que_count_abs(2) [OF assms(1), of i] assms(2) by (simp add: orders_def que_fifo_def)

interpretation kq: queue_service
  "\<lambda>i. que_insert call (Some i)" "\<lambda>i. que_remove (Some i) (Some None)" que_view que_fifo
proof
  fix s :: "'a que_st_scheme" and Q i d e s' ds
  show "e = E_SUCCESS \<and> que_view s' (Q(i := Q i @ [d])) \<and> que_fifo s' = que_fifo s"
    if "que_view s Q" "que_fifo s i" "que_insert call (Some i) d s = Inr (e, s')"
  proof -
    from that(1) obtain bs where abs: "que_abs s bs Q" by (auto simp: que_view_def)
    have i: "i < N_QUEUES" using that(2) by (simp add: que_fifo_def)
    have "node_supply s bs" using que_insert_panic [OF abs i] that(3) by force
    from que_insert_abs [OF abs i que_fifo_orders [OF abs that(2)] this, of call d] that(3)
    show ?thesis by (auto simp: que_place_def que_view_def que_frame_fifo)
  qed
  show "\<exists>s'. que_remove (Some i) (Some None) s = Inr (E_SUCCESS, Some d, s') \<and>
      que_view s' (Q(i := ds)) \<and> que_fifo s' = que_fifo s"
    if "que_view s Q" "que_fifo s i" "Q i = d # ds"
    using that que_remove_abs [of s _ Q i d ds None] unfolding que_view_def
    by (metis que_fifo_def que_frame_fifo)
qed

section \<open>Initialization and allocation of queues\<close>

lemma que_init_abs:
  assumes abs: "kmem_abs s bs"
  shows "case alloc_blocks 1 bs of
      None \<Rightarrow> que_init s = Inl Panic
    | Some (r, bs') \<Rightarrow> \<exists>s'. que_init s = Inr s' \<and> que_abs s' bs' (\<lambda>_. []) \<and> free_qnodes s' \<noteq> 0 \<and> que_nodes s' 512 \<and>
        queue_free s' = replicate N_QUEUES QUE_FREE \<and> mem s' = mem s \<and> que_st.more s' = que_st.more s \<and>
        map q_compare (queues s') = replicate N_QUEUES None"
proof -
  let ?s = "s\<lparr>queues := replicate N_QUEUES empty_queue, queue_free := replicate N_QUEUES QUE_FREE,
    free_qnodes := NULL\<rparr>"
  have rep: "que_rep ?s bs [] (\<lambda>_. [])"
    using abs by (simp add: que_rep_def q_chain_def empty_queue_def)
  show ?thesis
  proof (cases "alloc_blocks 1 bs")
    case None
    then show ?thesis using qnode_add_page_rep [OF rep] by (simp add: que_init_def)
  next
    case (Some rb)
    obtain r bs' where rb: "rb = (r, bs')" by force
    obtain s' where run: "qnode_add_page ?s = Inr s'" and fr: "que_frame ?s s'"
      and rep': "que_rep s' bs' (page_nodes 512 (of_nat r)) (\<lambda>_. [])"
      using qnode_add_page_rep [OF rep] Some rb by auto
    have "que_abs s' bs' (\<lambda>_. [])" using rep' by (auto simp: que_abs_def)
    moreover have "free_qnodes s' \<noteq> 0"
      using rep' page_nodes_512 [of "of_nat r"] by (auto simp: que_rep_def)
    moreover have "que_nodes s' 512" using que_nodes_rep [OF rep'] by (simp add: length_page_nodes)
    ultimately show ?thesis using run fr Some rb by (simp add: que_init_def que_frame_def empty_queue_def)
  qed
qed

lemma first_ix_Some: "first_ix P n = Some i \<longleftrightarrow> i < n \<and> P i \<and> (\<forall>j < i. \<not> P j)"
  by (auto simp: first_ix_def find_Some_iff)

lemma first_ix_None: "first_ix P n = None \<longleftrightarrow> (\<forall>i < n. \<not> P i)"
  by (auto simp: first_ix_def find_None_iff)

text \<open>A queue that has just been allocated is empty and ordered as asked; the others keep their
  contents. Queues not in use are empty.\<close>

lemma que_alloc_abs:
  assumes abs: "que_abs s bs Q" and al: "que_alloc compare s = (Some i, s')"
  shows "i < N_QUEUES" and "queue_free s ! i \<noteq> 0" and "queue_free s' = (queue_free s)[i := 0]"
    and "Q i = [] \<Longrightarrow> que_abs s' bs Q" and "q_compare (queues s' ! i) = compare"
proof -
  have i: "i < N_QUEUES \<and> queue_free s ! i \<noteq> 0"
    and s': "s' = s\<lparr>queue_free := (queue_free s)[i := 0],
      queues := (queues s)[i := empty_queue\<lparr>q_compare := compare\<rparr>]\<rparr>"
    using al by (auto simp: que_alloc_def first_ix_Some QUE_INUSE_def split: option.splits)
  then show "i < N_QUEUES" "queue_free s ! i \<noteq> 0" "queue_free s' = (queue_free s)[i := 0]" by auto
  then show "q_compare (queues s' ! i) = compare"
    using abs s' by (auto simp: que_abs_def que_rep_def)
  show "que_abs s' bs Q" if "Q i = []"
  proof -
    obtain fs N where rep: "que_rep s bs fs N" and QN: "\<forall>i < N_QUEUES. Q i = map (\<lambda>a. qn_data (qn s a)) (N i)"
      using abs by (auto simp: que_abs_def)
    have "N i = []" using QN that i by simp
    then have "q_chain s' j (N j)" if "j < N_QUEUES" for j
      using rep that i by (cases "j = i") (auto simp: que_rep_def q_chain_def s' empty_queue_def)
    then have "que_rep s' bs fs N"
      using rep kmem_abs_cong [of s' s bs] by (simp add: que_rep_def) (simp add: s')
    then show ?thesis using QN by (auto simp: que_abs_def s')
  qed
qed

section \<open>Properties\<close>

definition boot_que :: que_st where
  "boot_que = \<lparr>mem = (\<lambda>_. 0), io_in = [], io_out = [],
     blk = (\<lambda>_. \<lparr>blk_pages = 0, blk_next = 0\<rparr>)(0x100000 := \<lparr>blk_pages = 4, blk_next = 0\<rparr>),
     free_pages = 0x100000, free_slices = 0, n_pages = 4, n_slices = 0, km_initialized = True,
     qn = (\<lambda>_. \<lparr>qn_data = None, qn_next = 0\<rparr>), free_qnodes = 0, queues = [], queue_free = []\<rparr>"

lemma boot_que_abs: "kmem_abs boot_que [(0x100000, 4)]"
  using kmem_abs_single [of boot_que "0x100000" 4] by (simp add: boot_que_def)

text \<open>\<^verbatim>\<open>que_init()\<close> leaves eight empty queues that are all free and 512 free nodes, taken from one page;
  it panics exactly when no page is available.\<close>

theorem que_init_empty:
  assumes "kmem_abs s bs"
  shows "case alloc_blocks 1 bs of
      None \<Rightarrow> que_init s = Inl Panic
    | Some (r, bs') \<Rightarrow> \<exists>s'. que_init s = Inr s' \<and> que_abs s' bs' (\<lambda>_. []) \<and> free_qnodes s' \<noteq> 0 \<and> que_nodes s' 512 \<and>
        queue_free s' = replicate N_QUEUES QUE_FREE"
  using que_init_abs [OF assms] by (auto split: option.splits)

theorem que_init_empty_witness:
  "\<exists>s'. que_init boot_que = Inr s' \<and> que_abs s' [(0x101000, 3)] (\<lambda>_. [])"
  using que_init_empty [OF boot_que_abs] by auto

text \<open>A state with eight empty queues, the first of them allocated as a FIFO queue.\<close>

lemma ready_queues:
  obtains t :: que_st where "que_abs t [(0x101000, 3)] (\<lambda>_. [])" and "q_compare (queues t ! 0) = None"
    and "node_supply t [(0x101000, 3)]"
proof -
  obtain s where s: "que_init boot_que = Inr s" "que_abs s [(0x101000, 3)] (\<lambda>_. [])" "free_qnodes s \<noteq> 0"
      "queue_free s = replicate N_QUEUES QUE_FREE"
    using que_init_abs [OF boot_que_abs] by auto
  have f: "first_ix (\<lambda>i. queue_free s ! i \<noteq> 0) N_QUEUES = Some 0"
    unfolding first_ix_Some s(4) by (simp add: que_consts)
  then obtain t where al: "que_alloc None s = (Some 0, t)" and ft: "free_qnodes t = free_qnodes s"
    by (simp add: que_alloc_def Let_def)
  from que_alloc_abs [OF s(2) al] s al ft show thesis by (intro that [of t]) (simp_all add: node_supply_def)
qed

lemma one_entry:
  obtains s :: que_st and bs where "que_abs s bs ((\<lambda>_. [])(0 := [Some 3]))"
proof -
  obtain t :: que_st where t: "que_abs t [(0x101000, 3)] (\<lambda>_. [])" "q_compare (queues t ! 0) = None"
    "node_supply t [(0x101000, 3)]"
    by (rule ready_queues)
  have "orders (\<lambda>_ _ _ _. Inr 0) t 0 (Some 3) [] None" using t(2) by (simp add: orders_def)
  then show ?thesis
    using que_insert_abs [OF t(1), of 0 "\<lambda>_ _ _ _. Inr 0" "Some 3" None] t(3) that
    by (auto simp: N_QUEUES_def que_place_def)
qed

text \<open>C16. \<^verbatim>\<open>que_insert()\<close>: as long as a node can be had, the value is inserted exactly where the queue's
  order puts it (at the end of a FIFO queue; otherwise before the first entry that the comparison
  function says must come later, so after all equal ones), the other queues are unchanged, and the
  status is success. Without a free node and a free page it panics.\<close>

theorem que_insert_in_order:
  assumes "que_abs s bs Q" and "i < N_QUEUES" and "orders call s i d (Q i) ord"
  shows "if node_supply s bs
    then \<exists>s' bs'. que_insert call (Some i) d s = Inr (E_SUCCESS, s') \<and> que_frame s s' \<and>
      que_abs s' bs' (Q(i := que_place ord d (Q i))) \<and> (free_qnodes s \<noteq> NULL \<longrightarrow> bs' = bs)
    else que_insert call (Some i) d s = Inl Panic"
  using que_insert_abs [OF assms] que_insert_panic [OF assms(1,2)] by (simp del: fun_upd_apply) blast

theorem que_insert_in_order_witness:
  "\<exists>(s :: que_st) s' bs'. que_insert (\<lambda>_ _ _ _. Inr 0) (Some 0) (Some 3) s = Inr (E_SUCCESS, s') \<and>
     que_abs s' bs' ((\<lambda>_. [])(0 := [Some 3]))"
proof -
  obtain t :: que_st where t: "que_abs t [(0x101000, 3)] (\<lambda>_. [])" "q_compare (queues t ! 0) = None"
    "node_supply t [(0x101000, 3)]"
    by (rule ready_queues)
  have "orders (\<lambda>_ _ _ _. Inr 0) t 0 (Some 3) [] None" using t(2) by (simp add: orders_def)
  then show ?thesis
    using que_insert_in_order [OF t(1), of 0 "\<lambda>_ _ _ _. Inr 0" "Some 3" None] t(3)
    by (auto simp: N_QUEUES_def que_place_def)
qed

text \<open>\<^verbatim>\<open>que_remove()\<close> delivers the first value of the queue and removes it; on an empty queue it
  reports \<^verbatim>\<open>E_EMPTY\<close> and changes nothing. The node goes back to the free list.\<close>

theorem que_remove_takes_front:
  assumes "que_abs s bs Q" and "i < N_QUEUES"
  shows "case Q i of
      [] \<Rightarrow> que_remove (Some i) (Some v) s = Inr (E_EMPTY, Some v, s)
    | d # ds \<Rightarrow> \<exists>s'. que_remove (Some i) (Some v) s = Inr (E_SUCCESS, Some d, s') \<and> que_frame s s' \<and>
        que_abs s' bs (Q(i := ds)) \<and> free_qnodes s' \<noteq> NULL"
proof (cases "Q i")
  case (Cons d ds)
  from que_remove_abs [OF assms Cons, of v] show ?thesis unfolding Cons list.case by blast
qed (use que_remove_empty [OF assms] in simp)

theorem que_remove_takes_front_witness:
  "\<exists>(s :: que_st) s' bs. que_remove (Some 0) (Some None) s = Inr (E_SUCCESS, Some (Some 3), s') \<and>
     que_abs s' bs ((\<lambda>_. [])(0 := [Some 3], 0 := []))"
proof -
  obtain s :: que_st and bs where "que_abs s bs ((\<lambda>_. [])(0 := [Some 3]))" by (rule one_entry)
  from que_remove_takes_front [OF this, of 0 None] show ?thesis by (auto simp: N_QUEUES_def)
qed

text \<open>\<^verbatim>\<open>que_remove_by()\<close> removes the first entry that holds the given pointer and nothing else; when
  there is none it reports \<^verbatim>\<open>E_NOT_FOUND\<close>, or \<^verbatim>\<open>E_EMPTY\<close> for an empty queue, and changes nothing.\<close>

theorem que_remove_by_first:
  assumes "que_abs s bs Q" and "i < N_QUEUES" and "d \<noteq> None"
  shows "if d \<in> set (Q i)
    then \<exists>s'. que_remove_by (Some i) d s = Inr (E_SUCCESS, s') \<and> que_frame s s' \<and>
      que_abs s' bs (Q(i := remove1 d (Q i)))
    else que_remove_by (Some i) d s = Inr (if Q i = [] then E_EMPTY else E_NOT_FOUND, s)"
  using que_remove_by_abs [OF assms] que_remove_by_absent [OF assms] by auto

theorem que_remove_by_first_witness:
  "\<exists>(s :: que_st) s' bs. que_remove_by (Some 0) (Some 3) s = Inr (E_SUCCESS, s') \<and> que_abs s' bs ((\<lambda>_. [])(0 := [Some 3], 0 := []))"
proof -
  obtain s :: que_st and bs where "que_abs s bs ((\<lambda>_. [])(0 := [Some 3]))" by (rule one_entry)
  from que_remove_by_first [OF this, of 0 "Some 3"] show ?thesis by (auto simp: N_QUEUES_def)
qed

text \<open>First in, first out: after any number of successful insertions into a queue without a
  comparison function, removing as many entries as it then holds delivers the old entries and the
  new ones in the order of arrival, and leaves the queue empty.\<close>

theorem que_fifo_order:
  assumes "que_view s Q" and "que_fifo s i" and "fill (que_insert call (Some i)) ds s = Inr s'"
  shows "\<exists>s''. drain (que_remove (Some i) (Some None)) (length (Q i) + length ds) s' = Inr (Q i @ ds, s'') \<and>
    que_view s'' (Q(i := []))"
  using kq.first_in_first_out [OF assms] .

theorem que_fifo_order_witness:
  "\<exists>(s :: que_st) s' s''. fill (que_insert (\<lambda>_ _ _ _. Inr 0) (Some 0)) [Some 3] s = Inr s' \<and>
     drain (que_remove (Some 0) (Some None)) 1 s' = Inr ([Some 3], s'')"
proof -
  obtain t :: que_st where t: "que_abs t [(0x101000, 3)] (\<lambda>_. [])" "q_compare (queues t ! 0) = None"
    "node_supply t [(0x101000, 3)]"
    by (rule ready_queues)
  have v: "que_view t (\<lambda>_. [])" using t(1) by (auto simp: que_view_def)
  have f: "que_fifo t 0" using t(2) que_count_abs(2) [OF t(1), of 0] by (simp add: que_fifo_def N_QUEUES_def)
  obtain s' where "que_insert (\<lambda>_ _ _ _. Inr 0) (Some 0) (Some 3) t = Inr (E_SUCCESS, s')"
    using que_insert_abs [OF t(1) _ que_fifo_orders [OF t(1) f] t(3), of "\<lambda>_ _ _ _. Inr 0" "Some 3"]
    by (auto simp: N_QUEUES_def)
  then have "fill (que_insert (\<lambda>_ _ _ _. Inr 0) (Some 0)) [Some 3] t = Inr s'" by simp
  from que_fifo_order [OF v f this] this show ?thesis by auto
qed

end
