(* ===== verification/Lib_Str.thy ===== *)
theory Lib_Str
  imports Lib_Mem
begin

text \<open>
  The string functions of \<^verbatim>\<open>lib/\<close>: \<^verbatim>\<open>strlen\<close>, \<^verbatim>\<open>strcpy\<close>, \<^verbatim>\<open>strcat\<close>, \<^verbatim>\<open>strcmp\<close>, \<^verbatim>\<open>strchr\<close>, \<^verbatim>\<open>strrchr\<close>, \<^verbatim>\<open>pad\<close> and
  \<^verbatim>\<open>padstr\<close>, over the byte memory. A loop that looks for a NUL byte is a partial function: it is \<open>None\<close>
  where the loop would not end. A \<^verbatim>\<open>char\<close> is a signed byte.
\<close>

section \<open>Definitions\<close>

partial_function (option) strlen_loop :: "u32 \<Rightarrow> u32 \<Rightarrow> memory \<Rightarrow> u32 option" where
  "strlen_loop str len m = (if m str = 0 then Some len else strlen_loop (str + 1) (len + 1) m)"

definition strlen :: "u32 \<Rightarrow> memory \<Rightarrow> u32 option" where
  "strlen str m = strlen_loop str 0 m"

partial_function (option) strcpy_loop :: "u32 \<Rightarrow> u32 \<Rightarrow> memory \<Rightarrow> memory option" where
  "strcpy_loop dst src m =
     (let m' = m(dst := m src)
      in if m src = 0 then Some m' else strcpy_loop (dst + 1) (src + 1) m')"

definition strcpy :: "u32 \<Rightarrow> u32 \<Rightarrow> memory \<Rightarrow> (u32 \<times> memory) option" where
  "strcpy dst src m = map_option (\<lambda>m'. (dst, m')) (strcpy_loop dst src m)"

partial_function (option) find_nul :: "u32 \<Rightarrow> memory \<Rightarrow> u32 option" where
  "find_nul dst m = (if m dst = 0 then Some dst else find_nul (dst + 1) m)"

definition strcat :: "u32 \<Rightarrow> u32 \<Rightarrow> memory \<Rightarrow> (u32 \<times> memory) option" where
  "strcat dst src m = Option.bind (find_nul dst m) (\<lambda>e. map_option (\<lambda>m'. (dst, m')) (strcpy_loop e src m))"

partial_function (option) strcmp :: "u32 \<Rightarrow> u32 \<Rightarrow> memory \<Rightarrow> int option" where
  "strcmp s1 s2 m =
     (if m s1 \<noteq> 0 \<and> m s1 = m s2 then strcmp (s1 + 1) (s2 + 1) m
      else Some (sint (m s1) - sint (m s2)))"

partial_function (option) strchr_loop :: "u32 \<Rightarrow> u8 \<Rightarrow> memory \<Rightarrow> u32 option" where
  "strchr_loop str ch m =
     (if m str = 0 then Some NULL else if m str = ch then Some str else strchr_loop (str + 1) ch m)"

definition strchr :: "u32 \<Rightarrow> u8 \<Rightarrow> memory \<Rightarrow> u32 option" where
  "strchr str ch m = (if str = NULL then Some NULL else strchr_loop str ch m)"

partial_function (option) strrchr_loop :: "u32 \<Rightarrow> u32 \<Rightarrow> u8 \<Rightarrow> memory \<Rightarrow> u32 option" where
  "strrchr_loop str ptr ch m =
     (if str \<le> ptr \<and> m ptr \<noteq> 0
      then if m ptr = ch then Some ptr else strrchr_loop str (ptr - 1) ch m
      else Some NULL)"

definition strrchr :: "u32 \<Rightarrow> u8 \<Rightarrow> memory \<Rightarrow> u32 option" where
  "strrchr str ch m =
     (if str = NULL then Some NULL
      else Option.bind (strlen str m) (\<lambda>len. strrchr_loop str (str + (len - 1)) ch m))"

fun pad_loop :: "nat \<Rightarrow> u32 \<Rightarrow> u8 \<Rightarrow> memory \<Rightarrow> u32 \<times> memory" where
  "pad_loop 0 dst c m = (dst, m)"
| "pad_loop (Suc n) dst c m = pad_loop n (dst + 1) c (m(dst := c))"

definition pad :: "u32 \<Rightarrow> int \<Rightarrow> int \<Rightarrow> memory \<Rightarrow> u32 \<times> memory" where
  "pad dst extra padchar m = pad_loop (nat extra) dst (word_of_int padchar) m"

text \<open>The copying loop of \<^verbatim>\<open>padstr()\<close>: \<open>n\<close> more characters, from index \<open>i\<close> on.\<close>

fun padstr_copy :: "nat \<Rightarrow> u32 \<Rightarrow> u32 \<Rightarrow> memory \<Rightarrow> u32 \<times> memory" where
  "padstr_copy 0 dst p m = (dst, m)"
| "padstr_copy (Suc n) dst p m = padstr_copy n (dst + 1) (p + 1) (m(dst := m p))"

definition padstr ::
    "u32 \<Rightarrow> u32 \<Rightarrow> int \<Rightarrow> int \<Rightarrow> bool \<Rightarrow> int \<Rightarrow> memory \<Rightarrow> (u32 \<times> memory) option" where
  "padstr dst str len width leftadjust padchar m =
     Option.bind (if len < 0 then map_option sint (strlen str m) else Some len) (\<lambda>len.
       let extra = width - len;
           (dst, m) = (if extra > 0 \<and> \<not> leftadjust then pad dst extra padchar m else (dst, m));
           (dst, m) = padstr_copy (nat len) dst str m;
           (dst, m) = (if extra > 0 \<and> leftadjust then pad dst extra padchar m else (dst, m))
       in Some (dst, m))"

definition bound :: "u32 \<Rightarrow> u32 \<Rightarrow> u32 \<Rightarrow> u32" where
  "bound mn v mx =
     (let v = (if v < mn then mn else v);
          v = (if v > mx then mx else v)
      in v)"

section \<open>Strings in memory\<close>

text \<open>\<open>str_at m a xs\<close>: the bytes \<open>xs\<close>, none of them NUL, followed by a NUL, begin at address \<open>a\<close>.\<close>

fun str_at :: "memory \<Rightarrow> u32 \<Rightarrow> u8 list \<Rightarrow> bool" where
  "str_at m a [] \<longleftrightarrow> m a = 0"
| "str_at m a (x # xs) \<longleftrightarrow> x \<noteq> 0 \<and> m a = x \<and> str_at m (a + 1) xs"

text \<open>The bytes of \<open>xs\<close> written from address \<open>a\<close> on.\<close>

fun put_bytes :: "u32 \<Rightarrow> u8 list \<Rightarrow> memory \<Rightarrow> memory" where
  "put_bytes a [] m = m"
| "put_bytes a (x # xs) m = put_bytes (a + 1) xs (m(a := x))"

text \<open>The \<open>n\<close> cells from \<open>a\<close> on.\<close>

definition cells :: "u32 \<Rightarrow> nat \<Rightarrow> u32 set" where
  "cells a n = (\<lambda>i. a + of_nat i) ` {..<n}"

lemma cells_0 [simp]: "cells a 0 = {}"
  by (simp add: cells_def)

lemma cells_Suc: "cells a (Suc n) = insert a (cells (a + 1) n)"
  unfolding cells_def lessThan_Suc_eq_insert_0 by (simp add: image_image algebra_simps)

lemma cells_split: "cells a (n + k) = cells a n \<union> cells (a + of_nat n) k"
  by (induction n arbitrary: a) (simp_all add: cells_Suc add.assoc)

lemma cells_mono: "i \<le> j \<Longrightarrow> cells a i \<subseteq> cells a j"
  by (auto simp: cells_def)

lemma put_bytes_append: "put_bytes a (xs @ ys) m = put_bytes (a + of_nat (length xs)) ys (put_bytes a xs m)"
  by (induction xs arbitrary: a m) (simp_all add: algebra_simps)

lemma put_bytes_other: "x \<notin> cells a (length xs) \<Longrightarrow> put_bytes a xs m x = m x"
  by (induction xs arbitrary: a m) (auto simp: cells_Suc)

lemma cells_iff: "n \<le> 2 ^ 32 \<Longrightarrow> x \<in> cells a n \<longleftrightarrow> unat (x - a) < n"
proof
  assume n: "n \<le> 2 ^ 32"
  show "unat (x - a) < n" if "x \<in> cells a n"
    using that n by (auto simp: cells_def unat_of_nat_small)
  assume "unat (x - a) < n"
  then show "x \<in> cells a n" unfolding cells_def
    by (intro image_eqI [of _ _ "unat (x - a)"]) simp_all
qed

lemma cells_head: "n < 2 ^ 32 \<Longrightarrow> a \<notin> cells (a + 1) n"
proof -
  assume "n < 2 ^ 32"
  moreover have "unat (-1 :: u32) = 2 ^ 32 - 1" by (simp add: unsigned_minus_1_eq_mask mask_eq_exp_minus_1)
  moreover have "a - (a + 1) = -1" by simp
  ultimately show ?thesis by (simp only: cells_iff less_imp_le)
qed

lemma put_bytes_at:
  assumes "length xs \<le> 2 ^ 32" and "i < length xs"
  shows "put_bytes a xs m (a + of_nat i) = xs ! i"
  using assms
proof (induction xs arbitrary: a m i)
  case (Cons x xs)
  have "a \<notin> cells (a + 1) (length xs)"
    using Cons.prems(1) by (intro cells_head) simp
  then show ?case
  proof (cases i)
    case 0
    then show ?thesis using \<open>a \<notin> _\<close> by (simp add: put_bytes_other)
  next
    case (Suc j)
    then show ?thesis using Cons.IH [of j "a + 1" "m(a := x)"] Cons.prems
      by (simp add: algebra_simps del: fun_upd_apply)
  qed
qed simp

lemma put_bytes_str:
  assumes "length xs < 2 ^ 32" and "0 \<notin> set xs"
  shows "str_at (put_bytes a (xs @ [0]) m) a xs"
  using assms
proof (induction xs arbitrary: a m)
  case (Cons x xs)
  have "a \<notin> cells (a + 1) (length (xs @ [0]))"
    using Cons.prems(1) by (intro cells_head) simp
  with Cons show ?case using put_bytes_other [of a "a + 1" "xs @ [0]" "m(a := x)"] by simp
qed simp

lemma str_at_frame: "(\<And>x. x \<in> cells a (Suc (length xs)) \<Longrightarrow> m' x = m x) \<Longrightarrow> str_at m' a xs = str_at m a xs"
proof (induction xs arbitrary: a)
  case (Cons x xs)
  have "str_at m' (a + 1) xs = str_at m (a + 1) xs"
    by (rule Cons.IH) (use Cons.prems in \<open>auto simp: cells_Suc\<close>)
  then show ?case using Cons.prems by (simp add: cells_Suc)
qed (simp add: cells_Suc)

lemma str_at_unique: "str_at m a xs \<Longrightarrow> str_at m a ys \<Longrightarrow> xs = ys"
proof (induction xs arbitrary: a ys)
  case (Cons x xs)
  then show ?case by (cases ys) auto
next
  case Nil
  then show ?case by (cases ys) auto
qed

lemma str_at_nonzero: "str_at m a xs \<Longrightarrow> 0 \<notin> set xs"
  by (induction xs arbitrary: a) auto

lemma put_bytes_same: "str_at m a xs \<Longrightarrow> put_bytes a xs m = m"
  by (induction xs arbitrary: a) (auto simp del: fun_upd_apply simp: fun_upd_idem)

text \<open>ASCII bytes are not negative as signed characters.\<close>

lemma ascii_sint: "c < 128 \<Longrightarrow> sint (c :: u8) = uint c"
proof -
  assume "c < 128"
  then have "uint c < 128" by (simp add: word_less_def)
  moreover have "- 128 \<le> uint c" using uint_ge_0 [of c] by linarith
  ultimately show ?thesis unfolding sint_uint by (intro signed_take_bit_int_eq_self) simp_all
qed

lemma ascii_pos: "c < 128 \<Longrightarrow> c \<noteq> 0 \<Longrightarrow> 0 < sint (c :: u8)"
  by (simp add: ascii_sint) (metis less_le uint_0_iff uint_ge_0)

lemma ascii_order: "x < 128 \<Longrightarrow> y < 128 \<Longrightarrow> sint (x :: u8) < sint y \<longleftrightarrow> x < y"
  by (simp add: ascii_sint word_less_def)

section \<open>Correctness\<close>

lemma strlen_loop_str: "str_at m a xs \<Longrightarrow> strlen_loop a n m = Some (n + of_nat (length xs))"
  by (induction xs arbitrary: a n) (simp_all add: strlen_loop.simps algebra_simps)

lemma strlen_str: "str_at m a xs \<Longrightarrow> strlen a m = Some (of_nat (length xs))"
  by (simp add: strlen_def strlen_loop_str)

lemma find_nul_str: "str_at m a xs \<Longrightarrow> find_nul a m = Some (a + of_nat (length xs))"
  by (induction xs arbitrary: a) (simp_all add: find_nul.simps algebra_simps)

lemma strcpy_loop_str:
  assumes "str_at m src xs" and "cells dst (length xs) \<inter> cells src (Suc (length xs)) = {}"
  shows "strcpy_loop dst src m = Some (put_bytes dst (xs @ [0]) m)"
  using assms
proof (induction xs arbitrary: dst src m)
  case Nil
  then show ?case by (simp add: strcpy_loop.simps Let_def del: fun_upd_apply)
next
  case (Cons x xs)
  have "str_at (m(dst := x)) (src + 1) xs = str_at m (src + 1) xs"
    using Cons.prems(2) by (intro str_at_frame) (auto simp: cells_Suc)
  moreover have "cells (dst + 1) (length xs) \<inter> cells (src + 1) (Suc (length xs)) = {}"
    using Cons.prems(2) by (simp add: cells_Suc disjoint_iff)
  ultimately show ?case
    using Cons.IH [of "m(dst := x)" "src + 1" "dst + 1"] Cons.prems(1)
    by (subst strcpy_loop.simps) (simp add: Let_def del: fun_upd_apply)
qed

text \<open>\<^verbatim>\<open>strcat()\<close> appends: when the destination holds \<open>xs\<close>, the source holds \<open>ys\<close>, and the cells that will
  hold the appended copy are not part of the source or of the destination string, the destination
  holds \<open>xs @ ys\<close> afterwards, all other bytes are unchanged, and the destination pointer is returned.\<close>

theorem strcat_appends:
  assumes "str_at m dst xs" and "str_at m src ys"
    and "cells (dst + of_nat (length xs)) (length ys) \<inter> cells src (Suc (length ys)) = {}"
    and "length xs + length ys < 2 ^ 32"
  shows "\<exists>m'. strcat dst src m = Some (dst, m') \<and> str_at m' dst (xs @ ys) \<and>
    (\<forall>x. x \<notin> cells (dst + of_nat (length xs)) (Suc (length ys)) \<longrightarrow> m' x = m x)"
proof (intro exI conjI)
  let ?e = "dst + of_nat (length xs)" and ?m = "put_bytes (dst + of_nat (length xs)) (ys @ [0]) m"
  show "strcat dst src m = Some (dst, ?m)"
    using find_nul_str [OF assms(1)] strcpy_loop_str [OF assms(2,3)] by (simp add: strcat_def)
  have nz: "0 \<notin> set xs" "0 \<notin> set ys" using assms(1,2) str_at_nonzero by blast+
  have "put_bytes dst xs m = m" by (rule put_bytes_same [OF assms(1)])
  then have "?m = put_bytes dst ((xs @ ys) @ [0]) m" using put_bytes_append [of dst xs "ys @ [0]" m] by simp
  then show "str_at ?m dst (xs @ ys)" using put_bytes_str [of "xs @ ys" dst m] assms(4) nz by simp
  show "\<forall>x. x \<notin> cells ?e (Suc (length ys)) \<longrightarrow> ?m x = m x" by (simp add: put_bytes_other)
qed

text \<open>Two strings in memory: "ab" at 100 and "c" at 200.\<close>

definition two_strings :: memory where
  "two_strings = put_bytes 200 [99] (put_bytes 100 [97, 98] (\<lambda>_. 0))"

theorem strcat_appends_witness:
  "\<exists>m'. strcat 100 200 two_strings = Some (100, m') \<and> str_at m' 100 [97, 98, 99]"
proof -
  have s: "str_at two_strings 100 [97, 98]" "str_at two_strings 200 [99]"
    by (simp_all add: two_strings_def)
  have d: "cells (100 + of_nat (length [97, 98 :: u8])) (length [99 :: u8]) \<inter> cells 200 (Suc (length [99 :: u8])) = {}"
    by (simp add: cells_Suc)
  show ?thesis using strcat_appends [OF s d] by auto
qed

text \<open>On strings of ASCII characters \<^verbatim>\<open>strcmp()\<close> is the lexicographic order: zero exactly for equal
  strings, negative exactly when the first string comes first.\<close>

theorem strcmp_lexicographic:
  assumes "str_at m s1 xs" and "str_at m s2 ys" and "\<forall>c \<in> set xs \<union> set ys. c < 128"
  shows "\<exists>r. strcmp s1 s2 m = Some r \<and> (r = 0 \<longleftrightarrow> xs = ys) \<and> (r < 0 \<longleftrightarrow> ord_class.lexordp xs ys)"
  using assms
proof (induction xs arbitrary: s1 s2 ys)
  case Nil
  show ?case
  proof (cases ys)
    case Nil2: Nil
    then show ?thesis using Nil.prems by (simp add: strcmp.simps)
  next
    case (Cons y ys')
    then have "0 < sint y" using Nil.prems by (intro ascii_pos) auto
    then show ?thesis using Nil.prems Cons by (simp add: strcmp.simps)
  qed
next
  case (Cons x xs)
  show ?case
  proof (cases ys)
    case Nil
    have "0 < sint x" using Cons.prems by (intro ascii_pos) auto
    then show ?thesis using Cons.prems Nil by (simp add: strcmp.simps)
  next
    case (Cons y ys')
    note prems = Cons.prems Cons
    show ?thesis
    proof (cases "x = y")
      case True
      have "strcmp s1 s2 m = strcmp (s1 + 1) (s2 + 1) m"
        using prems True by (subst strcmp.simps) simp
      with Cons.IH [of "s1 + 1" "s2 + 1" ys'] prems True show ?thesis by auto
    next
      case False
      have "strcmp s1 s2 m = Some (sint x - sint y)" using prems False by (subst strcmp.simps) simp
      moreover have "x < 128" "y < 128" using prems by auto
      ultimately show ?thesis using prems(4) False ascii_order [of x y] ascii_order [of y x] by auto
    qed
  qed
qed

theorem strcmp_lexicographic_witness:
  "\<exists>r. strcmp 100 200 two_strings = Some r \<and> r < 0"
proof -
  have "str_at two_strings 100 [97, 98]" "str_at two_strings 200 [99]" by (simp_all add: two_strings_def)
  from strcmp_lexicographic [OF this] show ?thesis by auto
qed

end
