(* ===== verification/Stacks.thy ===== *)
theory Stacks
  imports Queue_Service Lib_Str
begin

text \<open>
  The intrusive list of \<^verbatim>\<open>kernel/list.c\<close> and the stack module of \<^verbatim>\<open>kernel/stacks.c\<close> (compiled with dynamic
  stack allocation): stacks of two pages, a free list threaded through the first word of each free
  stack, and the construction of the initial stack of a process.
\<close>

section \<open>Lists threaded through memory\<close>

definition list_add :: "u32 \<Rightarrow> u32 \<Rightarrow> 'z machine_scheme \<Rightarrow> kerr + 'z machine_scheme" where
  "list_add list data s =
     kbind (kassert (list \<noteq> NULL)) (\<lambda>_.
     kbind (kassert (data \<noteq> NULL)) (\<lambda>_.
       let tmp = data;
           s = poke32 tmp (load32 (mem s) list) s
       in Inr (poke32 list tmp s)))"

definition list_remove :: "u32 \<Rightarrow> 'z machine_scheme \<Rightarrow> kerr + u32 \<times> 'z machine_scheme" where
  "list_remove list s =
     kbind (kassert (list \<noteq> NULL)) (\<lambda>_.
       let data = load32 (mem s) list in
       if data \<noteq> NULL
       then let s = poke32 list (load32 (mem s) data) s
            in Inr (data, poke32 data NULL s)
       else Inr (data, s))"

section \<open>State\<close>

record stk_st = que_st +
  free_stacks :: u32
  kstack :: u32
  kesp :: u32
  user_locs :: u32

definition STACK_PAGES :: u32 where "STACK_PAGES = 2"
definition SZ_STACK :: u32 where "SZ_STACK = STACK_PAGES * SZ_PAGE"
definition STACK_WDS :: u32 where "STACK_WDS = SZ_STACK div 4"
definition MOD4_MASK :: u32 where "MOD4_MASK = 0xfffffffc"
definition MOD16_MASK :: u32 where "MOD16_MASK = 0xfffffff0"
definition DIV4 :: "u32 \<Rightarrow> u32" where "DIV4 x = drop_bit 2 x"
definition ULOC_INIT :: u32 where "ULOC_INIT = 0"
definition ULOC_FAKE :: u32 where "ULOC_FAKE = 1"
definition DEFAULT_EFLAGS :: u32 where "DEFAULT_EFLAGS = 0x2 OR 0x200"
definition GDT_CODE :: u32 where "GDT_CODE = 0x10"
definition GDT_DATA :: u32 where "GDT_DATA = 0x18"
definition GDT_STACK :: u32 where "GDT_STACK = 0x20"

lemmas stk_consts = STACK_PAGES_def SZ_STACK_def STACK_WDS_def SZ_PAGE_def ULOC_INIT_def ULOC_FAKE_def

text \<open>The fields of a context save area, by their offset in \<^verbatim>\<open>context_t\<close>, and its size.\<close>

definition ctx_ss :: u32 where "ctx_ss = 0"
definition ctx_gs :: u32 where "ctx_gs = 4"
definition ctx_fs :: u32 where "ctx_fs = 8"
definition ctx_es :: u32 where "ctx_es = 12"
definition ctx_ds :: u32 where "ctx_ds = 16"
definition ctx_ebp :: u32 where "ctx_ebp = 28"
definition ctx_esp :: u32 where "ctx_esp = 32"
definition ctx_eax :: u32 where "ctx_eax = 48"
definition ctx_eip :: u32 where "ctx_eip = 60"
definition ctx_cs :: u32 where "ctx_cs = 64"
definition ctx_eflags :: u32 where "ctx_eflags = 68"
definition SZ_CONTEXT :: u32 where "SZ_CONTEXT = 72"

lemmas ctx_offsets = ctx_ss_def ctx_gs_def ctx_fs_def ctx_es_def ctx_ds_def ctx_ebp_def ctx_esp_def
  ctx_eax_def ctx_eip_def ctx_cs_def ctx_eflags_def SZ_CONTEXT_def

section \<open>Operations\<close>

text \<open>The result of \<^verbatim>\<open>stk_alloc()\<close> carries the stack in place of the output parameter.\<close>

definition stk_alloc :: "'z stk_st_scheme \<Rightarrow> kerr + ecode \<times> u32 option \<times> 'z stk_st_scheme" where
  "stk_alloc s =
     kbind (if free_stacks s = NULL then km_page_alloc STACK_PAGES s
            else let tmp = free_stacks s in Inr (tmp, s\<lparr>free_stacks := load32 (mem s) tmp\<rparr>))
       (\<lambda>(new, s).
         if new \<noteq> NULL then Inr (E_SUCCESS, Some new, s\<lparr>mem := memclr new SZ_STACK (mem s)\<rparr>)
         else Inr (E_FAILURE, None, s))"

definition stk_free :: "u32 \<Rightarrow> 'z stk_st_scheme \<Rightarrow> kerr + 'z stk_st_scheme" where
  "stk_free stk s =
     kbind (kassert (stk \<noteq> NULL)) (\<lambda>_.
       let tmp = stk;
           s = poke32 tmp (free_stacks s) s
       in Inr (s\<lparr>free_stacks := tmp\<rparr>))"

definition stk_init :: "'z stk_st_scheme \<Rightarrow> kerr + 'z stk_st_scheme" where
  "stk_init s =
     (let s = s\<lparr>free_stacks := NULL\<rparr> in
      kbind (stk_alloc s) (\<lambda>(status, stk, s).
      kbind (kassert (status = E_SUCCESS)) (\<lambda>_.
        let s = (case stk of None \<Rightarrow> s | Some k \<Rightarrow> s\<lparr>kstack := k\<rparr>)
        in Inr (s\<lparr>kesp := kstack s + 4 * STACK_WDS - 4\<rparr>))))"

definition stk_setup :: "u32 \<Rightarrow> u32 \<Rightarrow> u32 \<Rightarrow> 'z stk_st_scheme \<Rightarrow> kerr + u32 \<times> 'z stk_st_scheme" where
  "stk_setup stk entry args s =
     kbind (case strlen args (mem s) of None \<Rightarrow> Inl Diverge | Some n \<Rightarrow> Inr n) (\<lambda>n.
       let totwords = 1;
           argbytes = n + 1;
           argbytes = (argbytes + 3) AND MOD4_MASK;
           argwords = DIV4 argbytes;
           totwords = totwords + argwords;
           totwords = totwords + 1;
           stackend = stk + 4 * STACK_WDS;
           avptr = stackend - 4 * totwords;
           avptr = avptr AND MOD16_MASK;
           s = poke32 avptr (avptr + 4) s;
           s = s\<lparr>mem := memmove (avptr + 4) args argbytes (mem s)\<rparr>;
           avptr = avptr - 4;
           s = poke32 avptr (load32 (mem s) (user_locs s + 4 * ULOC_FAKE)) s;
           ctx = avptr - SZ_CONTEXT;
           s = poke32 (ctx + ctx_eflags) DEFAULT_EFLAGS s;
           s = poke32 (ctx + ctx_eip) entry s;
           s = poke32 (ctx + ctx_cs) GDT_CODE s;
           s = poke32 (ctx + ctx_ss) GDT_STACK s;
           s = poke32 (ctx + ctx_gs) GDT_DATA s;
           s = poke32 (ctx + ctx_fs) GDT_DATA s;
           s = poke32 (ctx + ctx_es) GDT_DATA s;
           s = poke32 (ctx + ctx_ds) GDT_DATA s
       in Inr (ctx, s))"

section \<open>The pool of free stacks\<close>

lemma SZ_STACK_val: "SZ_STACK = 8192" "unat SZ_STACK = 8192" "STACK_WDS = 2048" "STACK_PAGES = 2"
  by (simp_all add: stk_consts)

definition stk_ok :: "blocks \<Rightarrow> u32 \<Rightarrow> bool" where
  "stk_ok bs a \<longleftrightarrow> block_ok (a, 2) \<and> cells_of (a, 2) \<inter> free_cells bs = {}"

definition stk_apart :: "u32 \<Rightarrow> u32 \<Rightarrow> bool" where
  "stk_apart a b \<longleftrightarrow> cells_of (a, 2) \<inter> cells_of (b, 2) = {}"

text \<open>\<open>stk_inv s bs ss\<close>: the free stacks are \<open>ss\<close>, linked through their first words; they overlap neither
  each other nor a free page.\<close>

definition stk_inv :: "'z stk_st_scheme \<Rightarrow> blocks \<Rightarrow> u32 list \<Rightarrow> bool" where
  "stk_inv s bs ss \<longleftrightarrow> kmem_abs s bs \<and> llist (load32 (mem s)) (free_stacks s) ss \<and>
     (\<forall>a \<in> set ss. stk_ok bs a) \<and> (\<forall>a \<in> set ss. \<forall>b \<in> set ss. a \<noteq> b \<longrightarrow> stk_apart a b)"

lemma kmem_abs_stk [simp]:
  "kmem_abs (s\<lparr>mem := m\<rparr>) bs = kmem_abs s bs"
  by (simp add: kmem_abs_def blocks_of_def)

lemma kmem_abs_stk' [simp]:
  "kmem_abs (s\<lparr>free_stacks := v\<rparr>) bs = kmem_abs s bs"
  by (simp add: kmem_abs_def blocks_of_def)

lemma in_stack:
  assumes "block_ok (a, 2)"
  shows "x - a < SZ_STACK \<longleftrightarrow> unat x \<in> cells_of (a, 2)"
  using in_range32 [of a SZ_STACK x] assms
  by (simp add: block_ok_def cells_of_def extent_def SZ_STACK_val)

lemma first_word_apart:
  assumes "block_ok (a, 2)" and "block_ok (b, 2)" and "stk_apart a b" and "i < 4"
  shows "\<not> (b + i) - a < SZ_STACK"
proof -
  have "unat (b + i) = unat b + unat i"
    using assms(2,4) by (simp add: block_ok_def unat_word_ariths word_less_nat_alt)
  then have "unat (b + i) \<in> cells_of (b, 2)"
    using assms(4) by (simp add: cells_of_def extent_def word_less_nat_alt)
  then show ?thesis using assms(3) unfolding in_stack [OF assms(1)] stk_apart_def by blast
qed

lemma load32_memclr_apart:
  assumes "block_ok (a, 2)" and "block_ok (b, 2)" and "stk_apart a b"
  shows "load32 (memclr a SZ_STACK m) b = load32 m b"
  by (rule load32_cong) (simp add: memclr_cell first_word_apart [OF assms])

lemma store32_apart:
  assumes "block_ok (a, 2)" and "block_ok (b, 2)" and "stk_apart a b"
  shows "load32 (store32 m a v) b = load32 m b"
proof (rule load32_store32_al [THEN trans])
  show "al4 a" "al4 b"
    using assms(1,2) by (auto simp: al4_unat block_ok_def elim!: dvd_trans [rotated])
  have "unat a \<in> cells_of (a, 2)" by (simp add: cells_of_def extent_def)
  then show "(if a = b then v else load32 m b) = load32 m b"
    using assms(3) by (auto simp: stk_apart_def)
qed

lemma stk_free_inv:
  assumes "stk_inv s bs ss" and "stk_ok bs a" and "\<forall>b \<in> set ss. stk_apart a b"
  shows "\<exists>s'. stk_free a s = Inr s' \<and> stk_inv s' bs (a # ss)"
proof -
  let ?s = "(poke32 a (free_stacks s) s)\<lparr>free_stacks := a\<rparr>"
  have a0: "a \<noteq> 0" using assms(2) by (simp add: stk_ok_def block_ok_def)
  have "unat a \<in> cells_of (a, 2)" by (simp add: cells_of_def extent_def)
  then have "a \<notin> set ss" using assms(3) by (auto simp: stk_apart_def)
  have "lseg (load32 (mem ?s)) (free_stacks s) ss 0 = lseg (load32 (mem s)) (free_stacks s) ss 0"
  proof (rule lseg_cong)
    fix b assume "b \<in> set ss"
    then show "load32 (mem ?s) b = load32 (mem s) b"
      using assms store32_apart [of a b] by (simp add: poke32_def stk_inv_def stk_ok_def)
  qed
  then have "stk_inv ?s bs (a # ss)"
    using assms a0 by (auto simp: stk_inv_def poke32_def stk_apart_def Int_commute)
  then show ?thesis using a0 by (intro exI [of _ ?s]) (simp add: stk_free_def Let_def)
qed

lemma stk_alloc_reuse:
  assumes "stk_inv s bs (a # ss)"
  shows "\<exists>s'. stk_alloc s = Inr (E_SUCCESS, Some a, s') \<and> stk_inv s' bs ss \<and>
    (\<forall>x. mem s' x = (if x - a < SZ_STACK then 0 else mem s x))"
proof -
  have l: "llist (load32 (mem s)) (free_stacks s) (a # ss)" using assms by (simp add: stk_inv_def)
  let ?s = "s\<lparr>free_stacks := load32 (mem s) a, mem := memclr a SZ_STACK (mem s)\<rparr>"
  have a: "a \<noteq> 0" "free_stacks s = a" "a \<notin> set ss" using l llist_distinct [OF l] by auto
  have "lseg (load32 (mem ?s)) p ss 0 = lseg (load32 (mem s)) p ss 0" for p
  proof (rule lseg_cong)
    fix b assume "b \<in> set ss"
    then show "load32 (mem ?s) b = load32 (mem s) b"
      using assms a(3) load32_memclr_apart [of a b] by (auto simp: stk_inv_def stk_ok_def)
  qed
  then have "stk_inv ?s bs ss" using assms l by (auto simp: stk_inv_def)
  then show ?thesis
    using a by (intro exI [of _ ?s]) (simp add: stk_alloc_def Let_def memclr_cell)
qed

lemma stk_alloc_fresh:
  assumes "stk_inv s bs []" and "alloc_blocks 2 bs = Some (r, bs')"
  shows "\<exists>s'. stk_alloc s = Inr (E_SUCCESS, Some (of_nat r), s') \<and> stk_inv s' bs' [] \<and> stk_ok bs' (of_nat r) \<and>
    (\<forall>x. mem s' x = (if x - of_nat r < SZ_STACK then 0 else mem s x))"
proof -
  have abs: "kmem_abs s bs" and e: "free_stacks s = 0" using assms by (auto simp: stk_inv_def)
  obtain s1 where run: "km_page_alloc 2 s = Inr (of_nat r, s1)" and abs1: "kmem_abs s1 bs'"
    using km_page_alloc_refines [OF abs, of 2] assms(2) by auto
  have same: "free_stacks s1 = free_stacks s" "mem s1 = mem s"
    using km_page_alloc_more(1) [OF run] km_page_alloc_frame(3) [OF run] by (cases s1; cases s; simp)+
  have wf: "wf_blocks 1 bs" using abs by (simp add: kmem_abs_def)
  note post = alloc_blocks_Some [OF assms(2) wf, simplified]
  have r: "unat (of_nat r :: u32) = r" using post(4) by (intro unat_of_nat_small) simp
  have r0: "(of_nat r :: u32) \<noteq> 0" using r post(2) by (metis not_one_le_zero unat_0 One_nat_def)
  have ok: "stk_ok bs' (of_nat r)"
    using post r r0 by (auto simp: stk_ok_def block_ok_def cells_of_def)
  show ?thesis
    using run same abs1 e r0 ok
    by (intro exI [of _ "s1\<lparr>mem := memclr (of_nat r) SZ_STACK (mem s1)\<rparr>"])
      (simp add: stk_alloc_def STACK_PAGES_def stk_inv_def memclr_cell)
qed

text \<open>\<^verbatim>\<open>stk_alloc()\<close> hands out a stack that is cleared and overlaps no free stack and no free page: the
  last one freed if there is one, otherwise two fresh pages; it fails, changing nothing, exactly when
  neither is available. The other free stacks stay linked.\<close>

theorem stk_alloc_correct:
  assumes "stk_inv s bs ss"
  shows "case ss of
      a # ss' \<Rightarrow> \<exists>s'. stk_alloc s = Inr (E_SUCCESS, Some a, s') \<and> stk_inv s' bs ss' \<and>
        (\<forall>x. mem s' x = (if x - a < SZ_STACK then 0 else mem s x))
    | [] \<Rightarrow> (case alloc_blocks 2 bs of
        None \<Rightarrow> stk_alloc s = Inr (E_FAILURE, None, s)
      | Some (r, bs') \<Rightarrow> \<exists>s'. stk_alloc s = Inr (E_SUCCESS, Some (of_nat r), s') \<and> stk_inv s' bs' [] \<and>
          stk_ok bs' (of_nat r) \<and> (\<forall>x. mem s' x = (if x - of_nat r < SZ_STACK then 0 else mem s x)))"
proof (cases ss)
  case Nil
  have "stk_alloc s = Inr (E_FAILURE, None, s)" if "alloc_blocks 2 bs = None"
    using km_page_alloc_refines [of s bs 2] assms that Nil
    by (simp add: stk_alloc_def stk_inv_def STACK_PAGES_def)
  then show ?thesis using stk_alloc_fresh [of s bs] assms Nil by (auto split: option.splits)
next
  case (Cons a ss')
  then show ?thesis using stk_alloc_reuse [of s bs a ss'] assms by simp
qed

definition boot_stk :: stk_st where
  "boot_stk = que_st.extend boot_que (stk_st.fields 0 0 0 0)"

lemma boot_stk_inv: "stk_inv boot_stk [(0x100000, 4)] []"
  using kmem_abs_single [of boot_stk "0x100000" 4]
  by (simp add: stk_inv_def boot_stk_def boot_que_def que_st.defs stk_st.defs)

theorem stk_alloc_correct_witness:
  "\<exists>s'. stk_alloc boot_stk = Inr (E_SUCCESS, Some 0x100000, s') \<and> stk_inv s' [(0x102000, 2)] []"
  using stk_alloc_correct [OF boot_stk_inv] by auto

section \<open>The initial stack of a process\<close>

lemma mask4: "unat ((x :: u32) AND MOD4_MASK) = unat x div 4 * 4"
proof -
  have "MOD4_MASK = push_bit 2 (mask 30)" by (simp add: MOD4_MASK_def mask_eq_exp_minus_1 push_bit_eq_mult)
  from unat_top_mask [OF _ this, of x] show ?thesis by simp
qed

lemma mask16: "unat ((x :: u32) AND MOD16_MASK) = unat x div 16 * 16"
proof -
  have "MOD16_MASK = push_bit 4 (mask 28)" by (simp add: MOD16_MASK_def mask_eq_exp_minus_1 push_bit_eq_mult)
  from unat_top_mask [OF _ this, of x] show ?thesis by simp
qed

lemma str_at_copy:
  assumes "str_at m a xs" and "\<And>i. i \<le> length xs \<Longrightarrow> m' (b + of_nat i) = m (a + of_nat i)"
  shows "str_at m' b xs"
  using assms
proof (induction xs arbitrary: a b)
  case Nil
  then show ?case using Nil.prems(2) [of 0] by simp
next
  case (Cons x xs)
  have "m' (b + 1 + of_nat i) = m (a + 1 + of_nat i)" if "i \<le> length xs" for i
    using Cons.prems(2) [of "Suc i"] that by (simp add: algebra_simps)
  then have "str_at m' (b + 1) xs" using Cons.IH [of "a + 1" "b + 1"] Cons.prems(1) by simp
  then show ?case using Cons.prems(1) Cons.prems(2) [of 0] by simp
qed

text \<open>The arithmetic of the layout: the argument pointer \<open>avptr\<close> of \<^verbatim>\<open>stk_setup()\<close> for a string of \<open>n\<close>
  characters.\<close>

definition arg_bytes :: "u32 \<Rightarrow> u32" where
  "arg_bytes n = (n + 1 + 3) AND MOD4_MASK"

definition arg_ptr :: "u32 \<Rightarrow> u32 \<Rightarrow> u32" where
  "arg_ptr stk n = (stk + 4 * STACK_WDS - 4 * (1 + DIV4 (arg_bytes n) + 1)) AND MOD16_MASK"

lemma arg_layout:
  assumes "block_ok (stk, 2)" and "unat n \<le> 8000"
  shows "unat n < unat (arg_bytes n)" and "unat (arg_bytes n) \<le> unat n + 4"
    and "16 dvd unat (arg_ptr stk n)" and "unat stk + 76 \<le> unat (arg_ptr stk n)"
    and "unat (arg_ptr stk n) + 4 + unat (arg_bytes n) \<le> unat stk + 8188"
proof -
  have n4: "unat (n + 1 + 3) = unat n + 4" using assms(2) by (simp add: unat_word_ariths)
  have ab: "unat (arg_bytes n) = (unat n + 4) div 4 * 4" unfolding arg_bytes_def mask4 n4 ..
  then show lo: "unat n < unat (arg_bytes n)" and hi: "unat (arg_bytes n) \<le> unat n + 4" by presburger+
  have d4: "unat (DIV4 (arg_bytes n)) * 4 = unat (arg_bytes n)"
    unfolding DIV4_def unat_drop ab by simp
  have stk: "unat stk + 8192 < 2 ^ 32" "4096 dvd unat stk" using assms(1) by (simp_all add: block_ok_def)
  define t where "t = 4 * (1 + DIV4 (arg_bytes n) + 1)"
  have t: "unat t = unat (arg_bytes n) + 8"
    using d4 hi assms(2) unfolding t_def by (simp add: unat_word_ariths)
  have e: "unat (stk + 4 * STACK_WDS) = unat stk + 8192" using stk by (simp add: stk_consts unat_word_ariths)
  have "unat (stk + 4 * STACK_WDS - t) = unat stk + 8192 - (unat (arg_bytes n) + 8)"
    using e t hi assms(2) by (simp add: unat_sub_if')
  then have ap: "unat (arg_ptr stk n) = (unat stk + 8192 - (unat (arg_bytes n) + 8)) div 16 * 16"
    unfolding arg_ptr_def t_def [symmetric] mask16 by simp
  then show "16 dvd unat (arg_ptr stk n)" by simp
  show "unat stk + 76 \<le> unat (arg_ptr stk n)" "unat (arg_ptr stk n) + 4 + unat (arg_bytes n) \<le> unat stk + 8188"
    using ap hi assms(2) by linarith+
qed

text \<open>The stores of \<^verbatim>\<open>stk_setup()\<close> into the context area at \<open>c\<close> and the return address after it.\<close>

definition ctx_init :: "u32 \<Rightarrow> u32 \<Rightarrow> u32 \<Rightarrow> memory \<Rightarrow> memory" where
  "ctx_init c ret entry m =
     (let m = store32 m (c + 72) ret;
          m = store32 m (c + ctx_eflags) DEFAULT_EFLAGS;
          m = store32 m (c + ctx_eip) entry;
          m = store32 m (c + ctx_cs) GDT_CODE;
          m = store32 m (c + ctx_ss) GDT_STACK;
          m = store32 m (c + ctx_gs) GDT_DATA;
          m = store32 m (c + ctx_fs) GDT_DATA;
          m = store32 m (c + ctx_es) GDT_DATA
      in store32 m (c + ctx_ds) GDT_DATA)"

lemma ctx_init_other:
  assumes "76 \<le> x - c"
  shows "ctx_init c ret entry m x = m x"
proof -
  have "4 \<le> x - (c + k)" if "k \<le> 72" for k
  proof -
    have "unat k \<le> 72" "76 \<le> unat (x - c)" using assms that by (simp_all add: word_le_nat_alt)
    then have "unat (x - c - k) = unat (x - c) - unat k" by (simp add: unat_sub_if')
    moreover have "x - (c + k) = x - c - k" by (simp add: algebra_simps)
    ultimately show ?thesis using \<open>unat k \<le> 72\<close> \<open>76 \<le> unat (x - c)\<close> by (simp only: word_le_nat_alt) simp
  qed
  note off = this
  have "4 \<le> x - c" using off [of 0] by simp
  then show ?thesis by (simp add: ctx_init_def ctx_offsets Let_def store32_other off)
qed

lemma al4_plus: "al4 a \<Longrightarrow> al4 b \<Longrightarrow> al4 (a + b)"
  by (simp add: al4_unat unat_word_ariths dvd_mod_iff)

lemma ctx_init_fields:
  assumes "al4 c"
  shows "load32 (ctx_init c ret entry m) (c + ctx_eip) = entry"
    and "load32 (ctx_init c ret entry m) (c + ctx_cs) = GDT_CODE"
    and "load32 (ctx_init c ret entry m) (c + ctx_ss) = GDT_STACK"
    and "load32 (ctx_init c ret entry m) (c + ctx_eflags) = DEFAULT_EFLAGS"
    and "load32 (ctx_init c ret entry m) (c + ctx_ds) = GDT_DATA"
    and "load32 (ctx_init c ret entry m) (c + 72) = ret"
proof -
  have al: "al4 (c + k)" if "k AND 3 = 0" for k using al4_plus [OF assms, of k] that by (simp add: al4_def)
  have a0: "al4 c" by fact
  show "load32 (ctx_init c ret entry m) (c + ctx_eip) = entry"
    "load32 (ctx_init c ret entry m) (c + ctx_cs) = GDT_CODE"
    "load32 (ctx_init c ret entry m) (c + ctx_ss) = GDT_STACK"
    "load32 (ctx_init c ret entry m) (c + ctx_eflags) = DEFAULT_EFLAGS"
    "load32 (ctx_init c ret entry m) (c + ctx_ds) = GDT_DATA"
    "load32 (ctx_init c ret entry m) (c + 72) = ret"
    by (simp_all add: ctx_init_def ctx_offsets Let_def load32_store32_al al a0)
qed

lemma stk_setup_run:
  assumes "str_at (mem s) args xs" and "n = of_nat (length xs)" and "arg_ptr stk n = c + 76"
    and "m1 = memmove (c + 80) args (arg_bytes n) (store32 (mem s) (c + 76) (c + 80))"
  shows "stk_setup stk entry args s =
    Inr (c, s\<lparr>mem := ctx_init c (load32 m1 (user_locs s + 4)) entry m1\<rparr>)"
  unfolding stk_setup_def strlen_str [OF assms(1)] assms(2) [symmetric] Let_def
    arg_bytes_def [symmetric] arg_ptr_def [symmetric]
  by (simp add: poke32_def ctx_init_def SZ_CONTEXT_def ULOC_FAKE_def assms(3,4) add.commute)

lemma stk_setup_spec:
  assumes "block_ok (stk, 2)" and "str_at (mem s) args xs" and "length xs \<le> 8000"
    and "unat args + length xs + 4 < 2 ^ 32"
    and "\<forall>i \<le> length xs. \<not> (args + of_nat i) - stk < SZ_STACK"
    and "\<forall>i < 4. \<not> (user_locs s + 4 + i) - stk < SZ_STACK"
  shows "\<exists>ctx s'. stk_setup stk entry args s = Inr (ctx, s') \<and>
    unat stk \<le> unat ctx \<and> unat ctx + unat SZ_CONTEXT < unat stk + unat SZ_STACK \<and>
    load32 (mem s') (ctx + ctx_eip) = entry \<and> load32 (mem s') (ctx + ctx_cs) = GDT_CODE \<and>
    load32 (mem s') (ctx + ctx_ss) = GDT_STACK \<and> load32 (mem s') (ctx + ctx_ds) = GDT_DATA \<and>
    load32 (mem s') (ctx + ctx_eflags) = DEFAULT_EFLAGS \<and>
    load32 (mem s') (ctx + SZ_CONTEXT) = load32 (mem s) (user_locs s + 4 * ULOC_FAKE) \<and>
    16 dvd unat (ctx + SZ_CONTEXT + 4) \<and> load32 (mem s') (ctx + SZ_CONTEXT + 4) = ctx + SZ_CONTEXT + 8 \<and>
    unat ctx + unat SZ_CONTEXT + 8 + length xs < unat stk + unat SZ_STACK \<and> str_at (mem s') (ctx + SZ_CONTEXT + 8) xs \<and>
    (\<forall>x. \<not> x - stk < SZ_STACK \<longrightarrow> mem s' x = mem s x)"
proof -
  define n where "n = (of_nat (length xs) :: u32)"
  define c where "c = arg_ptr stk n - 76"
  define m0 where "m0 = store32 (mem s) (c + 76) (c + 80)"
  define m1 where "m1 = memmove (c + 80) args (arg_bytes n) m0"
  have n: "unat n = length xs" using assms(3) unfolding n_def by (intro unat_of_nat_small) simp
  have ap: "arg_ptr stk n = c + 76" by (simp add: c_def)
  note lay = arg_layout [OF assms(1), of n, unfolded ap n, OF assms(3)]
  have run: "stk_setup stk entry args s = Inr (c, s\<lparr>mem := ctx_init c (load32 m1 (user_locs s + 4)) entry m1\<rparr>)"
    unfolding m1_def m0_def by (rule stk_setup_run [OF assms(2) n_def ap refl])
  have stk: "unat stk + 8192 < 2 ^ 32" using assms(1) by (simp add: block_ok_def)
  have c0: "unat (c + 76) = unat c + 76" "unat (c + 80) = unat c + 80"
    using lay(4,5) stk unfolding c_def ap [symmetric] by (simp_all add: unat_sub_if' unat_word_ariths)
  have low: "unat stk \<le> unat c" and high: "unat c + 80 + unat (arg_bytes n) \<le> unat stk + 8188"
    using lay(4,5) c0 by simp_all
  have al: "al4 c"
  proof -
    have "4 dvd unat c + 76" using lay(3) unfolding c0(1) by (rule dvd_trans [rotated]) simp
    then show ?thesis unfolding al4_unat by presburger
  qed
  have out: "\<not> x - a < k" if "\<not> x - stk < SZ_STACK" "unat stk \<le> unat a" "unat a + unat k \<le> unat stk + 8192" for x a k
    using that in_range32 [of stk SZ_STACK x] in_range32 [of a k x] stk by (auto simp: SZ_STACK_val)
  have m1: "m1 x = (if x - (c + 80) < arg_bytes n then m0 (args + (x - (c + 80))) else m0 x)" for x
    unfolding m1_def by (rule memmove_cell) (use assms(4) lay(2) high c0 stk in auto)
  have m0: "m0 x = mem s x" if "\<not> x - stk < SZ_STACK" for x
    unfolding m0_def by (rule store32_other) (use out [OF that, of "c + 76" 4] low high c0 in auto)
  have m1_out: "m1 x = mem s x" if "\<not> x - stk < SZ_STACK" for x
    using m1 [of x] m0 [OF that] out [OF that, of "c + 80" "arg_bytes n"] low high c0 by auto
  have ret: "load32 m1 (user_locs s + 4) = load32 (mem s) (user_locs s + 4)"
    by (rule load32_cong) (use assms(6) m1_out in auto)
  let ?m = "ctx_init c (load32 m1 (user_locs s + 4)) entry m1"
  have above: "?m (c + 76 + k) = m1 (c + 76 + k)" if "unat k \<le> 9000" for k
    by (rule ctx_init_other) (use that in \<open>simp add: word_le_nat_alt unat_word_ariths\<close>)
  have "load32 ?m (c + 76) = load32 m0 (c + 76)"
  proof (rule load32_cong)
    fix i :: u32 assume "i < 4"
    then have "\<not> i - 4 < arg_bytes n"
      using lay(2) assms(3) by (auto simp: word_less_nat_alt unat_sub_if')
    moreover have "c + 76 + i - (c + 80) = i - 4" by simp
    moreover have "unat i \<le> 9000" using \<open>i < 4\<close> by (simp add: word_less_nat_alt)
    ultimately show "?m (c + 76 + i) = m0 (c + 76 + i)"
      using above [of i] m1 [of "c + 76 + i"] by simp
  qed
  then have ptr: "load32 ?m (c + 76) = c + 80" by (simp add: m0_def)
  have "str_at ?m (c + 80) xs"
  proof (rule str_at_copy [OF assms(2)])
    fix i assume i: "i \<le> length xs"
    then have u: "unat (of_nat i :: u32) = i" using assms(3) by (intro unat_of_nat_small) simp
    then have "unat (4 + of_nat i :: u32) = 4 + i" using i assms(3) by (simp add: unat_word_ariths)
    moreover have "of_nat i < arg_bytes n" using i u lay(1) by (simp add: word_less_nat_alt)
    ultimately show "?m (c + 80 + of_nat i) = mem s (args + of_nat i)"
      using above [of "4 + of_nat i"] m1 [of "c + 80 + of_nat i"] m0 [of "args + of_nat i"] assms(3,5) i
      by (simp add: algebra_simps)
  qed
  moreover from this have "str_at ?m (80 + c) xs" unfolding add.commute [of 80 c] .
  moreover have "?m x = mem s x" if "\<not> x - stk < SZ_STACK" for x
    using ctx_init_other [of x c] m1_out [OF that] out [OF that, of c 76] low high by auto
  ultimately show ?thesis
    unfolding run
    using low high lay(1) n ctx_init_fields [OF al] ret ptr [unfolded add.commute [of c 76]]
      lay(3) [unfolded add.commute [of c 76]]
    by (intro exI conjI) (auto simp: SZ_CONTEXT_def SZ_STACK_val ULOC_FAKE_def)
qed

text \<open>C17. \<^verbatim>\<open>stk_setup()\<close> builds the initial stack inside the two pages it is given and touches nothing else:
  the returned context restores to the entry point with the kernel's code, data and stack selectors
  and interrupts enabled; above it are the return address into the user startup code and, at an
  address that is a multiple of 16, a pointer to a copy of the argument string.\<close>

theorem stk_setup_layout:
  assumes "block_ok (stk, 2)" and "str_at (mem s) args xs" and "length xs \<le> 8000"
    and "unat args + length xs + 4 < 2 ^ 32"
    and "\<forall>i \<le> length xs. \<not> (args + of_nat i) - stk < SZ_STACK"
    and "\<forall>i < 4. \<not> (user_locs s + 4 + i) - stk < SZ_STACK"
  shows "\<exists>ctx s'. stk_setup stk entry args s = Inr (ctx, s') \<and>
    unat stk \<le> unat ctx \<and> unat ctx + unat SZ_CONTEXT < unat stk + unat SZ_STACK \<and>
    load32 (mem s') (ctx + ctx_eip) = entry \<and> load32 (mem s') (ctx + ctx_cs) = GDT_CODE \<and>
    load32 (mem s') (ctx + ctx_ss) = GDT_STACK \<and> load32 (mem s') (ctx + ctx_ds) = GDT_DATA \<and>
    load32 (mem s') (ctx + ctx_eflags) = DEFAULT_EFLAGS \<and>
    load32 (mem s') (ctx + SZ_CONTEXT) = load32 (mem s) (user_locs s + 4 * ULOC_FAKE) \<and>
    16 dvd unat (ctx + SZ_CONTEXT + 4) \<and> load32 (mem s') (ctx + SZ_CONTEXT + 4) = ctx + SZ_CONTEXT + 8 \<and>
    unat ctx + unat SZ_CONTEXT + 8 + length xs < unat stk + unat SZ_STACK \<and> str_at (mem s') (ctx + SZ_CONTEXT + 8) xs \<and>
    (\<forall>x. \<not> x - stk < SZ_STACK \<longrightarrow> mem s' x = mem s x)"
  by (rule stk_setup_spec [OF assms])

theorem stk_setup_layout_witness:
  "\<exists>ctx s'. stk_setup 0x200000 0x9000 100 (boot_stk\<lparr>mem := two_strings, user_locs := 0x300\<rparr>) = Inr (ctx, s') \<and>
     load32 (mem s') (ctx + ctx_eip) = 0x9000 \<and>
     str_at (mem s') (load32 (mem s') (ctx + SZ_CONTEXT + 4)) [97, 98]"
proof -
  let ?s = "boot_stk\<lparr>mem := two_strings, user_locs := 0x300\<rparr>"
  have s: "str_at (mem ?s) 100 [97, 98]" by (simp add: two_strings_def)
  have ok: "block_ok (0x200000, 2)" by (simp add: block_ok_def)
  have a: "\<forall>i \<le> length [97, 98 :: u8]. \<not> (100 + of_nat i) - 0x200000 < SZ_STACK"
    by (auto simp: SZ_STACK_val le_Suc_eq)
  have u: "\<forall>i < 4. \<not> (user_locs ?s + 4 + i) - 0x200000 < SZ_STACK"
  proof (intro allI impI)
    fix i :: u32 assume "i < 4"
    then have "unat (0x304 + i) < 0x400" by (simp add: word_less_nat_alt unat_word_ariths)
    then show "\<not> (user_locs ?s + 4 + i) - 0x200000 < SZ_STACK"
      using in_range32 [of "0x200000" SZ_STACK "0x304 + i"] by (simp add: SZ_STACK_val)
  qed
  show ?thesis using stk_setup_layout [OF ok s _ _ a u, of "0x9000"] by auto
qed

end
