(* ===== verification/Procs.thy ===== *)
theory Procs
  imports Stacks
begin

text \<open>
  The process module, \<^verbatim>\<open>kernel/procs.c\<close>: the process table, the process queues, and the scheduler and
  dispatcher. A \<^verbatim>\<open>pcb_t *\<close> is \<open>None\<close> for NULL and \<open>Some i\<close> for \<^verbatim>\<open>&ptable[i]\<close>.
\<close>

section \<open>State\<close>

datatype state_e = STATE_UNUSED | STATE_NEW | STATE_READY | STATE_RUNNING | STATE_SLEEPING
  | STATE_BLOCKED | STATE_WAITING | STATE_ZOMBIE

record pcb_t =
  p_context :: u32
  p_stack :: u32
  p_parent :: "nat option"
  p_wakeup :: u32
  p_status :: "32 word"
  p_pid :: "32 word"
  p_state :: state_e
  p_priority :: u8
  p_quantum :: u8

record proc_st = stk_st +
  ready :: "queue_t list"
  sleeping :: queue_t
  zombie :: queue_t
  blocked :: queue_t
  sioread :: queue_t
  current :: "nat option"
  ptable :: "pcb_t list"
  next_pid :: "32 word"
  init_pcb :: "nat option"

definition N_PROCS :: nat where "N_PROCS = 25"
definition PRIO_FIRST :: nat where "PRIO_FIRST = 0"
definition PRIO_LAST :: nat where "PRIO_LAST = 2"
definition PRIO_HIGH :: u8 where "PRIO_HIGH = 0"
definition PRIO_STD :: u8 where "PRIO_STD = 1"
definition PRIO_LOW :: u8 where "PRIO_LOW = 2"
definition PRIO_INHERIT :: u8 where "PRIO_INHERIT = 0x80"
definition Q_STD :: u8 where "Q_STD = 3"
definition PID_INIT :: "32 word" where "PID_INIT = 1"
definition FIRST_USER_PID :: "32 word" where "FIRST_USER_PID = 2"

text \<open>The code of the only comparison function that queues use.\<close>

definition COMP_WAKEUP :: nat where "COMP_WAKEUP = 1"

definition zero_pcb :: pcb_t where
  "zero_pcb = \<lparr>p_context = 0, p_stack = 0, p_parent = None, p_wakeup = 0, p_status = 0, p_pid = 0,
     p_state = STATE_UNUSED, p_priority = 0, p_quantum = 0\<rparr>"

section \<open>Helpers\<close>

definition pcb_ix :: "nat option \<Rightarrow> int" where
  "pcb_ix p = (case p of None \<Rightarrow> -1 | Some i \<Rightarrow> if i \<ge> N_PROCS then -1 else int i)"

definition pcb_deref :: "nat option \<Rightarrow> kerr + nat" where
  "pcb_deref p = (case p of None \<Rightarrow> Inl Undef | Some i \<Rightarrow> if i < N_PROCS then Inr i else Inl Undef)"

definition upd_pcb :: "nat \<Rightarrow> (pcb_t \<Rightarrow> pcb_t) \<Rightarrow> 'z proc_st_scheme \<Rightarrow> 'z proc_st_scheme" where
  "upd_pcb i f s = s\<lparr>ptable := (ptable s)[i := f (ptable s ! i)]\<rparr>"

definition comp_wakeup :: "'z proc_st_scheme \<Rightarrow> qdata \<Rightarrow> qdata \<Rightarrow> kerr + int" where
  "comp_wakeup s p1 p2 =
     kbind (pcb_deref p1) (\<lambda>i. kbind (pcb_deref p2) (\<lambda>j.
       let w1 = p_wakeup (ptable s ! i);
           w2 = p_wakeup (ptable s ! j)
       in Inr (if w1 < w2 then -1 else if w1 = w2 then 0 else 1)))"

definition call_compare :: "nat \<Rightarrow> 'z proc_st_scheme \<Rightarrow> qdata \<Rightarrow> qdata \<Rightarrow> kerr + int" where
  "call_compare f s p1 p2 = (if f = COMP_WAKEUP then comp_wakeup s p1 p2 else Inl Undef)"

section \<open>Process table\<close>

text \<open>One of the seven queue allocations of \<^verbatim>\<open>pcb_init()\<close>, with its assertion.\<close>

definition que_get :: "nat option \<Rightarrow> 'z proc_st_scheme \<Rightarrow> kerr + queue_t \<times> 'z proc_st_scheme" where
  "que_get compare s =
     (let (q, s) = que_alloc compare s in kbind (kassert (q \<noteq> None)) (\<lambda>_. Inr (q, s)))"

definition pcb_init :: "'z proc_st_scheme \<Rightarrow> kerr + 'z proc_st_scheme" where
  "pcb_init s =
     (let s = s\<lparr>ptable := replicate N_PROCS zero_pcb\<rparr> in
      kbind (que_get None s) (\<lambda>(rh, s).
      kbind (que_get None s) (\<lambda>(rs, s).
      kbind (que_get None s) (\<lambda>(rl, s).
      kbind (que_get (Some COMP_WAKEUP) s) (\<lambda>(sl, s).
      kbind (que_get None s) (\<lambda>(z, s).
      kbind (que_get None s) (\<lambda>(b, s).
      kbind (que_get None s) (\<lambda>(si, s).
        Inr (s\<lparr>ready := [rh, rs, rl], sleeping := sl, zombie := z, blocked := b, sioread := si,
               current := None, init_pcb := None, next_pid := FIRST_USER_PID\<rparr>)))))))))"

text \<open>The output parameter of \<^verbatim>\<open>pcb_alloc()\<close> is part of the result.\<close>

definition pcb_alloc :: "'z proc_st_scheme \<Rightarrow> ecode \<times> nat option" where
  "pcb_alloc s =
     (case first_ix (\<lambda>i. p_state (ptable s ! i) = STATE_UNUSED) N_PROCS of
        None \<Rightarrow> (E_NO_PCBS, None)
      | Some i \<Rightarrow> (E_SUCCESS, Some i))"

definition pcb_free :: "nat option \<Rightarrow> 'z proc_st_scheme \<Rightarrow> kerr + 'z proc_st_scheme" where
  "pcb_free pcb s =
     kbind (kassert (pcb \<noteq> None)) (\<lambda>_.
     kbind (pcb_deref pcb) (\<lambda>i. Inr (upd_pcb i (\<lambda>p. p\<lparr>p_state := STATE_UNUSED\<rparr>) s)))"

definition pcb_find_pid :: "32 word \<Rightarrow> 'z proc_st_scheme \<Rightarrow> kerr + nat option" where
  "pcb_find_pid pid s =
     kbind (kassert (sint pid \<ge> sint FIRST_USER_PID)) (\<lambda>_.
       Inr (first_ix (\<lambda>i. p_pid (ptable s ! i) = pid \<and> p_state (ptable s ! i) \<noteq> STATE_UNUSED) N_PROCS))"

definition pcb_find_child_of :: "nat option \<Rightarrow> 'z proc_st_scheme \<Rightarrow> kerr + nat option" where
  "pcb_find_child_of parent s =
     kbind (kassert (pcb_ix parent \<ge> 0)) (\<lambda>_.
       Inr (first_ix (\<lambda>i. Some i \<noteq> parent \<and> p_parent (ptable s ! i) = parent \<and>
              p_state (ptable s ! i) \<noteq> STATE_UNUSED) N_PROCS))"

definition pcb_zombify :: "nat option \<Rightarrow> 'z proc_st_scheme \<Rightarrow> kerr + 'z proc_st_scheme" where
  "pcb_zombify pcb s =
     (if pcb = None then Inr s
      else
        kbind (pcb_deref pcb) (\<lambda>i.
          let s = upd_pcb i (\<lambda>p. p\<lparr>p_state := STATE_ZOMBIE\<rparr>) s in
          kbind (que_insert call_compare (zombie s) pcb s) (\<lambda>(e, s).
          kbind (kassert (e = E_SUCCESS)) (\<lambda>_. Inr s))))"

definition pcb_cleanup :: "nat option \<Rightarrow> 'z proc_st_scheme \<Rightarrow> kerr + 'z proc_st_scheme" where
  "pcb_cleanup pcb s =
     (if pcb = None then Inr s
      else
        kbind (pcb_deref pcb) (\<lambda>i.
        kbind (if p_stack (ptable s ! i) \<noteq> NULL
               then kbind (stk_free (p_stack (ptable s ! i)) s)
                      (\<lambda>s. Inr (upd_pcb i (\<lambda>p. p\<lparr>p_stack := NULL\<rparr>) s))
               else Inr s)
          (\<lambda>s. pcb_free pcb s)))"

section \<open>Scheduler\<close>

definition schedule :: "nat option \<Rightarrow> 'z proc_st_scheme \<Rightarrow> kerr + 'z proc_st_scheme" where
  "schedule p s =
     kbind (kassert (pcb_ix p \<ge> 0)) (\<lambda>_.
       let i = nat (pcb_ix p);
           prio = unat (p_priority (ptable s ! i))
       in
         kbind (kassert (prio \<ge> PRIO_FIRST \<and> prio \<le> PRIO_LAST)) (\<lambda>_.
         kbind (que_insert call_compare (ready s ! prio) p s) (\<lambda>(e, s).
           if e \<noteq> E_SUCCESS then Inl Panic
           else Inr (upd_pcb i (\<lambda>p. p\<lparr>p_state := STATE_READY\<rparr>) s))))"

text \<open>The search loop of \<^verbatim>\<open>dispatch()\<close> over the priorities; \<open>p\<close> is the cell that \<^verbatim>\<open>que_remove()\<close> fills.\<close>

fun dispatch_loop :: "nat list \<Rightarrow> qdata \<Rightarrow> 'z proc_st_scheme \<Rightarrow> kerr + qdata \<times> 'z proc_st_scheme" where
  "dispatch_loop [] p s = Inr (p, s)"
| "dispatch_loop (i # is) p s =
     kbind (que_remove (ready s ! i) (Some p) s) (\<lambda>(e, d, s).
       let p = (case d of None \<Rightarrow> p | Some v \<Rightarrow> v)
       in if e = E_SUCCESS then Inr (p, s) else dispatch_loop is p s)"

definition dispatch :: "'z proc_st_scheme \<Rightarrow> kerr + 'z proc_st_scheme" where
  "dispatch s =
     kbind (dispatch_loop [PRIO_FIRST..<Suc PRIO_LAST] None s) (\<lambda>(p, s).
     kbind (kassert (p \<noteq> None)) (\<lambda>_.
     kbind (pcb_deref p) (\<lambda>i.
       let s = s\<lparr>current := p\<rparr>;
           s = upd_pcb i (\<lambda>p. p\<lparr>p_state := STATE_RUNNING\<rparr>) s
       in Inr (upd_pcb i (\<lambda>p. p\<lparr>p_quantum := Q_STD\<rparr>) s))))"

section \<open>Frames\<close>

lemma que_abs_cong:
  assumes "blk s' = blk s" "free_pages s' = free_pages s" "n_pages s' = n_pages s"
    "km_initialized s' = km_initialized s" "qn s' = qn s" "free_qnodes s' = free_qnodes s"
    "queues s' = queues s" "queue_free s' = queue_free s"
  shows "que_abs s' bs Q = que_abs s bs Q"
  using assms by (simp add: que_abs_def que_rep_def q_chain_def kmem_abs_def blocks_of_def)

lemma que_abs_upd [simp]:
  "que_abs (upd_pcb i f s) bs Q = que_abs s bs Q"
  "que_abs (s\<lparr>current := c\<rparr>) bs Q = que_abs s bs Q"
  by (rule que_abs_cong; simp add: upd_pcb_def)+

lemma upd_pcb_fields [simp]:
  "ptable (upd_pcb i f s) = (ptable s)[i := f (ptable s ! i)]"
  "ready (upd_pcb i f s) = ready s" "sleeping (upd_pcb i f s) = sleeping s"
  "zombie (upd_pcb i f s) = zombie s" "blocked (upd_pcb i f s) = blocked s"
  "sioread (upd_pcb i f s) = sioread s" "current (upd_pcb i f s) = current s"
  "queues (upd_pcb i f s) = queues s" "free_qnodes (upd_pcb i f s) = free_qnodes s"
  "mem (upd_pcb i f s) = mem s" "queue_free (upd_pcb i f s) = queue_free s"
  "init_pcb (upd_pcb i f s) = init_pcb s" "next_pid (upd_pcb i f s) = next_pid s"
  by (simp_all add: upd_pcb_def)

lemma node_supply_upd [simp]: "node_supply (upd_pcb i f s) bs = node_supply s bs"
  by (simp add: node_supply_def)

lemma que_more:
  assumes "que_st.more s = que_st.more t"
  shows "ptable s = ptable t" and "ready s = ready t" and "sleeping s = sleeping t" and "zombie s = zombie t"
    and "blocked s = blocked t" and "sioread s = sioread t" and "current s = current t"
    and "next_pid s = next_pid t" and "init_pcb s = init_pcb t" and "free_stacks s = free_stacks t"
    and "proc_st.more s = proc_st.more t" and "user_locs s = user_locs t"
    and "kstack s = kstack t" and "kesp s = kesp t"
  using assms by (cases s; cases t; simp)+

text \<open>What the scheduling functions leave alone: memory and devices, the stacks, the process identifiers and
  whatever other modules keep.\<close>

definition proc_frame :: "'z proc_st_scheme \<Rightarrow> 'z proc_st_scheme \<Rightarrow> bool" where
  "proc_frame s s' \<longleftrightarrow> mem s' = mem s \<and> io_in s' = io_in s \<and> io_out s' = io_out s \<and>
     free_stacks s' = free_stacks s \<and> user_locs s' = user_locs s \<and> next_pid s' = next_pid s \<and>
     init_pcb s' = init_pcb s \<and> proc_st.more s' = proc_st.more s"

lemma proc_frame_refl [simp]: "proc_frame s s"
  by (simp add: proc_frame_def)

lemma proc_frame_trans [trans]: "proc_frame s t \<Longrightarrow> proc_frame t u \<Longrightarrow> proc_frame s u"
  by (simp add: proc_frame_def)

lemma proc_frame_upd [simp]:
  "proc_frame s (upd_pcb i f t) = proc_frame s t" "proc_frame s (t\<lparr>current := c\<rparr>) = proc_frame s t"
  by (simp_all add: proc_frame_def upd_pcb_def)

lemma que_frame_proc: "que_frame s s' \<Longrightarrow> proc_frame s s'"
  using que_more [of s' s] by (simp add: que_frame_def proc_frame_def)

section \<open>Scheduling invariant\<close>

text \<open>What a member of queue \<open>i\<close> looks like.\<close>

definition member_ok :: "nat \<Rightarrow> pcb_t \<Rightarrow> bool" where
  "member_ok i p \<longleftrightarrow> unat (p_priority p) \<le> PRIO_LAST \<and>
     (if i \<le> PRIO_LAST then p_state p = STATE_READY \<and> unat (p_priority p) = i
      else if i = 3 then p_state p = STATE_SLEEPING
      else if i = 4 then p_state p = STATE_ZOMBIE
      else p_state p = STATE_BLOCKED)"

definition wake_of :: "'z proc_st_scheme \<Rightarrow> qdata \<Rightarrow> u32" where
  "wake_of s d = (case d of None \<Rightarrow> 0 | Some j \<Rightarrow> p_wakeup (ptable s ! j))"

text \<open>How the eight queues are ordered.\<close>

definition que_kinds :: "nat option list" where
  "que_kinds = [None, None, None, Some COMP_WAKEUP, None, None, None, None]"

text \<open>Every one of the 512 nodes that initialization made is free or in a queue.\<close>

definition nodes_ok :: "'z que_st_scheme \<Rightarrow> (nat \<Rightarrow> qdata list) \<Rightarrow> bool" where
  "nodes_ok s Q \<longleftrightarrow> (\<exists>n. que_nodes s n \<and> 512 \<le> n + (\<Sum>i < N_QUEUES. length (Q i)))"

text \<open>\<open>queues_taken n s\<close>: the first \<open>n\<close> queues are in use.\<close>

definition queues_taken :: "nat \<Rightarrow> 'z que_st_scheme \<Rightarrow> bool" where
  "queues_taken n s \<longleftrightarrow> (\<forall>i < N_QUEUES. queue_free s ! i = (if i < n then QUE_INUSE else QUE_FREE))"

text \<open>
  \<open>sched_inv s bs Q\<close>: the queue module holds the sequences \<open>Q\<close>; queues 0 to 2 are the ready queues by
  priority, then come the sleeping, zombie, blocked and serial-input queues; every entry is a process in the
  state that its queue stands for; no process stands in two places; the sleeping queue is ordered by
  wakeup time; no node is lost. A member's priority is valid.
\<close>

definition sched_inv :: "'z proc_st_scheme \<Rightarrow> blocks \<Rightarrow> (nat \<Rightarrow> qdata list) \<Rightarrow> bool" where
  "sched_inv s bs Q \<longleftrightarrow> que_abs s bs Q \<and> length (ptable s) = N_PROCS \<and>
     ready s = [Some 0, Some 1, Some 2] \<and> sleeping s = Some 3 \<and> zombie s = Some 4 \<and> blocked s = Some 5 \<and>
     sioread s = Some 6 \<and>
     map q_compare (queues s) = que_kinds \<and> queues_taken 7 s \<and> nodes_ok s Q \<and>
     (\<forall>i < N_QUEUES. distinct (Q i)) \<and>
     (\<forall>i < N_QUEUES. \<forall>k < N_QUEUES. i \<noteq> k \<longrightarrow> set (Q i) \<inter> set (Q k) = {}) \<and>
     (\<forall>i < N_QUEUES. \<forall>d \<in> set (Q i). \<exists>j < N_PROCS. d = Some j \<and> member_ok i (ptable s ! j)) \<and>
     sorted (map (wake_of s) (Q 3))"

definition queued :: "(nat \<Rightarrow> qdata list) \<Rightarrow> nat \<Rightarrow> bool" where
  "queued Q j \<longleftrightarrow> (\<exists>i < N_QUEUES. Some j \<in> set (Q i))"

lemma sched_invD:
  assumes "sched_inv s bs Q"
  shows "que_abs s bs Q" and "length (ptable s) = N_PROCS" and "ready s = [Some 0, Some 1, Some 2]"
    and "sleeping s = Some 3" and "zombie s = Some 4" and "blocked s = Some 5" and "sioread s = Some 6"
    and "length (queues s) = 8" and "i < 8 \<Longrightarrow> q_compare (queues s ! i) = (if i = 3 then Some COMP_WAKEUP else None)"
proof -
  show "que_abs s bs Q" "length (ptable s) = N_PROCS" "ready s = [Some 0, Some 1, Some 2]"
    "sleeping s = Some 3" "zombie s = Some 4" "blocked s = Some 5" "sioread s = Some 6"
    using assms by (simp_all add: sched_inv_def)
  have m: "map q_compare (queues s) = [None, None, None, Some COMP_WAKEUP, None, None, None, None]"
    using assms by (simp add: sched_inv_def que_kinds_def)
  show l: "length (queues s) = 8" using arg_cong [OF m, of length] by simp
  show "q_compare (queues s ! i) = (if i = 3 then Some COMP_WAKEUP else None)" if "i < 8"
  proof -
    have "q_compare (queues s ! i) = map q_compare (queues s) ! i" using l that by simp
    moreover have "i \<in> {0, 1, 2, 3, 4, 5, 6, 7}" using that by auto
    ultimately show ?thesis unfolding m by auto
  qed
qed

lemma nodes_ok_cong: "qn s' = qn s \<Longrightarrow> free_qnodes s' = free_qnodes s \<Longrightarrow> nodes_ok s' = nodes_ok s"
  using que_nodes_cong [of s' s] by (simp add: nodes_ok_def fun_eq_iff)

lemma queues_taken_cong: "queue_free s' = queue_free s \<Longrightarrow> queues_taken n s' = queues_taken n s"
  by (simp add: queues_taken_def)

lemma queues_taken_upd [simp]:
  "queues_taken n (upd_pcb i f s) = queues_taken n s" "queues_taken n (s\<lparr>current := c\<rparr>) = queues_taken n s"
  by (rule queues_taken_cong; simp)+

lemma nodes_ok_upd [simp]:
  "nodes_ok (upd_pcb i f s) = nodes_ok s" "nodes_ok (s\<lparr>current := c\<rparr>) = nodes_ok s"
  by (rule nodes_ok_cong; simp add: upd_pcb_def)+

lemma sum_upd:
  fixes Q :: "nat \<Rightarrow> 'b list"
  assumes "i < n"
  shows "(\<Sum>j < n. length ((Q(i := xs)) j)) + length (Q i) = (\<Sum>j < n. length (Q j)) + length xs"
  using assms by (simp add: sum.remove [of "{..<n}" i])

text \<open>Adding one entry takes one node, removing one gives it back.\<close>

lemma nodes_ok_put:
  assumes "nodes_ok s Q" and "\<And>n. que_nodes s (Suc n) \<Longrightarrow> que_nodes s' n" and "i < N_QUEUES"
    and "length xs = Suc (length (Q i))" and "(\<Sum>j < N_QUEUES. length (Q j)) < 512"
  shows "nodes_ok s' (Q(i := xs))"
proof -
  obtain n where n: "que_nodes s n" "512 \<le> n + (\<Sum>j < N_QUEUES. length (Q j))"
    using assms(1) by (auto simp: nodes_ok_def)
  then obtain k where k: "n = Suc k" using assms(5) by (cases n) auto
  have "512 \<le> k + (\<Sum>j < N_QUEUES. length ((Q(i := xs)) j))"
    using n(2) k assms(4) sum_upd [OF assms(3), of Q xs] by linarith
  then show ?thesis using assms(2) n(1) k unfolding nodes_ok_def by blast
qed

lemma nodes_ok_get:
  assumes "nodes_ok s Q" and "\<And>n. que_nodes s n \<Longrightarrow> que_nodes s' (Suc n)" and "i < N_QUEUES"
    and "Suc (length xs) = length (Q i)"
  shows "nodes_ok s' (Q(i := xs))"
proof -
  obtain n where n: "que_nodes s n" "512 \<le> n + (\<Sum>j < N_QUEUES. length (Q j))"
    using assms(1) by (auto simp: nodes_ok_def)
  have "512 \<le> Suc n + (\<Sum>j < N_QUEUES. length ((Q(i := xs)) j))"
    using n(2) assms(4) sum_upd [OF assms(3), of Q xs] by linarith
  then show ?thesis using assms(2) n(1) unfolding nodes_ok_def by blast
qed

lemma wake_of_cong: "ptable s' = ptable s \<Longrightarrow> wake_of s' = wake_of s"
  by (rule ext) (simp add: wake_of_def split: option.split)

lemma sched_inv_current [simp]: "sched_inv (s\<lparr>current := c\<rparr>) bs Q = sched_inv s bs Q"
  using wake_of_cong [of "s\<lparr>current := c\<rparr>" s] by (simp add: sched_inv_def)

lemma sched_members:
  assumes "sched_inv s bs Q" and "i < N_QUEUES" and "d \<in> set (Q i)"
  obtains j where "j < N_PROCS" and "d = Some j" and "member_ok i (ptable s ! j)"
  using assms unfolding sched_inv_def by blast

lemma sched_disjoint:
  assumes "sched_inv s bs Q" and "i < N_QUEUES" and "k < N_QUEUES" and "i \<noteq> k"
  shows "set (Q i) \<inter> set (Q k) = {}"
  using assms unfolding sched_inv_def by blast

lemma sched_removed:
  assumes "sched_inv s bs Q" and "i < N_QUEUES" and "Some j \<in> set (Q i)" and "Some j \<notin> set xs"
  shows "\<not> queued (Q(i := xs)) j"
  using assms sched_disjoint [OF assms(1,2)] by (auto simp: queued_def)

text \<open>A queue holds at most as many entries as there are processes, so the nodes never run out.\<close>

lemma sched_short:
  assumes "sched_inv s bs Q"
  shows "(\<Sum>i < N_QUEUES. length (Q i)) < 512" and "free_qnodes s \<noteq> 0" and "node_supply s bs"
proof -
  have "length (Q i) \<le> 25" if i: "i < N_QUEUES" for i
  proof -
    have "set (Q i) \<subseteq> Some ` {..<25}" using sched_members [OF assms i] by (auto simp: N_PROCS_def)
    then have "card (set (Q i)) \<le> card (Some ` {..<25 :: nat})" by (intro card_mono) simp_all
    also have "... = 25" by (simp add: card_image)
    finally show ?thesis using assms i by (simp add: sched_inv_def distinct_card)
  qed
  then have "(\<Sum>i < N_QUEUES. length (Q i)) \<le> (\<Sum>i < N_QUEUES. 25)" by (intro sum_mono) simp
  then show *: "(\<Sum>i < N_QUEUES. length (Q i)) < 512" by (simp add: N_QUEUES_def)
  obtain n where "que_nodes s n" "512 \<le> n + (\<Sum>i < N_QUEUES. length (Q i))"
    using assms by (auto simp: sched_inv_def nodes_ok_def)
  with * show "free_qnodes s \<noteq> 0" using que_nodes_supply [of s n] by simp
  then show "node_supply s bs" by (simp add: node_supply_def)
qed

text \<open>Changing the control block of a process in no queue keeps the invariant.\<close>

lemma sched_inv_upd:
  assumes "sched_inv s bs Q" and "\<not> queued Q i"
  shows "sched_inv (upd_pcb i f s) bs Q"
proof -
  have ne: "j \<noteq> i" if "k < N_QUEUES" "Some j \<in> set (Q k)" for j k
    using assms(2) that by (auto simp: queued_def)
  have "\<exists>j < N_PROCS. d = Some j \<and> member_ok k (ptable (upd_pcb i f s) ! j)" if kd: "k < N_QUEUES" "d \<in> set (Q k)" for k d
  proof -
    obtain j where "j < N_PROCS" "d = Some j" "member_ok k (ptable s ! j)"
      by (rule sched_members [OF assms(1) kd])
    with ne [OF kd(1), of j] kd show ?thesis by auto
  qed
  moreover have "wake_of (upd_pcb i f s) d = wake_of s d" if "d \<in> set (Q 3)" for d
  proof (cases d)
    case (Some j)
    then have "j \<noteq> i" using ne [of 3 j] that by (simp add: N_QUEUES_def)
    then show ?thesis by (simp add: wake_of_def Some)
  qed (simp add: wake_of_def)
  then have "map (wake_of (upd_pcb i f s)) (Q 3) = map (wake_of s) (Q 3)" by simp
  then have "sorted (map (wake_of (upd_pcb i f s)) (Q 3))" using assms(1) by (simp only: sched_inv_def)
  ultimately show ?thesis using assms(1) by (auto simp: sched_inv_def)
qed

text \<open>A new entry at a place that the queue's order allows.\<close>

lemma sched_inv_insert:
  assumes "sched_inv s bs Q" and "que_abs s' bs' (Q(i := xs))" and "que_frame s s'" and "i < N_QUEUES"
    and "set xs = insert (Some j) (set (Q i))" and "distinct xs" and "j < N_PROCS" and "member_ok i (ptable s ! j)"
    and "i = 3 \<Longrightarrow> sorted (map (wake_of s) xs)" and "nodes_ok s' (Q(i := xs))" and "\<not> queued Q j"
  shows "sched_inv s' bs' (Q(i := xs))"
proof -
  have fr: "que_st.more s' = que_st.more s" "map q_compare (queues s') = map q_compare (queues s)"
    "queue_free s' = queue_free s"
    using assms(3) by (simp_all add: que_frame_def)
  note same = que_more [OF fr(1)]
  have qt: "queues_taken 7 s' = queues_taken 7 s" by (rule queues_taken_cong) (rule fr)
  have w: "wake_of s' = wake_of s" by (rule wake_of_cong) (rule same)
  have "\<forall>k < N_QUEUES. Some j \<notin> set (Q k)" using assms(11) by (simp add: queued_def)
  then have "set ((Q(i := xs)) a) \<inter> set ((Q(i := xs)) b) = {}" if "a < N_QUEUES" "b < N_QUEUES" "a \<noteq> b" for a b
    using sched_disjoint [OF assms(1) that] assms(5) that by (cases "a = i"; cases "b = i") auto
  then show ?thesis using assms(1,2,4-10) fr(2) qt w by (auto simp: sched_inv_def same)
qed

lemma sched_inv_remove:
  assumes "sched_inv s bs Q" and "que_abs s' bs' (Q(i := xs))" and "que_frame s s'"
    and "set xs \<subseteq> set (Q i)" and "distinct xs" and "i = 3 \<Longrightarrow> sorted (map (wake_of s) xs)"
    and "nodes_ok s' (Q(i := xs))"
  shows "sched_inv s' bs' (Q(i := xs))"
proof -
  have fr: "que_st.more s' = que_st.more s" "map q_compare (queues s') = map q_compare (queues s)"
    "queue_free s' = queue_free s"
    using assms(3) by (simp_all add: que_frame_def)
  note same = que_more [OF fr(1)]
  have qt: "queues_taken 7 s' = queues_taken 7 s" by (rule queues_taken_cong) (rule fr)
  have w: "wake_of s' = wake_of s" by (rule wake_of_cong) (rule same)
  have "set ((Q(i := xs)) a) \<inter> set ((Q(i := xs)) b) = {}" if "a < N_QUEUES" "b < N_QUEUES" "a \<noteq> b" for a b
    using sched_disjoint [OF assms(1) that] assms(4) that(3) by (cases "a = i"; cases "b = i") auto
  then show ?thesis using assms(1,2,4-7) fr(2) qt w by (auto simp: sched_inv_def same)
qed

lemma que_frame_upd_pcb: "que_frame s s' \<Longrightarrow> que_frame (upd_pcb j f s) (upd_pcb j f s')"
  by (cases s; cases s') (simp add: que_frame_def upd_pcb_def)

text \<open>Appending a process to one of the FIFO queues, with the state it has there set afterwards.\<close>

lemma sched_append:
  assumes inv: "sched_inv s bs Q" and i: "i < N_QUEUES" "i \<noteq> 3" and j: "j < N_PROCS" "\<not> queued Q j"
    and ok: "member_ok i (f (ptable s ! j))"
  shows "\<exists>s'. que_insert call_compare (Some i) (Some j) s = Inr (E_SUCCESS, s') \<and> que_frame s s' \<and>
    sched_inv (upd_pcb j f s') bs (Q(i := Q i @ [Some j]))"
proof -
  note inv' = sched_invD [OF inv] and short = sched_short [OF inv]
  have "orders call_compare s i (Some j) (Q i) None"
    using inv'(9) [of i] i by (simp add: orders_def N_QUEUES_def)
  from que_insert_abs [OF inv'(1) i(1) this short(3)] short(2)
  obtain s' where run: "que_insert call_compare (Some i) (Some j) s = Inr (E_SUCCESS, s')" "que_frame s s'"
    and abs: "que_abs s' bs (Q(i := Q i @ [Some j]))" and nd: "\<And>n. que_nodes s (Suc n) \<Longrightarrow> que_nodes s' n"
    by (auto simp: que_place_def)
  have "nodes_ok s' (Q(i := Q i @ [Some j]))"
    by (rule nodes_ok_put [OF _ nd i(1) _ short(1)]) (use inv in \<open>simp_all add: sched_inv_def\<close>)
  moreover have "distinct (Q i)" "Some j \<notin> set (Q i)" using inv j i by (auto simp: sched_inv_def queued_def)
  ultimately have "sched_inv (upd_pcb j f s') bs (Q(i := Q i @ [Some j]))"
    by (intro sched_inv_insert [OF sched_inv_upd [OF inv j(2), of f]])
      (use abs que_frame_upd_pcb [OF run(2)] i j ok inv'(2) in auto)
  with run show ?thesis by blast
qed

lemma schedule_run:
  assumes "sched_inv s bs Q" and "i < N_PROCS" and "\<not> queued Q i"
    and "unat (p_priority (ptable s ! i)) = k" and "k \<le> PRIO_LAST"
  shows "\<exists>s'. schedule (Some i) s = Inr s' \<and> sched_inv s' bs (Q(k := Q k @ [Some i])) \<and>
    ptable s' = (ptable s)[i := (ptable s ! i)\<lparr>p_state := STATE_READY\<rparr>] \<and> current s' = current s \<and> proc_frame s s'"
proof -
  have k: "k < N_QUEUES" "k \<noteq> 3" "k \<in> {0, 1, 2}" using assms(5) by (auto simp: N_QUEUES_def PRIO_LAST_def)
  have "member_ok k ((ptable s ! i)\<lparr>p_state := STATE_READY\<rparr>)" using assms(4,5) by (simp add: member_ok_def)
  from sched_append [where f = "\<lambda>p. p\<lparr>p_state := STATE_READY\<rparr>", OF assms(1) k(1,2) assms(2,3) this]
  obtain s' where run: "que_insert call_compare (Some k) (Some i) s = Inr (E_SUCCESS, s')" "que_frame s s'"
    and inv: "sched_inv (upd_pcb i (\<lambda>p. p\<lparr>p_state := STATE_READY\<rparr>) s') bs (Q(k := Q k @ [Some i]))" by blast
  have same: "ptable s' = ptable s" "current s' = current s"
    using run(2) que_more [of s' s] by (simp_all add: que_frame_def)
  have rk: "ready s ! k = Some k" using sched_invD(3) [OF assms(1)] k(3) by auto
  have "schedule (Some i) s = Inr (upd_pcb i (\<lambda>p. p\<lparr>p_state := STATE_READY\<rparr>) s')"
    using assms(2,4,5) run(1) rk by (simp add: schedule_def pcb_ix_def PRIO_FIRST_def)
  then show ?thesis using inv same que_frame_proc [OF run(2)] by auto
qed

lemma que_remove_sched:
  assumes inv: "sched_inv s bs Q" and i: "i < N_QUEUES" and Q: "Q i = d # ds"
  shows "\<exists>s' j. que_remove (Some i) (Some v) s = Inr (E_SUCCESS, Some d, s') \<and> que_frame s s' \<and>
    sched_inv s' bs (Q(i := ds)) \<and> d = Some j \<and> j < N_PROCS \<and> member_ok i (ptable s ! j) \<and>
    Some j \<notin> set ds"
proof -
  obtain s' where run: "que_remove (Some i) (Some v) s = Inr (E_SUCCESS, Some d, s')" "que_frame s s'"
    "que_abs s' bs (Q(i := ds))" and nd: "\<And>n. que_nodes s n \<Longrightarrow> que_nodes s' (Suc n)"
    using que_remove_abs [OF sched_invD(1) [OF inv] i Q] by blast
  have "nodes_ok s' (Q(i := ds))"
    by (rule nodes_ok_get [OF _ nd i]) (use inv Q in \<open>simp_all add: sched_inv_def\<close>)
  moreover
  have d: "distinct (d # ds)" using inv i Q by (auto simp: sched_inv_def)
  have "sorted (map (wake_of s) ds)" if "i = 3" using inv Q that by (auto simp: sched_inv_def)
  ultimately have "sched_inv s' bs (Q(i := ds))"
    by (intro sched_inv_remove [OF inv run(3,2)]) (use Q d in auto)
  moreover obtain j where "j < N_PROCS" "d = Some j" "member_ok i (ptable s ! j)"
    by (rule sched_members [OF inv i, of d]) (use Q in auto)
  ultimately show ?thesis using run d by (intro exI [of _ s'] exI [of _ j]) simp
qed

lemma que_remove_sched_empty:
  assumes "sched_inv s bs Q" and "i < N_QUEUES" and "Q i = []"
  shows "que_remove (Some i) (Some v) s = Inr (E_EMPTY, Some v, s)"
  by (rule que_remove_empty [OF sched_invD(1) [OF assms(1)] assms(2,3)])

lemma states_exclusive:
  assumes "sched_inv s bs Q" and "member_ok i (ptable s ! j)" and "i \<le> PRIO_LAST" and "k < N_QUEUES" "k \<noteq> i"
  shows "Some j \<notin> set (Q k)"
proof
  assume "Some j \<in> set (Q k)"
  then have "member_ok k (ptable s ! j)" using sched_members [OF assms(1,4)] by blast
  with assms show False by (auto simp: member_ok_def split: if_splits)
qed

lemma ready_ix:
  assumes "sched_inv s bs Q" and "k \<le> 2"
  shows "ready s ! k = Some k" and "k < N_QUEUES"
proof -
  have "k = 0 \<or> k = 1 \<or> k = 2" using assms(2) by arith
  then show "ready s ! k = Some k" using sched_invD(3) [OF assms(1)] by auto
  show "k < N_QUEUES" using assms(2) by (simp add: N_QUEUES_def)
qed

lemma dispatch_loop_none:
  assumes "sched_inv s bs Q" and "\<forall>k \<in> set ks. k \<le> 2 \<and> Q k = []"
  shows "dispatch_loop ks p s = Inr (p, s)"
  using assms(2)
proof (induction ks arbitrary: p)
  case (Cons k ks)
  then have "ready s ! k = Some k" "k < N_QUEUES" using ready_ix [OF assms(1)] by auto
  with Cons que_remove_sched_empty [OF assms(1)] show ?case by simp
qed simp

lemma dispatch_loop_some:
  assumes "sched_inv s bs Q" and "\<forall>k \<in> set ks. k \<le> 2" and "List.find (\<lambda>k. Q k \<noteq> []) ks = Some k" and "Q k = d # ds"
  shows "\<exists>s' j. dispatch_loop ks p s = Inr (d, s') \<and> que_frame s s' \<and> sched_inv s' bs (Q(k := ds)) \<and>
    d = Some j \<and> j < N_PROCS \<and> member_ok k (ptable s ! j) \<and> Some j \<notin> set ds"
  using assms(2,3)
proof (induction ks arbitrary: p)
  case (Cons h ks)
  have h: "ready s ! h = Some h" "h < N_QUEUES" using Cons.prems ready_ix [OF assms(1)] by auto
  show ?case
  proof (cases "Q h = []")
    case True
    then show ?thesis using Cons que_remove_sched_empty [OF assms(1) h(2)] h(1) by simp
  next
    case False
    then have "h = k" using Cons.prems by simp
    then show ?thesis
      using que_remove_sched [OF assms(1) h(2), of d ds p] assms(4) h(1)
      by (auto simp del: fun_upd_apply)
  qed
qed simp

lemma dispatch_run:
  assumes "sched_inv s bs Q"
  shows "case first_ix (\<lambda>k. Q k \<noteq> []) 3 of
      None \<Rightarrow> dispatch s = Inl Panic
    | Some k \<Rightarrow> \<exists>i s'. Q k ! 0 = Some i \<and> dispatch s = Inr s' \<and> current s' = Some i \<and>
        sched_inv s' bs (Q(k := tl (Q k))) \<and> \<not> queued (Q(k := tl (Q k))) i \<and> i < N_PROCS \<and>
        unat (p_priority (ptable s ! i)) = k \<and> proc_frame s s' \<and>
        ptable s' = (ptable s)[i := (ptable s ! i)\<lparr>p_state := STATE_RUNNING, p_quantum := Q_STD\<rparr>]"
proof -
  have three: "[0..<3] = [0, 1, 2 :: nat]" by (simp add: upt_conv_Cons)
  then have up: "[PRIO_FIRST..<Suc PRIO_LAST] = [0, 1, 2]" by (simp add: PRIO_FIRST_def PRIO_LAST_def)
  have fi: "first_ix (\<lambda>k. Q k \<noteq> []) 3 = List.find (\<lambda>k. Q k \<noteq> []) [0, 1, 2]"
    unfolding first_ix_def three ..
  show ?thesis
  proof (cases "List.find (\<lambda>k. Q k \<noteq> []) [0, 1, 2]")
    case None
    then have "\<forall>k \<in> set [0, 1, 2]. k \<le> 2 \<and> Q k = []" unfolding find_None_iff by auto
    from dispatch_loop_none [OF assms this] have "dispatch_loop [0, 1, 2] None s = Inr (None, s)" .
    then show ?thesis using None up by (simp add: fi dispatch_def)
  next
    case (Some k)
    then have "k \<in> set [0, 1, 2] \<and> Q k \<noteq> []" unfolding find_Some_iff by (metis nth_mem)
    then have k: "k \<le> 2" "k < N_QUEUES" "Q k \<noteq> []" by (auto simp: N_QUEUES_def)
    then obtain d ds where Q: "Q k = d # ds" by (cases "Q k") auto
    obtain s1 i where r: "dispatch_loop [0, 1, 2] None s = Inr (d, s1)" "que_frame s s1" "sched_inv s1 bs (Q(k := ds))"
      and i: "d = Some i" "i < N_PROCS" "member_ok k (ptable s ! i)" "Some i \<notin> set ds"
      using dispatch_loop_some [OF assms _ Some Q, of None] by (auto simp del: dispatch_loop.simps fun_upd_apply)
    have nq: "\<not> queued (Q(k := ds)) i"
      using i states_exclusive [OF assms i(3)] k(1) by (auto simp: queued_def PRIO_LAST_def)
    have same: "ptable s1 = ptable s" using r(2) que_more [of s1 s] by (simp add: que_frame_def)
    let ?s = "upd_pcb i (\<lambda>p. p\<lparr>p_quantum := Q_STD\<rparr>) (upd_pcb i (\<lambda>p. p\<lparr>p_state := STATE_RUNNING\<rparr>) (s1\<lparr>current := d\<rparr>))"
    have "sched_inv (s1\<lparr>current := d\<rparr>) bs (Q(k := ds))" using r(3) by simp
    then have "sched_inv ?s bs (Q(k := ds))" by (intro sched_inv_upd nq)
    moreover have "dispatch s = Inr ?s"
      using r(1) i up by (simp add: dispatch_def pcb_deref_def del: dispatch_loop.simps)
    moreover have "proc_frame s ?s" using que_frame_proc [OF r(2)] by simp
    moreover have "unat (p_priority (ptable s ! i)) = k" using i(3) k(1) by (simp add: member_ok_def PRIO_LAST_def)
    ultimately show ?thesis
      using Some Q i nq same assms by (simp add: fi) (auto simp: sched_inv_def)
  qed
qed

section \<open>Initialization\<close>

lemma que_get_step:
  assumes "que_abs s bs (\<lambda>_. [])" and "queues_taken n s" and "n < N_QUEUES"
  shows "\<exists>s'. que_get c s = Inr (Some n, s') \<and> que_abs s' bs (\<lambda>_. []) \<and> queues_taken (Suc n) s' \<and>
    map q_compare (queues s') = (map q_compare (queues s))[n := c] \<and> que_st.more s' = que_st.more s \<and>
    free_qnodes s' = free_qnodes s \<and> qn s' = qn s"
proof -
  have "first_ix (\<lambda>i. queue_free s ! i \<noteq> 0) N_QUEUES = Some n"
    unfolding first_ix_Some using assms(2,3) by (auto simp: queues_taken_def que_consts)
  then obtain s' where al: "que_alloc c s = (Some n, s')"
    and s': "s' = s\<lparr>queue_free := (queue_free s)[n := 0], queues := (queues s)[n := empty_queue\<lparr>q_compare := c\<rparr>]\<rparr>"
    by (simp add: que_alloc_def Let_def QUE_INUSE_def)
  have len: "length (queue_free s) = N_QUEUES" using assms(1) by (auto simp: que_abs_def que_rep_def)
  have "queues_taken (Suc n) s'"
    using assms(2,3) len by (auto simp: queues_taken_def s' nth_list_update QUE_INUSE_def less_Suc_eq)
  then show ?thesis
    using que_alloc_abs(4) [OF assms(1) al] al by (auto simp: que_get_def s' map_update)
qed

lemma pcb_init_run:
  assumes "que_abs s bs (\<lambda>_. [])" and "queue_free s = replicate N_QUEUES QUE_FREE"
    and "map q_compare (queues s) = replicate N_QUEUES None" and "que_nodes s 512"
  shows "\<exists>s'. pcb_init s = Inr s' \<and> sched_inv s' bs (\<lambda>_. []) \<and> current s' = None \<and>
    ptable s' = replicate N_PROCS zero_pcb \<and> proc_st.more s' = proc_st.more s \<and> free_stacks s' = free_stacks s"
proof -
  let ?s = "s\<lparr>ptable := replicate N_PROCS zero_pcb\<rparr>"
  have s0: "que_abs ?s bs (\<lambda>_. [])" "queues_taken 0 ?s"
    using assms(1,2) que_abs_cong [of ?s s] by (simp_all add: queues_taken_def)
  obtain s1 where 1: "que_get None ?s = Inr (Some 0, s1)" "que_abs s1 bs (\<lambda>_. [])" "queues_taken 1 s1"
    "map q_compare (queues s1) = (map q_compare (queues s))[0 := None]" "que_st.more s1 = que_st.more ?s" "free_qnodes s1 = free_qnodes s" "qn s1 = qn s"
    using que_get_step [OF s0] by (auto simp: N_QUEUES_def)
  obtain s2 where 2: "que_get None s1 = Inr (Some 1, s2)" "que_abs s2 bs (\<lambda>_. [])" "queues_taken 2 s2"
    "map q_compare (queues s2) = (map q_compare (queues s1))[1 := None]" "que_st.more s2 = que_st.more s1" "free_qnodes s2 = free_qnodes s1" "qn s2 = qn s1"
    using que_get_step [OF 1(2,3)] by (auto simp: N_QUEUES_def numeral_2_eq_2)
  obtain s3 where 3: "que_get None s2 = Inr (Some 2, s3)" "que_abs s3 bs (\<lambda>_. [])" "queues_taken 3 s3"
    "map q_compare (queues s3) = (map q_compare (queues s2))[2 := None]" "que_st.more s3 = que_st.more s2" "free_qnodes s3 = free_qnodes s2" "qn s3 = qn s2"
    using que_get_step [OF 2(2,3)] by (auto simp: N_QUEUES_def)
  obtain s4 where 4: "que_get (Some COMP_WAKEUP) s3 = Inr (Some 3, s4)" "que_abs s4 bs (\<lambda>_. [])" "queues_taken 4 s4"
    "map q_compare (queues s4) = (map q_compare (queues s3))[3 := Some COMP_WAKEUP]" "que_st.more s4 = que_st.more s3" "free_qnodes s4 = free_qnodes s3" "qn s4 = qn s3"
    using que_get_step [OF 3(2,3)] by (auto simp: N_QUEUES_def)
  obtain s5 where 5: "que_get None s4 = Inr (Some 4, s5)" "que_abs s5 bs (\<lambda>_. [])" "queues_taken 5 s5"
    "map q_compare (queues s5) = (map q_compare (queues s4))[4 := None]" "que_st.more s5 = que_st.more s4" "free_qnodes s5 = free_qnodes s4" "qn s5 = qn s4"
    using que_get_step [OF 4(2,3)] by (auto simp: N_QUEUES_def)
  obtain s6 where 6: "que_get None s5 = Inr (Some 5, s6)" "que_abs s6 bs (\<lambda>_. [])" "queues_taken 6 s6"
    "map q_compare (queues s6) = (map q_compare (queues s5))[5 := None]" "que_st.more s6 = que_st.more s5" "free_qnodes s6 = free_qnodes s5" "qn s6 = qn s5"
    using que_get_step [OF 5(2,3)] by (auto simp: N_QUEUES_def)
  obtain s7 where 7: "que_get None s6 = Inr (Some 6, s7)" "que_abs s7 bs (\<lambda>_. [])" "queues_taken 7 s7"
    "map q_compare (queues s7) = (map q_compare (queues s6))[6 := None]" "que_st.more s7 = que_st.more s6" "free_qnodes s7 = free_qnodes s6" "qn s7 = qn s6"
    using que_get_step [OF 6(2,3)] by (auto simp: N_QUEUES_def)
  let ?t = "s7\<lparr>ready := [Some 0, Some 1, Some 2], sleeping := Some 3, zombie := Some 4, blocked := Some 5,
    sioread := Some 6, current := None, init_pcb := None, next_pid := FIRST_USER_PID\<rparr>"
  have run: "pcb_init s = Inr ?t"
    unfolding pcb_init_def Let_def using 1(1) 2(1) 3(1) 4(1) 5(1) 6(1) 7(1) by simp
  have eight: "replicate N_QUEUES x = [x, x, x, x, x, x, x, x]" for x :: "nat option"
    by (simp add: N_QUEUES_def eval_nat_numeral)
  have kinds: "map q_compare (queues s7) = que_kinds"
    unfolding 7(4) 6(4) 5(4) 4(4) 3(4) 2(4) 1(4) assms(3) eight by (simp add: que_kinds_def eval_nat_numeral)
  have more: "que_st.more s7 = que_st.more ?s" using 7(5) 6(5) 5(5) 4(5) 3(5) 2(5) 1(5) by simp
  have pt: "ptable s7 = replicate N_PROCS zero_pcb" using que_more(1) [OF more] by simp
  have "que_abs ?t bs (\<lambda>_. [])" using 7(2) que_abs_cong [of ?t s7] by simp
  moreover have "que_nodes ?t 512"
    using assms(4) que_nodes_cong [of ?t s] 1(6,7) 2(6,7) 3(6,7) 4(6,7) 5(6,7) 6(6,7) 7(6,7) by simp
  then have "nodes_ok ?t (\<lambda>_. [])" by (auto simp: nodes_ok_def)
  moreover have "queues_taken 7 ?t" using 7(3) queues_taken_cong [of ?t s7] by simp
  ultimately have "sched_inv ?t bs (\<lambda>_. [])" using kinds pt by (simp add: sched_inv_def)
  then show ?thesis using run pt que_more(10,11) [OF more] by auto
qed

section \<open>Correctness of the process module\<close>

definition boot_proc :: proc_st where
  "boot_proc = stk_st.extend boot_stk (proc_st.fields [] None None None None None [] 0 None)"

lemma boot_proc_abs: "kmem_abs boot_proc [(0x100000, 4)]"
  using kmem_abs_single [of boot_proc "0x100000" 4]
  by (simp add: boot_proc_def boot_stk_def boot_que_def que_st.defs stk_st.defs proc_st.defs)

text \<open>Starting from initialized and unused queues with 512 free nodes, \<^verbatim>\<open>pcb_init()\<close> returns, and establishes the scheduling
  invariant with empty queues and a process table without processes; no assertion fails.\<close>

theorem pcb_init_inv:
  assumes "que_abs s bs (\<lambda>_. [])" and "queue_free s = replicate N_QUEUES QUE_FREE"
    and "map q_compare (queues s) = replicate N_QUEUES None" and "que_nodes s 512"
  shows "\<exists>s'. pcb_init s = Inr s' \<and> sched_inv s' bs (\<lambda>_. []) \<and> current s' = None \<and>
    (\<forall>i < N_PROCS. p_state (ptable s' ! i) = STATE_UNUSED)"
  using pcb_init_run [OF assms] by (auto simp: zero_pcb_def)

theorem pcb_init_inv_witness:
  "\<exists>s s'. que_init boot_proc = Inr s \<and> pcb_init s = Inr s' \<and> sched_inv s' [(0x101000, 3)] (\<lambda>_. [])"
proof -
  obtain s where s: "que_init boot_proc = Inr s" "que_abs s [(0x101000, 3)] (\<lambda>_. [])"
      "queue_free s = replicate N_QUEUES QUE_FREE" "map q_compare (queues s) = replicate N_QUEUES None" "que_nodes s 512"
    using que_init_abs [OF boot_proc_abs] by auto
  from pcb_init_inv [OF s(2-5)] s(1) show ?thesis by auto
qed

text \<open>A booted process module, without processes and then with one that is ready.\<close>

lemma booted:
  obtains s :: proc_st where "sched_inv s [(0x101000, 3)] (\<lambda>_. [])" and "ptable s = replicate N_PROCS zero_pcb"
proof -
  obtain s :: proc_st where s: "que_abs s [(0x101000, 3)] (\<lambda>_. [])" "queue_free s = replicate N_QUEUES QUE_FREE"
      "map q_compare (queues s) = replicate N_QUEUES None" "que_nodes s 512"
    using que_init_abs [OF boot_proc_abs] by auto
  from pcb_init_run [OF s] show thesis by (auto intro: that)
qed

lemma not_queued_empty [simp]: "\<not> queued (\<lambda>_. []) i"
  by (simp add: queued_def)

lemma one_ready:
  obtains s :: proc_st and bs where "sched_inv s bs ((\<lambda>_. [])(0 := [Some 0]))"
proof -
  obtain s :: proc_st where s: "sched_inv s [(0x101000, 3)] (\<lambda>_. [])" "ptable s = replicate N_PROCS zero_pcb" by (rule booted)
  then show thesis
    using schedule_run [OF s(1), of 0 0] that
    by (auto simp: N_PROCS_def PRIO_LAST_def zero_pcb_def simp del: fun_upd_apply)
qed

text \<open>\<^verbatim>\<open>schedule()\<close> appends a process that is in no queue to the ready queue of its priority and marks it
  ready; the scheduling invariant is kept and no other process is affected.\<close>

theorem schedule_correct:
  assumes "sched_inv s bs Q" and "i < N_PROCS" and "\<not> queued Q i"
    and "unat (p_priority (ptable s ! i)) = k" and "k \<le> PRIO_LAST"
  shows "\<exists>s'. schedule (Some i) s = Inr s' \<and> sched_inv s' bs (Q(k := Q k @ [Some i])) \<and>
    ptable s' = (ptable s)[i := (ptable s ! i)\<lparr>p_state := STATE_READY\<rparr>] \<and> current s' = current s \<and> proc_frame s s'"
  using schedule_run [OF assms] by blast

theorem schedule_correct_witness:
  "\<exists>(s :: proc_st) s' bs. schedule (Some 7) s = Inr s' \<and> sched_inv s' bs ((\<lambda>_. [])(0 := [] @ [Some 7]))"
proof -
  obtain s :: proc_st where s: "sched_inv s [(0x101000, 3)] (\<lambda>_. [])" "ptable s = replicate N_PROCS zero_pcb" by (rule booted)
  have "\<exists>s'. schedule (Some 7) s = Inr s' \<and> sched_inv s' [(0x101000, 3)] ((\<lambda>_. [])(0 := [] @ [Some 7])) \<and>
    ptable s' = (ptable s)[7 := (ptable s ! 7)\<lparr>p_state := STATE_READY\<rparr>] \<and> current s' = current s \<and> proc_frame s s'"
    by (rule schedule_correct [OF s(1)]) (simp_all add: s(2) N_PROCS_def PRIO_LAST_def zero_pcb_def)
  then show ?thesis by blast
qed

text \<open>C6. \<^verbatim>\<open>dispatch()\<close> gives the processor to the process at the head of the highest-priority ready queue
  that is not empty, with a full quantum, and removes it from that queue and from no other; it panics
  exactly when all three ready queues are empty.\<close>

theorem dispatch_picks_highest:
  assumes "sched_inv s bs Q"
  shows "case first_ix (\<lambda>k. Q k \<noteq> []) 3 of
      None \<Rightarrow> dispatch s = Inl Panic
    | Some k \<Rightarrow> \<exists>i s'. Q k ! 0 = Some i \<and> dispatch s = Inr s' \<and> current s' = Some i \<and>
        sched_inv s' bs (Q(k := tl (Q k))) \<and> \<not> queued (Q(k := tl (Q k))) i \<and>
        ptable s' = (ptable s)[i := (ptable s ! i)\<lparr>p_state := STATE_RUNNING, p_quantum := Q_STD\<rparr>]"
  using dispatch_run [OF assms] by (auto split: option.splits simp del: fun_upd_apply)

theorem dispatch_picks_highest_witness:
  "\<exists>(s :: proc_st) s'. dispatch s = Inr s' \<and> current s' = Some 0"
proof -
  obtain s :: proc_st and bs where s: "sched_inv s bs ((\<lambda>_. [])(0 := [Some 0]))" by (rule one_ready)
  have "first_ix (\<lambda>k. ((\<lambda>_. [])(0 := [Some (0 :: nat)])) k \<noteq> []) 3 = Some 0" by (simp add: first_ix_Some)
  with dispatch_picks_highest [OF s] show ?thesis by (auto simp del: fun_upd_apply) (simp add: fun_upd_apply, blast)
qed

end
