(* ===== verification/Support.thy ===== *)
theory Support
  imports Procs
begin

text \<open>
  Interrupt support, \<^verbatim>\<open>kernel/support.c\<close>: the table of second-level handlers, the interrupt descriptor
  table in physical memory, the programming of the two interrupt controllers, and the handlers for
  interrupts that no module claims. A pointer to a handler is a value of type \<open>handler\<close>; the addresses
  of the assembly stubs (\<^verbatim>\<open>isr_stub_table\<close> of \<^verbatim>\<open>kernel/isrs.S\<close>) are a parameter.
\<close>

section \<open>State\<close>

datatype handler = H_none | H_unexpected | H_default | H_mystery | H_illop | H_gp
  | H_kbd | H_clk | H_sio | H_sys

record sup_st = proc_st +
  isr_table :: "handler list"

definition PIC1_CMD :: u16 where "PIC1_CMD = 0x20"
definition PIC1_DATA :: u16 where "PIC1_DATA = 0x21"
definition PIC2_CMD :: u16 where "PIC2_CMD = 0xA0"
definition PIC2_DATA :: u16 where "PIC2_DATA = 0xA1"
definition PIC_EOI :: u8 where "PIC_EOI = 0x20"
definition VEC_TIMER :: nat where "VEC_TIMER = 0x20"
definition VEC_KBD :: nat where "VEC_KBD = 0x21"
definition VEC_COM1 :: nat where "VEC_COM1 = 0x24"
definition VEC_MYSTERY :: nat where "VEC_MYSTERY = 0x27"
definition VEC_SYSCALL :: nat where "VEC_SYSCALL = 0x80"
definition VEC_INVALID_OPCODE :: nat where "VEC_INVALID_OPCODE = 0x06"
definition VEC_GENERAL_PROTECTION :: nat where "VEC_GENERAL_PROTECTION = 0x0d"
definition IDT_ADDR :: u32 where "IDT_ADDR = 0x2500"
definition IDT_FLAGS :: u16 where "IDT_FLAGS = 0x8000 OR 0x0000 OR 0x0e00"

lemmas vectors = VEC_TIMER_def VEC_KBD_def VEC_COM1_def VEC_MYSTERY_def VEC_SYSCALL_def
  VEC_INVALID_OPCODE_def VEC_GENERAL_PROTECTION_def

section \<open>Handlers\<close>

text \<open>Both \<^verbatim>\<open>panic()\<close> and \<^verbatim>\<open>kpanic()\<close> end in an endless loop with interrupts off; what they print on the way is
  not part of the outcome.\<close>

definition unexpected_handler :: "int \<Rightarrow> int \<Rightarrow> 'z sup_st_scheme \<Rightarrow> kerr + 'z sup_st_scheme" where
  "unexpected_handler vector code s = Inl Panic"

definition default_handler :: "int \<Rightarrow> int \<Rightarrow> 'z sup_st_scheme \<Rightarrow> kerr + 'z sup_st_scheme" where
  "default_handler vector code s =
     (if vector \<ge> 0x20 \<and> vector < 0x30 then
        let s = (if vector > 0x27 then outb PIC2_CMD PIC_EOI s else s)
        in Inr (outb PIC1_CMD PIC_EOI s)
      else Inl Panic)"

definition mystery_handler :: "int \<Rightarrow> int \<Rightarrow> 'z sup_st_scheme \<Rightarrow> kerr + 'z sup_st_scheme" where
  "mystery_handler vector code s =
     (if vector \<ge> 0x20 \<and> vector < 0x30 then
        let s = (if vector > 0x27 then outb PIC2_CMD PIC_EOI s else s)
        in Inr (outb PIC1_CMD PIC_EOI s)
      else Inr (outb PIC1_CMD PIC_EOI s))"

section \<open>Initialization\<close>

definition init_pic :: "'z sup_st_scheme \<Rightarrow> 'z sup_st_scheme" where
  "init_pic s =
     (let s = outb PIC1_CMD (0x10 OR 0x01) s;
          s = outb PIC2_CMD (0x10 OR 0x01) s;
          s = outb PIC1_DATA 0x20 s;
          s = outb PIC2_DATA 0x28 s;
          s = outb PIC1_DATA 0x04 s;
          s = outb PIC2_DATA 0x02 s;
          s = outb PIC1_DATA 0x01 s;
          s = outb PIC2_DATA 0x01 s;
          s = outb PIC1_DATA 0x00 s
      in outb PIC2_DATA 0x00 s)"

definition set_idt_entry :: "nat \<Rightarrow> u32 \<Rightarrow> 'z sup_st_scheme \<Rightarrow> 'z sup_st_scheme" where
  "set_idt_entry entry handler s =
     (let g = IDT_ADDR + 8 * of_nat entry;
          m = store16 (mem s) g (ucast (handler AND 0xffff));
          m = store16 m (g + 2) 0x0010;
          m = store16 m (g + 4) IDT_FLAGS;
          m = store16 m (g + 6) (ucast (drop_bit 16 handler AND 0xffff))
      in s\<lparr>mem := m\<rparr>)"

definition install_isr :: "nat \<Rightarrow> handler \<Rightarrow> 'z sup_st_scheme \<Rightarrow> kerr + handler \<times> 'z sup_st_scheme" where
  "install_isr vector handler s =
     (if vector < length (isr_table s)
      then Inr (isr_table s ! vector, s\<lparr>isr_table := (isr_table s)[vector := handler]\<rparr>)
      else Inl Undef)"

text \<open>A call of \<^verbatim>\<open>install_isr()\<close> whose result is discarded.\<close>

definition set_isr :: "nat \<Rightarrow> handler \<Rightarrow> 'z sup_st_scheme \<Rightarrow> kerr + 'z sup_st_scheme" where
  "set_isr vector handler s = kbind (install_isr vector handler s) (\<lambda>(_, s). Inr s)"

fun init_idt_loop :: "(nat \<Rightarrow> u32) \<Rightarrow> nat list \<Rightarrow> 'z sup_st_scheme \<Rightarrow> kerr + 'z sup_st_scheme" where
  "init_idt_loop isr_stub_table [] s = Inr s"
| "init_idt_loop isr_stub_table (i # is) s =
     kbind (set_isr i H_unexpected (set_idt_entry i (isr_stub_table i) s)) (init_idt_loop isr_stub_table is)"

definition init_idt :: "(nat \<Rightarrow> u32) \<Rightarrow> 'z sup_st_scheme \<Rightarrow> kerr + 'z sup_st_scheme" where
  "init_idt isr_stub_table s =
     kbind (init_idt_loop isr_stub_table [0..<256] s) (\<lambda>s.
     kbind (set_isr VEC_KBD H_default s) (\<lambda>s.
     kbind (set_isr VEC_TIMER H_default s) (\<lambda>s.
     kbind (set_isr VEC_MYSTERY H_mystery s) (\<lambda>s.
     kbind (set_isr VEC_INVALID_OPCODE H_illop s) (\<lambda>s.
       set_isr VEC_GENERAL_PROTECTION H_gp s)))))"

definition init_interrupts :: "(nat \<Rightarrow> u32) \<Rightarrow> 'z sup_st_scheme \<Rightarrow> kerr + 'z sup_st_scheme" where
  "init_interrupts isr_stub_table s = kbind (init_idt isr_stub_table s) (\<lambda>s. Inr (init_pic s))"

section \<open>The descriptor table\<close>

text \<open>The processor's reading of a gate: offset, segment selector and flags.\<close>

definition idt_gate :: "memory \<Rightarrow> nat \<Rightarrow> u32 \<times> u16 \<times> u16" where
  "idt_gate m i =
     (let g = IDT_ADDR + 8 * of_nat i
      in (push_bit 16 (ucast (load16 m (g + 6))) OR ucast (load16 m g), load16 m (g + 2), load16 m (g + 4)))"

definition gate_addr :: "nat \<Rightarrow> u32" where
  "gate_addr i = IDT_ADDR + 8 * of_nat i"

lemma unat_gate_addr: "i < 256 \<Longrightarrow> unat (gate_addr i) = 0x2500 + 8 * i"
  by (simp add: gate_addr_def IDT_ADDR_def unat_word_ariths unat_of_nat)

lemma gate_offsets [simp]:
  "(g :: u32) + 1 \<noteq> g" "g + 2 \<noteq> g" "g + 3 \<noteq> g" "g + 4 \<noteq> g" "g + 5 \<noteq> g" "g + 6 \<noteq> g" "g + 7 \<noteq> g"
  by (simp_all add: add_eq_0_iff)

lemma split16: "push_bit 16 (ucast (ucast (drop_bit 16 h AND 0xffff) :: u16)) OR ucast (ucast (h AND 0xffff) :: u16) = (h :: u32)"
proof -
  have m: "(0xffff :: u32) = mask 16" by (simp add: mask_eq_exp_minus_1)
  show ?thesis unfolding m
    by (rule bit_word_eqI) (auto simp: bit_simps)
qed

lemma idt_gate_same: "idt_gate (mem (set_idt_entry i h s)) i = (h, 0x0010, IDT_FLAGS)"
  by (simp add: idt_gate_def set_idt_entry_def Let_def load16_store16_other add.assoc split16)

lemma set_idt_entry_other:
  "\<not> x - gate_addr i < 8 \<Longrightarrow> mem (set_idt_entry i h s) x = mem s x"
proof -
  assume "\<not> x - gate_addr i < 8"
  then have "x \<noteq> gate_addr i + c" if "c < 8" for c using that by auto
  from this [of 0] this [of 1] this [of 2] this [of 3] this [of 4] this [of 5] this [of 6] this [of 7]
  show ?thesis
    by (simp add: set_idt_entry_def Let_def gate_addr_def [symmetric] store16_other add.assoc)
qed

lemma idt_gate_cong:
  assumes "\<And>k. k < 8 \<Longrightarrow> m (gate_addr i + k) = m' (gate_addr i + k)"
  shows "idt_gate m i = idt_gate m' i"
  using assms [of 0] assms [of 1] assms [of 2] assms [of 3] assms [of 4] assms [of 5] assms [of 6] assms [of 7]
  by (simp add: idt_gate_def gate_addr_def [symmetric] load16_def Let_def add.assoc)

lemma idt_gate_other:
  assumes "i \<noteq> j" and "i < 256" and "j < 256"
  shows "idt_gate (mem (set_idt_entry j h s)) i = idt_gate (mem s) i"
proof (rule idt_gate_cong)
  fix k :: u32 assume "k < 8"
  then have k: "unat k < 8" by (simp add: word_less_nat_alt)
  then have "unat (gate_addr i + k) = 0x2500 + 8 * i + unat k"
    using unat_gate_addr [OF assms(2)] assms(2) by (simp add: unat_word_ariths)
  then have "\<not> (gate_addr i + k) - gate_addr j < 8"
    using in_range32 [of "gate_addr j" 8 "gate_addr i + k"] unat_gate_addr [OF assms(3)] assms k by auto
  then show "mem (set_idt_entry j h s) (gate_addr i + k) = mem s (gate_addr i + k)"
    by (rule set_idt_entry_other)
qed

lemma init_idt_loop_run:
  assumes "length (isr_table s) = 256" and "\<forall>i \<in> set is. i < 256" and "distinct is"
  shows "\<exists>s'. init_idt_loop stubs is s = Inr s' \<and>
    isr_table s' = map (\<lambda>i. if i \<in> set is then H_unexpected else isr_table s ! i) [0..<256] \<and>
    (\<forall>i < 256. idt_gate (mem s') i = (if i \<in> set is then (stubs i, 0x0010, IDT_FLAGS) else idt_gate (mem s) i)) \<and>
    (\<forall>x. \<not> x - IDT_ADDR < 0x800 \<longrightarrow> mem s' x = mem s x) \<and> io_out s' = io_out s"
  using assms
proof (induction "is" arbitrary: s)
  case Nil
  then show ?case by (auto intro: nth_equalityI)
next
  case (Cons j js)
  let ?s = "(set_idt_entry j (stubs j) s)\<lparr>isr_table := (isr_table s)[j := H_unexpected]\<rparr>"
  have t: "isr_table (set_idt_entry j (stubs j) s) = isr_table s" "io_out (set_idt_entry j (stubs j) s) = io_out s"
    by (simp_all add: set_idt_entry_def Let_def)
  have st: "set_isr j H_unexpected (set_idt_entry j (stubs j) s) = Inr ?s"
    using Cons.prems by (simp add: set_isr_def install_isr_def t)
  obtain s' where run: "init_idt_loop stubs js ?s = Inr s'"
    and tab: "isr_table s' = map (\<lambda>i. if i \<in> set js then H_unexpected else isr_table ?s ! i) [0..<256]"
    and gates: "\<forall>i < 256. idt_gate (mem s') i = (if i \<in> set js then (stubs i, 0x0010, IDT_FLAGS) else idt_gate (mem ?s) i)"
    and out: "\<forall>x. \<not> x - IDT_ADDR < 0x800 \<longrightarrow> mem s' x = mem ?s x" and io: "io_out s' = io_out ?s"
    using Cons.IH [of ?s] Cons.prems by (auto simp: t)
  have "mem s' x = mem s x" if x: "\<not> x - IDT_ADDR < 0x800" for x
  proof -
    have "\<not> x - gate_addr j < 8"
      using x Cons.prems in_range32 [of IDT_ADDR "0x800" x] in_range32 [of "gate_addr j" 8 x] unat_gate_addr [of j]
      by (auto simp: IDT_ADDR_def)
    then show ?thesis using out x by (simp add: set_idt_entry_other)
  qed
  moreover have "idt_gate (mem s') i = (if i \<in> set (j # js) then (stubs i, 0x0010, IDT_FLAGS) else idt_gate (mem s) i)"
    if "i < 256" for i
    using gates that Cons.prems idt_gate_same [of j "stubs j" s] idt_gate_other [of i j] by (cases "i = j") auto
  moreover have "isr_table s' = map (\<lambda>i. if i \<in> set (j # js) then H_unexpected else isr_table s ! i) [0..<256]"
    unfolding tab using Cons.prems by (auto simp: nth_list_update)
  ultimately show ?case using run st io t by (intro exI [of _ s']) simp
qed

definition boot_handlers :: "handler list" where
  "boot_handlers = (replicate 256 H_unexpected)[VEC_KBD := H_default, VEC_TIMER := H_default, VEC_MYSTERY := H_mystery,
     VEC_INVALID_OPCODE := H_illop, VEC_GENERAL_PROTECTION := H_gp]"

lemma init_interrupts_run:
  assumes "length (isr_table s) = 256"
  shows "\<exists>s'. init_interrupts stubs s = Inr s' \<and>
    (\<forall>i < 256. idt_gate (mem s') i = (stubs i, 0x0010, IDT_FLAGS)) \<and>
    (\<forall>x. \<not> x - IDT_ADDR < 0x800 \<longrightarrow> mem s' x = mem s x) \<and>
    isr_table s' = boot_handlers \<and>
    drop (length (io_out s)) (io_out s') =
      [(0x20, 0x11), (0xA0, 0x11), (0x21, 0x20), (0xA1, 0x28), (0x21, 4), (0xA1, 2), (0x21, 1), (0xA1, 1),
       (0x21, 0), (0xA1, 0)]"
proof -
  obtain s1 where run: "init_idt_loop stubs [0..<256] s = Inr s1"
    and tab: "isr_table s1 = map (\<lambda>i. if i \<in> set [0..<256] then H_unexpected else isr_table s ! i) [0..<256]"
    and gates: "\<forall>i < 256. idt_gate (mem s1) i = (if i \<in> set [0..<256] then (stubs i, 0x0010, IDT_FLAGS) else idt_gate (mem s) i)"
    and out: "\<forall>x. \<not> x - IDT_ADDR < 0x800 \<longrightarrow> mem s1 x = mem s x" and io: "io_out s1 = io_out s"
    using init_idt_loop_run [OF assms, of "[0..<256]" stubs] by auto
  have tab': "isr_table s1 = replicate 256 H_unexpected"
    unfolding tab by (rule nth_equalityI) simp_all
  show ?thesis
    unfolding init_interrupts_def init_idt_def run
    using gates out io
    by (simp add: set_isr_def install_isr_def tab' init_pic_def outb_def Let_def vectors boot_handlers_def
        PIC1_CMD_def PIC2_CMD_def PIC1_DATA_def PIC2_DATA_def)
qed

text \<open>C22. \<^verbatim>\<open>init_interrupts()\<close> makes every one of the 256 gates of the descriptor table an interrupt gate of the
  kernel's code segment that leads to the stub of its vector; it changes nothing else in memory,
  installs the default handlers, and finally unmasks both interrupt controllers.\<close>

theorem init_interrupts_gates:
  assumes "length (isr_table s) = 256"
  shows "\<exists>s'. init_interrupts stubs s = Inr s' \<and>
    (\<forall>i < 256. idt_gate (mem s') i = (stubs i, 0x0010, IDT_FLAGS)) \<and>
    (\<forall>x. \<not> x - IDT_ADDR < 0x800 \<longrightarrow> mem s' x = mem s x) \<and>
    isr_table s' = boot_handlers \<and>
    drop (length (io_out s)) (io_out s') =
      [(0x20, 0x11), (0xA0, 0x11), (0x21, 0x20), (0xA1, 0x28), (0x21, 4), (0xA1, 2), (0x21, 1), (0xA1, 1),
       (0x21, 0), (0xA1, 0)]"
  by (rule init_interrupts_run [OF assms])

definition boot_sup :: sup_st where
  "boot_sup = proc_st.extend boot_proc (sup_st.fields (replicate 256 H_none))"

theorem init_interrupts_gates_witness:
  "\<exists>s'. init_interrupts (\<lambda>i. 0x10000 + of_nat i) boot_sup = Inr s' \<and>
     idt_gate (mem s') 0x80 = (0x10080, 0x0010, IDT_FLAGS)"
proof -
  have "length (isr_table boot_sup) = 256" by (simp add: boot_sup_def proc_st.defs sup_st.defs)
  from init_interrupts_gates [OF this, of "\<lambda>i. 0x10000 + of_nat i"]
  obtain s' where r: "init_interrupts (\<lambda>i. 0x10000 + of_nat i) boot_sup = Inr s'"
    and g: "\<forall>i < 256. idt_gate (mem s') i = (0x10000 + of_nat i, 0x0010, IDT_FLAGS)" by blast
  from g [rule_format, of "0x80"] r show ?thesis by simp
qed

end
