(* ===== verification/Ring_Buffers.thy ===== *)
theory Ring_Buffers
  imports Prelude
begin

text \<open>
  Circular buffers. The console keyboard buffer and the serial output buffer are both fixed arrays with
  a position to take from and a position to put at; the locale states what the two positions promise,
  and first-in-first-out order is proved once.
\<close>

section \<open>Contents of a ring\<close>

text \<open>The \<open>n\<close> cells of \<open>b\<close> from index \<open>f\<close> on, wrapping at the end of the array.\<close>

definition ring_seq :: "'a list \<Rightarrow> nat \<Rightarrow> nat \<Rightarrow> 'a list" where
  "ring_seq b f n = map (\<lambda>i. b ! ((f + i) mod length b)) [0..<n]"

lemma length_ring_seq [simp]: "length (ring_seq b f n) = n"
  by (simp add: ring_seq_def)

lemma ring_seq_0 [simp]: "ring_seq b f 0 = []"
  by (simp add: ring_seq_def)

lemma ring_seq_put:
  assumes "n < length b"
  shows "ring_seq (b[(f + n) mod length b := c]) f (Suc n) = ring_seq b f n @ [c]"
proof -
  have "(f + i) mod length b \<noteq> (f + n) mod length b" if "i < n" for i
  proof
    assume "(f + i) mod length b = (f + n) mod length b"
    then have "(f + n) mod length b = (f + i) mod length b" ..
    then have "length b dvd (f + n) - (f + i)" by (rule iffD1 [OF mod_eq_dvd_iff_nat, rotated]) (use that in simp)
    then show False using that assms by (simp add: nat_dvd_not_less)
  qed
  then have "b[(f + n) mod length b := c] ! ((f + i) mod length b) = b ! ((f + i) mod length b)" if "i < n" for i
    using that by (metis nth_list_update_neq)
  moreover have "(f + n) mod length b < length b" using assms by (intro mod_less_divisor) linarith
  ultimately show ?thesis by (simp add: ring_seq_def)
qed

lemma ring_seq_take:
  "ring_seq b f (Suc n) = b ! (f mod length b) # ring_seq b (Suc f mod length b) n"
proof (rule nth_equalityI)
  fix i assume "i < length (ring_seq b f (Suc n))"
  then show "ring_seq b f (Suc n) ! i = (b ! (f mod length b) # ring_seq b (Suc f mod length b) n) ! i"
    by (cases i) (simp_all add: ring_seq_def mod_add_left_eq del: upt_Suc)
qed (simp add: ring_seq_def)

lemma ring_seq_flat:
  assumes "f + n \<le> length b"
  shows "ring_seq b f n = take n (drop f b)"
  using assms by (intro nth_equalityI) (auto simp: ring_seq_def)

section \<open>The interface\<close>

text \<open>Putting several values one after the other, and taking several.\<close>

fun puts :: "('a \<Rightarrow> 's \<Rightarrow> kerr + 's) \<Rightarrow> 'a list \<Rightarrow> 's \<Rightarrow> kerr + 's" where
  "puts put [] s = Inr s"
| "puts put (c # cs) s = kbind (put c s) (puts put cs)"

fun gets :: "('s \<Rightarrow> kerr + 'a \<times> 's) \<Rightarrow> nat \<Rightarrow> 's \<Rightarrow> kerr + 'a list \<times> 's" where
  "gets get 0 s = Inr ([], s)"
| "gets get (Suc n) s = kbind (get s) (\<lambda>(c, s). kbind (gets get n s) (\<lambda>(cs, s). Inr (c # cs, s)))"

locale ring_buffer =
  fixes store :: "'s \<Rightarrow> 'a list" and first :: "'s \<Rightarrow> nat" and used :: "'s \<Rightarrow> nat"
    and cap :: nat and ok :: "'s \<Rightarrow> bool"
    and put :: "'a \<Rightarrow> 's \<Rightarrow> kerr + 's" and get :: "'s \<Rightarrow> kerr + 'a \<times> 's"
  assumes cap: "ok s \<Longrightarrow> cap \<le> length (store s)" and used: "ok s \<Longrightarrow> used s \<le> cap"
    and put_ok: "ok s \<Longrightarrow> used s < cap \<Longrightarrow> \<exists>s'. put c s = Inr s' \<and> ok s' \<and> first s' = first s \<and>
      used s' = Suc (used s) \<and> store s' = (store s)[(first s + used s) mod length (store s) := c]"
    and get_ok: "ok s \<Longrightarrow> 0 < used s \<Longrightarrow> \<exists>s'. get s = Inr (store s ! (first s mod length (store s)), s') \<and> ok s' \<and>
      first s' = Suc (first s) mod length (store s) \<and> used s' = used s - 1 \<and> store s' = store s"
begin

abbreviation contents :: "'s \<Rightarrow> 'a list" where
  "contents s \<equiv> ring_seq (store s) (first s) (used s)"

lemma put_contents:
  assumes "ok s" and "used s < cap"
  shows "\<exists>s'. put c s = Inr s' \<and> ok s' \<and> contents s' = contents s @ [c] \<and> used s' = Suc (used s)"
  using put_ok [OF assms, of c] ring_seq_put [of "used s" "store s" "first s" c] cap [OF assms(1)] assms(2)
  by auto

lemma get_contents:
  assumes "ok s" and "contents s = c # cs"
  shows "\<exists>s'. get s = Inr (c, s') \<and> ok s' \<and> contents s' = cs \<and> store s' = store s"
proof -
  obtain n where n: "used s = Suc n" using assms(2) by (cases "used s") auto
  then show ?thesis
    using get_ok [OF assms(1)] assms(2) ring_seq_take [of "store s" "first s" n] by auto
qed

lemma puts_contents:
  assumes "ok s" and "used s + length cs \<le> cap"
  shows "\<exists>s'. puts put cs s = Inr s' \<and> ok s' \<and> contents s' = contents s @ cs"
  using assms
proof (induction cs arbitrary: s)
  case (Cons c cs)
  from put_contents [of s c] Cons.prems
  obtain t where t: "put c s = Inr t" "ok t" "contents t = contents s @ [c]" "used t = Suc (used s)" by auto
  with Cons.IH [of t] Cons.prems(2) show ?case by auto
qed simp

lemma gets_contents:
  assumes "ok s"
  shows "\<exists>s'. gets get (used s) s = Inr (contents s, s') \<and> ok s' \<and> contents s' = []"
proof -
  have "\<exists>s'. gets get n s = Inr (contents s, s') \<and> ok s' \<and> contents s' = []" if "ok s" "n = length (contents s)" for n
    using that
  proof (induction n arbitrary: s)
    case (Suc n)
    obtain c cs where c: "contents s = c # cs" using Suc.prems(2) by (cases "contents s") auto
    from get_contents [OF Suc.prems(1) c] obtain t where t: "get s = Inr (c, t)" "ok t" "contents t = cs" by blast
    with Suc.IH [of t] Suc.prems(2) c show ?case by auto
  qed simp
  from this [OF assms, of "used s"] show ?thesis by simp
qed

lemma puts_gets:
  assumes "ok s" and "used s + length cs \<le> cap" and "contents s = []"
  shows "\<exists>t s'. puts put cs s = Inr t \<and> gets get (length cs) t = Inr (cs, s') \<and> ok s'"
proof -
  obtain t where t: "puts put cs s = Inr t" "ok t" "contents t = cs" using puts_contents [OF assms(1,2)] assms(3) by auto
  then have "used t = length cs" using length_ring_seq [of "store t" "first t" "used t"] by simp
  with gets_contents [OF t(2)] t show ?thesis by auto
qed

end

end
