(* ===== verification/Lib_Conv.thy ===== *)
theory Lib_Conv
  imports Lib_Str "HOL-Library.Signed_Division"
begin

text \<open>
  Number conversion in \<^verbatim>\<open>lib/\<close>: \<^verbatim>\<open>cvtdec\<close>, \<^verbatim>\<open>cvtuns\<close>, \<^verbatim>\<open>cvthex\<close>, \<^verbatim>\<open>cvtoct\<close> print into a buffer, \<^verbatim>\<open>str2int\<close> reads, and
  \<^verbatim>\<open>sprint\<close> formats. A C \<^verbatim>\<open>int\<close> is a 32-bit word read with \<open>sint\<close> where its sign matters, or an \<open>int\<close> in
  its range.
\<close>

type_synonym i32 = "32 word"

section \<open>Printing\<close>

function cvtdec0 :: "u32 \<Rightarrow> int \<Rightarrow> memory \<Rightarrow> u32 \<times> memory" where
  "cvtdec0 buf v m =
     (let quotient = v sdiv 10;
          (quotient, v) = (if quotient < 0 then (214748364, 8) else (quotient, v));
          (buf, m) = (if quotient \<noteq> 0 then cvtdec0 buf quotient m else (buf, m))
      in (buf + 1, m(buf := word_of_int (v smod 10 + 48))))"
  by auto
termination
  by (relation "measure (\<lambda>(buf, v, m). if v < 0 then 2 ^ 32 else nat v)")
    (auto simp: signed_divide_int_def sgn_if split: if_splits)

declare cvtdec0.simps [simp del]

definition cvtdec :: "u32 \<Rightarrow> i32 \<Rightarrow> memory \<Rightarrow> u32 \<times> memory" where
  "cvtdec buf v m =
     (let bp = buf;
          (bp, v, m) = (if sint v < 0 then (bp + 1, - v, m(bp := 45)) else (bp, v, m));
          (bp, m) = cvtdec0 bp (sint v) m;
          m = m(bp := 0)
      in (bp - buf, m))"

definition cvtuns0 :: "u32 \<Rightarrow> u32 \<Rightarrow> memory \<Rightarrow> u32 \<times> memory" where
  "cvtuns0 buf v m =
     (let quotient = v div 10;
          (buf, m) = (if quotient \<noteq> 0 then cvtdec0 buf (sint quotient) m else (buf, m))
      in (buf + 1, m(buf := ucast (v mod 10 + 48))))"

definition cvtuns :: "u32 \<Rightarrow> u32 \<Rightarrow> memory \<Rightarrow> u32 \<times> memory" where
  "cvtuns buf v m =
     (let (bp, m) = cvtuns0 buf v m;
          m = m(bp := 0)
      in (bp - buf, m))"

definition hexdigits :: "u8 list" where
  "hexdigits = [48, 49, 50, 51, 52, 53, 54, 55, 56, 57, 65, 66, 67, 68, 69, 70]"

text \<open>The loop of \<^verbatim>\<open>cvthex()\<close>: \<open>n\<close> iterations are left, so the C index is \<open>8 - n\<close>.\<close>

fun cvthex_loop :: "nat \<Rightarrow> u32 \<Rightarrow> u32 \<Rightarrow> u32 \<Rightarrow> memory \<Rightarrow> u32 \<times> u32 \<times> memory" where
  "cvthex_loop 0 chars_stored buf v m = (chars_stored, buf, m)"
| "cvthex_loop (Suc n) chars_stored buf v m =
     (let val = v AND 0xf0000000;
          (chars_stored, buf, m) =
            (if chars_stored \<noteq> 0 \<or> val \<noteq> 0 \<or> n = 0
             then let val = drop_bit 28 val AND 0xf
                  in (chars_stored + 1, buf + 1, m(buf := hexdigits ! unat val))
             else (chars_stored, buf, m))
      in cvthex_loop n chars_stored buf (push_bit 4 v) m)"

definition cvthex :: "u32 \<Rightarrow> u32 \<Rightarrow> memory \<Rightarrow> u32 \<times> memory" where
  "cvthex buf v m =
     (let (chars_stored, buf, m) = cvthex_loop 8 0 buf v m
      in (chars_stored, m(buf := 0)))"

fun cvtoct_loop :: "nat \<Rightarrow> bool \<Rightarrow> u32 \<Rightarrow> u32 \<Rightarrow> u32 \<Rightarrow> memory \<Rightarrow> u32 \<times> memory" where
  "cvtoct_loop 0 chars_stored bp v val m = (bp, m)"
| "cvtoct_loop (Suc n) chars_stored bp v val m =
     (let (chars_stored, bp, m) =
            (if n = 0 \<or> val \<noteq> 0 \<or> chars_stored
             then let val = val AND 7 in (True, bp + 1, m(bp := ucast (val + 48)))
             else (chars_stored, bp, m));
          v = push_bit 3 v;
          val = v AND 0xe0000000;
          val = drop_bit 29 val
      in cvtoct_loop n chars_stored bp v val m)"

definition cvtoct :: "u32 \<Rightarrow> u32 \<Rightarrow> memory \<Rightarrow> u32 \<times> memory" where
  "cvtoct buf v m =
     (let val = v AND 0xc0000000;
          val = drop_bit 30 val;
          (bp, m) = cvtoct_loop 11 False buf v val m;
          m = m(bp := 0)
      in (bp - buf, m))"

section \<open>Reading\<close>

definition UCASE :: "u8 \<Rightarrow> u8" where
  "UCASE c = (if sint c \<ge> 97 \<and> sint c \<le> 122 then c AND 0xdf else c)"

text \<open>The constant string \<^verbatim>\<open>hexdigits\<close>, at an address of its own.\<close>

definition HEX :: u32 where "HEX = 16"
definition hexmem :: memory where "hexmem = put_bytes HEX hexdigits (\<lambda>_. 0)"

partial_function (option) str2int_loop :: "u32 \<Rightarrow> i32 \<Rightarrow> u8 \<Rightarrow> i32 \<Rightarrow> memory \<Rightarrow> i32 option" where
  "str2int_loop str base bchar num m =
     (if m str = 0 then Some num
      else Option.bind (strchr HEX (UCASE (m str)) hexmem) (\<lambda>ptr.
        if ptr = NULL then Some num
        else if sint (hexmem ptr) > sint bchar then Some num
        else str2int_loop (str + 1) base bchar (num * base + (ptr - HEX)) m))"

definition str2int :: "u32 \<Rightarrow> i32 \<Rightarrow> memory \<Rightarrow> i32 option" where
  "str2int str base m =
     (let (sign, str) = (if m str = 45 then (-1, str + 1) else (1, str));
          (bchar, str) =
            (if base \<noteq> 10
             then if base = 16
                  then (70, if m str = 48 \<and> (m (str + 1) = 120 \<or> m (str + 1) = 88) then str + 2 else str)
                  else if base = 2
                  then (ucast (48 + base - 1),
                        if m str = 48 \<and> (m (str + 1) = 98 \<or> m (str + 1) = 66) then str + 2 else str)
                  else (ucast (48 + base - 1), str)
             else (57, str))
      in map_option (\<lambda>num. num * sign) (str2int_loop str base bchar 0 m))"

section \<open>Numerals\<close>

text \<open>The digits of a number, most significant first, and their text.\<close>

function nd :: "nat \<Rightarrow> nat \<Rightarrow> nat list" where
  "nd b x = (if b < 2 \<or> x < b then [x] else nd b (x div b) @ [x mod b])"
  by auto
termination
  by (relation "measure snd") auto

declare nd.simps [simp del]

definition numeral_text :: "nat \<Rightarrow> nat \<Rightarrow> u8 list" where
  "numeral_text b x = map (\<lambda>d. hexdigits ! d) (nd b x)"

lemma nd_less: "2 \<le> b \<Longrightarrow> d \<in> set (nd b x) \<Longrightarrow> d < b"
proof (induction b x rule: nd.induct)
  case (1 b x)
  then show ?case by (auto simp: nd.simps [of b x] split: if_splits)
qed

lemma nd_value: "foldl (\<lambda>n d. n * b + d) 0 (nd b x) = x"
proof (induction b x rule: nd.induct)
  case (1 b x)
  then show ?case by (subst nd.simps) auto
qed

lemma nd_not_Nil [simp]: "nd b x \<noteq> []"
  by (subst nd.simps) simp

lemma hexdigits_dec: "d < 10 \<Longrightarrow> hexdigits ! d = of_nat (48 + d)"
proof -
  assume "d < 10"
  then have "d \<in> {0, 1, 2, 3, 4, 5, 6, 7, 8, 9}" by auto
  then show ?thesis by (auto simp: hexdigits_def)
qed

lemma numeral_text_step:
  "10 \<le> x \<Longrightarrow> numeral_text 10 x = numeral_text 10 (x div 10) @ [of_nat (48 + x mod 10)]"
  unfolding numeral_text_def by (subst nd.simps) (simp add: hexdigits_dec)

lemma numeral_text_small: "x < 10 \<Longrightarrow> numeral_text 10 x = [of_nat (48 + x)]"
  unfolding numeral_text_def by (subst nd.simps) (simp add: hexdigits_dec)

lemma numeral_text_length: "2 \<le> b \<Longrightarrow> x < b ^ n \<Longrightarrow> 0 < n \<Longrightarrow> length (numeral_text b x) \<le> n"
proof (induction n arbitrary: x)
  case (Suc n)
  show ?case
  proof (cases "x < b")
    case True
    then show ?thesis by (simp add: numeral_text_def nd.simps [of b x])
  next
    case False
    have "n \<noteq> 0" using False Suc.prems by (intro notI) simp
    moreover have "x div b < b ^ n" using Suc.prems by (simp add: less_mult_imp_div_less mult.commute)
    ultimately have "length (numeral_text b (x div b)) \<le> n" using Suc by simp
    then show ?thesis using False Suc.prems by (simp add: numeral_text_def nd.simps [of b x])
  qed
qed simp

lemma smod_digit: "0 \<le> v \<Longrightarrow> (word_of_int (v smod 10) :: u8) = of_nat (nat v mod 10)"
proof -
  assume "0 \<le> v"
  then have "v smod 10 = int (nat v mod 10)"
    by (simp add: signed_modulo_int_def sgn_if zmod_int)
  then show ?thesis by simp
qed

lemma cvtdec0_nonneg:
  "0 \<le> v \<Longrightarrow> cvtdec0 buf v m =
     (buf + of_nat (length (numeral_text 10 (nat v))), put_bytes buf (numeral_text 10 (nat v)) m)"
proof (induction "nat v" arbitrary: v buf m rule: less_induct)
  case less
  have q: "v sdiv 10 = v div 10" using less.prems by (simp add: signed_divide_int_def sgn_if)
  show ?case
  proof (cases "v < 10")
    case True
    then have "v div 10 = 0" using less.prems by simp
    then show ?thesis using True less.prems
      by (subst cvtdec0.simps) (simp add: q smod_digit numeral_text_small add.commute)
  next
    case False
    have IH: "cvtdec0 buf (v div 10) m = (buf + of_nat (length (numeral_text 10 (nat v div 10))),
        put_bytes buf (numeral_text 10 (nat v div 10)) m)"
      using less.hyps [of "v div 10" buf m] less.prems False by (simp add: nat_div_distrib)
    have "10 \<le> nat v" "0 < v div 10" using False by simp_all
    then show ?thesis
      using numeral_text_step [of "nat v"] less.prems IH
      by (subst cvtdec0.simps) (simp add: q smod_digit put_bytes_append add.commute add.left_commute)
  qed
qed

lemma cvtdec0_min:
  "cvtdec0 buf (- 2147483648) m =
     (buf + of_nat (length (numeral_text 10 2147483648)), put_bytes buf (numeral_text 10 2147483648) m)"
proof -
  have q: "(- 2147483648 :: int) sdiv 10 < 0" by (simp add: signed_divide_int_def)
  have "numeral_text 10 2147483648 = numeral_text 10 214748364 @ [56]"
    using numeral_text_step [of 2147483648] by simp
  then show ?thesis
    using q cvtdec0_nonneg [of 214748364 buf m]
    by (subst cvtdec0.simps) (simp add: put_bytes_append signed_modulo_int_def add.assoc)
qed

text \<open>The decimal text of a signed number.\<close>

definition dec_text :: "int \<Rightarrow> u8 list" where
  "dec_text v = (if v < 0 then 45 # numeral_text 10 (nat (- v)) else numeral_text 10 (nat v))"

lemma sint_range: "- 2147483648 \<le> sint (v :: i32)" "sint (v :: i32) < 2147483648"
  using sint_ge [of v] sint_lt [of v] by simp_all

lemma sint_uminus_i32: "sint (v :: i32) \<noteq> - 2147483648 \<Longrightarrow> sint (- v) = - sint v"
  using sint_range [of v] by (simp add: sint_word_ariths signed_take_bit_int_eq_self)

lemma cvtdec_text:
  "cvtdec buf v m = (of_nat (length (dec_text (sint v))), put_bytes buf (dec_text (sint v) @ [0]) m)"
proof (cases "sint v < 0")
  case False
  then show ?thesis
    by (simp add: cvtdec_def dec_text_def cvtdec0_nonneg put_bytes_append)
next
  case True
  show ?thesis
  proof (cases "sint v = - 2147483648")
    case min: True
    have "- v = - word_of_int (sint v)" "v = word_of_int (sint v)" by simp_all
    then have neg: "- v = v" unfolding min by simp
    have "sint (- v) = - 2147483648" by (simp only: neg min)
    then show ?thesis using min
      by (simp add: cvtdec_def dec_text_def cvtdec0_min put_bytes_append algebra_simps del: fun_upd_apply)
  next
    case False
    have "sint (- v) = - sint v" by (rule sint_uminus_i32 [OF False])
    then show ?thesis using True
      by (simp add: cvtdec_def dec_text_def cvtdec0_nonneg put_bytes_append algebra_simps del: fun_upd_apply)
  qed
qed

lemma cvtuns_text:
  "cvtuns buf v m = (of_nat (length (numeral_text 10 (unat v))), put_bytes buf (numeral_text 10 (unat v) @ [0]) m)"
proof -
  have v32: "unat v < 2 ^ 32" using unsigned_less [of v, where ?'a = nat] by simp
  have q: "unat (v div 10) = unat v div 10" by (simp add: unat_div)
  have r: "ucast (v mod 10 + 48) = (of_nat (48 + unat v mod 10) :: u8)"
  proof -
    have "v mod 10 = of_nat (unat (v mod 10))" by simp
    then have "v mod 10 + 48 = (of_nat (48 + unat v mod 10) :: u32)" by (simp add: unat_mod)
    then show ?thesis
      by (simp only: unsigned_of_nat) (simp add: take_bit_nat_eq_self)
  qed
  show ?thesis
  proof (cases "unat v < 10")
    case True
    then have "v div 10 = 0" using q by (simp add: unat_eq_0 [symmetric])
    then show ?thesis using True r by (simp add: cvtuns_def cvtuns0_def numeral_text_small)
  next
    case False
    have "sint (v div 10) = int (unat v div 10)"
    proof -
      define n where "n = unat v div 10"
      have "n < 2147483648" unfolding n_def using v32 by simp
      moreover have "uint (v div 10) = int n" unfolding n_def using q by (metis uint_nat)
      ultimately have "sint (v div 10) = int n"
        unfolding sint_uint by (simp add: signed_take_bit_int_eq_self)
      then show ?thesis by (simp only: n_def)
    qed
    moreover have "v div 10 \<noteq> 0"
    proof
      assume "v div 10 = 0"
      then show False using q False by simp
    qed
    moreover have "10 \<le> unat v" using False by simp
    ultimately show ?thesis
      using numeral_text_step [of "unat v"] r
      by (simp add: cvtuns_def cvtuns0_def cvtdec0_nonneg put_bytes_append add.assoc del: fun_upd_apply)
  qed
qed

section \<open>Reading numerals\<close>

lemma str_at_hexmem: "str_at hexmem HEX hexdigits"
  by (simp add: hexmem_def HEX_def hexdigits_def)

lemma strchr_loop_at:
  assumes "str_at m a xs" and "i < length xs" and "\<forall>j < i. xs ! j \<noteq> c" and "xs ! i = c"
  shows "strchr_loop a c m = Some (a + of_nat i)"
  using assms
proof (induction xs arbitrary: a i)
  case (Cons x xs)
  show ?case
  proof (cases i)
    case 0
    then show ?thesis using Cons.prems by (subst strchr_loop.simps) auto
  next
    case (Suc j)
    have "x \<noteq> c" using Cons.prems(3) Suc by (metis nth_Cons_0 zero_less_Suc)
    moreover have "\<forall>k < j. xs ! k \<noteq> c" using Cons.prems(3) Suc by (metis Suc_mono nth_Cons_Suc)
    ultimately show ?thesis
      using Cons.IH [of "a + 1" j] Cons.prems Suc by (subst strchr_loop.simps) (auto simp: algebra_simps)
  qed
qed simp

lemma hexdigits_distinct: "distinct hexdigits" "length hexdigits = 16"
  by (simp_all add: hexdigits_def)

lemma less_16_cases: "d < 16 \<Longrightarrow> d \<in> {0, 1, 2, 3, 4, 5, 6, 7, 8, 9, 10, 11, 12, 13, 14, 15 :: nat}"
  by simp arith

lemma UCASE_hexdigit: "d < 16 \<Longrightarrow> UCASE (hexdigits ! d) = hexdigits ! d"
  using less_16_cases [of d] by (auto simp: hexdigits_def UCASE_def)

lemma strchr_hexdigit: "d < 16 \<Longrightarrow> strchr HEX (UCASE (hexdigits ! d)) hexmem = Some (HEX + of_nat d)"
proof -
  assume d: "d < 16"
  have "\<forall>j < d. hexdigits ! j \<noteq> hexdigits ! d"
    using d hexdigits_distinct by (auto simp: nth_eq_iff_index_eq)
  from strchr_loop_at [OF str_at_hexmem _ this refl] d show ?thesis
    by (simp add: UCASE_hexdigit strchr_def hexdigits_distinct) (simp add: HEX_def)
qed

lemma hexmem_digit: "d < 16 \<Longrightarrow> hexmem (HEX + of_nat d) = hexdigits ! d"
  unfolding hexmem_def by (rule put_bytes_at) (simp_all add: hexdigits_distinct)

lemma HEX_nonnull: "d < 16 \<Longrightarrow> HEX + of_nat d \<noteq> 0"
  using less_16_cases [of d] by (auto simp: HEX_def)

lemma hexdigit_le: "d < 16 \<Longrightarrow> b \<in> {10, 16} \<Longrightarrow>
    sint (hexdigits ! d) \<le> sint (if b = (10 :: nat) then 57 else 70 :: u8) \<longleftrightarrow> d < b"
  using less_16_cases [of d] by (auto simp: hexdigits_def)

lemma str2int_loop_digits:
  assumes "str_at m a (map (\<lambda>d. hexdigits ! d) ds)" and "b \<in> {10, 16}" and "\<forall>d \<in> set ds. d < b"
  shows "str2int_loop a (of_nat b) (if b = 10 then 57 else 70) num m
    = Some (foldl (\<lambda>n d. n * of_nat b + of_nat d) num ds)"
  using assms
proof (induction ds arbitrary: a num)
  case Nil
  then show ?case by (simp add: str2int_loop.simps)
next
  case (Cons d ds)
  have d: "d < 16" "d < b" using Cons.prems(2,3) by auto
  have "\<not> sint (if b = 10 then 57 else 70 :: u8) < sint (hexdigits ! d)"
    using hexdigit_le [of d b] d Cons.prems(2) by (simp add: not_less del: if_split)
  then show ?case
    using Cons.IH [of "a + 1"] Cons.prems d strchr_hexdigit [of d] hexmem_digit [of d] HEX_nonnull [of d]
    by (subst str2int_loop.simps) (simp add: algebra_simps)
qed

section \<open>Digits taken from the top of a word\<close>

fun fixed :: "nat \<Rightarrow> nat \<Rightarrow> nat \<Rightarrow> nat list" where
  "fixed b 0 x = []"
| "fixed b (Suc n) x = (x div b ^ n) # fixed b n (x mod b ^ n)"

lemma div_mod_swap: "(x mod (b * c)) div b = (x div b) mod (c :: nat)"
  by (cases "b = 0") (simp_all add: mod_mult2_eq)

lemma fixed_snoc: "fixed b (Suc n) x = fixed b n (x div b) @ [x mod b]" if "x < b ^ Suc n"
  using that
proof (induction n arbitrary: x)
  case (Suc n)
  have b: "0 < b" using Suc.prems by (cases b) simp_all
  have "fixed b (Suc (Suc n)) x = (x div b ^ Suc n) # fixed b (Suc n) (x mod b ^ Suc n)" by simp
  also have "fixed b (Suc n) (x mod b ^ Suc n) =
      fixed b n (x mod b ^ Suc n div b) @ [x mod b ^ Suc n mod b]"
    by (rule Suc.IH) (use b in simp)
  also have "x mod b ^ Suc n div b = x div b mod b ^ n" by (simp add: div_mod_swap)
  also have "x mod b ^ Suc n mod b = x mod b" by (simp add: mod_mod_cancel)
  also have "x div b ^ Suc n = x div b div b ^ n" by (simp add: div_mult2_eq)
  finally show ?case by simp
qed simp

lemma nd_fixed:
  assumes "2 \<le> b" and "x < b ^ Suc n" and "n = 0 \<or> b ^ n \<le> x"
  shows "nd b x = fixed b (Suc n) x"
  using assms
proof (induction n arbitrary: x)
  case 0
  then show ?case by (simp add: nd.simps)
next
  case (Suc n)
  have le: "b ^ Suc n \<le> x" using Suc.prems by simp
  have "b \<le> b ^ Suc n" using Suc.prems(1) by simp
  then have "b \<le> x" using le by (rule le_trans)
  then have nb: "\<not> (b < 2 \<or> x < b)" using Suc.prems(1) by simp
  have "b ^ n \<le> x div b" using le Suc.prems(1) by (simp add: less_eq_div_iff_mult_less_eq mult.commute)
  moreover have "x div b < b ^ Suc n"
    using Suc.prems(1,2) by (simp add: less_mult_imp_div_less mult.commute)
  ultimately have "nd b (x div b) = fixed b (Suc n) (x div b)" using Suc by simp
  then show ?case
    using nb fixed_snoc [OF Suc.prems(2)] nd.simps [of b x] by simp
qed

fun emit :: "nat \<Rightarrow> nat \<Rightarrow> bool \<Rightarrow> u32 \<Rightarrow> nat list" where
  "emit w 0 st v = []"
| "emit w (Suc n) st v =
     (let d = unat (drop_bit (32 - w) v) in
      if st \<or> d \<noteq> 0 \<or> n = 0 then d # emit w n True (push_bit w v) else emit w n False (push_bit w v))"

lemma shift_out:
  fixes v :: u32
  assumes "w * Suc n \<le> 32"
  shows "unat (push_bit w v) div 2 ^ (32 - w * n) = unat v div 2 ^ (32 - w * Suc n) mod (2 ^ w) ^ n"
    and "unat (drop_bit (32 - w) v) = unat v div 2 ^ (32 - w * Suc n) div (2 ^ w) ^ n"
proof -
  define e where "e = 32 - w * Suc n"
  have e: "32 = e + w * n + w" "32 - w * n = e + w" "32 - w = e + w * n" "32 - w * Suc n = e"
    using assms by (simp_all add: e_def)
  have "unat (push_bit w v) = unat v * 2 ^ w mod 2 ^ 32"
    by (simp only: unsigned_push_bit_eq) (simp add: take_bit_eq_mod push_bit_eq_mult)
  also have "(2 :: nat) ^ 32 = 2 ^ (e + w * n) * 2 ^ w" unfolding e(1) by (simp only: power_add)
  finally have "unat (push_bit w v) = unat v mod 2 ^ (e + w * n) * 2 ^ w" by (simp only: mod_mult_mult2)
  then have "unat (push_bit w v) div 2 ^ (e + w) = unat v mod (2 ^ e * 2 ^ (w * n)) div 2 ^ e"
    by (simp only: power_add div_mult_mult2) (simp add: power_add)
  then show "unat (push_bit w v) div 2 ^ (32 - w * n) = unat v div 2 ^ (32 - w * Suc n) mod (2 ^ w) ^ n"
    unfolding e(2,4) div_mod_swap by (simp add: power_mult)
  have "unat (drop_bit (32 - w) v) = unat v div 2 ^ (e + w * n)"
    unfolding e(3) by (rule unat_drop)
  then show "unat (drop_bit (32 - w) v) = unat v div 2 ^ (32 - w * Suc n) div (2 ^ w) ^ n"
    unfolding e(4) by (simp add: power_add power_mult div_mult2_eq)
qed

lemma emit_fixed:
  "w * n \<le> 32 \<Longrightarrow> emit w n True v = fixed (2 ^ w) n (unat v div 2 ^ (32 - w * n))"
proof (induction n arbitrary: v)
  case (Suc n)
  have "w * n \<le> 32" using Suc.prems by simp
  then have IH: "emit w n True (push_bit w v) = fixed (2 ^ w) n (unat (push_bit w v) div 2 ^ (32 - w * n))"
    by (rule Suc.IH)
  show ?case
    unfolding emit.simps fixed.simps Let_def IH shift_out [OF Suc.prems] by simp
qed simp

lemma top_bound:
  assumes "w * n \<le> 32"
  shows "unat (v :: u32) div 2 ^ (32 - w * n) < (2 ^ w) ^ n"
proof (rule less_mult_imp_div_less)
  have "(2 ^ w) ^ n * 2 ^ (32 - w * n) = (2 :: nat) ^ 32"
    using assms by (simp add: power_mult [symmetric] power_add [symmetric])
  then show "unat v < (2 ^ w) ^ n * 2 ^ (32 - w * n)"
    using unsigned_less [of v, where ?'a = nat] by simp
qed

lemma emit_nd:
  "0 < w \<Longrightarrow> 0 < n \<Longrightarrow> w * n \<le> 32 \<Longrightarrow> emit w n False v = nd (2 ^ w) (unat v div 2 ^ (32 - w * n))"
proof (induction n arbitrary: v)
  case (Suc n)
  let ?x = "unat v div 2 ^ (32 - w * Suc n)" and ?b = "2 ^ w :: nat"
  have b: "2 \<le> ?b" using Suc.prems(1) by (cases w) simp_all
  note so = shift_out [OF Suc.prems(3), of v]
  have x: "?x < ?b ^ Suc n" by (rule top_bound [OF Suc.prems(3)])
  show ?case
  proof (cases "n = 0 \<or> ?x div ?b ^ n \<noteq> 0")
    case True
    then have "n = 0 \<or> ?b ^ n \<le> ?x" by (auto simp: div_eq_0_iff not_less)
    from nd_fixed [OF b x this] True show ?thesis
      using emit_fixed [of w "Suc n" v] Suc.prems(3) so(2) by (auto simp: Let_def)
  next
    case False
    then have "?x mod ?b ^ n = ?x" by (auto simp: div_eq_0_iff)
    then show ?thesis
      using Suc.IH [of "push_bit w v"] Suc.prems False so by (auto simp: Let_def)
  qed
qed simp

lemma hex_nibble: "drop_bit 28 (v AND 0xf0000000) AND 0xf = drop_bit 28 (v :: u32)"
  "v AND 0xf0000000 = 0 \<longleftrightarrow> drop_bit 28 (v :: u32) = 0"
proof -
  have c: "(0xf0000000 :: u32) = push_bit 28 (mask 4)" by (simp add: mask_eq_exp_minus_1 push_bit_eq_mult)
  show "v AND 0xf0000000 = 0 \<longleftrightarrow> drop_bit 28 (v :: u32) = 0" by (rule top_mask(2) [OF _ c]) simp
  have "drop_bit 28 (v AND 0xf0000000) = drop_bit 28 v" by (rule top_mask(1) [OF _ c]) simp
  moreover have "drop_bit 28 v AND mask 4 = drop_bit 28 v"
  proof -
    have "unat (drop_bit 28 v) < 2 ^ 4"
      unfolding unat_drop using unsigned_less [of v, where ?'a = nat] by simp
    then have "uint (drop_bit 28 v) < 2 ^ 4" unfolding uint_nat
      using of_nat_less_iff [of "unat (drop_bit 28 v)" "2 ^ 4", where ?'a = int] by simp
    then show ?thesis unfolding mask_eq_iff .
  qed
  moreover have "(0xf :: u32) = mask 4" by (simp add: mask_eq_exp_minus_1)
  ultimately show "drop_bit 28 (v AND 0xf0000000) AND 0xf = drop_bit 28 (v :: u32)" by (simp only:)
qed

lemma cvthex_loop_text:
  "n + unat c \<le> 8 \<Longrightarrow> cvthex_loop n c buf v m =
     (let ds = emit 4 n (c \<noteq> 0) v
      in (c + of_nat (length ds), buf + of_nat (length ds), put_bytes buf (map (\<lambda>d. hexdigits ! d) ds) m))"
proof (induction n arbitrary: c buf v m)
  case (Suc n)
  have "unat (c + 1) = unat c + 1" using Suc.prems by (simp add: unat_word_ariths)
  then have c1: "c + 1 \<noteq> 0" "n + unat (c + 1) \<le> 8" using Suc.prems by auto
  show ?case
    unfolding cvthex_loop.simps Let_def hex_nibble
    using Suc.IH [OF c1(2), of "buf + 1" "push_bit 4 v"] Suc.IH [of 0 buf "push_bit 4 v" m] Suc.prems c1(1)
    by (auto simp: Let_def unat_eq_0 algebra_simps simp del: fun_upd_apply)
qed simp

lemma cvthex_text:
  "cvthex buf v m = (of_nat (length (numeral_text 16 (unat v))), put_bytes buf (numeral_text 16 (unat v) @ [0]) m)"
proof -
  have "emit 4 8 False v = nd 16 (unat v)" using emit_nd [of 4 8 v] by simp
  then show ?thesis
    using cvthex_loop_text [of 8 0 buf v m]
    by (simp add: cvthex_def numeral_text_def put_bytes_append Let_def)
qed

lemma oct_triple: "drop_bit 29 (v AND 0xe0000000) = drop_bit 29 (v :: u32)"
proof -
  have c: "(0xe0000000 :: u32) = push_bit 29 (mask 3)" by (simp add: mask_eq_exp_minus_1 push_bit_eq_mult)
  show ?thesis by (rule top_mask(1) [OF _ c]) simp
qed

lemma hexdigits_oct: "d < 8 \<Longrightarrow> hexdigits ! d = of_nat (48 + d)"
  by (rule hexdigits_dec) simp

lemma oct_digit:
  fixes v :: u32
  shows "ucast ((drop_bit 29 v AND 7) + 48) = hexdigits ! unat (drop_bit 29 v)"
proof -
  have less: "unat (drop_bit 29 v) < 8"
    unfolding unat_drop using unsigned_less [of v, where ?'a = nat] by simp
  then have "uint (drop_bit 29 v) < 2 ^ 3"
    unfolding uint_nat using of_nat_less_iff [of "unat (drop_bit 29 v)" "2 ^ 3", where ?'a = int] by simp
  then have "drop_bit 29 v AND mask 3 = drop_bit 29 v" unfolding mask_eq_iff .
  moreover have "(7 :: u32) = mask 3" by (simp add: mask_eq_exp_minus_1)
  ultimately have "(drop_bit 29 v AND 7) + 48 = of_nat (48 + unat (drop_bit 29 v))" by (simp only:) simp
  then have "ucast ((drop_bit 29 v AND 7) + 48) = (ucast (of_nat (48 + unat (drop_bit 29 v)) :: u32) :: u8)"
    by (simp only:)
  then show ?thesis unfolding hexdigits_oct [OF less] unsigned_of_nat
    using less by (simp only: take_bit_nat_eq_self) (simp add: take_bit_nat_eq_self)
qed

lemma cvtoct_loop_text:
  "val = drop_bit 29 v \<Longrightarrow> cvtoct_loop n st buf v val m =
     (let ds = emit 3 n st v in (buf + of_nat (length ds), put_bytes buf (map (\<lambda>d. hexdigits ! d) ds) m))"
proof (induction n arbitrary: st buf v val m)
  case (Suc n)
  show ?case
    unfolding cvtoct_loop.simps Let_def oct_triple Suc.prems oct_digit
    using Suc.IH [of "drop_bit 29 (push_bit 3 v)" "push_bit 3 v"]
    by (auto simp: Let_def unat_eq_0 algebra_simps simp del: fun_upd_apply)
qed simp

section \<open>Round trips\<close>

lemma foldl_of_nat:
  "foldl (\<lambda>n d. n * of_nat b + of_nat d) (of_nat a) ds = (of_nat (foldl (\<lambda>n d. n * b + d) a ds) :: u32)"
  by (induction ds arbitrary: a) (simp_all flip: of_nat_mult of_nat_add)

lemma hexdigit_not: "d < 16 \<Longrightarrow> hexdigits ! d \<notin> {0, 45, 120, 88}"
  using less_16_cases [of d] by (auto simp: hexdigits_def)

lemma numeral_text_chars: "2 \<le> b \<Longrightarrow> b \<le> 16 \<Longrightarrow> c \<in> set (numeral_text b x) \<Longrightarrow> c \<notin> {0, 45, 120, 88}"
  using hexdigit_not nd_less [of b _ x] by (fastforce simp: numeral_text_def)

lemma numeral_text_loop:
  assumes "str_at m a (numeral_text b x)" and "b \<in> {10, 16}"
  shows "str2int_loop a (of_nat b) (if b = 10 then 57 else 70) 0 m = Some (of_nat x)"
  using str2int_loop_digits [of m a "nd b x" b 0] assms nd_less [of b] foldl_of_nat [of b 0 "nd b x"] nd_value [of b x]
  by (auto simp: numeral_text_def)

lemma str_at_first: "str_at m a xs \<Longrightarrow> xs \<noteq> [] \<Longrightarrow> m a = hd xs"
  by (cases xs) auto

lemma numeral_text_not_Nil [simp]: "numeral_text b x \<noteq> []"
  by (simp add: numeral_text_def)

lemma dec_text_str: "str_at (put_bytes buf (dec_text (sint (v :: i32)) @ [0]) m) buf (dec_text (sint v))"
proof (rule put_bytes_str)
  have "nat (- sint v) < 10 ^ 10" "nat (sint v) < 10 ^ 10" using sint_range [of v] by auto
  then have "length (numeral_text 10 (nat (- sint v))) \<le> 10" "length (numeral_text 10 (nat (sint v))) \<le> 10"
    using numeral_text_length [of 10 _ 10] by simp_all
  then show "length (dec_text (sint v)) < 2 ^ 32" by (auto simp: dec_text_def)
  show "0 \<notin> set (dec_text (sint v))"
    using numeral_text_chars [of 10 0] by (auto simp: dec_text_def)
qed

text \<open>C21. \<^verbatim>\<open>cvtdec()\<close> and \<^verbatim>\<open>str2int()\<close> are inverse: for every 32-bit signed value, the smallest one
  included, the text that \<^verbatim>\<open>cvtdec()\<close> puts into the buffer reads back in base 10 as that value.\<close>

theorem str2int_cvtdec:
  "str2int buf 10 (snd (cvtdec buf v m)) = Some v"
proof -
  let ?m = "put_bytes buf (dec_text (sint v) @ [0]) m"
  note str = dec_text_str [of buf v m]
  have "str2int buf 10 ?m = Some v"
  proof (cases "sint v < 0")
    case True
    then have s: "?m buf = 45" "str_at ?m (buf + 1) (numeral_text 10 (nat (- sint v)))"
      using str by (simp_all add: dec_text_def)
    have "of_nat (nat (- sint v)) * (- 1) = (word_of_int (sint v) :: i32)" using True by simp
    then have "of_nat (nat (- sint v)) * (- 1) = v" by (simp only: of_int_sint scast_id)
    then show ?thesis using s numeral_text_loop [OF s(2)] by (simp add: str2int_def)
  next
    case False
    then have s: "str_at ?m buf (numeral_text 10 (nat (sint v)))" using str by (simp add: dec_text_def)
    have "?m buf \<noteq> 45"
      using str_at_first [OF s] numeral_text_chars [of 10 "hd (numeral_text 10 (nat (sint v)))" "nat (sint v)"]
      by auto
    moreover have "of_nat (nat (sint v)) = (word_of_int (sint v) :: i32)" using False by simp
    then have "of_nat (nat (sint v)) = v" by (simp only: of_int_sint scast_id)
    ultimately show ?thesis using numeral_text_loop [OF s] by (simp add: str2int_def)
  qed
  then show ?thesis by (simp add: cvtdec_text)
qed

text \<open>\<^verbatim>\<open>cvthex()\<close> and \<^verbatim>\<open>str2int()\<close> are inverse in base 16, for every 32-bit value.\<close>

theorem str2int_cvthex:
  "str2int buf 16 (snd (cvthex buf v m)) = Some v"
proof -
  let ?x = "numeral_text 16 (unat v)"
  let ?m = "put_bytes buf (?x @ [0]) m"
  have "unat v < 16 ^ 8" using unsigned_less [of v, where ?'a = nat] by simp
  then have len: "length ?x < 2 ^ 32" using numeral_text_length [of 16 "unat v" 8] by simp
  have ok: "c \<notin> {0, 45, 120, 88}" if "c \<in> set ?x" for c using numeral_text_chars [of 16 c "unat v"] that by simp
  then have s: "str_at ?m buf ?x" using put_bytes_str [OF len] by blast
  obtain c cs where x: "?x = c # cs" by (cases ?x) auto
  have "?m (buf + 1) \<notin> {120, 88}"
  proof (cases cs)
    case Nil
    then show ?thesis using s x by auto
  next
    case (Cons d ds)
    then have "?m (buf + 1) = d" "d \<in> set ?x" using s x by auto
    then show ?thesis using ok by auto
  qed
  moreover have "?m buf \<noteq> 45" using s x ok [of c] by auto
  ultimately have "str2int buf 16 ?m = Some v"
    using numeral_text_loop [OF s] by (simp add: str2int_def)
  then show ?thesis by (simp add: cvthex_text)
qed

text \<open>\<^verbatim>\<open>cvtoct()\<close> does not print its argument: for every value below \<open>2 ^ 29\<close> it prints twice the value,
  because after the two top bits it shifts by three.\<close>

theorem cvtoct_prints_double:
  assumes "unat v < 2 ^ 29"
  shows "cvtoct buf v m = (of_nat (length (numeral_text 8 (2 * unat v))),
    put_bytes buf (numeral_text 8 (2 * unat v) @ [0]) m)"
proof -
  have z: "drop_bit 30 (v AND 0xc0000000) = 0"
  proof -
    have "unat (v AND 0xc0000000) \<le> unat v" by (simp add: word_le_nat_alt [symmetric] word_and_le2)
    then have "unat (drop_bit 30 (v AND 0xc0000000)) = 0" unfolding unat_drop using assms by simp
    then show ?thesis unfolding unat_eq_0 .
  qed
  have "unat (push_bit 3 v) = unat v * 8"
    unfolding unsigned_push_bit_eq using assms by (simp add: push_bit_eq_mult take_bit_nat_eq_self)
  then have ds: "emit 3 10 False (push_bit 3 v) = nd 8 (2 * unat v)" using emit_nd [of 3 10 "push_bit 3 v"] by simp
  have "cvtoct_loop (Suc 10) False buf v 0 m = cvtoct_loop 10 False buf (push_bit 3 v) (drop_bit 29 (push_bit 3 v)) m"
    unfolding cvtoct_loop.simps Let_def oct_triple by simp
  then have "cvtoct_loop 11 False buf v 0 m =
      (buf + of_nat (length (nd 8 (2 * unat v))), put_bytes buf (map (\<lambda>d. hexdigits ! d) (nd 8 (2 * unat v))) m)"
    using cvtoct_loop_text [OF refl, of 10 False buf "push_bit 3 v" m] ds by (simp add: Let_def)
  then show ?thesis
    unfolding cvtoct_def Let_def z by (simp add: numeral_text_def put_bytes_append)
qed

theorem cvtoct_prints_double_witness:
  "cvtoct 100 1 (\<lambda>_. 0) = (1, put_bytes 100 [50, 0] (\<lambda>_. 0))"
proof -
  have "numeral_text 8 2 = [50]" by (simp add: numeral_text_def nd.simps hexdigits_def)
  then show ?thesis using cvtoct_prints_double [of 1 100 "\<lambda>_. 0"] by simp
qed

end
