(* ===== verification/Sio.thy ===== *)
theory Sio
  imports Support Ring_Buffers Lib_Conv
begin

text \<open>
  The serial line module, \<^verbatim>\<open>kernel/sio.c\<close>, except for its interrupt handler, which prints on the console and
  follows after the console module. The two buffers are static arrays; a pointer into one of them is an
  index, and an access outside the array is undefined behaviour. Functions that only read a caller's
  array take the memory that holds it, because the array may be a local variable of the caller.
\<close>

section \<open>State\<close>

record sio_st = sup_st +
  inbuffer :: "u8 list"
  inlast :: nat
  innext :: nat
  incount :: u32
  outbuffer :: "u8 list"
  outlast :: nat
  outnext :: nat
  outcount :: u32
  sending :: bool
  ier :: u8
  sio_ready :: bool

definition BUF_SIZE :: nat where "BUF_SIZE = 1024"
definition UA4_TXD :: u16 where "UA4_TXD = 0x3f8"
definition UA4_RXD :: u16 where "UA4_RXD = 0x3f8"
definition UA4_IER :: u16 where "UA4_IER = 0x3f9"
definition UA4_IIR :: u16 where "UA4_IIR = 0x3fa"
definition UA4_LSR :: u16 where "UA4_LSR = 0x3fd"
definition UA4_MSR :: u16 where "UA4_MSR = 0x3fe"
definition UA4_IER_TX_IE :: u8 where "UA4_IER_TX_IE = 0x02"
definition UA4_IER_RX_IE :: u8 where "UA4_IER_RX_IE = 0x01"
definition SIO_TX :: u8 where "SIO_TX = 0x01"
definition SIO_RX :: u8 where "SIO_RX = 0x02"

definition i32_of_char :: "u8 \<Rightarrow> u32" where
  "i32_of_char c = scast c"

section \<open>Initialization\<close>

fun outbs :: "(u16 \<times> u8) list \<Rightarrow> 'z machine_scheme \<Rightarrow> 'z machine_scheme" where
  "outbs [] s = s"
| "outbs ((p, v) # xs) s = outbs xs (outb p v s)"

definition sio_init :: "'z sio_st_scheme \<Rightarrow> kerr + 'z sio_st_scheme" where
  "sio_init s =
     (let s = s\<lparr>inbuffer := replicate BUF_SIZE 0, inlast := 0, innext := 0, incount := 0\<rparr>;
          s = s\<lparr>outbuffer := replicate BUF_SIZE 0, outlast := 0, outnext := 0, outcount := 0, sending := False\<rparr>;
          s = outbs [(0x3fa, 0x20), (0x3fa, 0x00), (0x3fa, 0x01), (0x3fa, 0x01 OR 0x02), (0x3fa, 0x01 OR 0x02 OR 0x04)] s;
          s = outb UA4_IER 0 s;
          s = s\<lparr>ier := 0\<rparr>;
          s = outbs [(0x3fb, 0x80), (0x3f8, 12), (0x3f9, 0), (0x3fb, 0x03 OR 0x00 OR 0x00),
                     (0x3fc, 0x08 OR 0x01 OR 0x02)] s
      in kbind (set_isr VEC_COM1 H_sio s) (\<lambda>s. Inr (s\<lparr>sio_ready := True\<rparr>)))"

section \<open>Interrupt enables\<close>

definition sio_enable :: "u8 \<Rightarrow> 'z sio_st_scheme \<Rightarrow> u8 \<times> 'z sio_st_scheme" where
  "sio_enable which s =
     (let old = ier s;
          s = (if which AND SIO_TX \<noteq> 0 then s\<lparr>ier := ier s OR UA4_IER_TX_IE\<rparr> else s);
          s = (if which AND SIO_RX \<noteq> 0 then s\<lparr>ier := ier s OR UA4_IER_RX_IE\<rparr> else s);
          s = (if old \<noteq> ier s then outb UA4_IER (ier s) s else s)
      in (old, s))"

definition sio_disable :: "u8 \<Rightarrow> 'z sio_st_scheme \<Rightarrow> u8 \<times> 'z sio_st_scheme" where
  "sio_disable which s =
     (let old = ier s;
          s = (if which AND SIO_TX \<noteq> 0 then s\<lparr>ier := ier s AND NOT UA4_IER_TX_IE\<rparr> else s);
          s = (if which AND SIO_RX \<noteq> 0 then s\<lparr>ier := ier s AND NOT UA4_IER_RX_IE\<rparr> else s);
          s = (if old \<noteq> ier s then outb UA4_IER (ier s) s else s)
      in (old, s))"

text \<open>The loop of \<^verbatim>\<open>sio_flush()\<close> that discards what the receiver holds, over the answers of the device.\<close>

fun flush_rx :: "u8 list \<Rightarrow> kerr + u8 list" where
  "flush_rx [] = Inl NoInput"
| "flush_rx [lsr] = (if lsr AND 0x01 \<noteq> 0 then Inl NoInput else Inr [])"
| "flush_rx (lsr # rxd # xs) = (if lsr AND 0x01 \<noteq> 0 then flush_rx xs else Inr (rxd # xs))"

definition sio_flush :: "u8 \<Rightarrow> 'z sio_st_scheme \<Rightarrow> kerr + 'z sio_st_scheme" where
  "sio_flush which s =
     kbind (if which AND SIO_RX \<noteq> 0 then
              let s = s\<lparr>incount := 0, inlast := 0, innext := 0\<rparr> in
              kbind (flush_rx (io_in s)) (\<lambda>xs. Inr (s\<lparr>io_in := xs\<rparr>))
            else Inr s) (\<lambda>s.
       Inr (if which AND SIO_TX \<noteq> 0
            then s\<lparr>outcount := 0, outlast := 0, outnext := 0, sending := False\<rparr> else s))"

section \<open>Input\<close>

definition sio_inq_length :: "'z sio_st_scheme \<Rightarrow> int" where
  "sio_inq_length s = sint (incount s)"

text \<open>Reading \<^verbatim>\<open>*innext\<close>.\<close>

definition in_char :: "'z sio_st_scheme \<Rightarrow> kerr + u8" where
  "in_char s = (if innext s < BUF_SIZE then Inr (inbuffer s ! innext s) else Inl Undef)"

definition sio_readc :: "'z sio_st_scheme \<Rightarrow> kerr + int \<times> 'z sio_st_scheme" where
  "sio_readc s =
     (if incount s > 0 then
        kbind (in_char s) (\<lambda>c.
          let s = s\<lparr>innext := Suc (innext s), incount := incount s - 1\<rparr>;
              s = (if incount s < 1 then s\<lparr>inlast := 0, innext := 0\<rparr> else s)
          in Inr (int (unat c), s))
      else Inr (-1, s))"

fun sio_read_loop :: "nat \<Rightarrow> u32 \<Rightarrow> int \<Rightarrow> 'z sio_st_scheme \<Rightarrow> kerr + int \<times> 'z sio_st_scheme" where
  "sio_read_loop 0 ptr copied s = Inr (copied, s)"
| "sio_read_loop (Suc n) ptr copied s =
     (if incount s > 0 then
        kbind (in_char s) (\<lambda>c.
          let s = s\<lparr>mem := (mem s)(ptr := c), innext := Suc (innext s)\<rparr>;
              s = (if innext s > BUF_SIZE then s\<lparr>innext := 0\<rparr> else s);
              s = s\<lparr>incount := incount s - 1\<rparr>
          in sio_read_loop n (ptr + 1) (copied + 1) s)
      else Inr (copied, s))"

text \<open>The recursion of the loop is on \<^verbatim>\<open>length - copied\<close>.\<close>

definition sio_read :: "u32 \<Rightarrow> int \<Rightarrow> 'z sio_st_scheme \<Rightarrow> kerr + int \<times> 'z sio_st_scheme" where
  "sio_read buf len s =
     (if incount s < 1 then Inr (0, s)
      else
        kbind (sio_read_loop (nat len) buf 0 s) (\<lambda>(copied, s).
          let s = (if incount s < 1 then s\<lparr>inlast := 0, innext := 0\<rparr> else s)
          in Inr (copied, s)))"

text \<open>The branch of \<^verbatim>\<open>sio_isr()\<close> that keeps a character for which no process waits.\<close>

definition sio_rx_store :: "u8 \<Rightarrow> 'z sio_st_scheme \<Rightarrow> kerr + 'z sio_st_scheme" where
  "sio_rx_store c s =
     (if incount s < of_nat BUF_SIZE then
        if inlast s < BUF_SIZE
        then Inr (s\<lparr>inbuffer := (inbuffer s)[inlast s := c], inlast := Suc (inlast s), incount := incount s + 1\<rparr>)
        else Inl Undef
      else Inr s)"

section \<open>Output\<close>

text \<open>\<^verbatim>\<open>*outlast++ = ch; ++outcount;\<close>\<close>

definition out_store :: "u8 \<Rightarrow> 'z sio_st_scheme \<Rightarrow> kerr + 'z sio_st_scheme" where
  "out_store c s =
     (if outlast s < BUF_SIZE
      then Inr (s\<lparr>outbuffer := (outbuffer s)[outlast s := c], outlast := Suc (outlast s), outcount := outcount s + 1\<rparr>)
      else Inl Undef)"

text \<open>\<^verbatim>\<open>sio_writec()\<close> after the mapping of line feeds.\<close>

definition sio_emit :: "u32 \<Rightarrow> 'z sio_st_scheme \<Rightarrow> kerr + 'z sio_st_scheme" where
  "sio_emit ch s =
     (if sending s then out_store (ucast ch) s
      else
        let s = s\<lparr>sending := True\<rparr>;
            s = outb UA4_TXD (ucast ch) s
        in Inr (snd (sio_enable SIO_TX s)))"

definition sio_writec :: "u32 \<Rightarrow> 'z sio_st_scheme \<Rightarrow> kerr + 'z sio_st_scheme" where
  "sio_writec ch s = kbind (if ch = 10 then sio_emit 13 s else Inr s) (sio_emit ch)"

text \<open>One round of the copying loop of \<^verbatim>\<open>sio_write()\<close>.\<close>

definition sio_put :: "u8 \<Rightarrow> 'z sio_st_scheme \<Rightarrow> kerr + 'z sio_st_scheme" where
  "sio_put c s =
     kbind (out_store c s) (\<lambda>s. Inr (if outlast s \<ge> BUF_SIZE then s\<lparr>outlast := 0\<rparr> else s))"

fun sio_write_loop :: "nat \<Rightarrow> memory \<Rightarrow> u32 \<Rightarrow> int \<Rightarrow> 'z sio_st_scheme \<Rightarrow> kerr + int \<times> 'z sio_st_scheme" where
  "sio_write_loop 0 m ptr copied s = Inr (copied, s)"
| "sio_write_loop (Suc n) m ptr copied s =
     (if outcount s < of_nat BUF_SIZE
      then kbind (sio_put (m ptr) s) (sio_write_loop n m (ptr + 1) (copied + 1))
      else Inr (copied, s))"

definition sio_write :: "memory \<Rightarrow> u32 \<Rightarrow> int \<Rightarrow> 'z sio_st_scheme \<Rightarrow> kerr + int \<times> 'z sio_st_scheme" where
  "sio_write m buffer len s =
     (let first = i32_of_char (m buffer);
          (ptr, copied) = (if \<not> sending s then (buffer + 1, 1) else (buffer, 0))
      in
        kbind (sio_write_loop (nat (len - copied)) m ptr copied s) (\<lambda>(copied, s).
        kbind (if \<not> sending s then sio_writec first s else Inr s) (\<lambda>s. Inr (copied, s))))"

definition sio_puts :: "memory \<Rightarrow> u32 \<Rightarrow> 'z sio_st_scheme \<Rightarrow> kerr + int \<times> 'z sio_st_scheme" where
  "sio_puts m buffer s =
     (case strlen buffer m of
        None \<Rightarrow> Inl Diverge
      | Some n \<Rightarrow> kbind (sio_write m buffer (sint n) s) (\<lambda>(_, s). Inr (sint n, s)))"

definition sio_putchar :: "u32 \<Rightarrow> 'z sio_st_scheme \<Rightarrow> kerr + 'z sio_st_scheme" where
  "sio_putchar ch s =
     (let buf = put_bytes 0 [120, 0] (\<lambda>_. 0);
          buf = buf(0 := ucast ch)
      in kbind (sio_write buf 0 1 s) (\<lambda>(_, s). Inr s))"

text \<open>The branch of \<^verbatim>\<open>sio_isr()\<close> that sends the next character of the buffer, and the whole reaction to a
  transmitter event.\<close>

definition sio_send :: "'z sio_st_scheme \<Rightarrow> kerr + u8 \<times> 'z sio_st_scheme" where
  "sio_send s =
     (if outnext s < BUF_SIZE then
        let c = outbuffer s ! outnext s;
            s = outb UA4_TXD c s;
            s = s\<lparr>outnext := Suc (outnext s)\<rparr>;
            s = (if outnext s \<ge> BUF_SIZE then s\<lparr>outnext := 0\<rparr> else s)
        in Inr (c, s\<lparr>outcount := outcount s - 1\<rparr>)
      else Inl Undef)"

definition sio_tx :: "'z sio_st_scheme \<Rightarrow> kerr + 'z sio_st_scheme" where
  "sio_tx s =
     (if sending s \<and> outcount s > 0 then kbind (sio_send s) (\<lambda>(_, s). Inr s)
      else
        let s = s\<lparr>outcount := 0, outlast := 0, outnext := 0, sending := False\<rparr>
        in Inr (snd (sio_disable SIO_TX s)))"

section \<open>The output buffer as a ring\<close>

definition out_used :: "'z sio_st_scheme \<Rightarrow> nat" where
  "out_used s = unat (outcount s)"

definition out_ok :: "'z sio_st_scheme \<Rightarrow> bool" where
  "out_ok s \<longleftrightarrow> length (outbuffer s) = BUF_SIZE \<and> outnext s < BUF_SIZE \<and> out_used s \<le> BUF_SIZE \<and>
     outlast s = (outnext s + out_used s) mod BUF_SIZE"

text \<open>The characters that wait to be transmitted.\<close>

definition out_queue :: "'z sio_st_scheme \<Rightarrow> u8 list" where
  "out_queue s = ring_seq (outbuffer s) (outnext s) (out_used s)"

lemma out_okD:
  assumes "out_ok s"
  shows "length (outbuffer s) = 1024" and "outnext s < 1024" and "out_used s \<le> 1024"
    and "outlast s = (outnext s + out_used s) mod 1024"
  using assms by (simp_all add: out_ok_def BUF_SIZE_def)

lemma out_used_Suc:
  assumes "out_used s < 1024"
  shows "unat (outcount s + 1) = Suc (out_used s)"
  using assms by (simp add: out_used_def unat_word_ariths)

lemma outcount_less: "outcount s < of_nat BUF_SIZE \<longleftrightarrow> out_used s < BUF_SIZE"
  by (simp add: word_less_nat_alt out_used_def BUF_SIZE_def)

lemma sio_put_ok:
  assumes "out_ok s" and "out_used s < BUF_SIZE"
  shows "\<exists>s'. sio_put c s = Inr s' \<and> out_ok s' \<and> outnext s' = outnext s \<and> out_used s' = Suc (out_used s) \<and>
    outbuffer s' = (outbuffer s)[(outnext s + out_used s) mod length (outbuffer s) := c] \<and>
    sending s' = sending s \<and> io_out s' = io_out s \<and> sup_st.truncate s' = sup_st.truncate s"
proof -
  note ok = out_okD [OF assms(1)]
  have n: "outlast s < 1024" using ok(4) by simp
  have u: "unat (outcount s + 1) = Suc (out_used s)" using assms(2) by (intro out_used_Suc) (simp add: BUF_SIZE_def)
  have w: "(if Suc (outlast s) \<ge> 1024 then 0 else Suc (outlast s)) = (outnext s + Suc (out_used s)) mod 1024"
    unfolding ok(4) using mod_Suc [of "outnext s + out_used s" 1024]
      mod_less_divisor [of 1024 "outnext s + out_used s"] by (auto simp del: mod_less_divisor)
  let ?s = "s\<lparr>outbuffer := (outbuffer s)[outlast s := c], outlast := Suc (outlast s), outcount := outcount s + 1\<rparr>"
  let ?t = "if outlast ?s \<ge> BUF_SIZE then ?s\<lparr>outlast := 0\<rparr> else ?s"
  have "sio_put c s = Inr ?t" using n by (simp add: sio_put_def out_store_def BUF_SIZE_def)
  moreover have "outlast ?t = (outnext s + Suc (out_used s)) mod 1024"
    unfolding w [symmetric] by (simp add: BUF_SIZE_def)
  ultimately show ?thesis
    using ok u assms(2)
    by (intro exI [of _ ?t]) (auto simp add: out_ok_def out_used_def BUF_SIZE_def sup_st.defs)
qed

lemma sio_send_ok:
  assumes "out_ok s" and "0 < out_used s"
  shows "\<exists>s'. sio_send s = Inr (outbuffer s ! (outnext s mod length (outbuffer s)), s') \<and> out_ok s' \<and>
    outnext s' = Suc (outnext s) mod length (outbuffer s) \<and> out_used s' = out_used s - 1 \<and> outbuffer s' = outbuffer s \<and>
    sending s' = sending s \<and> io_out s' = io_out s @ [(UA4_TXD, outbuffer s ! outnext s)]"
proof -
  note ok = out_okD [OF assms(1)]
  have u: "unat (outcount s - 1) = out_used s - 1"
    using assms(2) by (simp add: out_used_def unat_sub_if' word_le_nat_alt unat_eq_0)
  have w: "(if Suc (outnext s) \<ge> 1024 then 0 else Suc (outnext s)) = Suc (outnext s) mod 1024"
    using ok(2) by (simp add: mod_Suc)
  have l: "(Suc (outnext s) mod 1024 + (out_used s - 1)) mod 1024 = (outnext s + out_used s) mod 1024"
    using assms(2) by (cases "out_used s") (simp_all add: mod_add_left_eq)
  let ?s = "(outb UA4_TXD (outbuffer s ! outnext s) s)\<lparr>outnext := Suc (outnext s)\<rparr>"
  let ?t = "(if outnext ?s \<ge> BUF_SIZE then ?s\<lparr>outnext := 0\<rparr> else ?s)\<lparr>outcount := outcount s - 1\<rparr>"
  have "sio_send s = Inr (outbuffer s ! outnext s, ?t)"
    using ok(2) by (simp add: sio_send_def BUF_SIZE_def Let_def outb_def)
  moreover have "outnext ?t = Suc (outnext s) mod 1024" unfolding w [symmetric] by (simp add: BUF_SIZE_def)
  ultimately show ?thesis
    using ok u l by (intro exI [of _ ?t]) (auto simp add: out_ok_def out_used_def BUF_SIZE_def outb_def)
qed

interpretation so: ring_buffer outbuffer outnext out_used BUF_SIZE out_ok sio_put sio_send
proof
  fix s :: "'a sio_st_scheme" and c
  show "out_ok s \<Longrightarrow> BUF_SIZE \<le> length (outbuffer s)" "out_ok s \<Longrightarrow> out_used s \<le> BUF_SIZE"
    by (simp_all add: out_ok_def)
  show "out_ok s \<Longrightarrow> out_used s < BUF_SIZE \<Longrightarrow> \<exists>s'. sio_put c s = Inr s' \<and> out_ok s' \<and> outnext s' = outnext s \<and>
    out_used s' = Suc (out_used s) \<and> outbuffer s' = (outbuffer s)[(outnext s + out_used s) mod length (outbuffer s) := c]"
    using sio_put_ok by blast
  show "out_ok s \<Longrightarrow> 0 < out_used s \<Longrightarrow> \<exists>s'. sio_send s = Inr (outbuffer s ! (outnext s mod length (outbuffer s)), s') \<and> out_ok s' \<and>
    outnext s' = Suc (outnext s) mod length (outbuffer s) \<and> out_used s' = out_used s - 1 \<and> outbuffer s' = outbuffer s"
    using sio_send_ok by blast
qed

section \<open>Transmission\<close>

text \<open>The bytes written to the transmitter so far; the \<open>n\<close> bytes of memory from an address on; and \<open>n\<close>
  transmitter events in a row.\<close>

definition sent :: "'z sio_st_scheme \<Rightarrow> u8 list" where
  "sent s = map snd (filter (\<lambda>pv. fst pv = UA4_TXD) (io_out s))"

fun bytes :: "memory \<Rightarrow> u32 \<Rightarrow> nat \<Rightarrow> u8 list" where
  "bytes m a 0 = []"
| "bytes m a (Suc n) = m a # bytes m (a + 1) n"

fun tx_events :: "nat \<Rightarrow> 'z sio_st_scheme \<Rightarrow> kerr + 'z sio_st_scheme" where
  "tx_events 0 s = Inr s"
| "tx_events (Suc n) s = kbind (sio_tx s) (tx_events n)"

lemma out_queue_put:
  assumes "out_ok s" and "out_used s < BUF_SIZE"
  shows "\<exists>s'. sio_put c s = Inr s' \<and> out_ok s' \<and> out_queue s' = out_queue s @ [c] \<and> out_used s' = Suc (out_used s) \<and>
    sending s' = sending s \<and> sent s' = sent s"
  using so.put_contents [OF assms, of c] sio_put_ok [OF assms, of c] by (auto simp: out_queue_def sent_def)

lemma sio_write_loop_run:
  assumes "out_ok s" and "k = min n (BUF_SIZE - out_used s)"
  shows "\<exists>s'. sio_write_loop n m p c s = Inr (c + int k, s') \<and> out_ok s' \<and> out_queue s' = out_queue s @ bytes m p k \<and>
    sending s' = sending s \<and> sent s' = sent s"
  using assms
proof (induction n arbitrary: p c s k)
  case (Suc n)
  show ?case
  proof (cases "out_used s < BUF_SIZE")
    case True
    from out_queue_put [OF Suc.prems(1) True, of "m p"]
    obtain t where t: "sio_put (m p) s = Inr t" "out_ok t" "out_queue t = out_queue s @ [m p]"
      "out_used t = Suc (out_used s)" "sending t = sending s" "sent t = sent s" by blast
    define j where "j = min n (BUF_SIZE - out_used t)"
    have "k = Suc j" using True by (simp add: Suc.prems(2) j_def t(4))
    with Suc.IH [OF t(2) j_def, of "p + 1" "c + 1"] t True show ?thesis by (auto simp: outcount_less)
  next
    case False
    then show ?thesis using Suc.prems by (simp add: outcount_less)
  qed
qed simp

lemma ports_differ [simp]: "UA4_IER \<noteq> UA4_TXD"
  by (simp add: UA4_IER_def UA4_TXD_def)

lemma sio_enable_fields [simp]:
  "sent (snd (sio_enable w s)) = sent s" "sending (snd (sio_enable w s)) = sending s"
  "out_queue (snd (sio_enable w s)) = out_queue s" "out_ok (snd (sio_enable w s)) = out_ok s"
  "out_used (snd (sio_enable w s)) = out_used s"
  by (simp_all add: sio_enable_def Let_def outb_def sent_def out_queue_def out_ok_def out_used_def)

lemma sio_emit_idle:
  assumes "\<not> sending s"
  shows "\<exists>s'. sio_emit ch s = Inr s' \<and> sending s' \<and> sent s' = sent s @ [ucast ch] \<and> out_queue s' = out_queue s \<and>
    (out_ok s \<longrightarrow> out_ok s') \<and> out_used s' = out_used s"
  using assms
  by (simp add: sio_emit_def Let_def) (simp add: outb_def sent_def out_queue_def out_ok_def out_used_def)

lemma ucast_i32_of_char [simp]: "ucast (i32_of_char c) = c"
  by (rule bit_word_eqI) (auto simp: i32_of_char_def bit_simps)

lemma i32_of_char_eq_nl: "i32_of_char c = 10 \<longleftrightarrow> c = 10"
proof
  assume "i32_of_char c = 10"
  from arg_cong [OF this, of "\<lambda>x. ucast x :: u8"] show "c = 10" by simp
qed (simp add: i32_of_char_def)

lemma sio_write_run:
  assumes "out_ok s" and "1 \<le> len" and "sending s \<or> out_queue s = [] \<and> m buf \<noteq> 10"
    and "k = min (nat len) (BUF_SIZE - out_used s + (if sending s then 0 else 1))"
  shows "\<exists>s'. sio_write m buf len s = Inr (int k, s') \<and> out_ok s' \<and> sending s' \<and>
    sent s' @ out_queue s' = sent s @ out_queue s @ bytes m buf k"
proof (cases "sending s")
  case True
  then show ?thesis
    using sio_write_loop_run [OF assms(1), of k "nat len" m buf 0] assms(4) by (auto simp: sio_write_def)
next
  case False
  then have q: "out_queue s = []" "m buf \<noteq> 10" using assms(3) by auto
  have used: "out_used s = 0" using q(1) length_ring_seq [of "outbuffer s" "outnext s" "out_used s"] by (simp add: out_queue_def)
  define j where "j = min (nat (len - 1)) (BUF_SIZE - out_used s)"
  have k: "k = Suc j" using assms(2,4) False by (auto simp: j_def used nat_diff_distrib')
  from sio_write_loop_run [OF assms(1) j_def, of m "buf + 1" 1]
  obtain t where t: "sio_write_loop (nat (len - 1)) m (buf + 1) 1 s = Inr (1 + int j, t)" "out_ok t"
    "out_queue t = bytes m (buf + 1) j" "\<not> sending t" "sent t = sent s" using q False by auto
  from sio_emit_idle [OF t(4), of "i32_of_char (m buf)"] t q False k show ?thesis
    by (auto simp: sio_write_def sio_writec_def i32_of_char_eq_nl)
qed

lemma tx_events_run:
  assumes "out_ok s" and "sending s" and "n = out_used s"
  shows "\<exists>s'. tx_events n s = Inr s' \<and> out_ok s' \<and> out_queue s' = [] \<and> sent s' = sent s @ out_queue s"
  using assms
proof (induction n arbitrary: s)
  case 0
  then show ?case by (simp add: out_queue_def)
next
  case (Suc n)
  have u: "0 < out_used s" and pos: "0 < outcount s" using Suc.prems(3)
    by (auto simp: out_used_def word_less_nat_alt)
  obtain t where t: "sio_send s = Inr (outbuffer s ! (outnext s mod length (outbuffer s)), t)" "out_ok t"
    "outnext t = Suc (outnext s) mod length (outbuffer s)" "out_used t = out_used s - 1" "outbuffer t = outbuffer s"
    "sending t = sending s" "io_out t = io_out s @ [(UA4_TXD, outbuffer s ! outnext s)]"
    using sio_send_ok [OF Suc.prems(1) u] by blast
  have "out_queue s = outbuffer s ! outnext s # out_queue t"
    using ring_seq_take [of "outbuffer s" "outnext s" n] Suc.prems(1) t(3-5)
    by (simp add: out_queue_def out_ok_def Suc.prems(3) [symmetric])
  moreover have "sent t = sent s @ [outbuffer s ! outnext s]" by (simp add: sent_def t(7))
  moreover have "sio_tx s = Inr t" using pos Suc.prems(2) t(1) by (simp add: sio_tx_def)
  moreover have "n = out_used t" using Suc.prems(3) t(4) by simp
  ultimately show ?case using Suc.IH [OF t(2)] Suc.prems(2) t(6) by auto
qed

definition boot_sio :: sio_st where
  "boot_sio = sup_st.extend boot_sup
     (sio_st.fields (replicate 1024 0) 0 0 0 (replicate 1024 0) 0 0 0 False 0 True)"

lemma boot_sio_fields [simp]:
  "outbuffer boot_sio = replicate 1024 0" "outnext boot_sio = 0" "outlast boot_sio = 0" "outcount boot_sio = 0"
  "\<not> sending boot_sio" "inbuffer boot_sio = replicate 1024 0" "innext boot_sio = 0" "inlast boot_sio = 0"
  "incount boot_sio = 0" "io_out boot_sio = []"
  by (simp_all add: boot_sio_def boot_sup_def boot_proc_def boot_stk_def boot_que_def que_st.defs stk_st.defs
      proc_st.defs sup_st.defs sio_st.defs)



text \<open>\<^verbatim>\<open>sio_write()\<close> with a length of zero on an idle line still transmits the byte that the pointer refers to
  and reports one byte written.\<close>

theorem sio_write_zero_length:
  assumes "\<not> sending s" and "m buf \<noteq> 10"
  shows "\<exists>s'. sio_write m buf 0 s = Inr (1, s') \<and> sent s' = sent s @ [m buf]"
  using sio_emit_idle [OF assms(1), of "i32_of_char (m buf)"] assms
  by (auto simp: sio_write_def sio_writec_def i32_of_char_eq_nl)

theorem sio_write_zero_length_witness:
  "\<exists>s'. sio_write (\<lambda>_. 65) 0 0 boot_sio = Inr (1, s') \<and> sent s' = [65]"
  using sio_write_zero_length [of boot_sio "\<lambda>_. 65" 0] by (simp add: sent_def)

section \<open>The input buffer\<close>

text \<open>The input buffer is not a ring: its unread characters lie between the two positions.\<close>

definition in_ok :: "'z sio_st_scheme \<Rightarrow> bool" where
  "in_ok s \<longleftrightarrow> length (inbuffer s) = BUF_SIZE \<and> inlast s = innext s + unat (incount s) \<and> inlast s \<le> BUF_SIZE"

definition in_queue :: "'z sio_st_scheme \<Rightarrow> u8 list" where
  "in_queue s = take (unat (incount s)) (drop (innext s) (inbuffer s))"

lemma length_in_queue: "in_ok s \<Longrightarrow> length (in_queue s) = unat (incount s)"
  by (auto simp add: in_ok_def in_queue_def)

lemma sio_read_loop_run:
  assumes "in_ok s" and "k = min n (unat (incount s))"
  shows "\<exists>s'. sio_read_loop n p c s = Inr (c + int k, s') \<and> in_ok s' \<and> in_queue s' = drop k (in_queue s) \<and>
    mem s' = put_bytes p (take k (in_queue s)) (mem s) \<and> sio_st.more s' = sio_st.more s"
  using assms
proof (induction n arbitrary: p c s k)
  case (Suc n)
  show ?case
  proof (cases "unat (incount s) = 0")
    case True
    then show ?thesis using Suc.prems by (simp add: unat_eq_0)
  next
    case False
    then have pos: "0 < incount s" by (simp add: word_less_nat_alt)
    note ok = Suc.prems(1) [unfolded in_ok_def BUF_SIZE_def]
    have nx: "innext s < 1024" using ok False by auto
    define t where "t = s\<lparr>mem := (mem s)(p := inbuffer s ! innext s), innext := Suc (innext s), incount := incount s - 1\<rparr>"
    have u: "unat (incount s - 1) = unat (incount s) - 1"
      using False by (simp add: unat_sub_if' word_le_nat_alt)
    have tok: "in_ok t" using ok u False by (auto simp: t_def in_ok_def BUF_SIZE_def)
    have q: "in_queue s = inbuffer s ! innext s # in_queue t"
    proof -
      have "drop (innext s) (inbuffer s) = inbuffer s ! innext s # drop (Suc (innext s)) (inbuffer s)"
        using nx ok by (simp add: Cons_nth_drop_Suc)
      then show ?thesis using False u by (cases "unat (incount s)") (simp_all add: in_queue_def t_def)
    qed
    have run: "sio_read_loop (Suc n) p c s = sio_read_loop n (p + 1) (c + 1) t"
      using pos nx by (simp add: in_char_def t_def BUF_SIZE_def Let_def)
    define j where "j = min n (unat (incount t))"
    have k: "k = Suc j" using False u by (simp add: Suc.prems(2) j_def t_def)
    have tm: "mem t = (mem s)(p := inbuffer s ! innext s)" "sio_st.more t = sio_st.more s" by (simp_all add: t_def)
    from Suc.IH [OF tok j_def, of "p + 1" "c + 1"] show ?thesis
      unfolding run k q tm by (auto simp del: fun_upd_apply)
  qed
qed simp

text \<open>\<^verbatim>\<open>sio_read()\<close> moves the oldest unread characters, as many as fit, into the caller's buffer in their
  order of arrival, writes nothing else, and leaves the others unread; it returns their number.\<close>

theorem sio_read_oldest:
  assumes "in_ok s" and "k = min (nat len) (length (in_queue s))"
  shows "\<exists>s'. sio_read buf len s = Inr (int k, s') \<and> in_ok s' \<and> in_queue s' = drop k (in_queue s) \<and>
    mem s' = put_bytes buf (take k (in_queue s)) (mem s)"
proof (cases "incount s < 1")
  case True
  then have "unat (incount s) = 0" by (simp add: word_less_nat_alt)
  then show ?thesis using True assms length_in_queue [OF assms(1)] by (simp add: sio_read_def)
next
  case False
  obtain t where t: "sio_read_loop (nat len) buf 0 s = Inr (int k, t)" "in_ok t" "in_queue t = drop k (in_queue s)"
    "mem t = put_bytes buf (take k (in_queue s)) (mem s)"
    using sio_read_loop_run [OF assms(1), of k "nat len" buf 0] assms(2) length_in_queue [OF assms(1)] by auto
  let ?t = "if incount t < 1 then t\<lparr>inlast := 0, innext := 0\<rparr> else t"
  have "in_ok ?t" "in_queue ?t = in_queue t" using t(2) by (auto simp: in_ok_def in_queue_def)
  then show ?thesis using t False by (intro exI [of _ ?t]) (simp add: sio_read_def)
qed

theorem sio_read_oldest_witness:
  "\<exists>s'. sio_read 0x5000 1 (boot_sio\<lparr>inbuffer := [97, 98] @ replicate 1022 0, inlast := 2, incount := 2\<rparr>) = Inr (1, s') \<and>
     in_queue s' = [98] \<and> mem s' 0x5000 = 97"
proof -
  let ?s = "boot_sio\<lparr>inbuffer := [97, 98] @ replicate 1022 0, inlast := 2, incount := 2\<rparr>"
  have ok: "in_ok ?s" by (simp add: in_ok_def BUF_SIZE_def)
  have q: "in_queue ?s = [97, 98]" by (simp add: in_queue_def)
  show ?thesis using sio_read_oldest [OF ok, of 1 1 "0x5000"] unfolding q by auto
qed

lemma sio_rx_store_room:
  fixes c :: u8
  assumes "in_ok s" and "inlast s < BUF_SIZE"
  defines "s' \<equiv> s\<lparr>inbuffer := (inbuffer s)[inlast s := c], inlast := Suc (inlast s), incount := incount s + 1\<rparr>"
  shows "sio_rx_store c s = Inr s'" and "in_ok s'" and "in_queue s' = in_queue s @ [c]" and "inlast s' = Suc (inlast s)"
proof -
  note ok = assms(1,2) [unfolded in_ok_def BUF_SIZE_def]
  have n: "unat (incount s) < 1024" using ok by auto
  then have less: "incount s < 1024" by (simp add: word_less_nat_alt)
  have u: "unat (incount s + 1) = Suc (unat (incount s))" using n by (simp add: unat_word_ariths)
  have "drop (innext s) ((inbuffer s)[inlast s := c]) = (drop (innext s) (inbuffer s))[unat (incount s) := c]"
    using ok by (simp add: drop_update_swap)
  moreover have "unat (incount s) < length (drop (innext s) (inbuffer s))" using n ok by auto
  ultimately show "in_queue s' = in_queue s @ [c]" using u by (simp add: in_queue_def s'_def take_Suc_conv_app_nth)
  show "in_ok s'" using ok u by (simp add: in_ok_def BUF_SIZE_def s'_def)
  show "sio_rx_store c s = Inr s'" using less assms(2) by (simp add: sio_rx_store_def s'_def BUF_SIZE_def)
  show "inlast s' = Suc (inlast s)" by (simp add: s'_def)
qed

text \<open>C24. A received character for which no process waits is appended to the unread ones; with 1024 unread
  characters it is dropped. When the characters at the start of the buffer have been read but the end
  of the array is reached, the handler writes past the end of the array.\<close>

theorem sio_rx_store_overrun:
  assumes "in_ok s"
  shows "if length (in_queue s) = BUF_SIZE then sio_rx_store c s = Inr s
    else if inlast s = BUF_SIZE then sio_rx_store c s = Inl Undef
    else \<exists>s'. sio_rx_store c s = Inr s' \<and> in_ok s' \<and> in_queue s' = in_queue s @ [c]"
proof (cases "inlast s < BUF_SIZE")
  case True
  have "unat (incount s) < BUF_SIZE" using True assms by (simp add: in_ok_def)
  then show ?thesis using True length_in_queue [OF assms] sio_rx_store_room(1-3) [OF assms True] by auto
next
  case False
  note ok = assms [unfolded in_ok_def BUF_SIZE_def]
  have less: "incount s < 1024 \<longleftrightarrow> unat (incount s) < 1024" by (simp add: word_less_nat_alt)
  then show ?thesis using False ok length_in_queue [OF assms] by (auto simp: sio_rx_store_def BUF_SIZE_def)
qed

theorem sio_rx_store_overrun_witness:
  "sio_rx_store 65 (boot_sio\<lparr>inlast := 1024, innext := 1, incount := 1023\<rparr>) = Inl Undef"
  using sio_rx_store_overrun [of "boot_sio\<lparr>inlast := 1024, innext := 1, incount := 1023\<rparr>" 65]
  by (simp add: in_ok_def in_queue_def BUF_SIZE_def)

end
