(* ===== verification/Lib_Sprint.thy ===== *)
theory Lib_Sprint
  imports Lib_Conv
begin

text \<open>
  Formatted output into memory, \<^verbatim>\<open>lib/sprint.c\<close>. The format is a string literal and is given by its bytes;
  \<open>ap\<close> is the list of the longwords that the caller pushed after it. The parsing of one conversion
  specification is shared with the console's \<^verbatim>\<open>do_printf()\<close>, which has the same code.
\<close>

section \<open>Conversion specifications\<close>

text \<open>The bytes of a string literal.\<close>

definition lit :: "string \<Rightarrow> u8 list" where
  "lit str = map of_char str"

text \<open>An argument of the printing functions: a longword, or a pointer to a string.\<close>

datatype parg = Num u32 | Str "u8 list"

text \<open>The width loop: \<open>ch\<close> is the current character, \<open>fmt\<close> what follows it.\<close>

fun fmt_width :: "u32 \<Rightarrow> u8 \<Rightarrow> u8 list \<Rightarrow> (u32 \<times> u8 \<times> u8 list) option" where
  "fmt_width width ch fmt =
     (if sint ch \<ge> 48 \<and> sint ch \<le> 57 then
        case fmt of [] \<Rightarrow> None | c # cs \<Rightarrow> fmt_width (width * 10 + (ucast ch - 48)) c cs
      else Some (width, ch, fmt))"

text \<open>What follows a percent sign: left adjustment, padding character, width and conversion character.
  It is \<open>None\<close> when the parser runs past the terminating NUL.\<close>

definition fmt_spec :: "u8 list \<Rightarrow> (bool \<times> u8 \<times> u32 \<times> u8 \<times> u8 list) option" where
  "fmt_spec fmt =
     (case fmt of [] \<Rightarrow> None
      | ch # fmt \<Rightarrow>
        Option.bind (if ch = 45 then case fmt of [] \<Rightarrow> None | c # cs \<Rightarrow> Some (True, c, cs) else Some (False, ch, fmt))
          (\<lambda>(leftadjust, ch, fmt).
        Option.bind (if ch = 48 then case fmt of [] \<Rightarrow> None | c # cs \<Rightarrow> Some (48, c, cs) else Some (32, ch, fmt))
          (\<lambda>(padchar, ch, fmt).
        Option.bind (fmt_width 0 ch fmt)
          (\<lambda>(width, ch, fmt). Some (leftadjust, padchar, width, ch, fmt)))))"

lemma fmt_width_length: "fmt_width w ch fmt = Some (w', ch', fmt') \<Longrightarrow> length fmt' \<le> length fmt"
proof (induction fmt arbitrary: w ch)
  case (Cons c cs)
  then show ?case by (subst (asm) fmt_width.simps) (fastforce split: if_splits)
qed (simp split: if_splits)

lemma fmt_spec_length: "fmt_spec fmt = Some (l, p, w, ch, fmt') \<Longrightarrow> length fmt' < length fmt"
  by (auto simp: fmt_spec_def split: list.splits if_splits bind_splits dest!: fmt_width_length simp del: fmt_width.simps)

text \<open>The text of a converted value: the address of the characters, their number (negative when it has to
  be counted) and the memory, in which \<open>buf\<close> is the local array. It is \<open>None\<close> for a character that is no
  conversion.\<close>

definition fmt_conv :: "u8 \<Rightarrow> u32 \<Rightarrow> u32 \<Rightarrow> memory \<Rightarrow> (u32 \<times> int \<times> memory) option" where
  "fmt_conv ch buf v m =
     (if ch = 99 then Some (buf, 1, m(buf := ucast v, buf + 1 := 0))
      else if ch = 100 then let (len, m) = cvtdec buf v m in Some (buf, sint len, m)
      else if ch = 115 then Some (v, -1, m)
      else if ch = 120 then let (len, m) = cvthex buf v m in Some (buf, sint len, m)
      else if ch = 111 then let (len, m) = cvtoct buf v m in Some (buf, sint len, m)
      else if ch = 117 then let (len, m) = cvtuns buf v m in Some (buf, sint len, m)
      else None)"

definition is_conv :: "u8 \<Rightarrow> bool" where
  "is_conv ch \<longleftrightarrow> ch \<in> {99, 100, 115, 120, 111, 117}"

section \<open>sprint\<close>

function sprint_loop :: "u32 \<Rightarrow> u8 list \<Rightarrow> u32 list \<Rightarrow> u32 \<Rightarrow> memory \<Rightarrow> kerr + u32 \<times> memory" where
  "sprint_loop buf fmt ap dst m =
     (case fmt of [] \<Rightarrow> Inl Undef
      | ch # fmt \<Rightarrow>
        if ch = 0 then Inr (dst, m)
        else if ch = 37 then
          case fmt_spec fmt of None \<Rightarrow> Inl Undef
          | Some (leftadjust, padchar, width, ch, fmt) \<Rightarrow>
            if is_conv ch then
              case ap of [] \<Rightarrow> Inl Undef
              | v # ap \<Rightarrow>
                (case fmt_conv ch buf v m of None \<Rightarrow> Inl Undef
                 | Some (str, len, m) \<Rightarrow>
                   (case padstr dst str len (sint width) leftadjust (int (unat padchar)) m of
                      None \<Rightarrow> Inl Diverge
                    | Some (dst, m) \<Rightarrow> sprint_loop buf fmt ap dst m))
            else sprint_loop buf fmt ap dst m
        else sprint_loop buf fmt ap (dst + 1) (m(dst := ch)))"
  by pat_completeness auto
termination
  by (relation "measure (\<lambda>(buf, fmt, ap, dst, m). length fmt)") (auto dest: fmt_spec_length)

declare sprint_loop.simps [simp del]

text \<open>\<open>buf\<close> is the address of the function's local array.\<close>

definition sprint :: "u32 \<Rightarrow> u32 \<Rightarrow> u8 list \<Rightarrow> u32 list \<Rightarrow> memory \<Rightarrow> kerr + memory" where
  "sprint buf dst fmt ap m =
     kbind (sprint_loop buf (fmt @ [0]) ap dst m) (\<lambda>(dst, m). Inr (m(dst := 0)))"

end
