(* ===== verification/Cio.thy ===== *)
theory Cio
  imports Sio Lib_Sprint
begin

text \<open>
  The console, \<^verbatim>\<open>kernel/cio.c\<close>, built with echoing to the serial line (\<^verbatim>\<open>CIO_DUP2_SIO\<close>) and black on white
  video. The screen is the video memory at \<^verbatim>\<open>0xB8000\<close>, part of the physical memory. Strings to print are given
  by their bytes (they are literals or other strings outside the video memory); the bytes of a user's
  buffer are read from memory one by one.
\<close>

section \<open>State\<close>

record cio_st = sio_st +
  scroll_min_x :: u32
  scroll_min_y :: u32
  scroll_max_x :: u32
  scroll_max_y :: u32
  curr_x :: u32
  curr_y :: u32
  min_x :: u32
  min_y :: u32
  max_x :: u32
  max_y :: u32
  dup_to_sio :: u8
  dup2sio_bak :: u8
  notify :: "nat option"
  input_buffer :: "u8 list"
  next_char :: nat
  next_space :: nat
  kb_shift :: nat
  ctrl_mask :: u32
  cio_ready :: bool

definition SCREEN_X_SIZE :: u32 where "SCREEN_X_SIZE = 80"
definition VGA_DEFAULT :: u16 where "VGA_DEFAULT = 0x0000 OR 0x7000"
definition BMASK5 :: u32 where "BMASK5 = 0x1f"
definition BMASK8 :: u32 where "BMASK8 = 0xff"

definition VIDEO_ADDR :: "u32 \<Rightarrow> u32 \<Rightarrow> u32" where
  "VIDEO_ADDR x y = 0xB8000 + 2 * (y * SCREEN_X_SIZE + x)"

definition ISPRINT :: "u32 \<Rightarrow> bool" where
  "ISPRINT c \<longleftrightarrow> (c \<ge> 32 \<and> c < 0x7f) \<or> c = 10 \<or> c = 9"

definition blank :: u16 where
  "blank = 32 OR VGA_DEFAULT"

section \<open>Output\<close>

definition setcursor :: "'z cio_st_scheme \<Rightarrow> 'z cio_st_scheme" where
  "setcursor s =
     (let y = (if curr_y s > scroll_max_y s then scroll_max_y s else curr_y s);
          addr = y * SCREEN_X_SIZE + curr_x s;
          s = outb 0x3d4 0x0e s;
          s = outb 0x3d5 (ucast (drop_bit 8 addr AND BMASK8)) s;
          s = outb 0x3d4 0x0f s
      in outb 0x3d5 (ucast (addr AND BMASK8)) s)"

text \<open>The echo at the end of \<^verbatim>\<open>putchar_at()\<close>; the local buffer is a memory of its own, with the local array of
  \<^verbatim>\<open>sprint()\<close> next to it.\<close>

definition dup_char :: "u32 \<Rightarrow> 'z cio_st_scheme \<Rightarrow> kerr + 'z cio_st_scheme" where
  "dup_char ch s =
     (if ISPRINT ch then sio_writec ch s
      else
        kbind (sprint 16 0 (92 # lit ''x%02x'') [ch] (\<lambda>_. 0)) (\<lambda>buf.
        kbind (sio_write buf 0 4 s) (\<lambda>(_, s). Inr s)))"

definition putchar_at :: "u32 \<Rightarrow> u32 \<Rightarrow> u32 \<Rightarrow> 'z cio_st_scheme \<Rightarrow> kerr + 'z cio_st_scheme" where
  "putchar_at x y c s =
     (if x \<le> max_x s \<and> y \<le> max_y s then
        let addr = VIDEO_ADDR x y;
            c = c AND 0xffff;
            s = s\<lparr>mem := store16 (mem s) addr (if c > BMASK8 then ucast c else ucast c OR VGA_DEFAULT)\<rparr>
        in
          if dup_to_sio s = 0 \<or> x < scroll_min_x s \<or> x > scroll_max_x s \<or>
             y < scroll_min_y s \<or> y > scroll_max_y s
          then Inr s
          else dup_char (c AND 0xff) s
      else Inr s)"

definition cio_setscroll :: "u32 \<Rightarrow> u32 \<Rightarrow> u32 \<Rightarrow> u32 \<Rightarrow> 'z cio_st_scheme \<Rightarrow> 'z cio_st_scheme" where
  "cio_setscroll s_min_x s_min_y s_max_x s_max_y s =
     (let s = s\<lparr>scroll_min_x := bound (min_x s) s_min_x (max_x s)\<rparr>;
          s = s\<lparr>scroll_min_y := bound (min_y s) s_min_y (max_y s)\<rparr>;
          s = s\<lparr>scroll_max_x := bound (scroll_min_x s) s_max_x (max_x s)\<rparr>;
          s = s\<lparr>scroll_max_y := bound (scroll_min_y s) s_max_y (max_y s)\<rparr>;
          s = s\<lparr>curr_x := scroll_min_x s, curr_y := scroll_min_y s\<rparr>
      in setcursor s)"

definition cio_moveto :: "u32 \<Rightarrow> u32 \<Rightarrow> 'z cio_st_scheme \<Rightarrow> 'z cio_st_scheme" where
  "cio_moveto x y s =
     (let s = s\<lparr>curr_x := bound (scroll_min_x s) (x + scroll_min_x s) (scroll_max_x s)\<rparr>;
          s = s\<lparr>curr_y := bound (scroll_min_y s) (y + scroll_min_y s) (scroll_max_y s)\<rparr>
      in setcursor s)"

text \<open>Writing blanks in row \<open>y\<close> from column \<open>x\<close> to \<open>limit\<close>. The column is an unsigned number, so the loop
  would not end at the largest limit.\<close>

fun blank_loop :: "nat \<Rightarrow> u32 \<Rightarrow> u32 \<Rightarrow> 'z cio_st_scheme \<Rightarrow> kerr + 'z cio_st_scheme" where
  "blank_loop 0 x y s = Inr s"
| "blank_loop (Suc n) x y s = kbind (putchar_at x y 32 s) (blank_loop n (x + 1) y)"

definition blank_to :: "u32 \<Rightarrow> u32 \<Rightarrow> u32 \<Rightarrow> 'z cio_st_scheme \<Rightarrow> kerr + 'z cio_st_scheme" where
  "blank_to limit x y s =
     (if limit = -1 then Inl Diverge
      else blank_loop (if x \<le> limit then Suc (unat (limit - x)) else 0) x y s)"

text \<open>The end of a line: erasing with the echo switched off, then the echo of the line feed.\<close>

definition end_line :: "u32 \<Rightarrow> u32 \<Rightarrow> u32 \<Rightarrow> 'z cio_st_scheme \<Rightarrow> kerr + 'z cio_st_scheme" where
  "end_line limit x y s =
     (let s = s\<lparr>dup2sio_bak := dup_to_sio s\<rparr>;
          s = s\<lparr>dup_to_sio := 0\<rparr>
      in
        kbind (blank_to limit x y s) (\<lambda>s.
          if dup_to_sio s \<noteq> 0 then sio_writec 10 s
          else Inr (s\<lparr>dup_to_sio := dup2sio_bak s\<rparr>)))"

definition cio_putchar_at :: "u32 \<Rightarrow> u32 \<Rightarrow> u32 \<Rightarrow> 'z cio_st_scheme \<Rightarrow> kerr + 'z cio_st_scheme" where
  "cio_putchar_at x y c s =
     (if c AND 0x7f = 10 then
        let limit = (if x > scroll_max_x s then max_x s
                     else if x \<ge> scroll_min_x s then scroll_max_x s
                     else scroll_min_x s - 1)
        in end_line limit x y s
      else putchar_at x y c s)"

section \<open>Clearing and scrolling\<close>

fun fill_row :: "nat \<Rightarrow> u32 \<Rightarrow> memory \<Rightarrow> memory" where
  "fill_row 0 to m = m"
| "fill_row (Suc n) to m = fill_row n (to + 2) (store16 m to blank)"

fun copy_row :: "nat \<Rightarrow> u32 \<Rightarrow> u32 \<Rightarrow> memory \<Rightarrow> memory" where
  "copy_row 0 to from m = m"
| "copy_row (Suc n) to from m = copy_row n (to + 2) (from + 2) (store16 m to (load16 m from))"

fun clear_rows :: "nat \<Rightarrow> u32 \<Rightarrow> 'z cio_st_scheme \<Rightarrow> 'z cio_st_scheme" where
  "clear_rows 0 l s = s"
| "clear_rows (Suc n) l s =
     clear_rows n (l + 1)
       (s\<lparr>mem := fill_row (unat (scroll_max_x s - scroll_min_x s + 1)) (VIDEO_ADDR (scroll_min_x s) l) (mem s)\<rparr>)"

text \<open>The number of rows from \<open>lo\<close> to \<open>hi\<close>.\<close>

definition rows :: "u32 \<Rightarrow> u32 \<Rightarrow> nat" where
  "rows lo hi = (if lo \<le> hi then Suc (unat (hi - lo)) else 0)"

definition cio_clearscroll :: "'z cio_st_scheme \<Rightarrow> 'z cio_st_scheme" where
  "cio_clearscroll s = clear_rows (rows (scroll_min_y s) (scroll_max_y s)) (scroll_min_y s) s"

definition cio_clearscreen :: "'z cio_st_scheme \<Rightarrow> 'z cio_st_scheme" where
  "cio_clearscreen s =
     (let nchars = (max_y s - min_y s + 1) * (max_x s - min_x s + 1)
      in s\<lparr>mem := fill_row (unat nchars) (VIDEO_ADDR (min_x s) (min_y s)) (mem s)\<rparr>)"

fun copy_rows :: "nat \<Rightarrow> u32 \<Rightarrow> u32 \<Rightarrow> 'z cio_st_scheme \<Rightarrow> 'z cio_st_scheme" where
  "copy_rows 0 line lines s = s"
| "copy_rows (Suc n) line lines s =
     copy_rows n (line + 1) lines
       (s\<lparr>mem := copy_row (nat (sint (scroll_max_x s - scroll_min_x s + 1)))
           (VIDEO_ADDR (scroll_min_x s) line) (VIDEO_ADDR (scroll_min_x s) (line + lines)) (mem s)\<rparr>)"

definition cio_scroll :: "u32 \<Rightarrow> 'z cio_st_scheme \<Rightarrow> 'z cio_st_scheme" where
  "cio_scroll lines s =
     (if lines > scroll_max_y s - scroll_min_y s then
        let s = cio_clearscroll s;
            s = s\<lparr>curr_x := scroll_min_x s, curr_y := scroll_min_y s\<rparr>
        in setcursor s
      else
        let n = rows (scroll_min_y s) (scroll_max_y s - lines);
            s = copy_rows n (scroll_min_y s) lines s;
            line = scroll_min_y s + of_nat n
        in clear_rows (rows line (scroll_max_y s)) line s)"

section \<open>The putchar family\<close>

definition cio_putchar :: "u32 \<Rightarrow> 'z cio_st_scheme \<Rightarrow> kerr + 'z cio_st_scheme" where
  "cio_putchar c s =
     (let s = (if curr_y s > scroll_max_y s
               then (cio_scroll (curr_y s - scroll_max_y s) s)\<lparr>curr_y := scroll_max_y s\<rparr> else s)
      in
        kbind
          (if c AND BMASK8 = 10 then
             kbind (end_line (scroll_max_x s) (curr_x s) (curr_y s) s) (\<lambda>s.
               Inr (s\<lparr>curr_x := scroll_min_x s, curr_y := curr_y s + 1\<rparr>))
           else if c AND BMASK8 = 13 then Inr (s\<lparr>curr_x := scroll_min_x s\<rparr>)
           else
             kbind (putchar_at (curr_x s) (curr_y s) c s) (\<lambda>s.
               let s = s\<lparr>curr_x := curr_x s + 1\<rparr>
               in Inr (if curr_x s > scroll_max_x s
                       then s\<lparr>curr_x := scroll_min_x s, curr_y := curr_y s + 1\<rparr> else s)))
          (\<lambda>s. Inr (setcursor s)))"

fun cio_puts_at :: "u32 \<Rightarrow> u32 \<Rightarrow> u8 list \<Rightarrow> 'z cio_st_scheme \<Rightarrow> kerr + 'z cio_st_scheme" where
  "cio_puts_at x y [] s = Inr s"
| "cio_puts_at x y (ch # str) s =
     (if x \<le> max_x s
      then kbind (cio_putchar_at x y (i32_of_char ch) s) (cio_puts_at (x + 1) y str)
      else Inr s)"

fun cio_puts :: "u8 list \<Rightarrow> 'z cio_st_scheme \<Rightarrow> kerr + 'z cio_st_scheme" where
  "cio_puts [] s = Inr s"
| "cio_puts (ch # str) s = kbind (cio_putchar (i32_of_char ch) s) (cio_puts str)"

fun cio_write_loop :: "nat \<Rightarrow> u32 \<Rightarrow> 'z cio_st_scheme \<Rightarrow> kerr + 'z cio_st_scheme" where
  "cio_write_loop 0 buf s = Inr s"
| "cio_write_loop (Suc n) buf s = kbind (cio_putchar (i32_of_char (mem s buf)) s) (cio_write_loop n (buf + 1))"

definition cio_write :: "u32 \<Rightarrow> int \<Rightarrow> 'z cio_st_scheme \<Rightarrow> kerr + 'z cio_st_scheme" where
  "cio_write buf len s = cio_write_loop (nat len) buf s"

section \<open>Formatted output\<close>

fun mypad_loop :: "nat \<Rightarrow> u32 \<Rightarrow> u32 \<Rightarrow> u32 \<Rightarrow> 'z cio_st_scheme \<Rightarrow> kerr + u32 \<times> 'z cio_st_scheme" where
  "mypad_loop 0 x y padchar s = Inr (x, s)"
| "mypad_loop (Suc n) x y padchar s =
     (if x \<noteq> -1 \<or> y \<noteq> -1
      then kbind (cio_putchar_at x y padchar s) (mypad_loop n (x + 1) y padchar)
      else kbind (cio_putchar padchar s) (mypad_loop n x y padchar))"

definition mypad :: "u32 \<Rightarrow> u32 \<Rightarrow> int \<Rightarrow> u32 \<Rightarrow> 'z cio_st_scheme \<Rightarrow> kerr + u32 \<times> 'z cio_st_scheme" where
  "mypad x y extra padchar s = mypad_loop (nat extra) x y padchar s"

definition mypadstr ::
    "u32 \<Rightarrow> u32 \<Rightarrow> u8 list \<Rightarrow> int \<Rightarrow> int \<Rightarrow> bool \<Rightarrow> u32 \<Rightarrow> 'z cio_st_scheme \<Rightarrow> kerr + u32 \<times> 'z cio_st_scheme" where
  "mypadstr x y str len width leftadjust padchar s =
     (let len = (if len < 0 then int (length str) else len);
          extra = width - len
      in
        kbind (if extra > 0 \<and> \<not> leftadjust then mypad x y extra padchar s else Inr (x, s)) (\<lambda>(x, s).
        kbind (if x \<noteq> -1 \<or> y \<noteq> -1
               then kbind (cio_puts_at x y str s) (\<lambda>s. Inr (x + word_of_int len, s))
               else kbind (cio_puts str s) (\<lambda>s. Inr (x, s))) (\<lambda>(x, s).
          if extra > 0 \<and> leftadjust then mypad x y extra padchar s else Inr (x, s))))"

text \<open>At most \<open>n\<close> characters up to a NUL.\<close>

fun cstr :: "nat \<Rightarrow> memory \<Rightarrow> u32 \<Rightarrow> u8 list" where
  "cstr 0 m a = []"
| "cstr (Suc n) m a = (if m a = 0 then [] else m a # cstr n m (a + 1))"

text \<open>The text and length that \<^verbatim>\<open>do_printf()\<close> passes on for a conversion; its local array of twelve bytes is a
  memory of its own.\<close>

definition parg_text :: "u8 \<Rightarrow> parg \<Rightarrow> (u8 list \<times> int) option" where
  "parg_text ch a =
     (case a of
        Str xs \<Rightarrow> if ch = 115 then Some (xs, -1) else None
      | Num v \<Rightarrow> if ch = 115 then None
          else case fmt_conv ch 0 v (\<lambda>_. 0) of None \<Rightarrow> None | Some (str, len, m) \<Rightarrow> Some (cstr 12 m str, len))"

function do_printf_loop ::
    "u32 \<Rightarrow> u32 \<Rightarrow> u8 list \<Rightarrow> parg list \<Rightarrow> 'z cio_st_scheme \<Rightarrow> kerr + 'z cio_st_scheme" where
  "do_printf_loop x y fmt ap s =
     (case fmt of [] \<Rightarrow> Inl Undef
      | ch # fmt \<Rightarrow>
        if ch = 0 then Inr s
        else if ch = 37 then
          case fmt_spec fmt of None \<Rightarrow> Inl Undef
          | Some (leftadjust, padchar, width, ch, fmt) \<Rightarrow>
            if is_conv ch then
              case ap of [] \<Rightarrow> Inl Undef
              | a # ap \<Rightarrow>
                (case parg_text ch a of None \<Rightarrow> Inl Undef
                 | Some (str, len) \<Rightarrow>
                   kbind (mypadstr x y str len (sint width) leftadjust (ucast padchar) s) (\<lambda>(x, s).
                     do_printf_loop x y fmt ap s))
            else do_printf_loop x y fmt ap s
        else if x \<noteq> -1 \<or> y \<noteq> -1 then
          kbind (cio_putchar_at x y (i32_of_char ch) s) (\<lambda>s.
            if ch = 10 then do_printf_loop (scroll_min_x s) (y + 1) fmt ap s
            else if ch = 13 then do_printf_loop (scroll_min_x s) y fmt ap s
            else do_printf_loop (x + 1) y fmt ap s)
        else kbind (cio_putchar (i32_of_char ch) s) (do_printf_loop x y fmt ap))"
  by pat_completeness auto
termination
  by (relation "measure (\<lambda>(x, y, fmt, ap, s). length fmt)") (auto dest: fmt_spec_length)

declare do_printf_loop.simps [simp del]

definition do_printf :: "u32 \<Rightarrow> u32 \<Rightarrow> u8 list \<Rightarrow> parg list \<Rightarrow> 'z cio_st_scheme \<Rightarrow> kerr + 'z cio_st_scheme" where
  "do_printf x y fmt ap s = do_printf_loop x y (fmt @ [0]) ap s"

definition cio_printf_at :: "u32 \<Rightarrow> u32 \<Rightarrow> u8 list \<Rightarrow> parg list \<Rightarrow> 'z cio_st_scheme \<Rightarrow> kerr + 'z cio_st_scheme" where
  "cio_printf_at x y fmt ap s = do_printf x y fmt ap s"

definition cio_printf :: "u8 list \<Rightarrow> parg list \<Rightarrow> 'z cio_st_scheme \<Rightarrow> kerr + 'z cio_st_scheme" where
  "cio_printf fmt ap s = do_printf (-1) (-1) fmt ap s"

section \<open>Keyboard input\<close>

definition scan_code :: "u8 list list" where
  "scan_code = [[
     255, 27, 49, 50, 51, 52, 53, 54, 55, 56, 57, 48, 45, 61, 8, 9,
     113, 119, 101, 114, 116, 121, 117, 105, 111, 112, 91, 93, 10, 255, 97, 115,
     100, 102, 103, 104, 106, 107, 108, 59, 39, 96, 255, 92, 122, 120, 99, 118,
     98, 110, 109, 44, 46, 47, 255, 42, 255, 32, 255, 255, 255, 255, 255, 255,
     255, 255, 255, 255, 255, 255, 255, 55, 56, 57, 45, 52, 53, 54, 43, 49,
     50, 51, 48, 46, 255, 255, 255, 255, 255, 255, 255, 255, 255, 255, 255, 255,
     255, 255, 255, 255, 255, 255, 255, 255, 255, 255, 255, 255, 255, 255, 255, 255,
     255, 255, 255, 255, 255, 255, 255, 255, 255, 255, 255, 255, 255, 255, 255, 255], [
     255, 27, 33, 64, 35, 36, 37, 94, 38, 42, 40, 41, 95, 43, 8, 9,
     81, 87, 69, 82, 84, 89, 85, 73, 79, 80, 123, 125, 10, 255, 65, 83,
     68, 70, 71, 72, 74, 75, 76, 58, 34, 126, 255, 124, 90, 88, 67, 86,
     66, 78, 77, 60, 62, 63, 255, 42, 255, 32, 255, 255, 255, 255, 255, 255,
     255, 255, 255, 255, 255, 255, 255, 55, 56, 57, 45, 52, 53, 54, 43, 49,
     50, 51, 48, 46, 255, 255, 255, 255, 255, 255, 255, 255, 255, 255, 255, 255,
     255, 255, 255, 255, 255, 255, 255, 255, 255, 255, 255, 255, 255, 255, 255, 255,
     255, 255, 255, 255, 255, 255, 255, 255, 255, 255, 255, 255, 255, 255, 255, 255]]"

definition C_BUFSIZE :: nat where "C_BUFSIZE = 200"

definition increment :: "nat \<Rightarrow> nat" where
  "increment pointer = (if Suc pointer \<ge> C_BUFSIZE then 0 else Suc pointer)"

text \<open>Storing a character in the circular buffer, if there is room.\<close>

definition key_store :: "u8 \<Rightarrow> 'z cio_st_scheme \<Rightarrow> 'z cio_st_scheme" where
  "key_store c s =
     (let nxt = increment (next_space s)
      in if nxt \<noteq> next_char s
         then s\<lparr>input_buffer := (input_buffer s)[next_space s := c], next_space := nxt\<rparr>
         else s)"

text \<open>The character constant \<^verbatim>\<open>'\377'\<close> is a signed \<^verbatim>\<open>char\<close>, hence \<open>-1\<close> when it is compared with the table's
  unsigned entry.\<close>

definition input_scan_code :: "u32 \<Rightarrow> 'z cio_st_scheme \<Rightarrow> u32 \<times> 'z cio_st_scheme" where
  "input_scan_code code s =
     (let code = code AND BMASK8 in
      if code = 0x2a \<or> code = 0x36 then (-1, s\<lparr>kb_shift := 1\<rparr>)
      else if code = 0xaa \<or> code = 0xb6 then (-1, s\<lparr>kb_shift := 0\<rparr>)
      else if code = 0x1d then (-1, s\<lparr>ctrl_mask := BMASK5\<rparr>)
      else if code = 0x9d then (-1, s\<lparr>ctrl_mask := BMASK8\<rparr>)
      else if code AND 0x80 = 0 then
        let code = (ucast (scan_code ! kb_shift s ! unat code) :: u32) in
        if code \<noteq> i32_of_char 0xff then (code AND ctrl_mask s, key_store (ucast (code AND ctrl_mask s)) s)
        else (-1, s)
      else (-1, s))"

text \<open>The notification function is a function of another module; \<open>call_notify\<close> is what its calls do.\<close>

definition keyboard_isr ::
    "(nat \<Rightarrow> u32 \<Rightarrow> 'z cio_st_scheme \<Rightarrow> kerr + 'z cio_st_scheme) \<Rightarrow> 'z cio_st_scheme \<Rightarrow> kerr + 'z cio_st_scheme" where
  "keyboard_isr call_notify s =
     kbind (inb 0x60 s) (\<lambda>(data, s).
       let (val, s) = input_scan_code (ucast data) s in
       kbind (case notify s of
                Some f \<Rightarrow> if val \<noteq> -1 then call_notify f val s else Inr s
              | None \<Rightarrow> Inr s)
         (\<lambda>s. Inr (outb PIC1_CMD PIC_EOI s)))"

text \<open>Waiting for the keyboard controller to have a byte, over the answers of the device.\<close>

fun kbd_wait :: "u8 list \<Rightarrow> kerr + u8 list" where
  "kbd_wait [] = Inl NoInput"
| "kbd_wait (st # xs) = (if st AND 0x01 = 0 then kbd_wait xs else Inr xs)"

text \<open>The loop of \<^verbatim>\<open>cio_getchar()\<close>. With interrupts enabled it waits for the keyboard's handler, which cannot run
  while this code does. Every round consumes device answers, so as many rounds as there are answers
  are enough.\<close>

fun key_wait :: "nat \<Rightarrow> bool \<Rightarrow> 'z cio_st_scheme \<Rightarrow> kerr + 'z cio_st_scheme" where
  "key_wait 0 interrupts_enabled s = (if next_char s = next_space s then Inl NoInput else Inr s)"
| "key_wait (Suc n) interrupts_enabled s =
     (if next_char s = next_space s then
        if interrupts_enabled then Inl Diverge
        else
          kbind (kbd_wait (io_in s)) (\<lambda>xs.
          kbind (inb 0x60 (s\<lparr>io_in := xs\<rparr>)) (\<lambda>(data, s).
            key_wait n interrupts_enabled (snd (input_scan_code (ucast data) s))))
      else Inr s)"

text \<open>Taking the next character out of the circular buffer.\<close>

definition key_take :: "'z cio_st_scheme \<Rightarrow> kerr + u8 \<times> 'z cio_st_scheme" where
  "key_take s =
     (if next_char s < C_BUFSIZE
      then Inr (input_buffer s ! next_char s, s\<lparr>next_char := increment (next_char s)\<rparr>)
      else Inl Undef)"

definition EOT :: u8 where "EOT = 4"

definition cio_getchar :: "bool \<Rightarrow> 'z cio_st_scheme \<Rightarrow> kerr + u8 \<times> 'z cio_st_scheme" where
  "cio_getchar interrupts_enabled s =
     kbind (key_wait (length (io_in s)) interrupts_enabled s) (\<lambda>s.
     kbind (key_take s) (\<lambda>(c, s).
     kbind (if c \<noteq> EOT then cio_putchar (i32_of_char c) s else Inr s) (\<lambda>s. Inr (c, s))))"

fun cio_gets_loop :: "nat \<Rightarrow> bool \<Rightarrow> u32 \<Rightarrow> nat \<Rightarrow> 'z cio_st_scheme \<Rightarrow> kerr + u32 \<times> nat \<times> 'z cio_st_scheme" where
  "cio_gets_loop 0 ie buffer count s = Inr (buffer, count, s)"
| "cio_gets_loop (Suc n) ie buffer count s =
     kbind (cio_getchar ie s) (\<lambda>(ch, s).
       if ch = EOT then Inr (buffer, count, s)
       else
         let s = s\<lparr>mem := (mem s)(buffer := ch)\<rparr> in
         if ch = 10 then Inr (buffer + 1, count + 1, s)
         else cio_gets_loop n ie (buffer + 1) (count + 1) s)"

text \<open>The recursion is on \<^verbatim>\<open>size - 1\<close>.\<close>

definition cio_gets :: "bool \<Rightarrow> u32 \<Rightarrow> u32 \<Rightarrow> 'z cio_st_scheme \<Rightarrow> kerr + u32 \<times> 'z cio_st_scheme" where
  "cio_gets ie buffer sz s =
     kbind (cio_gets_loop (unat sz - 1) ie buffer 0 s) (\<lambda>(buffer, count, s).
       Inr (of_nat count, s\<lparr>mem := (mem s)(buffer := 0)\<rparr>))"

definition cio_input_queue :: "'z cio_st_scheme \<Rightarrow> int" where
  "cio_input_queue s =
     (let n_chars = int (next_space s) - int (next_char s)
      in if n_chars < 0 then n_chars + int C_BUFSIZE else n_chars)"

section \<open>Initialization and options\<close>

definition cio_init :: "nat option \<Rightarrow> 'z cio_st_scheme \<Rightarrow> kerr + 'z cio_st_scheme" where
  "cio_init fcn s =
     (let s = s\<lparr>min_x := 0, min_y := 0, max_x := 79, max_y := 24\<rparr>;
          s = s\<lparr>scroll_min_x := 0, scroll_min_y := 0, scroll_max_x := 79, scroll_max_y := 24\<rparr>;
          s = s\<lparr>curr_y := min_y s, curr_x := min_x s\<rparr>;
          s = setcursor s;
          s = s\<lparr>notify := fcn\<rparr>
      in
        kbind (set_isr VEC_KBD H_kbd s) (\<lambda>s.
        kbind (cio_puts (lit ''Console I/O is active'' @ [10]) (cio_clearscreen s)) (\<lambda>s.
          Inr (s\<lparr>cio_ready := True\<rparr>))))"

definition CIO_OPT_DUP :: int where "CIO_OPT_DUP = 0"

definition cio_opt_set :: "int \<Rightarrow> 'z cio_st_scheme \<Rightarrow> int \<times> 'z cio_st_scheme" where
  "cio_opt_set opt s =
     (if opt \<noteq> CIO_OPT_DUP then (-1, s)
      else let old = dup_to_sio s; s = s\<lparr>dup_to_sio := 1\<rparr> in (int (unat old), s))"

definition cio_opt_clear :: "int \<Rightarrow> 'z cio_st_scheme \<Rightarrow> int \<times> 'z cio_st_scheme" where
  "cio_opt_clear opt s =
     (if opt \<noteq> CIO_OPT_DUP then (-1, s)
      else let old = dup_to_sio s; s = s\<lparr>dup_to_sio := 0\<rparr> in (int (unat old), s))"

end
