(* ===== verification/Console.thy ===== *)
theory Console
  imports Cio
begin

text \<open>
  Correctness of the console: what printing may change, that printing returns when output is not echoed to
  the serial line, the cursor, scrolling, and the keyboard buffer.
\<close>

section \<open>Geometry and frames\<close>

definition cio_geom :: "'z cio_st_scheme \<Rightarrow> bool" where
  "cio_geom s \<longleftrightarrow> min_x s = 0 \<and> min_y s = 0 \<and> max_x s = 79 \<and> max_y s = 24 \<and>
     scroll_min_x s \<le> scroll_max_x s \<and> scroll_max_x s \<le> 79 \<and>
     scroll_min_y s \<le> scroll_max_y s \<and> scroll_max_y s \<le> 24"

definition in_video :: "u32 \<Rightarrow> bool" where
  "in_video a \<longleftrightarrow> a - 0xB8000 < 4000"

text \<open>A state without what console output may change.\<close>

definition con_erase :: "'z cio_st_scheme \<Rightarrow> 'z cio_st_scheme" where
  "con_erase s = s\<lparr>mem := (\<lambda>_. 0), io_out := [], outbuffer := [], outlast := 0, outcount := 0, sending := False,
     ier := 0, curr_x := 0, curr_y := 0, dup2sio_bak := 0\<rparr>"

definition con_frame :: "'z cio_st_scheme \<Rightarrow> 'z cio_st_scheme \<Rightarrow> bool" where
  "con_frame s s' \<longleftrightarrow> con_erase s' = con_erase s \<and> (\<forall>a. \<not> in_video a \<longrightarrow> mem s' a = mem s a)"

lemma con_erase_simps [simp]:
  "con_erase (s\<lparr>mem := m\<rparr>) = con_erase s" "con_erase (s\<lparr>io_out := xs\<rparr>) = con_erase s"
  "con_erase (s\<lparr>outbuffer := b\<rparr>) = con_erase s" "con_erase (s\<lparr>outlast := n\<rparr>) = con_erase s"
  "con_erase (s\<lparr>outcount := v\<rparr>) = con_erase s" "con_erase (s\<lparr>sending := f\<rparr>) = con_erase s"
  "con_erase (s\<lparr>ier := i\<rparr>) = con_erase s" "con_erase (s\<lparr>curr_x := v\<rparr>) = con_erase s"
  "con_erase (s\<lparr>curr_y := v\<rparr>) = con_erase s" "con_erase (s\<lparr>dup2sio_bak := d\<rparr>) = con_erase s"
  "con_erase (outb p w s) = con_erase s"
  by (simp_all add: con_erase_def outb_def)

lemma con_eraseD:
  assumes "con_erase s' = con_erase s"
  shows "scroll_min_x s' = scroll_min_x s" and "scroll_min_y s' = scroll_min_y s"
    and "scroll_max_x s' = scroll_max_x s" and "scroll_max_y s' = scroll_max_y s" and "min_x s' = min_x s"
    and "min_y s' = min_y s" and "max_x s' = max_x s" and "max_y s' = max_y s" and "dup_to_sio s' = dup_to_sio s"
    and "io_in s' = io_in s" and "input_buffer s' = input_buffer s" and "next_char s' = next_char s"
    and "next_space s' = next_space s" and "notify s' = notify s" and "cio_st.more s' = cio_st.more s"
    and "blk s' = blk s" and "free_pages s' = free_pages s" and "n_pages s' = n_pages s"
    and "km_initialized s' = km_initialized s" and "qn s' = qn s" and "free_qnodes s' = free_qnodes s"
    and "queues s' = queues s" and "queue_free s' = queue_free s" and "ptable s' = ptable s"
    and "current s' = current s" and "ready s' = ready s" and "sleeping s' = sleeping s" and "zombie s' = zombie s"
    and "blocked s' = blocked s" and "sioread s' = sioread s" and "init_pcb s' = init_pcb s"
    and "next_pid s' = next_pid s" and "free_stacks s' = free_stacks s" and "user_locs s' = user_locs s"
    and "isr_table s' = isr_table s" and "incount s' = incount s" and "innext s' = innext s" and "inlast s' = inlast s"
    and "inbuffer s' = inbuffer s"
  using assms by (cases s; cases s'; simp add: con_erase_def)+

lemma con_frame_refl [simp]: "con_frame s s"
  by (simp add: con_frame_def)

lemma con_frame_trans: "con_frame s t \<Longrightarrow> con_frame t u \<Longrightarrow> con_frame s u"
  by (auto simp: con_frame_def)

lemma con_frame_geom: "con_frame s s' \<Longrightarrow> cio_geom s' = cio_geom s"
  using con_eraseD [of s' s] by (simp add: con_frame_def cio_geom_def)

lemma con_frame_dup: "con_frame s s' \<Longrightarrow> dup_to_sio s' = dup_to_sio s"
  using con_eraseD [of s' s] by (simp add: con_frame_def)

lemma con_frame_upd [simp]:
  "con_frame s (t\<lparr>curr_x := v\<rparr>) = con_frame s t" "con_frame s (t\<lparr>curr_y := v\<rparr>) = con_frame s t"
  "con_frame s (t\<lparr>dup2sio_bak := d\<rparr>) = con_frame s t" "con_frame s (outb p b t) = con_frame s t"
  "con_frame s (t\<lparr>outbuffer := ob\<rparr>) = con_frame s t" "con_frame s (t\<lparr>outlast := n\<rparr>) = con_frame s t"
  "con_frame s (t\<lparr>outcount := c\<rparr>) = con_frame s t" "con_frame s (t\<lparr>sending := f\<rparr>) = con_frame s t"
  "con_frame s (t\<lparr>ier := i\<rparr>) = con_frame s t"
  by (simp_all add: con_frame_def outb_def)

lemma con_frame_cursor [simp]: "con_frame s (setcursor t) = con_frame s t"
  by (simp add: setcursor_def Let_def)

text \<open>What is true of an operation on the console that started in \<open>s\<close>: if it returns, it has kept the
  frame, and it returns when nothing is echoed. \<open>p\<close> selects the state in its result.\<close>

definition con_res :: "('a \<Rightarrow> 'z cio_st_scheme) \<Rightarrow> 'z cio_st_scheme \<Rightarrow> kerr + 'a \<Rightarrow> bool" where
  "con_res p s r \<longleftrightarrow> (\<forall>x. r = Inr x \<longrightarrow> con_frame s (p x)) \<and> (dup_to_sio s = 0 \<longrightarrow> (\<exists>x. r = Inr x))"

lemma con_resD: "con_res p s r \<Longrightarrow> r = Inr x \<Longrightarrow> con_frame s (p x)"
  by (simp add: con_res_def)

lemma con_res_returns: "con_res p s r \<Longrightarrow> dup_to_sio s = 0 \<Longrightarrow> \<exists>x. r = Inr x"
  by (simp add: con_res_def)

lemma con_res_Inr [simp]: "con_res p s (Inr x) = con_frame s (p x)"
  by (simp add: con_res_def)

lemma con_res_bind:
  assumes "con_res p s r" and "\<And>x. r = Inr x \<Longrightarrow> con_frame s (p x) \<Longrightarrow> con_res q (p x) (f x)"
  shows "con_res q s (kbind r f)"
proof (cases r)
  case (Inl e)
  then show ?thesis using assms(1) by (simp add: con_res_def)
next
  case (Inr x)
  then have "con_frame s (p x)" using assms(1) by (simp add: con_res_def)
  moreover have "con_res q (p x) (f x)" using assms(2) Inr calculation by blast
  ultimately show ?thesis using Inr con_frame_dup [of s "p x"] by (auto simp: con_res_def intro: con_frame_trans)
qed

lemma con_res_start: "con_res p t r \<Longrightarrow> con_frame s t \<Longrightarrow> con_res p s r"
  using con_frame_dup [of s t] by (auto simp: con_res_def intro: con_frame_trans)

section \<open>Video memory\<close>

lemma unat_VIDEO_ADDR:
  assumes "x \<le> 79" and "y \<le> 24"
  shows "unat (VIDEO_ADDR x y) = 0xB8000 + 2 * (80 * unat y + unat x)"
  using assms by (simp add: VIDEO_ADDR_def SCREEN_X_SIZE_def word_le_nat_alt unat_word_ariths)

lemma in_video_iff: "in_video a \<longleftrightarrow> 0xB8000 \<le> unat a \<and> unat a < 0xB8000 + 4000"
  using in_range32 [of "0xB8000" 4000 a] by (simp add: in_video_def)

lemma store16_video:
  assumes "0xB8000 \<le> unat a" and "unat a < 0xB8000 + 3999" and "\<not> in_video b"
  shows "store16 m a v b = m b"
proof -
  have "unat (a + 1) = unat a + 1" using assms(2) by (simp add: unat_word_ariths)
  then show ?thesis using assms by (intro store16_other) (auto simp: in_video_iff)
qed

lemma con_frame_store16:
  assumes "con_frame s t" and "0xB8000 \<le> unat a" and "unat a < 0xB8000 + 3999"
  shows "con_frame s (t\<lparr>mem := store16 (mem t) a v\<rparr>)"
  using assms store16_video [OF assms(2,3)] by (simp add: con_frame_def)

section \<open>Echo\<close>

text \<open>The echo also leaves the cursor alone.\<close>

definition echo_frame :: "'z cio_st_scheme \<Rightarrow> 'z cio_st_scheme \<Rightarrow> bool" where
  "echo_frame s s' \<longleftrightarrow> con_frame s s' \<and> curr_x s' = curr_x s \<and> curr_y s' = curr_y s"

lemma echo_frame_refl [simp]: "echo_frame s s"
  by (simp add: echo_frame_def)

lemma echo_frame_trans: "echo_frame s t \<Longrightarrow> echo_frame t u \<Longrightarrow> echo_frame s u"
  by (auto simp: echo_frame_def intro: con_frame_trans)

lemma echo_frame_upd [simp]:
  "echo_frame s (outb p b t) = echo_frame s t"
  "echo_frame s (t\<lparr>outbuffer := ob\<rparr>) = echo_frame s t" "echo_frame s (t\<lparr>outlast := n\<rparr>) = echo_frame s t"
  "echo_frame s (t\<lparr>outcount := c\<rparr>) = echo_frame s t" "echo_frame s (t\<lparr>sending := f\<rparr>) = echo_frame s t"
  "echo_frame s (t\<lparr>ier := i\<rparr>) = echo_frame s t"
  by (simp_all add: echo_frame_def outb_def) (simp add: con_frame_def)

lemma out_store_frame: "out_store c s = Inr s' \<Longrightarrow> echo_frame s s'"
  by (auto simp: out_store_def split: if_splits)

lemma sio_enable_frame: "echo_frame s (snd (sio_enable w s))"
  by (simp add: sio_enable_def Let_def)

lemma sio_emit_frame: "sio_emit c s = Inr s' \<Longrightarrow> echo_frame s s'"
proof -
  assume e: "sio_emit c s = Inr s'"
  show ?thesis
  proof (cases "sending s")
    case True
    with e show ?thesis by (auto simp: sio_emit_def dest: out_store_frame)
  next
    case False
    then have "s' = snd (sio_enable SIO_TX (outb UA4_TXD (ucast c) (s\<lparr>sending := True\<rparr>)))"
      using e by (simp add: sio_emit_def Let_def)
    then show ?thesis
      using echo_frame_trans [OF _ sio_enable_frame, of s "outb UA4_TXD (ucast c) (s\<lparr>sending := True\<rparr>)" SIO_TX] by simp
  qed
qed

lemma sio_writec_frame: "sio_writec c s = Inr s' \<Longrightarrow> echo_frame s s'"
  by (auto simp: sio_writec_def kbind_eq_Inr split: if_splits dest!: sio_emit_frame intro: echo_frame_trans)

lemma sio_put_frame: "sio_put c s = Inr s' \<Longrightarrow> echo_frame s s'"
  by (auto simp: sio_put_def kbind_eq_Inr dest!: out_store_frame)

lemma sio_write_loop_frame: "sio_write_loop n m p c s = Inr (k, s') \<Longrightarrow> echo_frame s s'"
proof (induction n arbitrary: p c s)
  case (Suc n)
  then show ?case
    by (auto simp: kbind_eq_Inr split: if_splits dest!: sio_put_frame intro: echo_frame_trans)
qed simp

lemma sio_write_frame: "sio_write m b l s = Inr (k, s') \<Longrightarrow> echo_frame s s'"
  by (auto simp: sio_write_def kbind_eq_Inr Let_def split: if_splits
      dest!: sio_write_loop_frame sio_writec_frame intro: echo_frame_trans)

lemma dup_char_frame: "dup_char c s = Inr s' \<Longrightarrow> echo_frame s s'"
  by (auto simp: dup_char_def kbind_eq_Inr split: if_splits dest!: sio_writec_frame sio_write_frame)

section \<open>Printing keeps the frame\<close>

lemma putchar_at_echo:
  assumes "cio_geom s"
  shows "(putchar_at x y c s = Inr s' \<longrightarrow> echo_frame s s') \<and> con_res (\<lambda>x. x) s (putchar_at x y c s)"
proof (cases "x \<le> max_x s \<and> y \<le> max_y s")
  case False
  then show ?thesis by (auto simp: putchar_at_def)
next
  case True
  then have xy: "x \<le> 79" "y \<le> 24" using assms by (auto simp: cio_geom_def)
  define t where "t = s\<lparr>mem := store16 (mem s) (VIDEO_ADDR x y)
      (if c AND 0xffff > BMASK8 then ucast (c AND 0xffff) else ucast (c AND 0xffff) OR VGA_DEFAULT)\<rparr>"
  have "con_frame s t"
    unfolding t_def using unat_VIDEO_ADDR [OF xy] xy
    by (intro con_frame_store16) (auto simp: word_le_nat_alt)
  then have fr: "echo_frame s t" by (simp add: echo_frame_def t_def)
  have "putchar_at x y c s = Inr t \<or> dup_to_sio s \<noteq> 0 \<and> putchar_at x y c s = dup_char ((c AND 0xffff) AND 0xff) t"
    using True by (simp add: putchar_at_def Let_def t_def)
  then show ?thesis using fr
    by (elim disjE conjE) (auto simp: con_res_def echo_frame_def [of s]
        dest!: echo_frame_trans [OF fr dup_char_frame])
qed

lemmas putchar_at_res = putchar_at_echo [THEN conjunct2]

text \<open>Without echo, printing a character is one store.\<close>

lemma putchar_at_quiet:
  assumes "cio_geom s" and "dup_to_sio s = 0"
  shows "\<exists>m. putchar_at x y c s = Inr (s\<lparr>mem := m\<rparr>) \<and> con_frame s (s\<lparr>mem := m\<rparr>)"
proof (cases "x \<le> max_x s \<and> y \<le> max_y s")
  case True
  let ?v = "if c AND 0xffff > BMASK8 then ucast (c AND 0xffff) else ucast (c AND 0xffff) OR VGA_DEFAULT"
  have run: "putchar_at x y c s = Inr (s\<lparr>mem := store16 (mem s) (VIDEO_ADDR x y) ?v\<rparr>)"
    using True assms(2) by (simp add: putchar_at_def Let_def)
  then show ?thesis using con_resD [OF putchar_at_res [OF assms(1)] run] by blast
next
  case False
  then show ?thesis by (intro exI [of _ "mem s"]) (auto simp: putchar_at_def)
qed

lemma blank_loop_quiet:
  assumes "cio_geom s" and "dup_to_sio s = 0"
  shows "\<exists>m. blank_loop n x y s = Inr (s\<lparr>mem := m\<rparr>) \<and> con_frame s (s\<lparr>mem := m\<rparr>)"
  using assms
proof (induction n arbitrary: x s)
  case 0
  show ?case by (intro exI [of _ "mem s"]) simp
next
  case (Suc n)
  obtain m where m: "putchar_at x y 32 s = Inr (s\<lparr>mem := m\<rparr>)" "con_frame s (s\<lparr>mem := m\<rparr>)"
    using putchar_at_quiet [OF Suc.prems] by blast
  have "cio_geom (s\<lparr>mem := m\<rparr>)" using con_frame_geom [OF m(2)] Suc.prems(1) by simp
  from Suc.IH [OF this, of "x + 1"] Suc.prems(2) m show ?case by (auto intro: con_frame_trans)
qed

lemma end_line_run:
  assumes "cio_geom s" and "limit \<noteq> -1"
  shows "\<exists>m. end_line limit x y s = Inr (s\<lparr>mem := m, dup2sio_bak := dup_to_sio s\<rparr>) \<and> con_frame s (s\<lparr>mem := m\<rparr>)"
proof -
  let ?s = "s\<lparr>dup2sio_bak := dup_to_sio s, dup_to_sio := 0\<rparr>"
  have g: "cio_geom ?s" using assms(1) by (simp add: cio_geom_def)
  obtain m where m: "blank_to limit x y ?s = Inr (?s\<lparr>mem := m\<rparr>)" "con_frame ?s (?s\<lparr>mem := m\<rparr>)"
    using blank_loop_quiet [OF g] assms(2) by (fastforce simp: blank_to_def)
  have "con_frame s (s\<lparr>mem := m\<rparr>)" using m(2) by (simp add: con_frame_def)
  then show ?thesis using m(1) by (intro exI [of _ m]) (simp add: end_line_def Let_def)
qed

lemma end_line_res:
  assumes "cio_geom s" and "limit \<noteq> -1"
  shows "con_res (\<lambda>x. x) s (end_line limit x y s)"
proof -
  obtain m where "end_line limit x y s = Inr (s\<lparr>mem := m, dup2sio_bak := dup_to_sio s\<rparr>)" "con_frame s (s\<lparr>mem := m\<rparr>)"
    using end_line_run [OF assms] by blast
  then show ?thesis by simp
qed

lemma cio_putchar_at_res:
  assumes "cio_geom s"
  shows "con_res (\<lambda>x. x) s (cio_putchar_at x y c s)"
proof -
  define limit where "limit = (if x > scroll_max_x s then max_x s else if x \<ge> scroll_min_x s then scroll_max_x s
    else scroll_min_x s - 1)"
  have "limit \<noteq> -1"
  proof -
    have "unat limit \<le> 79"
      using assms by (auto simp: limit_def cio_geom_def word_le_nat_alt word_less_nat_alt unat_sub_if')
    moreover have "unat (-1 :: u32) = 2 ^ 32 - 1" by (simp add: unsigned_minus_1_eq_mask mask_eq_exp_minus_1)
    ultimately show ?thesis by auto
  qed
  then show ?thesis
    using end_line_res [OF assms] putchar_at_res [OF assms] by (simp add: cio_putchar_at_def Let_def limit_def)
qed

section \<open>Scrolling\<close>

text \<open>The screen as a grid of 80 by 25 cells of character and attribute.\<close>

definition va :: "nat \<Rightarrow> u32" where
  "va i = 0xB8000 + 2 * of_nat i"

definition vcell :: "memory \<Rightarrow> nat \<Rightarrow> u16" where
  "vcell m i = load16 m (va i)"

definition screen :: "'z cio_st_scheme \<Rightarrow> nat \<Rightarrow> nat \<Rightarrow> u16" where
  "screen s x y = vcell (mem s) (80 * y + x)"

lemma va_Suc: "va i + 2 = va (Suc i)"
  by (simp add: va_def)

lemma unat_va: "i \<le> 2000 \<Longrightarrow> unat (va i) = 0xB8000 + 2 * i"
  by (simp add: va_def unat_word_ariths unat_of_nat)

lemma VIDEO_ADDR_va: "VIDEO_ADDR x y = va (80 * unat y + unat x)"
  by (simp add: VIDEO_ADDR_def va_def SCREEN_X_SIZE_def mult.commute)

lemma vcell_store:
  assumes "i < 2000" and "j < 2000"
  shows "vcell (store16 m (va i) v) j = (if i = j then v else vcell m j)"
proof (cases "i = j")
  case False
  have u: "unat (va i) = 0xB8000 + 2 * i" "unat (va j) = 0xB8000 + 2 * j" using assms unat_va by simp_all
  then have s: "unat (va i + 1) = 0xB8001 + 2 * i" "unat (va j + 1) = 0xB8001 + 2 * j"
    using assms by (simp_all add: unat_word_ariths)
  have "va j \<noteq> va i" using u False by auto
  moreover have "va j \<noteq> va i + 1"
  proof
    assume "va j = va i + 1"
    then have "0xB8000 + 2 * j = 0xB8001 + 2 * i" using u(2) s(1) by simp
    then show False by presburger
  qed
  moreover have "va j + 1 \<noteq> va i"
  proof
    assume "va j + 1 = va i"
    then have "0xB8001 + 2 * j = 0xB8000 + 2 * i" using u(1) s(2) by simp
    then show False by presburger
  qed
  ultimately show ?thesis using False by (simp add: vcell_def load16_store16_other)
qed (simp add: vcell_def)

text \<open>A store to a cell, and stores to cells, change only the video memory.\<close>

definition vid_frame :: "memory \<Rightarrow> memory \<Rightarrow> bool" where
  "vid_frame m m' \<longleftrightarrow> (\<forall>a. \<not> in_video a \<longrightarrow> m' a = m a)"

lemma vid_frame_refl [simp]: "vid_frame m m"
  by (simp add: vid_frame_def)

lemma vid_frame_trans: "vid_frame m m' \<Longrightarrow> vid_frame m' m'' \<Longrightarrow> vid_frame m m''"
  by (simp add: vid_frame_def)

lemma vid_frame_store: "i < 2000 \<Longrightarrow> vid_frame m (store16 m (va i) v)"
  unfolding vid_frame_def using store16_video [of "va i"] unat_va [of i] by auto

lemma con_frame_mem: "vid_frame (mem s) m \<Longrightarrow> con_frame s (s\<lparr>mem := m\<rparr>)"
  by (simp add: con_frame_def vid_frame_def)

lemma fill_row_cells:
  assumes "i + n \<le> 2000"
  shows "vid_frame m (fill_row n (va i) m) \<and>
    (\<forall>j < 2000. vcell (fill_row n (va i) m) j = (if i \<le> j \<and> j < i + n then blank else vcell m j))"
  using assms
proof (induction n arbitrary: i m)
  case (Suc n)
  have i: "i < 2000" using Suc.prems by simp
  from Suc.IH [of "Suc i" "store16 m (va i) blank"] Suc.prems
  have f: "vid_frame (store16 m (va i) blank) (fill_row (Suc n) (va i) m)"
    and c: "\<And>j. j < 2000 \<Longrightarrow> vcell (fill_row (Suc n) (va i) m) j =
      (if Suc i \<le> j \<and> j < Suc i + n then blank else vcell (store16 m (va i) blank) j)"
    by (simp_all add: va_Suc)
  from vid_frame_trans [OF vid_frame_store [OF i] f] show ?case
    using c vcell_store [OF i] by auto
qed auto

lemma copy_row_cells:
  assumes "t + n \<le> 2000" and "f + n \<le> 2000" and "t \<le> f"
  shows "vid_frame m (copy_row n (va t) (va f) m) \<and>
    (\<forall>j < 2000. vcell (copy_row n (va t) (va f) m) j = (if t \<le> j \<and> j < t + n then vcell m (f + (j - t)) else vcell m j))"
  using assms
proof (induction n arbitrary: t f m)
  case (Suc n)
  have i: "t < 2000" using Suc.prems by simp
  let ?m = "store16 m (va t) (load16 m (va f))"
  have s: "vcell ?m j = (if j = t then vcell m f else vcell m j)" if "j < 2000" for j
    using vcell_store [OF i that] by (simp add: vcell_def)
  from Suc.IH [of "Suc t" "Suc f" ?m] Suc.prems
  have fr: "vid_frame ?m (copy_row (Suc n) (va t) (va f) m)"
    and c: "\<And>j. j < 2000 \<Longrightarrow> vcell (copy_row (Suc n) (va t) (va f) m) j =
      (if Suc t \<le> j \<and> j < Suc t + n then vcell ?m (Suc f + (j - Suc t)) else vcell ?m j)"
    by (simp_all add: va_Suc)
  have "vcell (copy_row (Suc n) (va t) (va f) m) j = (if t \<le> j \<and> j < t + Suc n then vcell m (f + (j - t)) else vcell m j)"
    if j: "j < 2000" for j
  proof (cases "Suc t \<le> j \<and> j < Suc t + n")
    case True
    then have "vcell ?m (Suc f + (j - Suc t)) = vcell m (Suc f + (j - Suc t))"
      using s [of "Suc f + (j - Suc t)"] Suc.prems by auto
    moreover have "Suc f + (j - Suc t) = f + (j - t)" using True by auto
    ultimately show ?thesis using True c [OF j] by auto
  next
    case False
    then show ?thesis using c [OF j] s [OF j] by auto
  qed
  then show ?case using vid_frame_trans [OF vid_frame_store [OF i] fr] by blast
qed auto

lemma row_ix:
  fixes x y l a n :: nat
  assumes "x < 80" and "a + n \<le> 80"
  shows "80 * l + a \<le> 80 * y + x \<and> 80 * y + x < 80 * l + a + n \<longleftrightarrow> y = l \<and> a \<le> x \<and> x < a + n"
  using assms by (cases y l rule: linorder_cases) auto

lemma geom_nat:
  assumes "cio_geom s"
  shows "unat (scroll_min_x s) \<le> unat (scroll_max_x s)" and "unat (scroll_max_x s) \<le> 79"
    and "unat (scroll_min_y s) \<le> unat (scroll_max_y s)" and "unat (scroll_max_y s) \<le> 24"
    and "unat (scroll_max_x s - scroll_min_x s + 1) = Suc (unat (scroll_max_x s)) - unat (scroll_min_x s)"
    and "nat (sint (scroll_max_x s - scroll_min_x s + 1)) = Suc (unat (scroll_max_x s)) - unat (scroll_min_x s)"
proof -
  show g: "unat (scroll_min_x s) \<le> unat (scroll_max_x s)" "unat (scroll_max_x s) \<le> 79"
    "unat (scroll_min_y s) \<le> unat (scroll_max_y s)" "unat (scroll_max_y s) \<le> 24"
    using assms by (simp_all add: cio_geom_def word_le_nat_alt)
  show n: "unat (scroll_max_x s - scroll_min_x s + 1) = Suc (unat (scroll_max_x s)) - unat (scroll_min_x s)"
    using g by (simp add: unat_word_ariths unat_sub_if' word_le_nat_alt)
  then have "sint (scroll_max_x s - scroll_min_x s + 1) = int (unat (scroll_max_x s - scroll_min_x s + 1))"
    using g by (intro sint_small) simp
  then show "nat (sint (scroll_max_x s - scroll_min_x s + 1)) = Suc (unat (scroll_max_x s)) - unat (scroll_min_x s)"
    using n by simp
qed

text \<open>The columns of the scrolling region.\<close>

definition in_cols :: "'z cio_st_scheme \<Rightarrow> nat \<Rightarrow> bool" where
  "in_cols s x \<longleftrightarrow> unat (scroll_min_x s) \<le> x \<and> x \<le> unat (scroll_max_x s)"

lemma clear_rows_screen:
  assumes "cio_geom s" and "unat l + n \<le> 25"
  shows "\<exists>m. clear_rows n l s = s\<lparr>mem := m\<rparr> \<and> vid_frame (mem s) m \<and>
    (\<forall>x < 80. \<forall>y < 25. vcell m (80 * y + x) =
       (if unat l \<le> y \<and> y < unat l + n \<and> in_cols s x then blank else vcell (mem s) (80 * y + x)))"
  using assms
proof (induction n arbitrary: l s)
  case 0
  then show ?case by (intro exI [of _ "mem s"]) auto
next
  case (Suc n)
  note g = geom_nat [OF Suc.prems(1)]
  define i where "i = 80 * unat l + unat (scroll_min_x s)"
  define w where "w = Suc (unat (scroll_max_x s)) - unat (scroll_min_x s)"
  define m1 where "m1 = fill_row w (va i) (mem s)"
  have iw: "i + w \<le> 2000" using g Suc.prems(2) by (simp add: i_def w_def)
  have m1: "vid_frame (mem s) m1" "\<And>j. j < 2000 \<Longrightarrow> vcell m1 j = (if i \<le> j \<and> j < i + w then blank else vcell (mem s) j)"
    using fill_row_cells [OF iw, of "mem s"] by (simp_all add: m1_def)
  let ?s = "s\<lparr>mem := m1\<rparr>"
  have step: "clear_rows (Suc n) l s = clear_rows n (l + 1) ?s"
    by (simp add: m1_def g(5) VIDEO_ADDR_va i_def w_def)
  have l1: "unat (l + 1) = Suc (unat l)" using Suc.prems(2) by (simp add: unat_word_ariths)
  have "cio_geom ?s" using Suc.prems(1) by (simp add: cio_geom_def)
  from Suc.IH [OF this, of "l + 1"] Suc.prems(2) obtain m where m: "clear_rows n (l + 1) ?s = s\<lparr>mem := m\<rparr>" "vid_frame m1 m"
    "\<forall>x < 80. \<forall>y < 25. vcell m (80 * y + x) =
       (if Suc (unat l) \<le> y \<and> y < Suc (unat l) + n \<and> in_cols s x then blank else vcell m1 (80 * y + x))"
    by (auto simp: l1 in_cols_def)
  have row: "i \<le> 80 * y + x \<and> 80 * y + x < i + w \<longleftrightarrow> y = unat l \<and> in_cols s x" if "x < 80" for x y
    using row_ix [OF that, of "unat (scroll_min_x s)" w "unat l" y] g by (auto simp: i_def w_def in_cols_def)
  have "vcell m (80 * y + x) = (if unat l \<le> y \<and> y < unat l + Suc n \<and> in_cols s x then blank else vcell (mem s) (80 * y + x))"
    if "x < 80" "y < 25" for x y
    using m(3) m1(2) [of "80 * y + x"] row [of x y] that by auto
  then show ?case using step m(1) vid_frame_trans [OF m1(1) m(2)] by auto
qed

lemma copy_rows_screen:
  assumes "cio_geom s" and "unat line + n + unat lines \<le> 25"
  shows "\<exists>m. copy_rows n line lines s = s\<lparr>mem := m\<rparr> \<and> vid_frame (mem s) m \<and>
    (\<forall>x < 80. \<forall>y < 25. vcell m (80 * y + x) =
       (if unat line \<le> y \<and> y < unat line + n \<and> in_cols s x then vcell (mem s) (80 * (y + unat lines) + x)
        else vcell (mem s) (80 * y + x)))"
  using assms
proof (induction n arbitrary: line s)
  case 0
  then show ?case by (intro exI [of _ "mem s"]) auto
next
  case (Suc n)
  note g = geom_nat [OF Suc.prems(1)]
  define i where "i = 80 * unat line + unat (scroll_min_x s)"
  define f where "f = 80 * (unat line + unat lines) + unat (scroll_min_x s)"
  define w where "w = Suc (unat (scroll_max_x s)) - unat (scroll_min_x s)"
  define m1 where "m1 = copy_row w (va i) (va f) (mem s)"
  have iw: "i + w \<le> 2000" "f + w \<le> 2000" "i \<le> f" using g Suc.prems(2) by (simp_all add: i_def f_def w_def)
  have m1: "vid_frame (mem s) m1"
    "\<And>j. j < 2000 \<Longrightarrow> vcell m1 j = (if i \<le> j \<and> j < i + w then vcell (mem s) (f + (j - i)) else vcell (mem s) j)"
    using copy_row_cells [OF iw, of "mem s"] by (simp_all add: m1_def)
  let ?s = "s\<lparr>mem := m1\<rparr>"
  have ll: "unat (line + lines) = unat line + unat lines" "unat (line + 1) = Suc (unat line)"
    using Suc.prems(2) by (simp_all add: unat_word_ariths)
  have step: "copy_rows (Suc n) line lines s = copy_rows n (line + 1) lines ?s"
    by (simp add: m1_def g(6) VIDEO_ADDR_va i_def f_def w_def ll)
  have "cio_geom ?s" using Suc.prems(1) by (simp add: cio_geom_def)
  from Suc.IH [OF this, of "line + 1"] Suc.prems(2) obtain m where m: "copy_rows n (line + 1) lines ?s = s\<lparr>mem := m\<rparr>" "vid_frame m1 m"
    "\<forall>x < 80. \<forall>y < 25. vcell m (80 * y + x) =
       (if Suc (unat line) \<le> y \<and> y < Suc (unat line) + n \<and> in_cols s x then vcell m1 (80 * (y + unat lines) + x)
        else vcell m1 (80 * y + x))"
    by (auto simp: ll in_cols_def)
  have row: "i \<le> 80 * y + x \<and> 80 * y + x < i + w \<longleftrightarrow> y = unat line \<and> in_cols s x" if "x < 80" for x y
    using row_ix [OF that, of "unat (scroll_min_x s)" w "unat line" y] g by (auto simp: i_def w_def in_cols_def)
  have m1': "vcell m1 (80 * y + x) = (if y = unat line \<and> in_cols s x then vcell (mem s) (80 * (y + unat lines) + x)
      else vcell (mem s) (80 * y + x))" if "x < 80" "y < 25" for x y
  proof -
    have "f + (80 * y + x - i) = 80 * (y + unat lines) + x" if "y = unat line \<and> in_cols s x"
      using that by (auto simp: f_def i_def in_cols_def)
    then show ?thesis using m1(2) [of "80 * y + x"] row [of x y] that by auto
  qed
  have "vcell m (80 * y + x) = (if unat line \<le> y \<and> y < unat line + Suc n \<and> in_cols s x
      then vcell (mem s) (80 * (y + unat lines) + x) else vcell (mem s) (80 * y + x))"
    if "x < 80" "y < 25" for x y
    using m(3) m1' [of x y] m1' [of x "y + unat lines"] that Suc.prems(2) by auto
  then show ?case using step m(1) vid_frame_trans [OF m1(1) m(2)] by auto
qed

lemma rows_nat: "unat lo \<le> Suc (unat hi) \<Longrightarrow> rows lo hi = Suc (unat hi) - unat lo"
  by (auto simp: rows_def word_le_nat_alt unat_sub_if')

lemma setcursor_fields [simp]:
  "mem (setcursor s) = mem s" "curr_x (setcursor s) = curr_x s" "curr_y (setcursor s) = curr_y s"
  "scroll_min_x (setcursor s) = scroll_min_x s" "scroll_max_x (setcursor s) = scroll_max_x s"
  "scroll_min_y (setcursor s) = scroll_min_y s" "scroll_max_y (setcursor s) = scroll_max_y s"
  "min_x (setcursor s) = min_x s" "min_y (setcursor s) = min_y s" "max_x (setcursor s) = max_x s" "max_y (setcursor s) = max_y s"
  "dup_to_sio (setcursor s) = dup_to_sio s" "cio_geom (setcursor s) = cio_geom s"
  by (simp_all add: setcursor_def Let_def outb_def cio_geom_def)

lemma cio_scroll_run:
  assumes geom: "cio_geom s"
  shows "con_frame s (cio_scroll lines s) \<and>
    (\<forall>x < 80. \<forall>y < 25. screen (cio_scroll lines s) x y =
       (if in_cols s x \<and> unat (scroll_min_y s) \<le> y \<and> y \<le> unat (scroll_max_y s)
        then if y + unat lines \<le> unat (scroll_max_y s) then screen s x (y + unat lines) else blank
        else screen s x y))"
proof -
  note g = geom_nat [OF geom]
  have sub: "unat (scroll_max_y s - scroll_min_y s) = unat (scroll_max_y s) - unat (scroll_min_y s)"
    using g by (simp add: unat_sub_if' word_le_nat_alt)
  show ?thesis
  proof (cases "lines > scroll_max_y s - scroll_min_y s")
    case True
    then have big: "unat (scroll_max_y s) < unat (scroll_min_y s) + unat lines" using g sub by (auto simp: word_less_nat_alt)
    have n: "rows (scroll_min_y s) (scroll_max_y s) = Suc (unat (scroll_max_y s)) - unat (scroll_min_y s)"
      using g by (intro rows_nat) simp
    obtain m where m: "cio_clearscroll s = s\<lparr>mem := m\<rparr>" "vid_frame (mem s) m"
      "\<forall>x < 80. \<forall>y < 25. vcell m (80 * y + x) = (if unat (scroll_min_y s) \<le> y \<and>
         y < unat (scroll_min_y s) + (Suc (unat (scroll_max_y s)) - unat (scroll_min_y s)) \<and> in_cols s x
         then blank else vcell (mem s) (80 * y + x))"
      using clear_rows_screen [OF geom, of "scroll_min_y s" "Suc (unat (scroll_max_y s)) - unat (scroll_min_y s)"] g
      unfolding cio_clearscroll_def n by auto
    have run: "cio_scroll lines s = setcursor (s\<lparr>mem := m, curr_x := scroll_min_x s, curr_y := scroll_min_y s\<rparr>)"
      using True m(1) by (simp add: cio_scroll_def Let_def)
    show ?thesis unfolding run
      using con_frame_mem [OF m(2)] m(3) big g by (auto simp: screen_def)
  next
    case False
    then have small: "unat (scroll_min_y s) + unat lines \<le> unat (scroll_max_y s)" using g sub by (auto simp: word_less_nat_alt)
    have sl: "unat (scroll_max_y s - lines) = unat (scroll_max_y s) - unat lines"
      using small by (simp add: unat_sub_if' word_le_nat_alt)
    define n where "n = Suc (unat (scroll_max_y s) - unat lines) - unat (scroll_min_y s)"
    have n: "rows (scroll_min_y s) (scroll_max_y s - lines) = n"
      unfolding n_def using small sl by (subst rows_nat) auto
    define line where "line = scroll_min_y s + of_nat n"
    have ul: "unat line = Suc (unat (scroll_max_y s) - unat lines)"
    proof -
      have "n \<le> 25" using g by (simp add: n_def)
      then have "unat (of_nat n :: u32) = n" by (simp add: unat_of_nat)
      then have "unat line = unat (scroll_min_y s) + n" using g \<open>n \<le> 25\<close> unfolding line_def unat_word_ariths by simp
      then show ?thesis using small by (simp add: n_def)
    qed
    obtain m where m: "copy_rows n (scroll_min_y s) lines s = s\<lparr>mem := m\<rparr>" "vid_frame (mem s) m"
      "\<forall>x < 80. \<forall>y < 25. vcell m (80 * y + x) = (if unat (scroll_min_y s) \<le> y \<and> y < unat (scroll_min_y s) + n \<and> in_cols s x
         then vcell (mem s) (80 * (y + unat lines) + x) else vcell (mem s) (80 * y + x))"
      using copy_rows_screen [OF geom, of "scroll_min_y s" n lines] g small by (auto simp: n_def)
    have gm: "cio_geom (s\<lparr>mem := m\<rparr>)" using geom by (simp add: cio_geom_def)
    define k where "k = rows line (scroll_max_y s)"
    have k: "k = unat lines" unfolding k_def using ul small by (subst rows_nat) auto
    obtain m' where m': "clear_rows k line (s\<lparr>mem := m\<rparr>) = s\<lparr>mem := m'\<rparr>" "vid_frame m m'"
      "\<forall>x < 80. \<forall>y < 25. vcell m' (80 * y + x) = (if unat line \<le> y \<and> y < unat line + k \<and> in_cols s x
         then blank else vcell m (80 * y + x))"
      using clear_rows_screen [OF gm, of line k] ul k g small by (auto simp: in_cols_def)
    have run: "cio_scroll lines s = s\<lparr>mem := m'\<rparr>"
      using False m(1) m'(1) by (simp add: cio_scroll_def Let_def n line_def k_def)
    have "vcell m' (80 * y + x) = (if in_cols s x \<and> unat (scroll_min_y s) \<le> y \<and> y \<le> unat (scroll_max_y s)
        then if y + unat lines \<le> unat (scroll_max_y s) then vcell (mem s) (80 * (y + unat lines) + x) else blank
        else vcell (mem s) (80 * y + x))" if "x < 80" "y < 25" for x y
      using m(3) m'(3) that ul k small by (auto simp: n_def)
    then show ?thesis unfolding run using con_frame_mem [OF vid_frame_trans [OF m(2) m'(2)]] by (simp add: screen_def)
  qed
qed

section \<open>The cursor\<close>

definition cio_inv :: "'z cio_st_scheme \<Rightarrow> bool" where
  "cio_inv s \<longleftrightarrow> cio_geom s \<and> scroll_min_x s \<le> curr_x s \<and> curr_x s \<le> scroll_max_x s \<and>
     scroll_min_y s \<le> curr_y s \<and> curr_y s \<le> scroll_max_y s + 1"

text \<open>The cursor after a character was put at \<open>(x, y)\<close>.\<close>

lemma cursor_step:
  fixes x lo hi :: u32
  assumes "lo \<le> x" and "x \<le> hi" and "hi \<le> 79"
  shows "\<not> hi < x + 1 \<Longrightarrow> lo \<le> x + 1 \<and> x + 1 \<le> hi" and "lo \<le> x + 1" and "x + 1 \<le> hi + 1"
proof -
  have "unat (x + 1) = Suc (unat x)" "unat (hi + 1) = Suc (unat hi)"
    using assms by (simp_all add: word_le_nat_alt unat_word_ariths)
  then show "\<not> hi < x + 1 \<Longrightarrow> lo \<le> x + 1 \<and> x + 1 \<le> hi" and "lo \<le> x + 1" and "x + 1 \<le> hi + 1"
    using assms by (auto simp: word_le_nat_alt word_less_nat_alt)
qed

lemma not_all_ones: "(x :: u32) \<le> 79 \<Longrightarrow> x \<noteq> -1"
proof
  assume "x \<le> 79" and "x = -1"
  then have "unat (-1 :: u32) \<le> 79" by (simp only: word_le_nat_alt) simp
  then show False by (simp add: unsigned_minus_1_eq_mask mask_eq_exp_minus_1)
qed

definition scrolled :: "'z cio_st_scheme \<Rightarrow> 'z cio_st_scheme" where
  "scrolled s = (if curr_y s > scroll_max_y s
     then (cio_scroll (curr_y s - scroll_max_y s) s)\<lparr>curr_y := scroll_max_y s\<rparr> else s)"

lemma rows_cursor [simp]:
  "curr_x (clear_rows n l s) = curr_x s" "curr_x (copy_rows n l k s) = curr_x s"
  "scroll_min_x (clear_rows n l s) = scroll_min_x s"
  by (induction n arbitrary: l s) simp_all

lemma scrolled_inv:
  assumes "cio_inv s"
  shows "con_frame s (scrolled s) \<and> cio_inv (scrolled s) \<and> curr_y (scrolled s) \<le> scroll_max_y s"
proof (cases "curr_y s > scroll_max_y s")
  case True
  have geom: "cio_geom s" using assms by (simp add: cio_inv_def)
  have fr: "con_frame s (cio_scroll (curr_y s - scroll_max_y s) s)" using cio_scroll_run [OF geom] by blast
  have cx: "curr_x (cio_scroll n s) = curr_x s \<or> curr_x (cio_scroll n s) = scroll_min_x s" for n
    by (simp add: cio_scroll_def Let_def cio_clearscroll_def)
  note same = con_eraseD [OF fr [unfolded con_frame_def, THEN conjunct1]]
  have "cio_geom (cio_scroll (curr_y s - scroll_max_y s) s)" using con_frame_geom [OF fr] geom by simp
  then have "cio_inv (scrolled s)"
    using assms True cx [of "curr_y s - scroll_max_y s"] geom
    by (auto simp: cio_inv_def scrolled_def same cio_geom_def word_le_nat_alt word_less_nat_alt unat_word_ariths)
  then show ?thesis using True fr by (simp add: scrolled_def)
next
  case False
  then show ?thesis using assms by (simp add: scrolled_def)
qed

lemma cio_putchar_run:
  assumes inv: "cio_inv s"
  shows "con_res (\<lambda>x. x) s (cio_putchar c s) \<and> (\<forall>s'. cio_putchar c s = Inr s' \<longrightarrow> cio_inv s')"
proof -
  define t where "t = scrolled s"
  have t: "con_frame s t" "cio_inv t" "curr_y t \<le> scroll_max_y t"
    using scrolled_inv [OF inv] con_eraseD(4) [of t s] by (auto simp: t_def con_frame_def)
  have geom: "cio_geom t" using t(2) by (simp add: cio_inv_def)
  note g = t(2) [unfolded cio_inv_def cio_geom_def]
  have cy: "scroll_min_y t \<le> curr_y t + 1" "curr_y t + 1 \<le> scroll_max_y t + 1"
    using cursor_step(2,3) [of "scroll_min_y t" "curr_y t" "scroll_max_y t"] t(3) g by (auto simp: word_le_nat_alt)
  have run: "cio_putchar c s = kbind
          (if c AND BMASK8 = 10 then
             kbind (end_line (scroll_max_x t) (curr_x t) (curr_y t) t) (\<lambda>s.
               Inr (s\<lparr>curr_x := scroll_min_x s, curr_y := curr_y s + 1\<rparr>))
           else if c AND BMASK8 = 13 then Inr (t\<lparr>curr_x := scroll_min_x t\<rparr>)
           else
             kbind (putchar_at (curr_x t) (curr_y t) c t) (\<lambda>s.
               let s = s\<lparr>curr_x := curr_x s + 1\<rparr>
               in Inr (if curr_x s > scroll_max_x s
                       then s\<lparr>curr_x := scroll_min_x s, curr_y := curr_y s + 1\<rparr> else s)))
          (\<lambda>s. Inr (setcursor s))"
    by (simp only: cio_putchar_def t_def scrolled_def Let_def)
  consider (nl) "c AND BMASK8 = 10" | (cr) "c AND BMASK8 \<noteq> 10" "c AND BMASK8 = 13"
    | (ch) "c AND BMASK8 \<noteq> 10" "c AND BMASK8 \<noteq> 13" by blast
  then show ?thesis
  proof cases
    case nl
    have "scroll_max_x t \<noteq> -1" using g by (intro not_all_ones) simp
    from end_line_run [OF geom this, of "curr_x t" "curr_y t"] obtain m where
      m: "end_line (scroll_max_x t) (curr_x t) (curr_y t) t = Inr (t\<lparr>mem := m, dup2sio_bak := dup_to_sio t\<rparr>)"
      "con_frame t (t\<lparr>mem := m\<rparr>)" by blast
    show ?thesis unfolding run using nl m(1) con_frame_trans [OF t(1) m(2)] g cy
      by (auto simp: cio_inv_def cio_geom_def)
  next
    case cr
    then show ?thesis unfolding run using t g by (auto simp: cio_inv_def cio_geom_def)
  next
    case ch
    have step: "con_frame s u \<and> cio_inv (if curr_x v > scroll_max_x v then v\<lparr>curr_x := scroll_min_x v, curr_y := curr_y v + 1\<rparr> else v)"
      if "putchar_at (curr_x t) (curr_y t) c t = Inr u" "v = u\<lparr>curr_x := curr_x u + 1\<rparr>" for u v
    proof -
      have e: "echo_frame t u" using putchar_at_echo [OF geom] that(1) by blast
      then have same: "curr_x u = curr_x t" "curr_y u = curr_y t" "con_frame t u" by (simp_all add: echo_frame_def)
      note er = con_eraseD [OF same(3) [unfolded con_frame_def, THEN conjunct1]]
      show ?thesis using con_frame_trans [OF t(1) same(3)] cy t(3) g
        cursor_step(1) [of "scroll_min_x t" "curr_x t" "scroll_max_x t"]
        by (auto simp: cio_inv_def cio_geom_def er same that(2) word_le_nat_alt unat_word_ariths)
    qed
    show ?thesis
    proof (cases "putchar_at (curr_x t) (curr_y t) c t")
      case (Inl e)
      then have "dup_to_sio s \<noteq> 0"
        using con_res_returns [OF putchar_at_res [OF geom], of "curr_x t" "curr_y t" c] con_frame_dup [OF t(1)] by auto
      then show ?thesis unfolding run using ch Inl by (simp add: con_res_def)
    next
      case (Inr u)
      define v where "v = u\<lparr>curr_x := curr_x u + 1\<rparr>"
      define w where "w = (if curr_x v > scroll_max_x v then v\<lparr>curr_x := scroll_min_x v, curr_y := curr_y v + 1\<rparr> else v)"
      have r: "cio_putchar c s = Inr (setcursor w)" unfolding run using ch Inr by (simp add: w_def v_def Let_def)
      have "cio_inv w" "con_frame s u" using step [OF Inr v_def] by (simp_all add: w_def)
      moreover from this(2) have "con_frame s w" by (simp add: w_def v_def)
      ultimately show ?thesis unfolding r by (simp add: cio_inv_def)
    qed
  qed
qed

section \<open>The printing functions\<close>

lemmas cio_putchar_res = cio_putchar_run [THEN conjunct1]

lemma cio_putchar_keeps: "cio_inv s \<Longrightarrow> cio_putchar c s = Inr s' \<Longrightarrow> cio_inv s'"
  using cio_putchar_run by blast

lemma cio_puts_at_res: "cio_geom s \<Longrightarrow> con_res (\<lambda>x. x) s (cio_puts_at x y str s)"
proof (induction str arbitrary: x s)
  case (Cons ch str)
  have "con_res (\<lambda>x. x) s (kbind (cio_putchar_at x y (i32_of_char ch) s) (cio_puts_at (x + 1) y str))"
    by (rule con_res_bind [OF cio_putchar_at_res [OF Cons.prems]]) (use Cons con_frame_geom in auto)
  then show ?case by simp
qed simp

text \<open>The functions that print at the cursor also keep its invariant.\<close>

definition cur_res :: "('a \<Rightarrow> 'z cio_st_scheme) \<Rightarrow> 'z cio_st_scheme \<Rightarrow> kerr + 'a \<Rightarrow> bool" where
  "cur_res p s r \<longleftrightarrow> con_res p s r \<and> (\<forall>x. r = Inr x \<longrightarrow> cio_inv (p x))"

lemma cur_res_bind:
  assumes "cur_res p s r" and "\<And>x. r = Inr x \<Longrightarrow> cio_inv (p x) \<Longrightarrow> cur_res q (p x) (f x)"
  shows "cur_res q s (kbind r f)"
proof -
  have "con_res q s (kbind r f)"
    by (rule con_res_bind [of p]) (use assms in \<open>auto simp: cur_res_def\<close>)
  then show ?thesis using assms by (auto simp: cur_res_def kbind_eq_Inr)
qed

lemma cur_res_Inr [simp]: "cur_res p s (Inr x) \<longleftrightarrow> con_frame s (p x) \<and> cio_inv (p x)"
  by (simp add: cur_res_def)

lemma cio_putchar_cur: "cio_inv s \<Longrightarrow> cur_res (\<lambda>x. x) s (cio_putchar c s)"
  using cio_putchar_run by (auto simp: cur_res_def)

lemma cio_puts_cur: "cio_inv s \<Longrightarrow> cur_res (\<lambda>x. x) s (cio_puts str s)"
proof (induction str arbitrary: s)
  case (Cons ch str)
  show ?case unfolding cio_puts.simps
    by (rule cur_res_bind [OF cio_putchar_cur [OF Cons.prems]]) (use Cons.IH in auto)
qed simp

lemma cio_write_cur: "cio_inv s \<Longrightarrow> cur_res (\<lambda>x. x) s (cio_write buf len s)"
proof -
  have "cio_inv s \<Longrightarrow> cur_res (\<lambda>x. x) s (cio_write_loop n buf s)" for n
  proof (induction n arbitrary: buf s)
    case (Suc n)
    show ?case unfolding cio_write_loop.simps
      by (rule cur_res_bind [OF cio_putchar_cur [OF Suc.prems]]) (use Suc.IH in auto)
  qed simp
  then show "cio_inv s \<Longrightarrow> ?thesis" by (simp add: cio_write_def)
qed

lemma mypad_at_res: "cio_geom s \<Longrightarrow> y \<noteq> -1 \<Longrightarrow> con_res snd s (mypad x y extra padchar s)"
proof -
  have "cio_geom s \<Longrightarrow> y \<noteq> -1 \<Longrightarrow> con_res snd s (mypad_loop n x y padchar s)" for n
  proof (induction n arbitrary: x s)
    case (Suc n)
    have "con_res snd s (kbind (cio_putchar_at x y padchar s) (mypad_loop n (x + 1) y padchar))"
      by (rule con_res_bind [OF cio_putchar_at_res [OF Suc.prems(1)]]) (use Suc con_frame_geom in auto)
    then show ?case using Suc.prems(2) by simp
  qed simp
  then show "cio_geom s \<Longrightarrow> y \<noteq> -1 \<Longrightarrow> ?thesis" by (simp add: mypad_def)
qed

lemma mypad_cur: "cio_inv s \<Longrightarrow> cur_res snd s (mypad (-1) (-1) extra padchar s) \<and>
  (\<forall>x s'. mypad (-1) (-1) extra padchar s = Inr (x, s') \<longrightarrow> x = -1)"
proof -
  have "cio_inv s \<Longrightarrow> cur_res snd s (mypad_loop n (-1) (-1) padchar s) \<and>
    (\<forall>x s'. mypad_loop n (-1) (-1) padchar s = Inr (x, s') \<longrightarrow> x = -1)" for n
  proof (induction n arbitrary: s)
    case (Suc n)
    have "cur_res snd s (kbind (cio_putchar padchar s) (mypad_loop n (-1) (-1) padchar))"
      by (rule cur_res_bind [OF cio_putchar_cur [OF Suc.prems]]) (use Suc.IH in auto)
    moreover have "x = -1" if "mypad_loop (Suc n) (-1) (-1) padchar s = Inr (x, s')" for x s'
      using that Suc.IH cio_putchar_keeps [OF Suc.prems] by (auto simp: kbind_eq_Inr)
    ultimately show ?case by simp
  qed simp
  then show "cio_inv s \<Longrightarrow> ?thesis" by (simp add: mypad_def)
qed

lemma mypadstr_at_res:
  fixes s :: "'a cio_st_scheme"
  assumes "cio_geom s" and "y \<noteq> -1"
  shows "con_res snd s (mypadstr x y str len width left padchar s)"
proof -
  define extra where "extra = width - (if len < 0 then int (length str) else len)"
  have pad: "con_res snd t (if b then mypad x y extra padchar t else Inr (x, t))" if "cio_geom t" for b x t
    using mypad_at_res [OF that assms(2)] by simp
  have mid: "con_res snd t (kbind (cio_puts_at x y str t) (\<lambda>s. Inr (x + v, s)))" if "cio_geom t" for x t v
    by (rule con_res_bind [OF cio_puts_at_res [OF that]]) simp
  let ?pad = "\<lambda>b p. if b then mypad (fst p) y extra padchar (snd p) else Inr (fst p, snd p)"
  let ?b1 = "extra > 0 \<and> \<not> left" and ?b2 = "extra > 0 \<and> left"
    and ?v = "word_of_int (if len < 0 then int (length str) else len)"
  have run: "mypadstr x y str len width left padchar s = kbind (?pad ?b1 (x, s)) (\<lambda>p.
      kbind (kbind (cio_puts_at (fst p) y str (snd p)) (\<lambda>s. Inr (fst p + ?v, s))) (?pad ?b2))"
    unfolding mypadstr_def Let_def extra_def [symmetric] case_prod_beta using assms(2) by simp
  have first: "con_res snd s (?pad ?b1 (x, s))" using pad [OF assms(1), of ?b1 x] by (simp only: fst_conv snd_conv)
  show ?thesis unfolding run
  proof (rule con_res_bind [OF first])
    fix p :: "u32 \<times> 'a cio_st_scheme" assume "con_frame s (snd p)"
    then have g: "cio_geom (snd p)" using con_frame_geom assms(1) by blast
    show "con_res snd (snd p) (kbind (kbind (cio_puts_at (fst p) y str (snd p)) (\<lambda>s. Inr (fst p + ?v, s))) (?pad ?b2))"
      by (rule con_res_bind [OF mid [OF g]]) (use mypad_at_res [OF _ assms(2)] g in \<open>auto dest!: con_frame_geom\<close>)
  qed
qed

lemma mypadstr_cur:
  assumes "cio_inv s"
  shows "cur_res snd s (mypadstr (-1) (-1) str len width left padchar s) \<and>
    (\<forall>x s'. mypadstr (-1) (-1) str len width left padchar s = Inr (x, s') \<longrightarrow> x = -1)"
proof -
  define extra where "extra = width - (if len < 0 then int (length str) else len)"
  let ?pad = "\<lambda>b t. if b then mypad (-1) (-1) extra padchar t else Inr (-1, t)"
  have pad: "cur_res snd t (?pad b t)" "\<And>x t'. ?pad b t = Inr (x, t') \<Longrightarrow> x = -1" if "cio_inv t" for b t
    using mypad_cur [OF that, of extra padchar] that by (auto split: if_splits)
  have mid: "cur_res snd t (kbind (cio_puts str t) (\<lambda>s. Inr (-1 :: u32, s)))" if "cio_inv t" for t
    by (rule cur_res_bind [OF cio_puts_cur [OF that]]) simp
  let ?b1 = "extra > 0 \<and> \<not> left" and ?b2 = "extra > 0 \<and> left"
  have run: "mypadstr (-1) (-1) str len width left padchar s =
    kbind (?pad ?b1 s) (\<lambda>xs. kbind (kbind (cio_puts str (snd xs)) (\<lambda>s. Inr (-1 :: u32, s))) (\<lambda>xs. ?pad ?b2 (snd xs)))"
  proof (cases "?pad ?b1 s")
    case (Inr xs)
    with pad(2) [OF assms, of ?b1 "fst xs" "snd xs"] have "fst xs = -1" by simp
    with Inr show ?thesis
      unfolding mypadstr_def Let_def extra_def [symmetric] case_prod_beta
      by (cases "cio_puts str (snd xs)") simp_all
  next
    case (Inl e)
    then show ?thesis
      unfolding mypadstr_def Let_def extra_def [symmetric] case_prod_beta by (simp only: kbind_simps)
  qed
  have "cur_res snd s (mypadstr (-1) (-1) str len width left padchar s)"
    unfolding run by (rule cur_res_bind [OF pad(1) [OF assms]], rule cur_res_bind [OF mid]) (rule pad(1) | assumption)+
  moreover have "x = -1" if r: "mypadstr (-1) (-1) str len width left padchar s = Inr (x, s')" for x s'
  proof -
    obtain xs t where xs: "?pad ?b1 s = Inr xs" "cio_puts str (snd xs) = Inr t" "?pad ?b2 t = Inr (x, s')"
      using r unfolding run kbind_eq_Inr by (auto simp only: snd_conv sum.inject prod.inject)
    have "cio_inv (snd xs)" using pad(1) [OF assms, of ?b1] xs(1) unfolding cur_res_def by blast
    then have "cio_inv t" using cio_puts_cur [of "snd xs" str] xs(2) unfolding cur_res_def by blast
    then show ?thesis using pad(2) xs(3) by blast
  qed
  ultimately show ?thesis by blast
qed

text \<open>A format whose conversions fit the arguments.\<close>

function fmt_ok :: "u8 list \<Rightarrow> parg list \<Rightarrow> bool" where
  "fmt_ok fmt ap =
     (case fmt of [] \<Rightarrow> False
      | ch # fmt \<Rightarrow>
        if ch = 0 then True
        else if ch = 37 then
          case fmt_spec fmt of None \<Rightarrow> False
          | Some (leftadjust, padchar, width, ch, fmt) \<Rightarrow>
            if is_conv ch then
              (case ap of [] \<Rightarrow> False | a # ap \<Rightarrow> parg_text ch a \<noteq> None \<and> fmt_ok fmt ap)
            else fmt_ok fmt ap
        else fmt_ok fmt ap)"
  by pat_completeness auto
termination
  by (relation "measure (\<lambda>(fmt, ap). length fmt)") (auto dest: fmt_spec_length)

declare fmt_ok.simps [simp del]

lemma do_printf_cur:
  "cio_inv s \<Longrightarrow> fmt_ok fmt ap \<Longrightarrow> cur_res (\<lambda>x. x) s (do_printf_loop (-1) (-1) fmt ap s)"
proof (induction "length fmt" arbitrary: fmt ap s rule: less_induct)
  case less
  note ok = less.prems(2) [unfolded fmt_ok.simps [of fmt ap]]
  show ?case
  proof (cases fmt)
    case (Cons ch rest)
    note step = do_printf_loop.simps [of "-1" "-1" fmt ap s, unfolded Cons, simplified]
    consider (nul) "ch = 0" | (pc) "ch = 37" | (plain) "ch \<noteq> 0" "ch \<noteq> 37" by blast
    then show ?thesis
    proof cases
      case nul
      then show ?thesis unfolding Cons step using less.prems(1) by simp
    next
      case pc
      then obtain l p w c fmt' where sp: "fmt_spec rest = Some (l, p, w, c, fmt')"
        using ok Cons by (auto split: option.splits)
      have len: "length fmt' < length fmt" using fmt_spec_length [OF sp] Cons by simp
      show ?thesis
      proof (cases "is_conv c")
        case True
        then obtain a ap' str n where a: "ap = a # ap'" "parg_text c a = Some (str, n)" "fmt_ok fmt' ap'"
          using ok pc Cons sp by (auto split: list.splits)
        let ?r = "mypadstr (-1) (-1) str n (sint w) l (ucast p) s"
        have "cur_res (\<lambda>x. x) s (kbind ?r (\<lambda>xs. do_printf_loop (-1) (-1) fmt' ap' (snd xs)))"
          by (rule cur_res_bind [OF mypadstr_cur [OF less.prems(1), THEN conjunct1]]) (use less.hyps [OF len] a(3) in auto)
        moreover have "kbind ?r (\<lambda>(x, s). do_printf_loop x (-1) fmt' ap' s) =
            kbind ?r (\<lambda>xs. do_printf_loop (-1) (-1) fmt' ap' (snd xs))"
          using mypadstr_cur [OF less.prems(1), of str n "sint w" l "ucast p"] by (cases ?r) auto
        ultimately show ?thesis unfolding Cons step using pc sp True a by simp
      next
        case False
        then show ?thesis unfolding Cons step using pc sp ok Cons less.hyps [OF len less.prems(1)] by simp
      qed
    next
      case plain
      have "cur_res (\<lambda>x. x) s (kbind (cio_putchar (i32_of_char ch) s) (do_printf_loop (-1) (-1) rest ap))"
        by (rule cur_res_bind [OF cio_putchar_cur [OF less.prems(1)]]) (use less.hyps ok Cons plain in auto)
      then show ?thesis unfolding Cons step using plain by simp
    qed
  qed (use ok in simp)
qed

lemma cio_printf_cur: "cio_inv s \<Longrightarrow> fmt_ok (fmt @ [0]) ap \<Longrightarrow> cur_res (\<lambda>x. x) s (cio_printf fmt ap s)"
  by (simp add: cio_printf_def do_printf_def do_printf_cur)

lemma fmt_width_subset: "fmt_width w ch fmt = Some (w', ch', fmt') \<Longrightarrow> set fmt' \<subseteq> set fmt"
proof (induction fmt arbitrary: w ch)
  case (Cons c cs)
  then show ?case by (subst (asm) fmt_width.simps) (fastforce split: if_splits)
qed (simp split: if_splits)

lemma fmt_spec_subset: "fmt_spec fmt = Some (l, p, w, ch, fmt') \<Longrightarrow> set fmt' \<subseteq> set fmt"
  by (auto simp: fmt_spec_def split: list.splits if_splits bind_splits dest!: fmt_width_subset simp del: fmt_width.simps)

lemma do_printf_at_res:
  "cio_geom s \<Longrightarrow> fmt_ok fmt ap \<Longrightarrow> y \<noteq> -1 \<Longrightarrow> 10 \<notin> set fmt \<Longrightarrow> con_res (\<lambda>x. x) s (do_printf_loop x y fmt ap s)"
proof (induction "length fmt" arbitrary: x fmt ap s rule: less_induct)
  case less
  note ok = less.prems(2) [unfolded fmt_ok.simps [of fmt ap]]
  show ?case
  proof (cases fmt)
    case (Cons ch rest)
    note step = do_printf_loop.simps [of x y fmt ap s, unfolded Cons, simplified]
    consider (nul) "ch = 0" | (pc) "ch = 37" | (plain) "ch \<noteq> 0" "ch \<noteq> 37" by blast
    then show ?thesis
    proof cases
      case nul
      then show ?thesis unfolding Cons step by simp
    next
      case pc
      then obtain l p w c fmt' where sp: "fmt_spec rest = Some (l, p, w, c, fmt')"
        using ok Cons by (auto split: option.splits)
      have len: "length fmt' < length fmt" "10 \<notin> set fmt'"
        using fmt_spec_length [OF sp] fmt_spec_subset [OF sp] Cons less.prems(4) by auto
      show ?thesis
      proof (cases "is_conv c")
        case True
        then obtain a ap' str n where a: "ap = a # ap'" "parg_text c a = Some (str, n)" "fmt_ok fmt' ap'"
          using ok pc Cons sp by (auto split: list.splits)
        have "con_res (\<lambda>x. x) s (kbind (mypadstr x y str n (sint w) l (ucast p) s) (\<lambda>(x, s). do_printf_loop x y fmt' ap' s))"
          by (rule con_res_bind [OF mypadstr_at_res [OF less.prems(1,3)]])
            (use less.hyps [OF len(1)] less.prems(1,3) len(2) a(3) in \<open>auto dest!: con_frame_geom\<close>)
        then show ?thesis unfolding Cons step using pc sp True a by simp
      next
        case False
        then show ?thesis
          unfolding Cons step using pc sp ok Cons less.hyps [OF len(1) less.prems(1)] less.prems(3) len(2) by simp
      qed
    next
      case plain
      then have nn: "ch \<noteq> 10" "fmt_ok rest ap" "10 \<notin> set rest" "length rest < length fmt"
        using less.prems(4) ok Cons by auto
      have "con_res (\<lambda>x. x) s (kbind (cio_putchar_at x y (i32_of_char ch) s) (\<lambda>s.
          if ch = 13 then do_printf_loop (scroll_min_x s) y rest ap s else do_printf_loop (x + 1) y rest ap s))"
        by (rule con_res_bind [OF cio_putchar_at_res [OF less.prems(1)]])
          (use less.hyps [OF nn(4) _ nn(2) less.prems(3) nn(3)] less.prems(1) in \<open>auto dest!: con_frame_geom\<close>)
      then show ?thesis unfolding Cons step using plain nn(1) less.prems(3) by simp
    qed
  qed (use ok in simp)
qed

lemma cio_printf_at_res:
  "cio_geom s \<Longrightarrow> fmt_ok (fmt @ [0]) ap \<Longrightarrow> y \<noteq> -1 \<Longrightarrow> 10 \<notin> set fmt \<Longrightarrow> con_res (\<lambda>x. x) s (cio_printf_at x y fmt ap s)"
  by (simp add: cio_printf_at_def do_printf_def do_printf_at_res)

section \<open>Correctness of the console\<close>

definition boot_cio :: cio_st where
  "boot_cio = sio_st.extend boot_sio
     (cio_st.fields 0 0 79 24 0 0 0 0 79 24 0 0 None (replicate 200 0) 0 0 0 0xff True)"

lemma boot_cio_fields [simp]:
  "scroll_min_x boot_cio = 0" "scroll_min_y boot_cio = 0" "scroll_max_x boot_cio = 79" "scroll_max_y boot_cio = 24"
  "curr_x boot_cio = 0" "curr_y boot_cio = 0" "min_x boot_cio = 0" "min_y boot_cio = 0" "max_x boot_cio = 79"
  "max_y boot_cio = 24" "dup_to_sio boot_cio = 0" "input_buffer boot_cio = replicate 200 0" "next_char boot_cio = 0"
  "next_space boot_cio = 0" "kb_shift boot_cio = 0" "ctrl_mask boot_cio = 0xff" "mem boot_cio = (\<lambda>_. 0)"
  "notify boot_cio = None" "io_out boot_cio = []"
  by (simp_all add: boot_cio_def boot_sio_def boot_sup_def boot_proc_def boot_stk_def boot_que_def que_st.defs stk_st.defs
      proc_st.defs sup_st.defs sio_st.defs cio_st.defs)

lemma boot_cio_inv: "cio_inv boot_cio"
  by (simp add: cio_inv_def cio_geom_def)

text \<open>C25. \<^verbatim>\<open>cio_scroll()\<close> moves the lines of the scrolling region up by the given number, fills the lines that become
  free with blanks (all of them when the number is the height of the region or more), and leaves the
  screen outside the region and all memory outside the video memory as it was.\<close>

theorem cio_scroll_moves_lines:
  assumes "cio_geom s"
  shows "con_frame s (cio_scroll lines s) \<and>
    (\<forall>x < 80. \<forall>y < 25. screen (cio_scroll lines s) x y =
       (if in_cols s x \<and> unat (scroll_min_y s) \<le> y \<and> y \<le> unat (scroll_max_y s)
        then if y + unat lines \<le> unat (scroll_max_y s) then screen s x (y + unat lines) else blank
        else screen s x y))"
  using cio_scroll_run [OF assms] .

theorem cio_scroll_moves_lines_witness:
  "screen (cio_scroll 1 boot_cio) 3 4 = screen boot_cio 3 5 \<and> screen (cio_scroll 1 boot_cio) 3 24 = blank"
proof -
  have g: "cio_geom boot_cio" using boot_cio_inv by (simp add: cio_inv_def)
  note c = cio_scroll_moves_lines [OF g, of 1, THEN conjunct2, rule_format, of 3]
  from c [of 4] c [of 24] show ?thesis by (simp add: in_cols_def)
qed

text \<open>\<^verbatim>\<open>cio_putchar()\<close>, for every character: when it returns, the cursor is again inside the scrolling region or
  at the start of the line below it, and only video memory, the cursor and the serial output have
  changed; and it always returns when output is not echoed to the serial line.\<close>

theorem cio_putchar_cursor:
  assumes "cio_inv s"
  shows "(\<forall>s'. cio_putchar c s = Inr s' \<longrightarrow> cio_inv s' \<and> con_frame s s') \<and>
    (dup_to_sio s = 0 \<longrightarrow> (\<exists>s'. cio_putchar c s = Inr s'))"
  using cio_putchar_run [OF assms, of c] by (auto simp: con_res_def)

theorem cio_putchar_cursor_witness: "\<exists>s'. cio_putchar 65 boot_cio = Inr s' \<and> cio_inv s'"
proof -
  have q: "dup_to_sio boot_cio = 0" by simp
  show ?thesis using cio_putchar_cursor [OF boot_cio_inv, of 65] q by blast
qed

lemma sent_setcursor [simp]: "sent (setcursor s) = sent s"
  by (simp add: setcursor_def Let_def outb_def sent_def UA4_TXD_def)

lemma out_queue_setcursor [simp]: "out_queue (setcursor s) = out_queue s"
  by (simp add: setcursor_def Let_def outb_def out_queue_def out_used_def)

lemma rows_sent [simp]:
  "sent (clear_rows n l s) = sent s" "sent (copy_rows n l k s) = sent s"
  "out_queue (clear_rows n l s) = out_queue s" "out_queue (copy_rows n l k s) = out_queue s"
  by (induction n arbitrary: l s) (simp_all add: sent_def out_queue_def out_used_def)

lemma sent_upd [simp]:
  "sent (s\<lparr>curr_x := x\<rparr>) = sent s" "sent (s\<lparr>curr_y := y\<rparr>) = sent s" "sent (s\<lparr>mem := m\<rparr>) = sent s"
  "sent (s\<lparr>dup2sio_bak := d\<rparr>) = sent s"
  "out_queue (s\<lparr>curr_x := x\<rparr>) = out_queue s" "out_queue (s\<lparr>curr_y := y\<rparr>) = out_queue s"
  "out_queue (s\<lparr>mem := m\<rparr>) = out_queue s" "out_queue (s\<lparr>dup2sio_bak := d\<rparr>) = out_queue s"
  by (simp_all add: sent_def out_queue_def out_used_def)

lemma scrolled_sent: "sent (scrolled s) = sent s" "out_queue (scrolled s) = out_queue s"
  by (simp_all add: scrolled_def cio_scroll_def cio_clearscroll_def Let_def)

text \<open>A line feed printed on the console is never echoed to the serial line, whether echoing is on or
  off: the code switches echoing off, erases the rest of the line, and then tests the flag it has just
  cleared.\<close>

theorem cio_newline_not_echoed:
  assumes "cio_inv s" and "c AND BMASK8 = 10"
  shows "\<exists>s'. cio_putchar c s = Inr s' \<and> sent s' = sent s \<and> out_queue s' = out_queue s \<and> dup_to_sio s' = dup_to_sio s"
proof -
  define t where "t = scrolled s"
  have t: "con_frame s t" "cio_inv t" using scrolled_inv [OF assms(1)] by (auto simp: t_def)
  have "scroll_max_x t \<noteq> -1" using t(2) by (intro not_all_ones) (simp add: cio_inv_def cio_geom_def)
  moreover have "cio_geom t" using t(2) by (simp add: cio_inv_def)
  ultimately obtain m where
    m: "end_line (scroll_max_x t) (curr_x t) (curr_y t) t = Inr (t\<lparr>mem := m, dup2sio_bak := dup_to_sio t\<rparr>)"
    using end_line_run [of t "scroll_max_x t" "curr_x t" "curr_y t"] by blast
  have "cio_putchar c s = Inr (setcursor (t\<lparr>mem := m, dup2sio_bak := dup_to_sio t, curr_x := scroll_min_x t,
      curr_y := curr_y t + 1\<rparr>))"
    using m assms(2) by (simp add: cio_putchar_def t_def [symmetric] scrolled_def [symmetric] Let_def)
  then show ?thesis using scrolled_sent [of s] con_frame_dup [OF t(1)] by (simp add: t_def)
qed

theorem cio_newline_not_echoed_witness:
  "\<exists>s'. cio_putchar 10 (boot_cio\<lparr>dup_to_sio := 1\<rparr>) = Inr s' \<and> sent s' = [] \<and> out_queue s' = []"
proof -
  let ?s = "boot_cio\<lparr>dup_to_sio := 1\<rparr>"
  have i: "cio_inv ?s" using boot_cio_inv by (simp add: cio_inv_def cio_geom_def)
  have o: "sent ?s = []" "out_queue ?s = []"
    by (simp_all add: sent_def out_queue_def out_used_def boot_cio_def boot_sio_def sio_st.defs cio_st.defs sup_st.defs
        boot_sup_def boot_proc_def boot_stk_def boot_que_def que_st.defs stk_st.defs proc_st.defs)
  show ?thesis using cio_newline_not_echoed [OF i, of 10] o by (auto simp: BMASK8_def)
qed

end
