(* ===== verification/Clock.thy ===== *)
theory Clock
  imports Console
begin

text \<open>
  The clock, \<^verbatim>\<open>kernel/clock.c\<close>, built with a status line every five seconds: system time, waking of sleeping
  processes and the time slices.
\<close>

section \<open>State\<close>

record clk_st = cio_st +
  pinwheel :: u32
  pindex :: u32
  system_time :: u32

definition CLOCK_FREQ :: u32 where "CLOCK_FREQ = 1000"
definition PIT_FREQ :: u32 where "PIT_FREQ = 1193182"
definition SYSTEM_STATUS :: u32 where "SYSTEM_STATUS = 5"

definition SEC_TO_TICKS :: "u32 \<Rightarrow> u32" where
  "SEC_TO_TICKS n = n * 1000"

section \<open>Display\<close>

definition clk_pinwheel :: "'z clk_st_scheme \<Rightarrow> kerr + 'z clk_st_scheme" where
  "clk_pinwheel s =
     (let s = s\<lparr>pinwheel := pinwheel s + 1\<rparr> in
      if pinwheel s = CLOCK_FREQ div 10 then
        let s = s\<lparr>pinwheel := 0, pindex := pindex s + 1\<rparr>
        in cio_putchar_at 0 0 (i32_of_char ([124, 47, 45, 92] ! unat (pindex s AND 3))) s
      else Inr s)"

text \<open>The position of a state in the enumeration, and the counts of \<^verbatim>\<open>ptable_dump_stats()\<close> when it is given a table to
  fill. An enumeration value is always one of the eight states, so none is unknown.\<close>

fun state_no :: "state_e \<Rightarrow> nat" where
  "state_no STATE_UNUSED = 0"
| "state_no STATE_NEW = 1"
| "state_no STATE_READY = 2"
| "state_no STATE_RUNNING = 3"
| "state_no STATE_SLEEPING = 4"
| "state_no STATE_BLOCKED = 5"
| "state_no STATE_WAITING = 6"
| "state_no STATE_ZOMBIE = 7"

fun count_states :: "pcb_t list \<Rightarrow> u32 list \<Rightarrow> u32 list" where
  "count_states [] nstate = nstate"
| "count_states (p # ps) nstate =
     count_states ps (let n = state_no (p_state p) in nstate[n := nstate ! n + 1])"

definition ptable_stats :: "'z proc_st_scheme \<Rightarrow> u32 list \<times> u32" where
  "ptable_stats s = (count_states (ptable s) (replicate 8 0), 0)"

definition status_fmt :: "u8 list" where
  "status_fmt = lit '' curr %d, Qs: R[%d,%d,%d] S[%d] Z[%d] B[%d] I[%d] W[%u] ?[%u]''"

text \<open>The process identifier shown for the current process.\<close>

definition curr_pid :: "'z proc_st_scheme \<Rightarrow> kerr + u32" where
  "curr_pid s = (if current s = None then Inr (-1) else kbind (pcb_deref (current s)) (\<lambda>i. Inr (p_pid (ptable s ! i))))"

text \<open>The periodic status line. The local array \<^verbatim>\<open>tbuf\<close> is a memory of its own, with the local array of \<^verbatim>\<open>sprint()\<close>
  at some distance.\<close>

definition clk_queues :: "'z clk_st_scheme \<Rightarrow> kerr + 'z clk_st_scheme" where
  "clk_queues s =
     (let (nst, nunk) = ptable_stats s in
      kbind (curr_pid s) (\<lambda>pid.
      kbind (que_length (ready s ! 0) s) (\<lambda>rh.
      kbind (que_length (ready s ! 1) s) (\<lambda>rs.
      kbind (que_length (ready s ! 2) s) (\<lambda>rl.
      kbind (que_length (sleeping s) s) (\<lambda>sl.
      kbind (que_length (zombie s) s) (\<lambda>z.
      kbind (que_length (blocked s) s) (\<lambda>b.
      kbind (que_length (sioread s) s) (\<lambda>si.
      kbind (sprint 0x1000 0 status_fmt
               [pid, word_of_int rh, word_of_int rs, word_of_int rl, word_of_int sl, word_of_int z, word_of_int b,
                word_of_int si, nst ! 6, nunk] (\<lambda>_. 0)) (\<lambda>tbuf.
        case strlen 0 tbuf of
          None \<Rightarrow> Inl Diverge
        | Some n \<Rightarrow>
            let tbuf = (if n > 60 then tbuf(60 := 32, 61 := 42, 62 := 42, 63 := 0) else tbuf)
            in cio_puts_at 15 0 (cstr 128 tbuf 0) s))))))))))"

definition clk_status :: "'z clk_st_scheme \<Rightarrow> kerr + 'z clk_st_scheme" where
  "clk_status s =
     kbind (cio_printf_at 1 0 (lit '' time %08x'') [Num (system_time s)] s) (\<lambda>s.
       if system_time s mod SEC_TO_TICKS SYSTEM_STATUS = 0 then clk_queues s else Inr s)"

definition clk_display :: "'z clk_st_scheme \<Rightarrow> kerr + 'z clk_st_scheme" where
  "clk_display s = kbind (clk_pinwheel s) clk_status"

section \<open>Interrupt handler\<close>

text \<open>The waking loop; \<open>None\<close> is a loop that does not end.\<close>

partial_function (option) clk_wake :: "'z clk_st_scheme \<Rightarrow> (kerr + 'z clk_st_scheme) option" where
  "clk_wake s =
     (case que_peek (sleeping s) (Some None) s of
        Inl e \<Rightarrow> Some (Inl e)
      | Inr r \<Rightarrow>
          if fst r = E_EMPTY then Some (Inr s)
          else
            let pcb = Option.bind (snd r) id in
            if pcb = None then Some (Inl Panic)
            else if the pcb \<ge> N_PROCS then Some (Inl Undef)
            else if p_wakeup (ptable s ! the pcb) > system_time s then Some (Inr s)
            else
              case kbind (que_remove (sleeping s) (Some pcb) s) (\<lambda>(e, d, s).
                     kbind (kassert (e = E_SUCCESS)) (\<lambda>_. schedule (Option.bind d id) s)) of
                Inl e \<Rightarrow> Some (Inl e)
              | Inr s \<Rightarrow> clk_wake s)"

definition clk_slice :: "'z clk_st_scheme \<Rightarrow> kerr + 'z clk_st_scheme" where
  "clk_slice s =
     kbind (pcb_deref (current s)) (\<lambda>i.
       let s = upd_pcb i (\<lambda>p. p\<lparr>p_quantum := p_quantum p - 1\<rparr>) s in
       if p_quantum (ptable s ! i) < 1 then kbind (schedule (current s) s) dispatch else Inr s)"

definition clk_isr :: "'z clk_st_scheme \<Rightarrow> kerr + 'z clk_st_scheme" where
  "clk_isr s =
     kbind (clk_display s) (\<lambda>s.
       let s = s\<lparr>system_time := system_time s + 1\<rparr> in
       kbind (krun (clk_wake s)) (\<lambda>s.
       kbind (clk_slice s) (\<lambda>s. Inr (outb PIC1_CMD PIC_EOI s))))"

definition clk_init :: "'z clk_st_scheme \<Rightarrow> kerr + 'z clk_st_scheme" where
  "clk_init s =
     (let s = s\<lparr>pinwheel := -1, pindex := 0, system_time := 0\<rparr>;
          divisor = PIT_FREQ div CLOCK_FREQ;
          s = outb 0x43 (0x00 OR 0x30 OR 0x06 OR 0x00) s;
          s = outb 0x40 (ucast (divisor AND 0xff)) s;
          s = outb 0x40 (ucast (drop_bit 8 divisor AND 0xff)) s
      in set_isr VEC_TIMER H_clk s)"


section \<open>Frames\<close>

lemma sched_inv_cong:
  assumes "que_abs s' bs Q = que_abs s bs Q" and "ptable s' = ptable s" and "ready s' = ready s"
    and "sleeping s' = sleeping s" and "zombie s' = zombie s" and "blocked s' = blocked s" and "sioread s' = sioread s"
    and "queues s' = queues s" and "qn s' = qn s" and "free_qnodes s' = free_qnodes s"
    and "queue_free s' = queue_free s"
  shows "sched_inv s' bs Q = sched_inv s bs Q"
  using assms wake_of_cong [of s' s] nodes_ok_cong [of s' s] queues_taken_cong [of s' s] by (simp add: sched_inv_def)

lemma con_frame_sched:
  assumes "con_frame s s'"
  shows "sched_inv s' bs Q = sched_inv s bs Q"
proof -
  note same = con_eraseD [OF assms [unfolded con_frame_def, THEN conjunct1]]
  show ?thesis by (intro sched_inv_cong que_abs_cong) (simp_all add: same)
qed

lemma clk_frames [simp]:
  "sched_inv (s\<lparr>pinwheel := v\<rparr>) bs Q = sched_inv s bs Q" "sched_inv (s\<lparr>pindex := w\<rparr>) bs Q = sched_inv s bs Q"
  "sched_inv (s\<lparr>system_time := t\<rparr>) bs Q = sched_inv s bs Q" "sched_inv (outb p b s) bs Q = sched_inv s bs Q"
  by (intro sched_inv_cong que_abs_cong; simp add: outb_def)+

lemma proc_more:
  assumes "proc_st.more s' = proc_st.more s"
  shows "dup_to_sio s' = dup_to_sio s" and "system_time s' = system_time s" and "scroll_min_x s' = scroll_min_x s"
    and "scroll_min_y s' = scroll_min_y s" and "scroll_max_x s' = scroll_max_x s" and "scroll_max_y s' = scroll_max_y s"
    and "min_x s' = min_x s" and "min_y s' = min_y s" and "max_x s' = max_x s" and "max_y s' = max_y s"
    and "curr_x s' = curr_x s" and "curr_y s' = curr_y s" and "notify s' = notify s"
  using assms by (cases s; cases s'; simp)+

lemma proc_more_inv:
  assumes "proc_st.more s' = proc_st.more (s :: 'z clk_st_scheme)"
  shows "cio_inv s' = cio_inv s"
  unfolding cio_inv_def cio_geom_def proc_more [OF assms] ..

lemma proc_frame_clk: "proc_frame s s' \<Longrightarrow> system_time s' = system_time s"
  unfolding proc_frame_def by (intro proc_more(2)) simp

lemma con_frame_clk: "con_frame s s' \<Longrightarrow> system_time s' = system_time s"
  using con_eraseD(15) [of s' s] by (cases s; cases s') (simp add: con_frame_def)

section \<open>Waking\<close>

lemma que_peek_sched:
  assumes "sched_inv s bs Q" and "i < N_QUEUES"
  shows "que_peek (Some i) (Some v) s = Inr (case Q i of [] \<Rightarrow> (E_EMPTY, Some v) | d # ds \<Rightarrow> (E_SUCCESS, Some d))"
  using que_count_abs [OF sched_invD(1) [OF assms(1)] assms(2)] assms(2)
  by (cases "Q i") (simp_all add: que_peek_def que_deref_def Let_def)

definition prio_of :: "'z proc_st_scheme \<Rightarrow> qdata \<Rightarrow> nat" where
  "prio_of s d = (case d of None \<Rightarrow> 0 | Some j \<Rightarrow> unat (p_priority (ptable s ! j)))"

text \<open>The processes whose time has come at time \<open>t\<close>, and the queues once they are awake: each of them stands at the
  end of the ready queue of its priority, in the order of their wakeup times.\<close>

definition due :: "'z proc_st_scheme \<Rightarrow> u32 \<Rightarrow> (nat \<Rightarrow> qdata list) \<Rightarrow> qdata list" where
  "due s t Q = filter (\<lambda>d. wake_of s d \<le> t) (Q 3)"

definition awake :: "'z proc_st_scheme \<Rightarrow> u32 \<Rightarrow> (nat \<Rightarrow> qdata list) \<Rightarrow> nat \<Rightarrow> qdata list" where
  "awake s t Q k =
     (if k \<le> PRIO_LAST then Q k @ filter (\<lambda>d. prio_of s d = k) (due s t Q)
      else if k = 3 then filter (\<lambda>d. wake_of s d > t) (Q 3)
      else Q k)"

lemma awake_none:
  assumes "sched_inv s bs Q" and "Q 3 = [] \<or> t < wake_of s (hd (Q 3))"
  shows "due s t Q = []" and "awake s t Q = Q"
proof -
  have later: "\<forall>d \<in> set (Q 3). t < wake_of s d"
    using assms by (cases "Q 3") (auto simp: sched_inv_def)
  then show "due s t Q = []" by (auto simp: due_def filter_empty_conv)
  then show "awake s t Q = Q" using later by (auto simp: awake_def fun_eq_iff intro: filter_True)
qed

text \<open>One round of the waking loop.\<close>

lemma clk_wake_step:
  assumes inv: "sched_inv s bs Q" and Q: "Q 3 = d # ds"
  shows "\<exists>s' j. d = Some j \<and> j < N_PROCS \<and> Some j \<notin> set ds \<and>
    kbind (que_remove (sleeping s) (Some d) s) (\<lambda>(e, d, s). kbind (kassert (e = E_SUCCESS)) (\<lambda>_. schedule (Option.bind d id) s)) = Inr s' \<and>
    sched_inv s' bs (Q(3 := ds, prio_of s d := Q (prio_of s d) @ [d])) \<and> prio_of s d \<le> PRIO_LAST \<and>
    ptable s' = (ptable s)[j := (ptable s ! j)\<lparr>p_state := STATE_READY\<rparr>] \<and> current s' = current s \<and> proc_frame s s'"
proof -
  have i3: "3 < N_QUEUES" by (simp add: N_QUEUES_def)
  obtain s1 j where rem: "que_remove (Some 3) (Some d) s = Inr (E_SUCCESS, Some d, s1)" "que_frame s s1"
      "sched_inv s1 bs (Q(3 := ds))" and j: "d = Some j" "j < N_PROCS" "member_ok 3 (ptable s ! j)" "Some j \<notin> set ds"
    using que_remove_sched [OF inv i3 Q, of d] by metis
  have same: "ptable s1 = ptable s" "current s1 = current s" using rem(2) que_more [of s1 s] by (simp_all add: que_frame_def)
  let ?k = "unat (p_priority (ptable s ! j))"
  have st: "p_state (ptable s ! j) = STATE_SLEEPING" "?k \<le> PRIO_LAST" using j(3) by (simp_all add: member_ok_def PRIO_LAST_def)
  have k: "?k \<noteq> 3" using st(2) by (simp add: PRIO_LAST_def)
  have "\<not> queued (Q(3 := ds)) j" by (rule sched_removed [OF inv i3]) (use Q j in simp_all)
  from schedule_run [OF rem(3) j(2) this, of ?k] st(2) same
  obtain s' where s': "schedule (Some j) s1 = Inr s'" "sched_inv s' bs (Q(3 := ds, ?k := (Q(3 := ds)) ?k @ [Some j]))"
    "ptable s' = (ptable s)[j := (ptable s ! j)\<lparr>p_state := STATE_READY\<rparr>]" "current s' = current s" "proc_frame s1 s'" by auto
  have pf: "proc_frame s s'" by (rule proc_frame_trans [OF que_frame_proc [OF rem(2)] s'(5)])
  have "prio_of s d = ?k" by (simp add: prio_of_def j(1))
  then show ?thesis using rem(1) s' pf j st(2) k sched_invD(4) [OF inv]
    by (intro exI [of _ s'] exI [of _ j]) (simp del: fun_upd_apply add: fun_upd_other)
qed

lemma awake_step:
  assumes "Q 3 = d # ds" and "wake_of s d \<le> t" and "prio_of s d = k" "k \<le> PRIO_LAST"
    and "wake_of s' = wake_of s" and "prio_of s' = prio_of s"
  shows "awake s' t (Q(3 := ds, k := Q k @ [d])) = awake s t Q"
    and "due s t Q = d # due s' t (Q(3 := ds, k := Q k @ [d]))"
proof -
  have k: "k \<noteq> 3" using assms(4) by (simp add: PRIO_LAST_def)
  then show due: "due s t Q = d # due s' t (Q(3 := ds, k := Q k @ [d]))" using assms by (simp add: due_def)
  have "\<not> wake_of s d > t" using assms(2) by simp
  show "awake s' t (Q(3 := ds, k := Q k @ [d])) = awake s t Q"
  proof
    fix i
    show "awake s' t (Q(3 := ds, k := Q k @ [d])) i = awake s t Q i"
      unfolding awake_def due using k assms \<open>\<not> wake_of s d > t\<close> by (simp add: due_def PRIO_LAST_def)
  qed
qed

text \<open>The waking loop ends, and has woken exactly the processes whose time has come.\<close>

lemma clk_wake_run:
  assumes "sched_inv s bs Q"
  shows "\<exists>s'. clk_wake s = Some (Inr s') \<and> sched_inv s' bs (awake s (system_time s) Q) \<and> current s' = current s \<and>
    proc_frame s s' \<and> length (ptable s') = length (ptable s) \<and>
    (\<forall>j. ptable s' ! j = (if Some j \<in> set (due s (system_time s) Q) then (ptable s ! j)\<lparr>p_state := STATE_READY\<rparr> else ptable s ! j))"
  using assms
proof (induction "Q 3" arbitrary: s Q)
  case Nil
  from Nil awake_none [OF Nil.prems, of "system_time s"] show ?case
    using que_peek_sched [OF Nil.prems, of 3 None] sched_invD(4) [OF Nil.prems]
    by (subst clk_wake.simps) (simp add: N_QUEUES_def)
next
  case (Cons d ds)
  note Q = Cons.hyps(2) [symmetric]
  obtain s1 j where j: "d = Some j" "j < N_PROCS" "Some j \<notin> set ds"
    and step: "kbind (que_remove (sleeping s) (Some d) s) (\<lambda>(e, d, s). kbind (kassert (e = E_SUCCESS)) (\<lambda>_. schedule (Option.bind d id) s)) = Inr s1"
    and inv: "sched_inv s1 bs (Q(3 := ds, prio_of s d := Q (prio_of s d) @ [d]))" "prio_of s d \<le> PRIO_LAST"
    and pt: "ptable s1 = (ptable s)[j := (ptable s ! j)\<lparr>p_state := STATE_READY\<rparr>]" and cur: "current s1 = current s" "proc_frame s s1"
    using clk_wake_step [OF Cons.prems Q] by blast
  have len: "j < length (ptable s)" using j sched_invD(2) [OF Cons.prems] by simp
  have same: "wake_of s1 = wake_of s" "prio_of s1 = prio_of s" "system_time s1 = system_time s"
    using pt len proc_frame_clk [OF cur(2)]
    by (simp_all add: wake_of_def prio_of_def fun_eq_iff nth_list_update split: option.split)
  have peek: "que_peek (sleeping s) (Some None) s = Inr (E_SUCCESS, Some (Some j))"
    using que_peek_sched [OF Cons.prems, of 3 None] sched_invD(4) [OF Cons.prems] Q j by (simp add: N_QUEUES_def)
  show ?case
  proof (cases "system_time s < wake_of s d")
    case True
    then have "clk_wake s = Some (Inr s)" using peek j by (subst clk_wake.simps) (simp add: wake_of_def)
    then show ?thesis using awake_none [OF Cons.prems, of "system_time s"] True Q Cons.prems by simp
  next
    case False
    let ?Q = "Q(3 := ds, prio_of s d := Q (prio_of s d) @ [d])"
    have "clk_wake s = clk_wake s1" using peek j False step by (subst clk_wake.simps) (simp add: wake_of_def)
    moreover have "ds = ?Q 3" using inv(2) by (auto simp: PRIO_LAST_def)
    from Cons.hyps(1) [OF this inv(1)] obtain s2 where "clk_wake s1 = Some (Inr s2)"
      "sched_inv s2 bs (awake s1 (system_time s1) ?Q)" "current s2 = current s1" "proc_frame s1 s2" "length (ptable s2) = length (ptable s1)"
      and p2: "\<And>i. ptable s2 ! i = (if Some i \<in> set (due s1 (system_time s1) ?Q) then (ptable s1 ! i)\<lparr>p_state := STATE_READY\<rparr> else ptable s1 ! i)"
      by blast
    moreover have aw: "awake s1 (system_time s) ?Q = awake s (system_time s) Q" "due s (system_time s) Q = d # due s1 (system_time s) ?Q"
      using awake_step [of Q d ds s "system_time s" "prio_of s d" s1] Q inv(2) same False by auto
    moreover have "ptable s2 ! i = (if Some i \<in> set (due s (system_time s) Q) then (ptable s ! i)\<lparr>p_state := STATE_READY\<rparr> else ptable s ! i)" for i
      unfolding p2 aw same(3) using j(1) pt len by (auto simp: nth_list_update)
    ultimately show ?thesis using same cur pt by (auto intro: proc_frame_trans)
  qed
qed

section \<open>Falling asleep\<close>

text \<open>Where a process goes in the sleeping queue: after all that wake no later than it does.\<close>

definition sleep_place :: "'z proc_st_scheme \<Rightarrow> qdata \<Rightarrow> qdata list \<Rightarrow> qdata list" where
  "sleep_place s d xs =
     filter (\<lambda>x. wake_of s x \<le> wake_of s d) xs @ d # filter (\<lambda>x. wake_of s x > wake_of s d) xs"

lemma sorted_split:
  fixes w :: "'a \<Rightarrow> 'b :: linorder"
  shows "sorted (map w xs) \<Longrightarrow> takeWhile (\<lambda>x. w x \<le> v) xs = filter (\<lambda>x. w x \<le> v) xs \<and>
    dropWhile (\<lambda>x. w x \<le> v) xs = filter (\<lambda>x. v < w x) xs"
proof (induction xs)
  case (Cons a xs)
  have "filter (\<lambda>x. w x \<le> v) xs = []" "filter (\<lambda>x. v < w x) xs = xs" if "v < w a"
    using that Cons.prems by (auto simp: filter_empty_conv filter_id_conv)
  then show ?case using Cons by auto
qed simp

lemma sleep_place_sorted:
  assumes "sorted (map (wake_of s) xs)"
  shows "sorted (map (wake_of s) (sleep_place s d xs))"
  using assms by (auto simp: sleep_place_def sorted_append sorted_filter)

lemma sleep_orders:
  assumes inv: "sched_inv s bs Q" and j: "j < N_PROCS"
  shows "orders call_compare s 3 (Some j) (Q 3)
    (Some (\<lambda>x. if wake_of s (Some j) < wake_of s x then -1 else if wake_of s (Some j) = wake_of s x then 0 else 1))"
proof -
  have "call_compare COMP_WAKEUP s1 (Some j) x =
      Inr (if wake_of s (Some j) < wake_of s x then -1 else if wake_of s (Some j) = wake_of s x then 0 else 1)"
    if s1: "que_st.more s1 = que_st.more s" and x: "x \<in> set (Q 3)" for s1 x
  proof -
    obtain i where "i < N_PROCS" "x = Some i"
      by (rule sched_members [OF inv _ x]) (auto simp: N_QUEUES_def)
    then show ?thesis using j que_more(1) [OF s1]
      by (simp add: call_compare_def comp_wakeup_def pcb_deref_def wake_of_def)
  qed
  then show ?thesis using sched_invD(9) [OF inv, of 3] by (simp add: orders_def)
qed

lemma sched_sleep:
  assumes inv: "sched_inv s bs Q" and j: "j < N_PROCS" "\<not> queued Q j" and ok: "member_ok 3 (ptable s ! j)"
  shows "\<exists>s'. que_insert call_compare (Some 3) (Some j) s = Inr (E_SUCCESS, s') \<and> que_frame s s' \<and>
    sched_inv s' bs (Q(3 := sleep_place s (Some j) (Q 3)))"
proof -
  note inv' = sched_invD [OF inv] and short = sched_short [OF inv]
  have i3: "3 < N_QUEUES" by (simp add: N_QUEUES_def)
  have sorted: "sorted (map (wake_of s) (Q 3))" and dist: "distinct (Q 3)" "Some j \<notin> set (Q 3)"
    using inv j i3 by (auto simp: sched_inv_def queued_def)
  have cond: "(0 :: int) \<le> (if wake_of s (Some j) < wake_of s x then -1 else if wake_of s (Some j) = wake_of s x then 0 else 1)
      \<longleftrightarrow> wake_of s x \<le> wake_of s (Some j)" for x by auto
  let ?xs = "sleep_place s (Some j) (Q 3)"
  from que_insert_abs [OF inv'(1) i3 sleep_orders [OF inv j(1)] short(3)] short(2)
  obtain s' where run: "que_insert call_compare (Some 3) (Some j) s = Inr (E_SUCCESS, s')" "que_frame s s'"
    and abs: "que_abs s' bs (Q(3 := ?xs))" and nd: "\<And>n. que_nodes s (Suc n) \<Longrightarrow> que_nodes s' n"
    unfolding que_place_def option.case cond sorted_split [OF sorted, THEN conjunct1] sorted_split [OF sorted, THEN conjunct2] sleep_place_def by blast
  have parts: "length ?xs = Suc (length (Q 3))" "set ?xs = insert (Some j) (set (Q 3))" "distinct ?xs"
    using dist sum_length_filter_compl [of "\<lambda>x. wake_of s x \<le> wake_of s (Some j)" "Q 3"]
    by (auto simp: sleep_place_def not_le)
  have "nodes_ok s' (Q(3 := ?xs))"
    by (rule nodes_ok_put [OF _ nd i3 _ short(1)]) (use inv parts(1) in \<open>simp_all add: sched_inv_def\<close>)
  then have "sched_inv s' bs (Q(3 := ?xs))"
    by (intro sched_inv_insert [OF inv abs run(2) i3 parts(2,3) j(1) ok _ _ j(2)] sleep_place_sorted sorted)
  with run show ?thesis by blast
qed

section \<open>Time slices\<close>

text \<open>\<open>running s bs Q c\<close>: the scheduling invariant, with process \<open>c\<close> on the processor and in no queue.\<close>

definition running :: "'z proc_st_scheme \<Rightarrow> blocks \<Rightarrow> (nat \<Rightarrow> qdata list) \<Rightarrow> nat \<Rightarrow> bool" where
  "running s bs Q c \<longleftrightarrow> sched_inv s bs Q \<and> current s = Some c \<and> c < N_PROCS \<and> \<not> queued Q c \<and>
     p_state (ptable s ! c) = STATE_RUNNING \<and> unat (p_priority (ptable s ! c)) \<le> PRIO_LAST"

lemma runningD:
  assumes "running s bs Q c"
  shows "sched_inv s bs Q" and "current s = Some c" and "c < N_PROCS" and "\<not> queued Q c"
    and "p_state (ptable s ! c) = STATE_RUNNING" and "unat (p_priority (ptable s ! c)) \<le> PRIO_LAST"
    and "pcb_deref (current s) = Inr c"
  using assms by (simp_all add: running_def pcb_deref_def)

text \<open>\<open>placed X s Q\<close>: no process is lost. Every entry of the process table outside \<open>X\<close> is free, waits for a child, or stands in a queue.\<close>

definition placed :: "nat set \<Rightarrow> 'z proc_st_scheme \<Rightarrow> (nat \<Rightarrow> qdata list) \<Rightarrow> bool" where
  "placed X s Q \<longleftrightarrow> (\<forall>j < N_PROCS. j \<notin> X \<longrightarrow> p_state (ptable s ! j) \<in> {STATE_UNUSED, STATE_WAITING} \<or> queued Q j)"

lemma placed_mono: "placed X s Q \<Longrightarrow> X \<subseteq> Y \<Longrightarrow> placed Y s Q"
  by (auto simp: placed_def)

lemma placedI:
  assumes "placed X s Q" and "\<And>j. j \<notin> Y \<Longrightarrow> j \<in> X \<Longrightarrow> p_state (ptable s' ! j) \<in> {STATE_UNUSED, STATE_WAITING} \<or> queued Q' j"
    and "\<And>j. j \<notin> Y \<Longrightarrow> j \<notin> X \<Longrightarrow> p_state (ptable s' ! j) = p_state (ptable s ! j) \<or> queued Q' j"
    and "\<And>j. j \<notin> Y \<Longrightarrow> j \<notin> X \<Longrightarrow> queued Q j \<Longrightarrow> queued Q' j"
  shows "placed Y s' Q'"
  unfolding placed_def
proof (intro allI impI)
  fix j
  assume j: "j < N_PROCS" "j \<notin> Y"
  show "p_state (ptable s' ! j) \<in> {STATE_UNUSED, STATE_WAITING} \<or> queued Q' j"
    using assms(1) assms(2-4) [OF j(2)] j(1) unfolding placed_def by (cases "j \<in> X") auto
qed

lemma placed_cong: "ptable s' = ptable s \<Longrightarrow> placed X s' Q = placed X s Q"
  by (simp add: placed_def)

lemma queued_upd: "k < N_QUEUES \<Longrightarrow> queued (Q(k := Q k @ [Some i])) j \<longleftrightarrow> queued Q j \<or> j = i"
  by (auto simp: queued_def)

text \<open>The process that takes the processor when the ready queues are those of \<open>Q\<close>, with the queues without it.\<close>

definition pick :: "(nat \<Rightarrow> qdata list) \<Rightarrow> ((nat \<Rightarrow> qdata list) \<times> nat) option" where
  "pick Q = map_option (\<lambda>k. (Q(k := tl (Q k)), the (hd (Q k)))) (first_ix (\<lambda>k. Q k \<noteq> []) 3)"

lemma dispatch_pick:
  assumes "sched_inv s bs Q"
  shows "case pick Q of None \<Rightarrow> dispatch s = Inl Panic
    | Some (Q', i) \<Rightarrow> \<exists>s'. dispatch s = Inr s' \<and> running s' bs Q' i \<and> proc_frame s s' \<and>
        ptable s' = (ptable s)[i := (ptable s ! i)\<lparr>p_state := STATE_RUNNING, p_quantum := Q_STD\<rparr>] \<and>
        (placed {} s Q \<longrightarrow> placed {i} s' Q')"
proof (cases "first_ix (\<lambda>k. Q k \<noteq> []) 3")
  case None
  then show ?thesis using dispatch_run [OF assms] by (simp add: pick_def)
next
  case (Some k)
  with dispatch_run [OF assms] obtain i s' where r: "Q k ! 0 = Some i" "dispatch s = Inr s'" "current s' = Some i"
    "sched_inv s' bs (Q(k := tl (Q k)))" "\<not> queued (Q(k := tl (Q k))) i" "i < N_PROCS"
    "unat (p_priority (ptable s ! i)) = k" "proc_frame s s'"
    "ptable s' = (ptable s)[i := (ptable s ! i)\<lparr>p_state := STATE_RUNNING, p_quantum := Q_STD\<rparr>]"
    by (auto simp del: fun_upd_apply)
  have k: "k \<le> PRIO_LAST" "Q k \<noteq> []" using Some by (simp_all add: first_ix_Some PRIO_LAST_def)
  moreover have "length (ptable s) = N_PROCS" by (rule sched_invD(2) [OF assms])
  ultimately have "running s' bs (Q(k := tl (Q k))) i" using r unfolding running_def by (simp del: fun_upd_apply)
  moreover have hd: "hd (Q k) = Some i" using r(1) k(2) by (simp add: hd_conv_nth)
  then have "pick Q = Some (Q(k := tl (Q k)), i)" using Some by (simp add: pick_def)
  moreover have "queued (Q(k := tl (Q k))) j" if "queued Q j" "j \<noteq> i" for j
    using that hd k(2) by (cases "Q k") (auto simp: queued_def)
  then have "placed {i} s' (Q(k := tl (Q k)))" if "placed {} s Q"
    by (intro placedI [OF that]) (use r(9) in auto)
  ultimately show ?thesis using r(2,8,9) by (simp del: fun_upd_apply)
qed

lemma pick_some: "k \<le> PRIO_LAST \<Longrightarrow> Q k \<noteq> [] \<Longrightarrow> \<exists>Q' i. pick Q = Some (Q', i)"
  using first_ix_None [of "\<lambda>k. Q k \<noteq> []" 3] by (cases "first_ix (\<lambda>k. Q k \<noteq> []) 3") (auto simp: pick_def PRIO_LAST_def)

text \<open>The decision at the end of a tick, on the queues and the running process alone; \<open>q\<close> and \<open>k\<close> are the quantum and
  the priority of the running process.\<close>

definition slice_end :: "u8 \<Rightarrow> nat \<Rightarrow> (nat \<Rightarrow> qdata list) \<times> nat \<Rightarrow> (nat \<Rightarrow> qdata list) \<times> nat" where
  "slice_end q k a = (case a of (Q, c) \<Rightarrow> if q = 1 then the (pick (Q(k := Q k @ [Some c]))) else (Q, c))"

lemma u8_expired: "(q :: u8) - 1 < 1 \<longleftrightarrow> q = 1"
  by (simp add: word_less_1)

lemma clk_slice_run:
  assumes run: "running s bs Q c"
    and e: "slice_end (p_quantum (ptable s ! c)) (unat (p_priority (ptable s ! c))) (Q, c) = (Q', c')"
  shows "\<exists>s'. clk_slice s = Inr s' \<and> running s' bs Q' c' \<and> proc_frame s s' \<and>
    p_quantum (ptable s' ! c') = (if p_quantum (ptable s ! c) = 1 then Q_STD else p_quantum (ptable s ! c) - 1) \<and>
    (placed {c} s Q \<longrightarrow> placed {c'} s' Q')"
proof -
  note r = runningD [OF run]
  let ?k = "unat (p_priority (ptable s ! c))"
  define s1 where "s1 = upd_pcb c (\<lambda>p. p\<lparr>p_quantum := p_quantum p - 1\<rparr>) s"
  have len: "c < length (ptable s)" using r(3) sched_invD(2) [OF r(1)] by simp
  have inv: "sched_inv s1 bs Q" unfolding s1_def by (rule sched_inv_upd [OF r(1,4)])
  have s1: "p_quantum (ptable s1 ! c) = p_quantum (ptable s ! c) - 1" "unat (p_priority (ptable s1 ! c)) = ?k"
    "p_state (ptable s1 ! c) = STATE_RUNNING" "current s1 = Some c" "proc_frame s s1"
    using len r by (simp_all add: s1_def)
  have pl: "placed {c} s1 Q" if "placed {c} s Q" by (rule placedI [OF that]) (simp_all add: s1_def)
  have "clk_slice s = (if p_quantum (ptable s1 ! c) < 1 then kbind (schedule (current s1) s1) dispatch else Inr s1)"
    unfolding clk_slice_def Let_def r(7) s1_def by simp
  then have code: "clk_slice s = (if p_quantum (ptable s ! c) = 1 then kbind (schedule (Some c) s1) dispatch else Inr s1)"
    unfolding s1(1,4) u8_expired .
  show ?thesis
  proof (cases "p_quantum (ptable s ! c) = 1")
    case False
    then show ?thesis using e code s1 inv r pl by (simp add: slice_end_def running_def)
  next
    case True
    let ?Q = "Q(?k := Q ?k @ [Some c])"
    obtain s2 where s2: "schedule (Some c) s1 = Inr s2" "sched_inv s2 bs ?Q" "proc_frame s1 s2"
        "ptable s2 = (ptable s1)[c := (ptable s1 ! c)\<lparr>p_state := STATE_READY\<rparr>]"
      using schedule_run [OF inv r(3,4) s1(2) r(6)] by blast
    have "?k < N_QUEUES" using r(6) by (simp add: PRIO_LAST_def N_QUEUES_def)
    then have pl2: "placed {} s2 ?Q" if "placed {c} s Q"
      by (intro placedI [OF pl [OF that]]) (simp_all add: queued_upd s2(4) del: fun_upd_apply)
    have "the (pick ?Q) = (Q', c')" using e True by (simp add: slice_end_def)
    moreover have "pick ?Q \<noteq> None" using pick_some [of ?k ?Q] r(6) by auto
    ultimately have p: "pick ?Q = Some (Q', c')" by (cases "pick ?Q") (simp_all del: fun_upd_apply)
    with dispatch_pick [OF s2(2)] obtain s3 where s3: "dispatch s2 = Inr s3" "running s3 bs Q' c'" "proc_frame s2 s3"
      "ptable s3 = (ptable s2)[c' := (ptable s2 ! c')\<lparr>p_state := STATE_RUNNING, p_quantum := Q_STD\<rparr>]"
      "placed {} s2 ?Q \<Longrightarrow> placed {c'} s3 Q'" by auto
    have "c' < length (ptable s2)" using runningD(3) [OF s3(2)] sched_invD(2) [OF s2(2)] by simp
    then show ?thesis
      using True code s2(1) s3 pl2 proc_frame_trans [OF proc_frame_trans [OF s1(5) s2(3)] s3(3)] by simp
  qed
qed

section \<open>Display\<close>

lemma clk_pinwheel_frame:
  assumes "cio_geom s"
  shows "\<exists>t. con_res (\<lambda>x. x) t (clk_pinwheel s) \<and> cio_geom t \<and> dup_to_sio t = dup_to_sio s \<and>
    system_time t = system_time s \<and> (\<forall>bs Q. sched_inv t bs Q = sched_inv s bs Q) \<and> ptable t = ptable s \<and> current t = current s"
proof -
  let ?s = "s\<lparr>pinwheel := pinwheel s + 1\<rparr>"
  let ?t = "s\<lparr>pinwheel := 0, pindex := pindex s + 1\<rparr>"
  have g: "cio_geom ?t" "cio_geom ?s" using assms by (simp_all add: cio_geom_def)
  show ?thesis
  proof (cases "pinwheel s + 1 = CLOCK_FREQ div 10")
    case True
    then have "con_res (\<lambda>x. x) ?t (clk_pinwheel s)"
      using cio_putchar_at_res [OF g(1), of 0 0] by (simp add: clk_pinwheel_def Let_def)
    then show ?thesis using g by (intro exI [of _ ?t]) simp
  next
    case False
    then show ?thesis using g by (intro exI [of _ ?s]) (simp add: clk_pinwheel_def Let_def)
  qed
qed

lemma parg_num_ok: "is_conv ch \<Longrightarrow> ch \<noteq> 115 \<Longrightarrow> parg_text ch (Num v) \<noteq> None"
  by (auto simp: parg_text_def is_conv_def fmt_conv_def split: prod.splits)

lemma status_time_lit: "lit '' time %08x'' = [32, 116, 105, 109, 101, 32, 37, 48, 56, 120]"
  by code_simp

lemma status_time_ok: "fmt_ok (lit '' time %08x'' @ [0]) [Num v]" "10 \<notin> set (lit '' time %08x'')"
  unfolding status_time_lit using parg_num_ok [of 120 v]
  by (simp_all add: fmt_ok.simps fmt_spec_def is_conv_def)

lemma strlen_loop_ends: "m (a + of_nat k) = 0 \<Longrightarrow> \<exists>r. strlen_loop a n m = Some r"
proof (induction k arbitrary: a n)
  case (Suc k)
  then show ?case by (subst strlen_loop.simps) (simp add: add_ac)
qed (simp add: strlen_loop.simps)

lemma strlen_ends: "m d = 0 \<Longrightarrow> \<exists>r. strlen a m = Some r"
  using strlen_loop_ends [of m a "unat (d - a)" 0] by (simp add: strlen_def)

text \<open>A format with decimal conversions only, for at least as many numbers.\<close>

fun dec_fmt :: "u8 list \<Rightarrow> nat \<Rightarrow> bool" where
  "dec_fmt [] n = False"
| "dec_fmt (c # cs) n =
     (if c = 0 then True
      else if c = 37 then (case cs of [] \<Rightarrow> False | d # ds \<Rightarrow> (d = 100 \<or> d = 117) \<and> 0 < n \<and> dec_fmt ds (n - 1))
      else dec_fmt cs n)"

lemma conv_dec:
  assumes "ch = 100 \<or> ch = 117"
  shows "\<exists>len m'. fmt_conv ch buf v m = Some (buf, len, m') \<and> 0 \<le> len"
proof -
  have "unat v < 10 ^ 10" using unsigned_less [of v, where ?'a = nat] by simp
  then have "length (numeral_text 10 (unat v)) \<le> 10" by (intro numeral_text_length) simp_all
  moreover have "length (dec_text (sint v)) \<le> 11"
  proof -
    have "nat (- sint v) < 10 ^ 10" "nat (sint v) < 10 ^ 10" using sint_range [of v] by auto
    then have "length (numeral_text 10 (nat (- sint v))) \<le> 10" "length (numeral_text 10 (nat (sint v))) \<le> 10"
      by (simp_all add: numeral_text_length)
    then show ?thesis by (simp add: dec_text_def)
  qed
  moreover have "0 \<le> sint (word_of_nat n :: u32)" if "n \<le> 11" for n
    using that by (simp add: sint_small unat_of_nat)
  ultimately show ?thesis using assms by (auto simp: fmt_conv_def cvtdec_text cvtuns_text)
qed

lemma sprint_dec:
  "dec_fmt fmt (length ap) \<Longrightarrow> \<exists>r. sprint_loop buf fmt ap dst m = Inr r"
proof (induction "length fmt" arbitrary: fmt ap dst m rule: less_induct)
  case less
  obtain c cs where fmt: "fmt = c # cs" using less.prems by (cases fmt) auto
  show ?case
  proof (cases "c = 37")
    case True
    then obtain d ds v vs where d: "cs = d # ds" "d = 100 \<or> d = 117" "ap = v # vs" "dec_fmt ds (length vs)"
      using less.prems fmt by (cases cs; cases ap) auto
    obtain len m' where conv: "fmt_conv d buf v m = Some (buf, len, m')" "0 \<le> len" using conv_dec [OF d(2)] by blast
    have sp: "fmt_spec cs = Some (False, 32, 0, d, ds)" using d(2) by (auto simp: d(1) fmt_spec_def)
    obtain dst' m'' where pad: "padstr dst buf len 0 False 32 m' = Some (dst', m'')"
      using conv(2) by (cases "padstr_copy (nat len) dst buf m'") (auto simp: padstr_def)
    have "is_conv d" using d(2) by (auto simp: is_conv_def)
    then have "sprint_loop buf fmt ap dst m = sprint_loop buf ds vs dst' m''"
      using True sp conv pad by (subst sprint_loop.simps) (simp add: fmt d(3))
    then show ?thesis using less.hyps [of ds vs dst' m''] d fmt by simp
  next
    case False
    then show ?thesis using less.hyps [of cs ap "dst + 1" "m(dst := c)"] less.prems fmt
      by (subst sprint_loop.simps) (auto split: if_splits)
  qed
qed

lemma status_fmt_ok: "dec_fmt (status_fmt @ [0]) 10"
  by code_simp

lemma que_length_sched:
  assumes "sched_inv s bs Q" and "i < 7"
  shows "que_length (Some i) s = Inr (sint (q_count (queues s ! i)))"
proof -
  have "queue_free s ! i = 0" using assms by (simp add: sched_inv_def queues_taken_def N_QUEUES_def QUE_INUSE_def)
  then show ?thesis using assms(2) by (simp add: que_length_def que_ix_def N_QUEUES_def)
qed

lemma clk_queues_res:
  assumes geom: "cio_geom s" and inv: "sched_inv s bs Q" and cur: "curr_pid s = Inr pid"
  shows "con_res (\<lambda>x. x) s (clk_queues s)"
proof -
  have len: "que_length (Some i) s = Inr (sint (q_count (queues s ! i)))" if "i < 7" for i
    by (rule que_length_sched [OF inv that])
  obtain nst nunk where st: "ptable_stats s = (nst, nunk)" by force
  define ap where "ap = [pid, word_of_int (sint (q_count (queues s ! 0))), word_of_int (sint (q_count (queues s ! 1))),
    word_of_int (sint (q_count (queues s ! 2))), word_of_int (sint (q_count (queues s ! 3))),
    word_of_int (sint (q_count (queues s ! 4))), word_of_int (sint (q_count (queues s ! 5))),
    word_of_int (sint (q_count (queues s ! 6))), nst ! 6, nunk]"
  have "length ap = 10" by (simp add: ap_def)
  then obtain d m where sp: "sprint_loop 0x1000 (status_fmt @ [0]) ap 0 (\<lambda>_. 0) = Inr (d, m)"
    using sprint_dec [of "status_fmt @ [0]" ap] status_fmt_ok by fastforce
  obtain n where n: "strlen 0 (m(d := 0)) = Some n" using strlen_ends [of "m(d := 0)" d 0] by auto
  have "\<exists>str. clk_queues s = cio_puts_at 15 0 str s"
    unfolding clk_queues_def st cur sched_invD(3-7) [OF inv]
    using sp [unfolded ap_def] n by (simp add: len sprint_def Let_def) blast
  then show ?thesis using cio_puts_at_res [OF geom] by metis
qed

lemma curr_pid_frame: "con_frame s x \<Longrightarrow> curr_pid x = curr_pid s"
  using con_eraseD(24,25) [of x s] by (simp add: con_frame_def curr_pid_def cong: if_cong)

lemma clk_status_res:
  assumes geom: "cio_geom s" and inv: "sched_inv s bs Q" and cur: "curr_pid s = Inr pid"
  shows "con_res (\<lambda>x. x) s (clk_status s)"
  unfolding clk_status_def
proof (rule con_res_bind)
  show "con_res (\<lambda>x. x) s (cio_printf_at 1 0 (lit '' time %08x'') [Num (system_time s)] s)"
    by (rule cio_printf_at_res [OF geom status_time_ok(1) _ status_time_ok(2)]) simp
  fix x
  assume fr: "con_frame s x"
  have "curr_pid x = Inr pid" using cur curr_pid_frame [OF fr] by simp
  then show "con_res (\<lambda>x. x) x (if system_time x mod SEC_TO_TICKS SYSTEM_STATUS = 0 then clk_queues x else Inr x)"
    using clk_queues_res [of x] geom inv con_frame_geom [OF fr] con_frame_sched [OF fr] by simp
qed

text \<open>The display routines leave the scheduler and the time alone, and return unless the serial echo fails.\<close>

lemma clk_display_run:
  assumes geom: "cio_geom s" and run: "running s bs Q c"
  shows "clk_display s = Inr s' \<Longrightarrow> running s' bs Q c \<and> system_time s' = system_time s \<and> ptable s' = ptable s"
    and "dup_to_sio s = 0 \<Longrightarrow> \<exists>s'. clk_display s = Inr s'"
proof -
  note r = runningD [OF run]
  obtain t where t: "con_res (\<lambda>x. x) t (clk_pinwheel s)" "cio_geom t" "dup_to_sio t = dup_to_sio s"
    "system_time t = system_time s" "sched_inv t bs Q" "ptable t = ptable s" "current t = current s"
    using clk_pinwheel_frame [OF geom] r(1) by blast
  have pid: "curr_pid t = Inr (p_pid (ptable s ! c))" using t(6,7) r(2,7) by (simp add: curr_pid_def)
  have "con_res (\<lambda>x. x) t (clk_display s)"
    unfolding clk_display_def
  proof (rule con_res_bind [OF t(1)])
    fix x
    assume fr: "con_frame t x"
    then have "curr_pid x = Inr (p_pid (ptable s ! c))" using pid curr_pid_frame [OF fr] by simp
    then show "con_res (\<lambda>x. x) x (clk_status x)"
      by (intro clk_status_res) (use t con_frame_geom [OF fr] con_frame_sched [OF fr] in auto)
  qed
  note res = this
  show "\<exists>s'. clk_display s = Inr s'" if "dup_to_sio s = 0" by (rule con_res_returns [OF res]) (simp add: t(3) that)
  show "running s' bs Q c \<and> system_time s' = system_time s \<and> ptable s' = ptable s" if d: "clk_display s = Inr s'"
  proof -
    have fr: "con_frame t s'" by (rule con_resD [OF res d])
    show ?thesis
      using r t con_eraseD(24,25) [OF fr [unfolded con_frame_def, THEN conjunct1]] con_frame_sched [OF fr] con_frame_clk [OF fr]
      by (simp add: running_def)
  qed
qed

section \<open>Correctness of the clock interrupt\<close>

lemma running_frames [simp]:
  "running (s\<lparr>system_time := t\<rparr>) bs Q c = running s bs Q c" "running (outb p b s) bs Q c = running s bs Q c"
  by (simp_all add: running_def) (simp add: outb_def)

lemma due_time [simp]: "due (s\<lparr>system_time := u\<rparr>) t Q = due s t Q" "awake (s\<lparr>system_time := u\<rparr>) t Q = awake s t Q"
proof -
  have w: "wake_of (s\<lparr>system_time := u\<rparr>) = wake_of s" by (rule wake_of_cong) simp
  have p: "prio_of (s\<lparr>system_time := u\<rparr>) = prio_of s" by (simp add: prio_of_def fun_eq_iff split: option.split)
  show "due (s\<lparr>system_time := u\<rparr>) t Q = due s t Q" by (simp add: due_def w)
  then show "awake (s\<lparr>system_time := u\<rparr>) t Q = awake s t Q" by (simp add: awake_def fun_eq_iff w p)
qed

lemma due_cong: "ptable s' = ptable s \<Longrightarrow> due s' t Q = due s t Q \<and> awake s' t Q = awake s t Q"
  using wake_of_cong [of s' s] by (simp add: due_def awake_def fun_eq_iff prio_of_def split: option.split)

lemma not_due: "running s bs Q c \<Longrightarrow> Some c \<notin> set (due s t Q)"
  by (auto simp: running_def queued_def due_def N_QUEUES_def)

lemma not_awake_queued:
  assumes "running s bs Q c"
  shows "\<not> queued (awake s t Q) c"
proof
  assume "queued (awake s t Q) c"
  then obtain k where "k < N_QUEUES" "Some c \<in> set (awake s t Q k)" by (auto simp: queued_def)
  then have "Some c \<in> set (Q k) \<or> Some c \<in> set (Q 3)" by (auto simp: awake_def due_def split: if_splits)
  then show False using assms \<open>k < N_QUEUES\<close> by (auto simp: running_def queued_def N_QUEUES_def)
qed

lemma queued_awake:
  assumes inv: "sched_inv s bs Q" and j: "queued Q j"
  shows "queued (awake s t Q) j"
proof -
  obtain k where k: "k < N_QUEUES" "Some j \<in> set (Q k)" using j by (auto simp: queued_def)
  show ?thesis
  proof (cases "k = 3 \<and> wake_of s (Some j) \<le> t")
    case True
    then have d: "Some j \<in> set (due s t Q)" using k by (simp add: due_def)
    obtain i where "Some j = Some i" "member_ok 3 (ptable s ! i)" using sched_members [OF inv k] True by blast
    then have "prio_of s (Some j) \<le> PRIO_LAST" by (simp add: prio_of_def member_ok_def)
    moreover from this have "prio_of s (Some j) < N_QUEUES" by (simp add: PRIO_LAST_def N_QUEUES_def)
    ultimately show ?thesis using d unfolding queued_def by (intro exI [of _ "prio_of s (Some j)"]) (simp add: awake_def)
  next
    case False
    then have "Some j \<in> set (awake s t Q k)" using k by (auto simp: awake_def)
    then show ?thesis using k(1) by (auto simp: queued_def)
  qed
qed

lemma awake_placed:
  assumes "sched_inv s bs Q" and "placed X s Q"
    and "\<And>j. ptable s' ! j = (if Some j \<in> set (due s t Q) then (ptable s ! j)\<lparr>p_state := STATE_READY\<rparr> else ptable s ! j)"
  shows "placed X s' (awake s t Q)"
proof (rule placedI [OF assms(2)])
  fix j
  have "queued Q j" if "Some j \<in> set (due s t Q)" using that by (auto simp: due_def queued_def N_QUEUES_def intro: exI [of _ 3])
  then show "p_state (ptable s' ! j) = p_state (ptable s ! j) \<or> queued (awake s t Q) j"
    using assms(3) queued_awake [OF assms(1)] by auto
qed (simp_all add: queued_awake [OF assms(1)])

text \<open>What a tick does to the queues and the running process, as a function of the time and the process table.\<close>

definition tick :: "'z clk_st_scheme \<Rightarrow> (nat \<Rightarrow> qdata list) \<times> nat \<Rightarrow> (nat \<Rightarrow> qdata list) \<times> nat" where
  "tick s a = (case a of (Q, c) \<Rightarrow>
     slice_end (p_quantum (ptable s ! c)) (unat (p_priority (ptable s ! c))) (awake s (system_time s + 1) Q, c))"

lemma clk_isr_run:
  assumes geom: "cio_geom s" and run: "running s bs Q c" and d: "clk_display s = Inr s1" and e: "tick s (Q, c) = (Q', c')"
  shows "\<exists>s'. clk_isr s = Inr s' \<and> running s' bs Q' c' \<and> system_time s' = system_time s + 1 \<and>
    p_quantum (ptable s' ! c') = (if p_quantum (ptable s ! c) = 1 then Q_STD else p_quantum (ptable s ! c) - 1) \<and>
    proc_st.more s' = proc_st.more (s1\<lparr>system_time := system_time s1 + 1\<rparr>) \<and> (placed {c} s Q \<longrightarrow> placed {c'} s' Q')"
proof -
  let ?t = "system_time s + 1" and ?s1 = "s1\<lparr>system_time := system_time s1 + 1\<rparr>"
  have r1: "running s1 bs Q c" "system_time s1 = system_time s" "ptable s1 = ptable s"
    using clk_display_run(1) [OF geom run d] by simp_all
  have r1': "running ?s1 bs Q c" using r1(1) by simp
  have st: "system_time ?s1 = ?t" "ptable ?s1 = ptable s" using r1 by simp_all
  note cong = due_cong [OF st(2), of ?t Q]
  obtain s2 where s2: "clk_wake ?s1 = Some (Inr s2)" "sched_inv s2 bs (awake s ?t Q)" "current s2 = current ?s1" "proc_frame ?s1 s2"
    and p2: "\<forall>j. ptable s2 ! j = (if Some j \<in> set (due s ?t Q) then (ptable s ! j)\<lparr>p_state := STATE_READY\<rparr> else ptable s ! j)"
    using clk_wake_run [OF runningD(1) [OF r1']] unfolding st cong [THEN conjunct1] cong [THEN conjunct2] by blast
  have t2: "system_time s2 = ?t" using proc_frame_clk [OF s2(4)] st(1) by simp
  have same: "ptable s2 ! c = ptable s ! c" using p2 not_due [OF run, of ?t] by simp
  have "running s2 bs (awake s ?t Q) c"
    using s2(2,3) runningD [OF r1(1)] r1(3) same not_awake_queued [OF run, of ?t] by (simp add: running_def)
  moreover have "slice_end (p_quantum (ptable s2 ! c)) (unat (p_priority (ptable s2 ! c))) (awake s ?t Q, c) = (Q', c')"
    using e by (simp add: tick_def same)
  ultimately obtain s3 where s3: "clk_slice s2 = Inr s3" "running s3 bs Q' c'" "proc_frame s2 s3"
    "p_quantum (ptable s3 ! c') = (if p_quantum (ptable s ! c) = 1 then Q_STD else p_quantum (ptable s ! c) - 1)"
    "placed {c} s2 (awake s ?t Q) \<Longrightarrow> placed {c'} s3 Q'"
    using clk_slice_run [of s2 bs "awake s ?t Q" c Q' c'] same by auto
  have "clk_isr s = Inr (outb PIC1_CMD PIC_EOI s3)" using d s2(1) s3(1) by (simp add: clk_isr_def Let_def)
  moreover have "running (outb PIC1_CMD PIC_EOI s3) bs Q' c'" using s3(2) by simp
  moreover have "system_time (outb PIC1_CMD PIC_EOI s3) = ?t" "ptable (outb PIC1_CMD PIC_EOI s3) = ptable s3"
    using t2 proc_frame_clk [OF s3(3)] by (simp_all add: outb_def)
  moreover have "proc_st.more (outb PIC1_CMD PIC_EOI s3) = proc_st.more ?s1"
    using s3(3) s2(4) by (simp add: proc_frame_def outb_def)
  moreover have "placed {c'} (outb PIC1_CMD PIC_EOI s3) Q'" if "placed {c} s Q"
    using s3(5) [OF awake_placed [OF runningD(1) [OF run] that p2 [rule_format]]] placed_cong [of "outb PIC1_CMD PIC_EOI s3" s3]
    by (simp add: outb_def)
  ultimately show ?thesis using s3(4) by auto
qed

text \<open>A state of the whole machine after the process module has been initialized.\<close>

definition boot_clk :: clk_st where
  "boot_clk = cio_st.extend boot_cio (clk_st.fields (-1) 0 0)"

lemma boot_clk_abs: "kmem_abs boot_clk [(0x100000, 4)]"
  using kmem_abs_single [of boot_clk "0x100000" 4]
  by (simp add: boot_clk_def boot_cio_def boot_sio_def boot_sup_def boot_proc_def boot_stk_def boot_que_def que_st.defs stk_st.defs
      proc_st.defs sup_st.defs sio_st.defs cio_st.defs clk_st.defs)

lemma boot_running:
  fixes pt :: "pcb_t list"
  assumes "length pt = N_PROCS" and "p_state (pt ! 0) = STATE_RUNNING" and "unat (p_priority (pt ! 0)) \<le> PRIO_LAST"
  obtains s :: clk_st where "running s [(0x101000, 3)] (\<lambda>_. []) 0" and "ptable s = pt" and "cio_inv s" and "dup_to_sio s = 0"
    and "system_time s = 0" and "notify s = None"
proof -
  obtain s :: clk_st where s: "que_abs s [(0x101000, 3)] (\<lambda>_. [])" "queue_free s = replicate N_QUEUES QUE_FREE"
      "map q_compare (queues s) = replicate N_QUEUES None" "que_nodes s 512" "que_st.more s = que_st.more boot_clk"
    using que_init_abs [OF boot_clk_abs] by auto
  obtain s1 where s1: "sched_inv s1 [(0x101000, 3)] (\<lambda>_. [])" "proc_st.more s1 = proc_st.more s"
    using pcb_init_run [OF s(1-4)] by auto
  have more: "proc_st.more s1 = proc_st.more boot_clk" using s1(2) que_more(11) [OF s(5)] by simp
  note f = proc_more_inv [OF more] proc_more(1,2,13) [OF more]
  have b: "dup_to_sio boot_clk = 0" "system_time boot_clk = 0" "cio_inv boot_clk" "notify boot_clk = None"
    by (simp_all add: boot_clk_def boot_cio_def cio_inv_def cio_geom_def boot_sio_def sio_st.defs cio_st.defs sup_st.defs clk_st.defs)
  let ?s = "s1\<lparr>ptable := pt, current := Some 0\<rparr>"
  have "que_abs ?s [(0x101000, 3)] (\<lambda>_. [])" using s1(1) que_abs_cong [of ?s s1] by (simp add: sched_inv_def)
  then have "sched_inv ?s [(0x101000, 3)] (\<lambda>_. [])"
    using s1(1) assms(1) nodes_ok_cong [of ?s s1] queues_taken_cong [of ?s s1] by (simp add: sched_inv_def)
  then have "running ?s [(0x101000, 3)] (\<lambda>_. []) 0" using assms by (simp add: running_def N_PROCS_def)
  then show thesis using f b by (intro that [of ?s]) (simp_all add: cio_inv_def cio_geom_def)
qed


text \<open>C8. The waking loop of the clock interrupt ends, and the processes whose wakeup time has come, no others, stand at the
  end of the ready queues of their priorities in the order of their wakeup times, marked ready; the rest of the
  process table is as before.\<close>

theorem clk_wakes_due:
  assumes "sched_inv s bs Q"
  shows "\<exists>s'. clk_wake s = Some (Inr s') \<and> sched_inv s' bs (awake s (system_time s) Q) \<and> current s' = current s \<and>
    (\<forall>j. ptable s' ! j = (if Some j \<in> set (due s (system_time s) Q) then (ptable s ! j)\<lparr>p_state := STATE_READY\<rparr> else ptable s ! j))"
  using clk_wake_run [OF assms] by blast

text \<open>C7. The clock interrupt: the time advances by one tick, the processes that are due wake up, and the running
  process goes on with one tick less, unless its quantum is used up; then it is appended to the ready queue of
  its priority and the head of the highest-priority ready queue takes the processor with a full quantum. So the
  handler refines \<open>tick\<close>, which works on the queues and the running process alone, and it returns whenever what it displays
  can be displayed, in particular when the console is not echoed to the serial line.\<close>

theorem clk_isr_refines_tick:
  assumes "cio_geom s" and "running s bs Q c" and "tick s (Q, c) = (Q', c')"
    and "dup_to_sio s = 0 \<or> (\<exists>s1. clk_display s = Inr s1)"
  shows "\<exists>s'. clk_isr s = Inr s' \<and> running s' bs Q' c' \<and> system_time s' = system_time s + 1 \<and>
    p_quantum (ptable s' ! c') = (if p_quantum (ptable s ! c) = 1 then Q_STD else p_quantum (ptable s ! c) - 1)"
  using clk_display_run(2) [OF assms(1,2)] assms(4) clk_isr_run [OF assms(1,2) _ assms(3)] by blast

text \<open>Process 1 is asleep until tick 1 while process 0, in its last tick, is running.\<close>

definition nap_table :: "pcb_t list" where
  "nap_table = [zero_pcb\<lparr>p_state := STATE_RUNNING, p_quantum := 1\<rparr>, zero_pcb\<lparr>p_state := STATE_SLEEPING, p_wakeup := 1, p_pid := 7\<rparr>]
     @ replicate 23 zero_pcb"

lemma napping:
  obtains s :: clk_st where "running s [(0x101000, 3)] ((\<lambda>_. [])(3 := [Some 1])) 0" and "ptable s = nap_table"
    and "cio_inv s" and "dup_to_sio s = 0" and "system_time s = 0"
proof -
  obtain s :: clk_st where s: "running s [(0x101000, 3)] (\<lambda>_. []) 0" "ptable s = nap_table" "cio_inv s" "dup_to_sio s = 0"
    "system_time s = 0"
    by (rule boot_running [of nap_table]) (simp_all add: nap_table_def zero_pcb_def N_PROCS_def)
  have "member_ok 3 (ptable s ! 1)" by (simp add: s(2) nap_table_def zero_pcb_def member_ok_def PRIO_LAST_def)
  from sched_sleep [OF runningD(1) [OF s(1)] _ _ this] obtain s' where s': "que_frame s s'"
    "sched_inv s' [(0x101000, 3)] ((\<lambda>_. [])(3 := [Some 1]))"
    by (auto simp: N_PROCS_def sleep_place_def)
  have more: "que_st.more s' = que_st.more s" using s'(1) by (simp add: que_frame_def)
  have "running s' [(0x101000, 3)] ((\<lambda>_. [])(3 := [Some 1])) 0"
    using runningD [OF s(1)] s'(2) que_more [OF more] by (auto simp: running_def queued_def)
  then show thesis using s que_more(1) [OF more] proc_more_inv [OF que_more(11) [OF more]] proc_more(1,2) [OF que_more(11) [OF more]]
    by (intro that [of s']) simp_all
qed

theorem clk_wakes_due_witness:
  "\<exists>(s :: clk_st) s'. system_time s = 1 \<and> clk_wake s = Some (Inr s') \<and> p_state (ptable s' ! 1) = STATE_READY"
proof -
  obtain s :: clk_st where s: "running s [(0x101000, 3)] ((\<lambda>_. [])(3 := [Some 1])) 0" "ptable s = nap_table" by (rule napping)
  let ?s = "s\<lparr>system_time := 1\<rparr>"
  have "sched_inv ?s [(0x101000, 3)] ((\<lambda>_. [])(3 := [Some 1]))" using runningD(1) [OF s(1)] by simp
  from clk_wakes_due [OF this] obtain s' where s': "clk_wake ?s = Some (Inr s')"
    and p: "\<forall>j. ptable s' ! j = (if Some j \<in> set (due ?s (system_time ?s) ((\<lambda>_. [])(3 := [Some 1])))
      then (ptable ?s ! j)\<lparr>p_state := STATE_READY\<rparr> else ptable ?s ! j)" by blast
  have "p_state (ptable s' ! 1) = STATE_READY"
    using spec [OF p, of 1] s(2) by (simp add: due_def wake_of_def nap_table_def)
  then show ?thesis using s' by (intro exI [of _ ?s] exI [of _ s']) simp
qed

theorem clk_isr_refines_tick_witness:
  "\<exists>(s :: clk_st) s'. clk_isr s = Inr s' \<and> current s = Some 0 \<and> current s' = Some 1 \<and> p_quantum (ptable s' ! 1) = Q_STD"
proof -
  let ?Q = "(\<lambda>_. [])(3 := [Some 1])"
  obtain s :: clk_st where s: "running s [(0x101000, 3)] ?Q 0" "ptable s = nap_table" "cio_inv s" "dup_to_sio s = 0"
    "system_time s = 0" by (rule napping)
  have g: "cio_geom s" using s(3) by (simp add: cio_inv_def)
  have aw: "awake s 1 ?Q = (\<lambda>_. [])(0 := [Some 1])"
    by (auto simp: awake_def due_def wake_of_def prio_of_def s(2) nap_table_def zero_pcb_def fun_eq_iff PRIO_LAST_def)
  have fi: "first_ix (\<lambda>k. ((\<lambda>_. [])(0 := [Some 1, Some (0 :: nat)])) k \<noteq> []) 3 = Some 0" unfolding first_ix_Some by simp
  have pk: "pick ((\<lambda>_. [])(0 := [Some 1, Some 0])) = Some ((\<lambda>_. [])(0 := [Some 0]), 1)" unfolding pick_def fi by simp
  have "tick s (?Q, 0) = the (pick ((awake s 1 ?Q)(0 := awake s 1 ?Q 0 @ [Some 0])))"
    by (simp add: tick_def s(5) slice_end_def s(2) nap_table_def zero_pcb_def)
  also have "(awake s 1 ?Q)(0 := awake s 1 ?Q 0 @ [Some 0]) = (\<lambda>_. [])(0 := [Some 1, Some 0])" unfolding aw by simp
  finally have "tick s (?Q, 0) = ((\<lambda>_. [])(0 := [Some 0]), 1)" unfolding pk option.sel .
  from clk_isr_refines_tick [OF g s(1) this] s(4) runningD(2) [OF s(1)] show ?thesis
    by (auto dest: runningD(2) simp: s(2) nap_table_def)
qed

end
