(* ===== verification/Contexts.thy ===== *)
theory Contexts
  imports Clock
begin

text \<open>
  Access to the saved context of a process: the macros \<^verbatim>\<open>REG\<close>, \<^verbatim>\<open>RET\<close> and \<^verbatim>\<open>ARG\<close> of \<^verbatim>\<open>include/kdefs.h\<close>. The context is
  a \<^verbatim>\<open>context_t\<close> in memory at the address in the process control block; the arguments of a system call are
  the longwords that follow it.
\<close>

definition REG :: "nat \<Rightarrow> u32 \<Rightarrow> 'z proc_st_scheme \<Rightarrow> u32" where
  "REG i x s = load32 (mem s) (p_context (ptable s ! i) + x)"

definition set_REG :: "nat \<Rightarrow> u32 \<Rightarrow> u32 \<Rightarrow> 'z proc_st_scheme \<Rightarrow> 'z proc_st_scheme" where
  "set_REG i x v s = poke32 (p_context (ptable s ! i) + x) v s"

definition set_RET :: "nat \<Rightarrow> u32 \<Rightarrow> 'z proc_st_scheme \<Rightarrow> 'z proc_st_scheme" where
  "set_RET i v s = set_REG i ctx_eax v s"

definition ARG_ADDR :: "nat \<Rightarrow> u32 \<Rightarrow> 'z proc_st_scheme \<Rightarrow> u32" where
  "ARG_ADDR i n s = p_context (ptable s ! i) + SZ_CONTEXT + 4 * n"

definition ARG :: "nat \<Rightarrow> u32 \<Rightarrow> 'z proc_st_scheme \<Rightarrow> u32" where
  "ARG i n s = load32 (mem s) (ARG_ADDR i n s)"

section \<open>What writing into a context leaves alone\<close>

lemma sched_inv_mem [simp]: "sched_inv (s\<lparr>mem := m\<rparr>) bs Q = sched_inv s bs Q"
  by (intro sched_inv_cong que_abs_cong; simp)

lemma sched_inv_stacks [simp]: "sched_inv (s\<lparr>free_stacks := v\<rparr>) bs Q = sched_inv s bs Q"
  by (intro sched_inv_cong que_abs_cong; simp)

lemma poke32_fields [simp]:
  "ptable (poke32 a v s) = ptable s" "current (poke32 a v s) = current s" "init_pcb (poke32 a v s) = init_pcb s"
  "free_stacks (poke32 a v s) = free_stacks s" "next_pid (poke32 a v s) = next_pid s" "zombie (poke32 a v s) = zombie s"
  "system_time (poke32 a v s') = system_time s'" "sched_inv (poke32 a v s) bs Q = sched_inv s bs Q"
  "running (poke32 a v s) bs Q c = running s bs Q c"
  by (simp_all add: poke32_def running_def)

lemma set_RET_fields [simp]:
  "ptable (set_RET i v s) = ptable s" "current (set_RET i v s) = current s" "init_pcb (set_RET i v s) = init_pcb s"
  "free_stacks (set_RET i v s) = free_stacks s" "next_pid (set_RET i v s) = next_pid s" "zombie (set_RET i v s) = zombie s"
  "system_time (set_RET i v s') = system_time s'" "sched_inv (set_RET i v s) bs Q = sched_inv s bs Q"
  "running (set_RET i v s) bs Q c = running s bs Q c"
  "mem (set_RET i v s) = store32 (mem s) (p_context (ptable s ! i) + ctx_eax) v"
  by (simp_all add: set_RET_def set_REG_def)

lemma RET_set_RET [simp]: "REG i ctx_eax (set_RET i v s) = v"
  by (simp add: REG_def)

text \<open>The result register of a process and a longword elsewhere.\<close>

lemma RET_poke32_other: "apart4 a (p_context (ptable s ! c) + ctx_eax) \<Longrightarrow> REG c ctx_eax (poke32 a v s) = REG c ctx_eax s"
  by (simp add: REG_def load32_store32_other)

end
