(* ===== verification/Syscalls.thy ===== *)
theory Syscalls
  imports Contexts
begin

text \<open>
  The system calls, \<^verbatim>\<open>kernel/syscalls.c\<close>. Every handler takes the index of the calling process in the process table
  and works on the whole state; values go back to the user through the saved context of the process.
\<close>

section \<open>Constants\<close>

definition S_ERROR :: u32 where "S_ERROR = -1"
definition S_NOT_FOUND :: u32 where "S_NOT_FOUND = -2"
definition S_BAD_SYSCALL :: u32 where "S_BAD_SYSCALL = -3"
definition S_NO_CHILD :: u32 where "S_NO_CHILD = -4"
definition S_BAD_CHAN :: u32 where "S_BAD_CHAN = -5"
definition CHAN_CIO :: u32 where "CHAN_CIO = 0"
definition CHAN_SIO :: u32 where "CHAN_SIO = 1"
definition N_SYSCALLS :: int where "N_SYSCALLS = 10"
definition SYS_exit :: int where "SYS_exit = 0"

section \<open>Termination of processes\<close>

definition status_return :: "nat option \<Rightarrow> nat option \<Rightarrow> 'z proc_st_scheme \<Rightarrow> kerr + 'z proc_st_scheme" where
  "status_return parent child s =
     kbind (kassert (parent \<noteq> None)) (\<lambda>_.
     kbind (kassert (child \<noteq> None)) (\<lambda>_.
     kbind (pcb_deref parent) (\<lambda>p.
     kbind (pcb_deref child) (\<lambda>c.
       let s = set_RET p (p_pid (ptable s ! c)) s;
           ptr = ARG p 1 s
       in Inr (if ptr \<noteq> NULL then poke32 ptr (p_status (ptable s ! c)) s else s)))))"

text \<open>The loop of \<^verbatim>\<open>sys_exit()\<close> that gives the children of the process to \<^verbatim>\<open>init\<close>, with \<^verbatim>\<open>for_init\<close>; \<open>None\<close> is a loop that
  does not end.\<close>

partial_function (option) reparent ::
    "nat \<Rightarrow> nat option \<Rightarrow> 'z proc_st_scheme \<Rightarrow> (kerr + nat option \<times> 'z proc_st_scheme) option" where
  "reparent pcb for_init s =
     (case pcb_find_child_of (Some pcb) s of
        Inl e \<Rightarrow> Some (Inl e)
      | Inr None \<Rightarrow> Some (Inr (for_init, s))
      | Inr (Some i) \<Rightarrow>
          if p_parent (ptable s ! i) \<noteq> Some pcb then Some (Inl Panic)
          else
            let s = upd_pcb i (\<lambda>p. p\<lparr>p_parent := init_pcb s\<rparr>) s
            in reparent pcb (if p_state (ptable s ! i) = STATE_ZOMBIE then Some i else for_init) s)"

text \<open>The part of \<^verbatim>\<open>sys_exit()\<close> that lets a waiting \<^verbatim>\<open>init\<close> collect a child that has already terminated.\<close>

definition exit_for_init :: "nat option \<Rightarrow> 'z proc_st_scheme \<Rightarrow> kerr + 'z proc_st_scheme" where
  "exit_for_init for_init s =
     (if for_init = None then Inr s
      else
        kbind (pcb_deref (init_pcb s)) (\<lambda>k.
          if p_state (ptable s ! k) = STATE_WAITING then
            kbind (que_remove_by (zombie s) for_init s) (\<lambda>(e, s).
            kbind (kassert (e = E_SUCCESS)) (\<lambda>_.
            kbind (status_return (init_pcb s) for_init s) (\<lambda>s.
            kbind (schedule (init_pcb s) s) (\<lambda>s. pcb_cleanup for_init s))))
          else Inr s))"

text \<open>The last part: the parent is told, or the process becomes a zombie.\<close>

definition exit_parent :: "nat \<Rightarrow> nat \<Rightarrow> 'z proc_st_scheme \<Rightarrow> kerr + 'z proc_st_scheme" where
  "exit_parent parent pcb s =
     (if p_state (ptable s ! parent) = STATE_WAITING then
        kbind (status_return (Some parent) (Some pcb) s) (\<lambda>s.
        kbind (schedule (Some parent) s) (\<lambda>s. pcb_cleanup (Some pcb) s))
      else pcb_zombify (Some pcb) s)"

definition sys_exit :: "nat \<Rightarrow> 'z proc_st_scheme \<Rightarrow> kerr + 'z proc_st_scheme" where
  "sys_exit pcb s =
     (let parent = p_parent (ptable s ! pcb) in
      kbind (kassert (parent \<noteq> None)) (\<lambda>_.
      kbind (pcb_deref parent) (\<lambda>k.
      kbind (kassert (p_state (ptable s ! k) \<noteq> STATE_UNUSED)) (\<lambda>_.
      kbind (kassert (parent \<noteq> Some pcb)) (\<lambda>_.
        let s = upd_pcb pcb (\<lambda>p. p\<lparr>p_status := ARG pcb 1 s\<rparr>) s in
        kbind (krun (reparent pcb None s)) (\<lambda>(for_init, s).
        kbind (exit_for_init for_init s) (\<lambda>s.
        kbind (exit_parent k pcb s) dispatch)))))))"

text \<open>The search of \<^verbatim>\<open>sys_wait()\<close>: the number of children seen and the zombie found.\<close>

fun find_zombie :: "nat \<Rightarrow> nat list \<Rightarrow> int \<Rightarrow> 'z proc_st_scheme \<Rightarrow> int \<times> nat option" where
  "find_zombie pcb [] nkids s = (nkids, None)"
| "find_zombie pcb (i # is) nkids s =
     (if i \<noteq> pcb \<and> p_parent (ptable s ! i) = Some pcb \<and> p_state (ptable s ! i) \<noteq> STATE_UNUSED then
        if p_state (ptable s ! i) = STATE_ZOMBIE then (nkids + 1, Some i) else find_zombie pcb is (nkids + 1) s
      else find_zombie pcb is nkids s)"

definition sys_wait :: "nat \<Rightarrow> 'z proc_st_scheme \<Rightarrow> kerr + 'z proc_st_scheme" where
  "sys_wait pcb s =
     (let (nkids, child) = find_zombie pcb [0..<N_PROCS] 0 s in
      if child \<noteq> None then
        kbind (status_return (Some pcb) child s) (\<lambda>s. pcb_cleanup child s)
      else if nkids < 1 then Inr (set_RET pcb S_NO_CHILD s)
      else dispatch (upd_pcb pcb (\<lambda>p. p\<lparr>p_state := STATE_WAITING\<rparr>) s))"

section \<open>Creation of processes\<close>

text \<open>Following the chain of saved frame pointers in the new stack: every link is moved, and \<open>lastbp\<close> is the last one.\<close>

partial_function (option) fix_frames :: "u32 \<Rightarrow> u32 \<Rightarrow> u32 \<Rightarrow> memory \<Rightarrow> (u32 \<times> memory) option" where
  "fix_frames offset bp lastbp m =
     (if bp = NULL then Some (lastbp, m)
      else
        let m = store32 m bp (load32 m bp + offset)
        in fix_frames offset (load32 m bp) bp m)"

text \<open>A register of the new process is moved with the stack unless it is zero.\<close>

definition move_REG :: "nat \<Rightarrow> u32 \<Rightarrow> u32 \<Rightarrow> 'z proc_st_scheme \<Rightarrow> 'z proc_st_scheme" where
  "move_REG new x offset s = (if REG new x s \<noteq> 0 then set_REG new x (REG new x s + offset) s else s)"

text \<open>The part of \<^verbatim>\<open>sys_fork()\<close> after both allocations: the control block and the copy of the stack.\<close>

definition fork_pcb :: "nat \<Rightarrow> nat \<Rightarrow> u32 \<Rightarrow> 'z proc_st_scheme \<Rightarrow> 'z proc_st_scheme" where
  "fork_pcb pcb new stk s =
     (let s = upd_pcb new (\<lambda>_. zero_pcb) s;
          s = upd_pcb new (\<lambda>p. p\<lparr>p_state := STATE_NEW, p_stack := stk, p_parent := Some pcb, p_pid := next_pid s\<rparr>) s;
          s = s\<lparr>next_pid := next_pid s + 1\<rparr>;
          s = upd_pcb new (\<lambda>p. p\<lparr>p_priority := ucast (ARG pcb 1 s)\<rparr>) s
      in if p_priority (ptable s ! new) = PRIO_INHERIT
         then upd_pcb new (\<lambda>p. p\<lparr>p_priority := p_priority (ptable s ! pcb)\<rparr>) s else s)"

definition fork_stack :: "nat \<Rightarrow> nat \<Rightarrow> u32 \<Rightarrow> 'z proc_st_scheme \<Rightarrow> kerr + 'z proc_st_scheme" where
  "fork_stack pcb new stk s =
     (let s = s\<lparr>mem := blkmov stk (p_stack (ptable s ! pcb)) SZ_STACK (mem s)\<rparr>;
          offset = stk - p_stack (ptable s ! pcb);
          s = upd_pcb new (\<lambda>p. p\<lparr>p_context := p_context (ptable s ! pcb) + offset\<rparr>) s;
          s = move_REG new ctx_ebp offset s;
          s = move_REG new ctx_esp offset s
      in case fix_frames offset (REG new ctx_ebp s) NULL (mem s) of
           None \<Rightarrow> Inl Diverge
         | Some (lastbp, m) \<Rightarrow>
             let lastbp = lastbp + 8
             in Inr (s\<lparr>mem := store32 m lastbp (load32 m lastbp + offset)\<rparr>))"

definition sys_fork :: "nat \<Rightarrow> 'z proc_st_scheme \<Rightarrow> kerr + 'z proc_st_scheme" where
  "sys_fork pcb s =
     (case pcb_alloc s of
        (status, new) \<Rightarrow>
          if status \<noteq> E_SUCCESS then Inr (set_RET pcb S_ERROR s)
          else
            kbind (stk_alloc s) (\<lambda>(status, stk, s).
              if status \<noteq> E_SUCCESS then kbind (pcb_free new s) (\<lambda>s. Inr (set_RET pcb S_ERROR s))
              else
                kbind (pcb_deref new) (\<lambda>n.
                kbind (case stk of None \<Rightarrow> Inl Undef | Some k \<Rightarrow> fork_stack pcb n k (fork_pcb pcb n k s)) (\<lambda>s.
                  let s = set_RET pcb (p_pid (ptable s ! n)) s;
                      s = set_RET n 0 s
                  in schedule new s))))"

definition sys_exec :: "nat \<Rightarrow> 'z proc_st_scheme \<Rightarrow> kerr + 'z proc_st_scheme" where
  "sys_exec pcb s =
     (let wher = ARG pcb 1 s;
          args = ARG pcb 2 s;
          oldstack = p_stack (ptable s ! pcb)
      in kbind (stk_alloc s) (\<lambda>(status, stk, s).
           if status \<noteq> E_SUCCESS then Inr (set_RET pcb S_ERROR s)
           else
             kbind (case stk of None \<Rightarrow> Inl Undef | Some k \<Rightarrow> stk_setup k wher args s) (\<lambda>(ctx, s).
               let s = upd_pcb pcb (\<lambda>p. p\<lparr>p_context := ctx\<rparr>) s in
               kbind (kassert (ctx \<noteq> NULL)) (\<lambda>_. stk_free oldstack s))))"

section \<open>Input and output\<close>

text \<open>Interrupts are off while a system call is handled, so the console driver polls the keyboard.\<close>

definition sys_read :: "nat \<Rightarrow> 'z cio_st_scheme \<Rightarrow> kerr + 'z cio_st_scheme" where
  "sys_read pcb s =
     (let chan = ARG pcb 1 s;
          len = ARG pcb 3 s;
          buf = ARG pcb 2 s
      in
        if len = 0 then Inr (set_RET pcb 0 s)
        else if chan = CHAN_CIO then
          if cio_input_queue s < 1 then Inr (set_RET pcb 0 s)
          else kbind (cio_gets False buf len s) (\<lambda>(n, s). Inr (set_RET pcb n s))
        else if chan = CHAN_SIO then
          kbind (sio_read buf (sint len) s) (\<lambda>(n, s).
            if n < 1 then
              let s = upd_pcb pcb (\<lambda>p. p\<lparr>p_state := STATE_BLOCKED\<rparr>) s in
              kbind (que_insert call_compare (sioread s) (Some pcb) s) (\<lambda>(e, s).
              kbind (kassert (e \<noteq> E_SUCCESS)) (\<lambda>_. dispatch s))
            else Inr (set_RET pcb (word_of_int n) s))
        else Inr (set_RET pcb S_BAD_CHAN s))"

text \<open>\<^verbatim>\<open>length\<close> is unsigned, so the test \<^verbatim>\<open>length >= 0\<close> always holds.\<close>

definition sys_write :: "nat \<Rightarrow> 'z cio_st_scheme \<Rightarrow> kerr + 'z cio_st_scheme" where
  "sys_write pcb s =
     (let chan = ARG pcb 1 s;
          len = ARG pcb 3 s;
          buf = ARG pcb 2 s;
          rval = len
      in kbind (if chan = CHAN_CIO then kbind (cio_write buf (sint len) s) (\<lambda>s. Inr (rval, s))
                else if chan = CHAN_SIO then kbind (sio_write (mem s) buf (sint len) s) (\<lambda>(_, s). Inr (rval, s))
                else Inr (S_BAD_CHAN, s))
           (\<lambda>(rval, s). Inr (set_RET pcb rval s)))"

section \<open>Time and identity\<close>

text \<open>\<^verbatim>\<open>WARNING( m )\<close>, with its location.\<close>

definition warning :: "string \<Rightarrow> string \<Rightarrow> u32 \<Rightarrow> string \<Rightarrow> 'z cio_st_scheme \<Rightarrow> kerr + 'z cio_st_scheme" where
  "warning fn file line msg s =
     kbind (cio_printf (10 # lit ''** %s (%s @ %d): '') [Str (lit fn), Str (lit file), Num line] s) (\<lambda>s.
     kbind (cio_puts (lit msg) s) (cio_putchar 10))"

definition sys_sleep :: "nat \<Rightarrow> 'z clk_st_scheme \<Rightarrow> kerr + 'z clk_st_scheme" where
  "sys_sleep pcb s =
     (let n = ARG pcb 1 s in
      if n = 0 then kbind (schedule (Some pcb) s) dispatch
      else
        let s = upd_pcb pcb (\<lambda>p. p\<lparr>p_state := STATE_SLEEPING, p_wakeup := system_time s + n\<rparr>) s in
        kbind (que_insert call_compare (sleeping s) (Some pcb) s) (\<lambda>(e, s).
          if e \<noteq> E_SUCCESS then warning ''sys_sleep'' ''kernel/syscalls.c'' 696 ''sleep pcb insert failed'' s
          else dispatch s))"

definition sys_getpid :: "nat \<Rightarrow> 'z proc_st_scheme \<Rightarrow> kerr + 'z proc_st_scheme" where
  "sys_getpid pcb s = Inr (set_RET pcb (p_pid (ptable s ! pcb)) s)"

definition sys_gettime :: "nat \<Rightarrow> 'z clk_st_scheme \<Rightarrow> kerr + 'z clk_st_scheme" where
  "sys_gettime pcb s = Inr (set_RET pcb (system_time s) s)"

definition sys_getprio :: "nat \<Rightarrow> 'z proc_st_scheme \<Rightarrow> kerr + 'z proc_st_scheme" where
  "sys_getprio pcb s =
     (let pid = ARG pcb 1 s in
      if pid = 0 \<or> pid = p_pid (ptable s ! pcb) then Inr (set_RET pcb (ucast (p_priority (ptable s ! pcb))) s)
      else
        kbind (pcb_find_pid pid s) (\<lambda>p.
          if p_state (ptable s ! pcb) \<noteq> STATE_UNUSED then
            kbind (pcb_deref p) (\<lambda>i. Inr (set_RET pcb (ucast (p_priority (ptable s ! i))) s))
          else Inr (set_RET pcb S_NOT_FOUND s)))"

section \<open>The system call interrupt\<close>

text \<open>The jump table.\<close>

definition syscalls :: "int \<Rightarrow> nat \<Rightarrow> 'z clk_st_scheme \<Rightarrow> kerr + 'z clk_st_scheme" where
  "syscalls code pcb s =
     (if code = 0 then sys_exit pcb s
      else if code = 1 then sys_wait pcb s
      else if code = 2 then sys_fork pcb s
      else if code = 3 then sys_exec pcb s
      else if code = 4 then sys_read pcb s
      else if code = 5 then sys_write pcb s
      else if code = 6 then sys_sleep pcb s
      else if code = 7 then sys_getpid pcb s
      else if code = 8 then sys_gettime pcb s
      else if code = 9 then sys_getprio pcb s
      else Inl Undef)"

definition sys_isr :: "'z clk_st_scheme \<Rightarrow> kerr + 'z clk_st_scheme" where
  "sys_isr s =
     kbind (kassert (current s \<noteq> None)) (\<lambda>_.
     kbind (pcb_deref (current s)) (\<lambda>c.
     kbind (kassert (p_context (ptable s ! c) \<noteq> NULL)) (\<lambda>_.
       let code = sint (REG c ctx_eax s) in
       kbind (if code < 0 \<or> code \<ge> N_SYSCALLS then
                kbind (cio_printf (lit ''sys_isr: pid %d bad syscall (%d)'' @ [10])
                         [Num (p_pid (ptable s ! c)), Num (REG c ctx_eax s)] s) (\<lambda>s.
                  Inr (SYS_exit, poke32 (ARG_ADDR c 1 s) S_BAD_SYSCALL s))
              else Inr (code, s))
         (\<lambda>(code, s).
       kbind (syscalls code c s) (\<lambda>s. Inr (outb PIC1_CMD PIC_EOI s))))))"

definition sys_init :: "'z clk_st_scheme \<Rightarrow> kerr + 'z clk_st_scheme" where
  "sys_init s = set_isr VEC_SYSCALL H_sys s"


section \<open>Sleeping\<close>

lemma running_sched:
  assumes "running s bs Q c"
  shows "\<exists>s'. schedule (Some c) s = Inr s' \<and> proc_frame s s' \<and>
    sched_inv s' bs (Q(unat (p_priority (ptable s ! c)) := Q (unat (p_priority (ptable s ! c))) @ [Some c]))"
  using schedule_run [OF runningD(1,3,4) [OF assms] refl runningD(6) [OF assms]] by blast

text \<open>The end of every call that gives up the processor: the queues \<open>Q\<close> decide who goes on.\<close>

definition goes_on :: "(kerr + 'z proc_st_scheme) \<Rightarrow> blocks \<Rightarrow> (nat \<Rightarrow> qdata list) \<Rightarrow> ('z proc_st_scheme \<Rightarrow> bool) \<Rightarrow> bool" where
  "goes_on r bs Q P \<longleftrightarrow> (case pick Q of None \<Rightarrow> r = Inl Panic
     | Some (Q', i) \<Rightarrow> \<exists>s'. r = Inr s' \<and> running s' bs Q' i \<and> P s')"

definition in_ready :: "(nat \<Rightarrow> qdata list) \<Rightarrow> nat \<Rightarrow> bool" where
  "in_ready Q i \<longleftrightarrow> (\<exists>k \<le> PRIO_LAST. Some i \<in> set (Q k))"

lemma in_ready_queued: "in_ready Q i \<Longrightarrow> queued Q i"
  unfolding in_ready_def queued_def PRIO_LAST_def N_QUEUES_def by (metis le_less_trans numeral_less_iff semiring_norm(76,78,81))

lemma pick_ready:
  assumes "sched_inv s bs Q" and "pick Q = Some (Q', i)"
  shows "in_ready Q i"
proof -
  obtain k where k: "first_ix (\<lambda>k. Q k \<noteq> []) 3 = Some k" "i = the (hd (Q k))" using assms(2) by (auto simp: pick_def)
  then have in_k: "k < N_QUEUES" "hd (Q k) \<in> set (Q k)" and "k \<le> PRIO_LAST"
    by (simp_all add: first_ix_Some N_QUEUES_def PRIO_LAST_def)
  with sched_members [OF assms(1) in_k] k(2) show ?thesis unfolding in_ready_def by (metis option.sel)
qed

lemma dispatch_goes_on:
  assumes "sched_inv s bs Q"
    and "\<And>s' i. proc_frame s s' \<Longrightarrow> length (ptable s) = N_PROCS \<Longrightarrow> i < N_PROCS \<Longrightarrow> in_ready Q i \<Longrightarrow>
      ptable s' = (ptable s)[i := (ptable s ! i)\<lparr>p_state := STATE_RUNNING, p_quantum := Q_STD\<rparr>] \<Longrightarrow> P s'"
  shows "goes_on (dispatch s) bs Q P"
proof (cases "pick Q")
  case None
  then show ?thesis using dispatch_pick [OF assms(1)] by (simp add: goes_on_def)
next
  case (Some a)
  obtain Q' i where a: "a = (Q', i)" by (cases a)
  then obtain s' where s': "dispatch s = Inr s'" "running s' bs Q' i" "proc_frame s s'"
    "ptable s' = (ptable s)[i := (ptable s ! i)\<lparr>p_state := STATE_RUNNING, p_quantum := Q_STD\<rparr>]"
    using dispatch_pick [OF assms(1)] Some by auto
  have "P s'" by (rule assms(2) [OF s'(3) sched_invD(2) [OF assms(1)] runningD(3) [OF s'(2)] pick_ready [OF assms(1)] s'(4)]) (use Some a in simp)
  then show ?thesis using Some a s' by (simp add: goes_on_def)
qed

lemma sys_sleep_run:
  assumes run: "running s bs Q c"
  shows "if ARG c 1 s = 0
    then goes_on (sys_sleep c s) bs (let k = unat (p_priority (ptable s ! c)) in Q(k := Q k @ [Some c])) (\<lambda>_. True)
    else goes_on (sys_sleep c s) bs
      (Q(3 := sleep_place (upd_pcb c (\<lambda>p. p\<lparr>p_wakeup := system_time s + ARG c 1 s\<rparr>) s) (Some c) (Q 3)))
      (\<lambda>s'. p_wakeup (ptable s' ! c) = system_time s + ARG c 1 s)"
proof (cases "ARG c 1 s = 0")
  case True
  obtain s1 where "schedule (Some c) s = Inr s1"
    "sched_inv s1 bs (Q(unat (p_priority (ptable s ! c)) := Q (unat (p_priority (ptable s ! c))) @ [Some c]))"
    using running_sched [OF run] by blast
  then show ?thesis using True dispatch_goes_on [of s1] by (simp add: sys_sleep_def Let_def del: fun_upd_apply)
next
  case False
  note r = runningD [OF run]
  let ?f = "\<lambda>p. p\<lparr>p_state := STATE_SLEEPING, p_wakeup := system_time s + ARG c 1 s\<rparr>"
  let ?s = "upd_pcb c ?f s"
  have len: "c < length (ptable s)" using r(3) sched_invD(2) [OF r(1)] by simp
  have "sched_inv ?s bs Q" by (rule sched_inv_upd [OF r(1,4)])
  moreover have "member_ok 3 (ptable ?s ! c)" using len r(6) by (simp add: member_ok_def PRIO_LAST_def)
  ultimately obtain s1 where s1: "que_insert call_compare (Some 3) (Some c) ?s = Inr (E_SUCCESS, s1)" "que_frame ?s s1"
    "sched_inv s1 bs (Q(3 := sleep_place ?s (Some c) (Q 3)))"
    using sched_sleep [OF _ r(3,4), of ?s] by blast
  have pt: "ptable s1 = ptable ?s" using s1(2) que_more(1) [of s1 ?s] by (simp add: que_frame_def)
  have "wake_of ?s = wake_of (upd_pcb c (\<lambda>p. p\<lparr>p_wakeup := system_time s + ARG c 1 s\<rparr>) s)"
    using len by (auto simp: wake_of_def fun_eq_iff nth_list_update split: option.split)
  then have pl: "sleep_place ?s = sleep_place (upd_pcb c (\<lambda>p. p\<lparr>p_wakeup := system_time s + ARG c 1 s\<rparr>) s)"
    by (simp add: sleep_place_def fun_eq_iff)
  have "sys_sleep c s = dispatch s1"
    using False s1(1) sched_invD(4) [OF r(1)] by (simp add: sys_sleep_def Let_def)
  moreover have "goes_on (dispatch s1) bs (Q(3 := sleep_place ?s (Some c) (Q 3))) (\<lambda>s'. p_wakeup (ptable s' ! c) = system_time s + ARG c 1 s)"
    by (rule dispatch_goes_on [OF s1(3)]) (use pt len in \<open>auto simp: nth_list_update\<close>)
  ultimately show ?thesis using False by (simp add: pl del: fun_upd_apply)
qed

section \<open>Waiting\<close>

definition child_of :: "nat \<Rightarrow> 'z proc_st_scheme \<Rightarrow> nat \<Rightarrow> bool" where
  "child_of c s i \<longleftrightarrow> i \<noteq> c \<and> p_parent (ptable s ! i) = Some c \<and> p_state (ptable s ! i) \<noteq> STATE_UNUSED"

definition dead_child :: "nat \<Rightarrow> 'z proc_st_scheme \<Rightarrow> nat \<Rightarrow> bool" where
  "dead_child c s i \<longleftrightarrow> child_of c s i \<and> p_state (ptable s ! i) = STATE_ZOMBIE"

lemma find_zombie_find:
  "snd (find_zombie c is n s) = List.find (dead_child c s) is"
  "snd (find_zombie c is n s) = None \<Longrightarrow> fst (find_zombie c is n s) = n + int (length (filter (child_of c s) is))"
  by (induction "is" arbitrary: n) (auto simp: dead_child_def child_of_def)

lemma find_zombie_run:
  "snd (find_zombie c [0..<N_PROCS] 0 s) = first_ix (dead_child c s) N_PROCS"
  "first_ix (dead_child c s) N_PROCS = None \<Longrightarrow>
    fst (find_zombie c [0..<N_PROCS] 0 s) < 1 \<longleftrightarrow> (\<forall>i < N_PROCS. \<not> child_of c s i)"
proof -
  show f: "snd (find_zombie c [0..<N_PROCS] 0 s) = first_ix (dead_child c s) N_PROCS"
    by (simp add: find_zombie_find first_ix_def)
  assume "first_ix (dead_child c s) N_PROCS = None"
  then have "fst (find_zombie c [0..<N_PROCS] 0 s) = int (length (filter (child_of c s) [0..<N_PROCS]))"
    using find_zombie_find(2) [of c "[0..<N_PROCS]" 0 s] f by simp
  then show "fst (find_zombie c [0..<N_PROCS] 0 s) < 1 \<longleftrightarrow> (\<forall>i < N_PROCS. \<not> child_of c s i)"
    by (auto simp: filter_empty_conv)
qed

text \<open>\<^verbatim>\<open>status_return()\<close>: the result register of the parent, and the longword it asked for, if any.\<close>

lemma ARG_apart: "apart4 (p_context (ptable s ! i) + ctx_eax) (ARG_ADDR i 1 s)"
  by (simp add: apart4_def ARG_ADDR_def ctx_offsets)

lemma ARG_set_RET [simp]: "ARG i 1 (set_RET i v s) = ARG i 1 s"
  using load32_store32_other [OF ARG_apart [of s i], of "mem s" v] by (simp add: ARG_def ARG_ADDR_def)

definition tell_status :: "nat \<Rightarrow> nat \<Rightarrow> 'z proc_st_scheme \<Rightarrow> 'z proc_st_scheme" where
  "tell_status p c s =
     (let s' = set_RET p (p_pid (ptable s ! c)) s
      in if ARG p 1 s \<noteq> NULL then poke32 (ARG p 1 s) (p_status (ptable s ! c)) s' else s')"

lemma status_return_run:
  "p < N_PROCS \<Longrightarrow> c < N_PROCS \<Longrightarrow> status_return (Some p) (Some c) s = Inr (tell_status p c s)"
  by (simp add: status_return_def pcb_deref_def tell_status_def Let_def)

lemma tell_status_fields [simp]:
  "ptable (tell_status p c s) = ptable s" "current (tell_status p c s) = current s" "init_pcb (tell_status p c s) = init_pcb s"
  "free_stacks (tell_status p c s) = free_stacks s" "zombie (tell_status p c s) = zombie s"
  "sched_inv (tell_status p c s) bs Q = sched_inv s bs Q" "running (tell_status p c s) bs Q i = running s bs Q i"
  by (simp_all add: tell_status_def Let_def)

text \<open>The pointer that the parent passed is clear of its result register.\<close>

definition status_clear :: "nat \<Rightarrow> 'z proc_st_scheme \<Rightarrow> bool" where
  "status_clear p s \<longleftrightarrow> ARG p 1 s = NULL \<or> apart4 (ARG p 1 s) (p_context (ptable s ! p) + ctx_eax)"

definition told :: "nat \<Rightarrow> 'z proc_st_scheme \<Rightarrow> 32 word \<Rightarrow> 32 word \<Rightarrow> 'z proc_st_scheme \<Rightarrow> bool" where
  "told p s pid st s' \<longleftrightarrow> load32 (mem s') (p_context (ptable s ! p) + ctx_eax) = pid \<and>
     (ARG p 1 s \<noteq> NULL \<longrightarrow> load32 (mem s') (ARG p 1 s) = st)"

lemma tell_status_told:
  "status_clear p s \<Longrightarrow> told p s (p_pid (ptable s ! c)) (p_status (ptable s ! c)) (tell_status p c s)"
  by (auto simp: told_def tell_status_def status_clear_def Let_def load32_store32_other)

text \<open>What a stack that is freed overwrites is its own first word.\<close>

definition stack_clear :: "nat \<Rightarrow> nat \<Rightarrow> 'z proc_st_scheme \<Rightarrow> bool" where
  "stack_clear p c s \<longleftrightarrow> (let stk = p_stack (ptable s ! c) in
     stk = NULL \<or> apart4 stk (p_context (ptable s ! p) + ctx_eax) \<and> (ARG p 1 s = NULL \<or> apart4 stk (ARG p 1 s)))"

definition freed :: "nat \<Rightarrow> 'z proc_st_scheme \<Rightarrow> 'z proc_st_scheme" where
  "freed i s =
     (let stk = p_stack (ptable s ! i);
          s = (if stk = NULL then s else (poke32 stk (free_stacks s) s)\<lparr>free_stacks := stk\<rparr>)
      in upd_pcb i (\<lambda>p. p\<lparr>p_stack := NULL, p_state := STATE_UNUSED\<rparr>) s)"

lemma upd_pcb_stacks [simp]: "free_stacks (upd_pcb i f s) = free_stacks s"
  by (simp add: upd_pcb_def)

lemma upd_pcb_twice [simp]: "upd_pcb i f (upd_pcb i g s) = upd_pcb i (\<lambda>p. f (g p)) s" if "i < length (ptable s)"
  using that by (simp add: upd_pcb_def)

lemma pcb_cleanup_run:
  assumes "i < N_PROCS" and "length (ptable s) = N_PROCS"
  shows "pcb_cleanup (Some i) s = Inr (freed i s)"
proof (cases "p_stack (ptable s ! i) = NULL")
  case True
  obtain q where q: "ptable s ! i = q" by simp
  have "q\<lparr>p_stack := NULL, p_state := STATE_UNUSED\<rparr> = q\<lparr>p_state := STATE_UNUSED\<rparr>" using True unfolding q by (cases q) simp
  then have "upd_pcb i (\<lambda>p. p\<lparr>p_stack := NULL, p_state := STATE_UNUSED\<rparr>) s = upd_pcb i (\<lambda>p. p\<lparr>p_state := STATE_UNUSED\<rparr>) s"
    unfolding upd_pcb_def q by simp
  then show ?thesis using assms True by (simp add: pcb_cleanup_def pcb_deref_def pcb_free_def freed_def)
next
  case False
  then show ?thesis using assms by (simp add: pcb_cleanup_def pcb_deref_def pcb_free_def freed_def stk_free_def Let_def)
qed

lemma freed_fields [simp]:
  "ptable (freed i s) = (ptable s)[i := (ptable s ! i)\<lparr>p_stack := NULL, p_state := STATE_UNUSED\<rparr>]"
  "current (freed i s) = current s" "que_abs (freed i s) bs Q = que_abs s bs Q" "init_pcb (freed i s) = init_pcb s"
  "free_stacks (freed i s) = (if p_stack (ptable s ! i) = NULL then free_stacks s else p_stack (ptable s ! i))"
  using que_abs_cong [of "(poke32 (p_stack (ptable s ! i)) (free_stacks s) s)\<lparr>free_stacks := p_stack (ptable s ! i)\<rparr>" s]
  by (simp_all add: freed_def Let_def poke32_def)

lemma freed_told: "told p s pid st t \<Longrightarrow> stack_clear p c s \<Longrightarrow> ptable t = ptable s \<Longrightarrow> told p s pid st (freed c t)"
  by (auto simp: told_def stack_clear_def freed_def Let_def load32_store32_other)

lemma freed_sched: "sched_inv s bs Q \<Longrightarrow> \<not> queued Q i \<Longrightarrow> sched_inv (freed i s) bs Q"
  by (simp add: freed_def Let_def sched_inv_upd)

lemma sys_wait_run:
  assumes run: "running s bs Q c"
    and clear: "\<And>j. first_ix (dead_child c s) N_PROCS = Some j \<Longrightarrow> status_clear c s \<and> stack_clear c j s"
  shows "case first_ix (dead_child c s) N_PROCS of
      Some j \<Rightarrow> \<exists>s'. sys_wait c s = Inr s' \<and> current s' = Some c \<and> told c s (p_pid (ptable s ! j)) (p_status (ptable s ! j)) s' \<and>
        ptable s' = (ptable s)[j := (ptable s ! j)\<lparr>p_stack := NULL, p_state := STATE_UNUSED\<rparr>] \<and> que_abs s' bs Q
    | None \<Rightarrow> if \<forall>i < N_PROCS. \<not> child_of c s i then sys_wait c s = Inr (set_RET c S_NO_CHILD s)
        else goes_on (sys_wait c s) bs Q (\<lambda>s'. p_state (ptable s' ! c) = STATE_WAITING)"
proof -
  note r = runningD [OF run]
  obtain n ch where fz: "find_zombie c [0..<N_PROCS] 0 s = (n, ch)" by force
  have ch: "ch = first_ix (dead_child c s) N_PROCS" using find_zombie_run(1) [of c s] fz by simp
  show ?thesis
  proof (cases ch)
    case None
    have n: "n < 1 \<longleftrightarrow> (\<forall>i < N_PROCS. \<not> child_of c s i)" using find_zombie_run(2) [of c s] fz ch None by simp
    let ?s = "upd_pcb c (\<lambda>p. p\<lparr>p_state := STATE_WAITING\<rparr>) s"
    have len: "c < length (ptable s)" using r(3) sched_invD(2) [OF r(1)] by simp
    have "goes_on (dispatch ?s) bs Q (\<lambda>s'. p_state (ptable s' ! c) = STATE_WAITING)"
      by (rule dispatch_goes_on [OF sched_inv_upd [OF r(1,4)]]) (use len r(4) in \<open>auto simp: nth_list_update dest: in_ready_queued\<close>)
    then show ?thesis using ch None n fz by (auto simp: sys_wait_def)
  next
    case (Some j)
    have j: "j < N_PROCS" using ch Some by (metis first_ix_Some)
    have len: "length (ptable s) = N_PROCS" by (rule sched_invD(2) [OF r(1)])
    have "sys_wait c s = Inr (freed j (tell_status c j s))"
      using fz Some status_return_run [OF r(3) j, of s] pcb_cleanup_run [OF j, of "tell_status c j s"] len by (simp add: sys_wait_def)
    moreover have "told c s (p_pid (ptable s ! j)) (p_status (ptable s ! j)) (freed j (tell_status c j s))"
      using clear [of j] ch Some by (intro freed_told tell_status_told) simp_all
    moreover have "que_abs (tell_status c j s) bs Q" using r(1) by (intro sched_invD(1)) simp
    moreover have "first_ix (dead_child c s) N_PROCS = Some j" using ch Some by simp
    ultimately show ?thesis using r(2) by simp
  qed
qed

section \<open>Exiting\<close>

text \<open>The process table once the children of \<open>c\<close> belong to \<^verbatim>\<open>init\<close>.\<close>

definition adopted :: "nat \<Rightarrow> 'z proc_st_scheme \<Rightarrow> pcb_t list" where
  "adopted c s = map (\<lambda>i. if child_of c s i then (ptable s ! i)\<lparr>p_parent := init_pcb s\<rparr> else ptable s ! i) [0..<N_PROCS]"

lemma adopted_nth [simp]:
  "i < N_PROCS \<Longrightarrow> adopted c s ! i = (if child_of c s i then (ptable s ! i)\<lparr>p_parent := init_pcb s\<rparr> else ptable s ! i)"
  "length (adopted c s) = N_PROCS"
  by (simp_all add: adopted_def)

lemma adopted_fields:
  assumes "i < N_PROCS"
  shows "p_state (adopted c s ! i) = p_state (ptable s ! i)" and "p_priority (adopted c s ! i) = p_priority (ptable s ! i)"
    and "p_context (adopted c s ! i) = p_context (ptable s ! i)" and "p_stack (adopted c s ! i) = p_stack (ptable s ! i)"
    and "p_pid (adopted c s ! i) = p_pid (ptable s ! i)" and "p_status (adopted c s ! i) = p_status (ptable s ! i)"
    and "p_wakeup (adopted c s ! i) = p_wakeup (ptable s ! i)"
  using assms by simp_all

lemma find_child_run: "c < N_PROCS \<Longrightarrow> pcb_find_child_of (Some c) s = Inr (first_ix (child_of c s) N_PROCS)"
  by (simp add: pcb_find_child_of_def pcb_ix_def child_of_def cong: conj_cong)
    (rule arg_cong [where f = "\<lambda>P. first_ix P N_PROCS"], auto simp: fun_eq_iff child_of_def)

lemma adopt_step:
  assumes "length (ptable s) = N_PROCS" and "i < N_PROCS" and "child_of c s i" and "init_pcb s \<noteq> Some c"
  defines "s' \<equiv> upd_pcb i (\<lambda>p. p\<lparr>p_parent := init_pcb s\<rparr>) s"
  shows "child_of c s' = (\<lambda>j. j \<noteq> i \<and> child_of c s j)" and "adopted c s' = adopted c s"
    and "dead_child c s' = (\<lambda>j. j \<noteq> i \<and> dead_child c s j)"
proof -
  have pt: "ptable s' ! j = (if j = i then (ptable s ! i)\<lparr>p_parent := init_pcb s\<rparr> else ptable s ! j)" for j
    using assms(1,2) by (simp add: s'_def nth_list_update)
  have ini: "init_pcb s' = init_pcb s" by (simp add: s'_def)
  show ch: "child_of c s' = (\<lambda>j. j \<noteq> i \<and> child_of c s j)"
    using assms(4) by (auto simp: child_of_def fun_eq_iff pt)
  show "dead_child c s' = (\<lambda>j. j \<noteq> i \<and> dead_child c s j)"
    unfolding dead_child_def ch by (auto simp: fun_eq_iff pt)
  show "adopted c s' = adopted c s"
  proof (rule nth_equalityI)
    fix j
    assume "j < length (adopted c s')"
    then show "adopted c s' ! j = adopted c s ! j" using assms(3) by (simp add: ch pt ini)
  qed simp
qed

lemma filter_one_less:
  assumes "i < n" and "P i"
  shows "length (filter (\<lambda>j. j \<noteq> i \<and> P j) [0..<n]) < length (filter P [0..<n])"
proof -
  have "filter (\<lambda>j. j \<noteq> i \<and> P j) [0..<n] = filter (\<lambda>j. j \<noteq> i) (filter P [0..<n])" by (simp add: conj_commute)
  moreover have "i \<in> set (filter P [0..<n])" using assms by simp
  ultimately show ?thesis using length_filter_less [of i "filter P [0..<n]" "\<lambda>j. j \<noteq> i"] by simp
qed

text \<open>The loop ends as long as the process is not \<^verbatim>\<open>init\<close> itself, and moves every child.\<close>

lemma reparent_run:
  assumes "length (ptable s) = N_PROCS" and "c < N_PROCS" and "init_pcb s \<noteq> Some c"
  shows "\<exists>f'. reparent c f s = Some (Inr (f', s\<lparr>ptable := adopted c s\<rparr>)) \<and>
    (if \<exists>i < N_PROCS. dead_child c s i then \<exists>i < N_PROCS. f' = Some i \<and> dead_child c s i else f' = f)"
  using assms
proof (induction "length (filter (child_of c s) [0..<N_PROCS])" arbitrary: s f rule: less_induct)
  case less
  show ?case
  proof (cases "first_ix (child_of c s) N_PROCS")
    case None
    then have "adopted c s = ptable s"
      using less.prems by (intro nth_equalityI) (auto simp: first_ix_None)
    then have "s\<lparr>ptable := adopted c s\<rparr> = s" by simp
    moreover have "\<forall>i < N_PROCS. \<not> dead_child c s i" using None by (auto simp: first_ix_None dead_child_def)
    ultimately show ?thesis using None find_child_run [OF less.prems(2), of s] by (subst reparent.simps) auto
  next
    case (Some i)
    then have i: "i < N_PROCS" "child_of c s i" by (simp_all add: first_ix_Some)
    define s' where "s' = upd_pcb i (\<lambda>p. p\<lparr>p_parent := init_pcb s\<rparr>) s"
    note st = adopt_step [OF less.prems(1) i less.prems(3), folded s'_def]
    define f1 where "f1 = (if p_state (ptable s' ! i) = STATE_ZOMBIE then Some i else f)"
    have run: "reparent c f s = reparent c f1 s'"
      using Some find_child_run [OF less.prems(2), of s] i by (subst reparent.simps) (simp add: child_of_def s'_def f1_def Let_def)
    have "length (filter (child_of c s') [0..<N_PROCS]) < length (filter (child_of c s) [0..<N_PROCS])"
      unfolding st(1) by (rule filter_one_less) (use i in simp_all)
    from less.hyps [OF this] less.prems obtain f' where f': "reparent c f1 s' = Some (Inr (f', s'\<lparr>ptable := adopted c s'\<rparr>))"
      "if \<exists>i < N_PROCS. dead_child c s' i then \<exists>i < N_PROCS. f' = Some i \<and> dead_child c s' i else f' = f1"
      by (fastforce simp: s'_def)
    have same: "s'\<lparr>ptable := adopted c s'\<rparr> = s\<lparr>ptable := adopted c s\<rparr>" unfolding st(2) by (simp add: s'_def upd_pcb_def)
    have f1: "f1 = (if dead_child c s i then Some i else f)"
      using i less.prems(1) by (simp add: f1_def dead_child_def s'_def)
    show ?thesis
    proof (cases "\<exists>j < N_PROCS. dead_child c s' j")
      case True
      then show ?thesis using f' run same unfolding st(3) by auto
    next
      case False
      then have "f' = f1" using f'(2) by simp
      moreover have "(\<exists>j < N_PROCS. dead_child c s j) \<longleftrightarrow> dead_child c s i" using False i(1) unfolding st(3) by auto
      ultimately show ?thesis using f'(1) run same f1 i(1) by auto
    qed
  qed
qed

lemma waiting_not_queued:
  assumes "sched_inv s bs Q" and "p_state (ptable s ! k) = STATE_WAITING"
  shows "\<not> queued Q k"
proof
  assume "queued Q k"
  then obtain i where "i < N_QUEUES" "Some k \<in> set (Q i)" by (auto simp: queued_def)
  then have "member_ok i (ptable s ! k)" using sched_members [OF assms(1)] by blast
  then show False using assms(2) by (auto simp: member_ok_def split: if_splits)
qed

lemma sched_inv_table:
  assumes "sched_inv s bs Q" and "length pt = N_PROCS"
    and "\<And>i. i < N_PROCS \<Longrightarrow> p_state (pt ! i) = p_state (ptable s ! i) \<and> p_priority (pt ! i) = p_priority (ptable s ! i) \<and>
      p_wakeup (pt ! i) = p_wakeup (ptable s ! i)"
  shows "sched_inv (s\<lparr>ptable := pt\<rparr>) bs Q"
proof -
  let ?s = "s\<lparr>ptable := pt\<rparr>"
  have mem: "\<exists>j < N_PROCS. d = Some j \<and> member_ok i (pt ! j)" if d: "i < N_QUEUES" "d \<in> set (Q i)" for i d
  proof -
    obtain j where "j < N_PROCS" "d = Some j" "member_ok i (ptable s ! j)" by (rule sched_members [OF assms(1) d])
    then show ?thesis using assms(3) [of j] by (simp add: member_ok_def)
  qed
  have "wake_of ?s d = wake_of s d" if d: "d \<in> set (Q 3)" for d
  proof -
    obtain j where "j < N_PROCS" "d = Some j" using sched_members [OF assms(1) _ d] by (auto simp: N_QUEUES_def)
    then show ?thesis using assms(3) by (simp add: wake_of_def)
  qed
  then have "map (wake_of ?s) (Q 3) = map (wake_of s) (Q 3)" by simp
  then have "sorted (map (wake_of ?s) (Q 3))" using assms(1) by (simp only: sched_inv_def)
  moreover have "que_abs ?s bs Q" using sched_invD(1) [OF assms(1)] que_abs_cong [of ?s s] by simp
  ultimately show ?thesis
    using assms(1,2) mem nodes_ok_cong [of ?s s] queues_taken_cong [of ?s s] unfolding sched_inv_def by simp
qed

lemma zombify_run:
  assumes inv: "sched_inv s bs Q" and c: "c < N_PROCS" "\<not> queued Q c" "unat (p_priority (ptable s ! c)) \<le> PRIO_LAST"
  shows "\<exists>s'. pcb_zombify (Some c) s = Inr s' \<and> sched_inv s' bs (Q(4 := Q 4 @ [Some c])) \<and> proc_frame s s' \<and>
    ptable s' = (ptable s)[c := (ptable s ! c)\<lparr>p_state := STATE_ZOMBIE\<rparr>]"
proof -
  let ?s = "upd_pcb c (\<lambda>p. p\<lparr>p_state := STATE_ZOMBIE\<rparr>) s"
  have len: "c < length (ptable s)" using c(1) sched_invD(2) [OF inv] by simp
  have inv': "sched_inv ?s bs Q" by (rule sched_inv_upd [OF inv c(2)])
  have "4 < N_QUEUES" "(4 :: nat) \<noteq> 3" by (simp_all add: N_QUEUES_def)
  moreover have "member_ok 4 (ptable ?s ! c)" using len c(3) by (simp add: member_ok_def PRIO_LAST_def)
  ultimately obtain s' where s': "que_insert call_compare (Some 4) (Some c) ?s = Inr (E_SUCCESS, s')" "que_frame ?s s'"
    "sched_inv (upd_pcb c (\<lambda>p. p) s') bs (Q(4 := Q 4 @ [Some c]))"
    using sched_append [where f = "\<lambda>p. p", OF inv' _ _ c(1,2)] by blast
  have idn: "upd_pcb c (\<lambda>p. p) s' = s'" by (simp add: upd_pcb_def)
  have "pcb_zombify (Some c) s = Inr s'"
    using s'(1) c(1) sched_invD(5) [OF inv] by (simp add: pcb_zombify_def pcb_deref_def Let_def)
  moreover have "proc_frame s s'" using que_frame_proc [OF s'(2)] by (simp add: proc_frame_def upd_pcb_def)
  moreover have "ptable s' = ptable ?s" using s'(2) que_more(1) [of s' ?s] by (simp add: que_frame_def)
  ultimately show ?thesis using s'(3) idn by (simp del: fun_upd_apply)
qed

text \<open>What the process leaves behind in any case: its status is kept and its children belong to \<^verbatim>\<open>init\<close>.\<close>

definition leaves :: "nat \<Rightarrow> 'z proc_st_scheme \<Rightarrow> 'z proc_st_scheme" where
  "leaves c s = (let s1 = upd_pcb c (\<lambda>p. p\<lparr>p_status := ARG c 1 s\<rparr>) s in s1\<lparr>ptable := adopted c s1\<rparr>)"

lemma leaves_fields:
  assumes "running s bs Q c"
  shows "sched_inv (leaves c s) bs Q" and "mem (leaves c s) = mem s" and "init_pcb (leaves c s) = init_pcb s"
    and "length (ptable (leaves c s)) = N_PROCS"
    and "i < N_PROCS \<Longrightarrow> ptable (leaves c s) ! i = (if i = c then (ptable s ! c)\<lparr>p_status := ARG c 1 s\<rparr>
      else if child_of c s i then (ptable s ! i)\<lparr>p_parent := init_pcb s\<rparr> else ptable s ! i)"
proof -
  note r = runningD [OF assms]
  let ?s = "upd_pcb c (\<lambda>p. p\<lparr>p_status := ARG c 1 s\<rparr>) s"
  have len: "length (ptable s) = N_PROCS" by (rule sched_invD(2) [OF r(1)])
  have "sched_inv ?s bs Q" by (rule sched_inv_upd [OF r(1,4)])
  from sched_inv_table [OF this, of "adopted c ?s"] show "sched_inv (leaves c s) bs Q"
    by (simp add: leaves_def Let_def)
  show "mem (leaves c s) = mem s" "init_pcb (leaves c s) = init_pcb s" "length (ptable (leaves c s)) = N_PROCS"
    by (simp_all add: leaves_def Let_def)
  have "child_of c ?s i \<longleftrightarrow> i \<noteq> c \<and> child_of c s i" for i using len r(3) by (auto simp: child_of_def nth_list_update)
  then show "ptable (leaves c s) ! i = (if i = c then (ptable s ! c)\<lparr>p_status := ARG c 1 s\<rparr>
      else if child_of c s i then (ptable s ! i)\<lparr>p_parent := init_pcb s\<rparr> else ptable s ! i)" if "i < N_PROCS"
    using that len by (simp add: leaves_def Let_def nth_list_update)
qed

text \<open>The hypotheses under which a process may exit: it has a live parent other than itself and is not \<^verbatim>\<open>init\<close>.\<close>

definition may_exit :: "nat \<Rightarrow> nat \<Rightarrow> 'z proc_st_scheme \<Rightarrow> bool" where
  "may_exit c k s \<longleftrightarrow> p_parent (ptable s ! c) = Some k \<and> k < N_PROCS \<and> k \<noteq> c \<and> p_state (ptable s ! k) \<noteq> STATE_UNUSED \<and>
     init_pcb s \<noteq> Some c"

lemma sys_exit_leaves:
  assumes run: "running s bs Q c" and ok: "may_exit c k s"
    and quiet: "(\<forall>i < N_PROCS. \<not> dead_child c s i) \<or> (\<exists>z < N_PROCS. init_pcb s = Some z \<and> p_state (ptable s ! z) \<noteq> STATE_WAITING)"
  shows "sys_exit c s = kbind (exit_parent k c (leaves c s)) dispatch"
proof -
  note r = runningD [OF run] and lf = leaves_fields [OF run]
  let ?s = "upd_pcb c (\<lambda>p. p\<lparr>p_status := ARG c 1 s\<rparr>) s"
  have len: "length (ptable s) = N_PROCS" by (rule sched_invD(2) [OF r(1)])
  have dead: "dead_child c ?s = dead_child c s"
    using len r(3) by (auto simp: dead_child_def child_of_def nth_list_update fun_eq_iff)
  have pre: "length (ptable ?s) = N_PROCS" "init_pcb ?s \<noteq> Some c" using len ok by (simp_all add: may_exit_def)
  obtain f where f: "reparent c None ?s = Some (Inr (f, leaves c s))"
    "if \<exists>i < N_PROCS. dead_child c s i then \<exists>i < N_PROCS. f = Some i \<and> dead_child c s i else f = None"
    using reparent_run [OF pre(1) r(3) pre(2), of None] unfolding dead leaves_def Let_def by blast
  have "exit_for_init f (leaves c s) = Inr (leaves c s)"
  proof (cases "f = None")
    case False
    then obtain z where z: "z < N_PROCS" "init_pcb s = Some z" "p_state (ptable s ! z) \<noteq> STATE_WAITING"
      using f(2) quiet by (auto split: if_splits)
    then have "p_state (ptable (leaves c s) ! z) \<noteq> STATE_WAITING" using lf(5) [OF z(1)] r(5) by simp
    then show ?thesis using z lf(3) by (simp add: exit_for_init_def pcb_deref_def)
  qed (simp add: exit_for_init_def)
  then show ?thesis
    using ok f(1) by (simp add: sys_exit_def may_exit_def pcb_deref_def Let_def)
qed

lemma told_cong:
  assumes "p_context (ptable t ! p) = p_context (ptable s ! p)" and "mem t = mem s"
  shows "told p t = told p s" and "status_clear p t = status_clear p s" and "ARG p 1 t = ARG p 1 s"
  unfolding told_def status_clear_def ARG_def ARG_ADDR_def assms by (rule refl)+

lemma told_mem: "told p s pid st t \<Longrightarrow> mem t' = mem t \<Longrightarrow> told p s pid st t'"
  by (simp add: told_def)

text \<open>The parent is waiting: it gets the status and is ready again, and the process is gone.\<close>

lemma exit_to_waiting:
  assumes run: "running s bs Q c" and ok: "may_exit c k s" and w: "p_state (ptable s ! k) = STATE_WAITING"
    and prio: "unat (p_priority (ptable s ! k)) = n" "n \<le> PRIO_LAST" and clear: "status_clear k s" "stack_clear k c s"
  shows "goes_on (kbind (exit_parent k c (leaves c s)) dispatch) bs (Q(n := Q n @ [Some k]))
    (\<lambda>s'. told k s (p_pid (ptable s ! c)) (ARG c 1 s) s' \<and> p_state (ptable s' ! c) = STATE_UNUSED \<and>
      (\<forall>i < N_PROCS. child_of c s i \<longrightarrow> p_parent (ptable s' ! i) = init_pcb s))"
proof -
  note r = runningD [OF run] and lf = leaves_fields [OF run]
  have k: "k < N_PROCS" "k \<noteq> c" using ok by (simp_all add: may_exit_def)
  let ?s = "leaves c s" and ?Q = "Q(n := Q n @ [Some k])"
  have lk: "p_state (ptable ?s ! k) = STATE_WAITING" "p_priority (ptable ?s ! k) = p_priority (ptable s ! k)"
    "p_context (ptable ?s ! k) = p_context (ptable s ! k)"
    using lf(5) [OF k(1)] k(2) w by simp_all
  have lc: "p_pid (ptable ?s ! c) = p_pid (ptable s ! c)" "p_status (ptable ?s ! c) = ARG c 1 s"
    "p_stack (ptable ?s ! c) = p_stack (ptable s ! c)"
    using lf(5) [OF r(3)] by simp_all
  note tc = told_cong [OF lk(3) lf(2)]
  let ?t = "tell_status k c ?s"
  have told: "told k s (p_pid (ptable s ! c)) (ARG c 1 s) ?t"
    using tell_status_told [of k ?s c] clear(1) lc by (simp add: tc)
  have inv: "sched_inv ?t bs Q" using lf(1) by simp
  have nk: "\<not> queued Q k" by (rule waiting_not_queued [OF lf(1) lk(1)])
  from schedule_run [OF inv k(1) nk _ prio(2)] prio(1) lk(2)
  obtain t where t: "schedule (Some k) ?t = Inr t" "sched_inv t bs ?Q" "proc_frame ?t t"
    "ptable t = (ptable ?s)[k := (ptable ?s ! k)\<lparr>p_state := STATE_READY\<rparr>]" by auto
  have tel: "told k s (p_pid (ptable s ! c)) (ARG c 1 s) t" by (rule told_mem [OF told]) (use t(3) in \<open>simp add: proc_frame_def\<close>)
  have len: "length (ptable t) = N_PROCS" by (rule sched_invD(2) [OF t(2)])
  have nc: "\<not> queued ?Q c" using r(4) k(2) by (auto simp: queued_def)
  have code: "kbind (exit_parent k c ?s) dispatch = dispatch (freed c t)"
    using lk(1) status_return_run [OF k(1) r(3), of ?s] t(1) pcb_cleanup_run [OF r(3) len] by (simp add: exit_parent_def)
  have "stack_clear k c s \<Longrightarrow> told k s (p_pid (ptable s ! c)) (ARG c 1 s) (freed c t)"
    using tel t(4) k(2) lc(3) by (auto simp: told_def stack_clear_def freed_def Let_def load32_store32_other)
  then have tf: "told k s (p_pid (ptable s ! c)) (ARG c 1 s) (freed c t)" using clear(2) by simp
  have par: "p_parent (ptable (freed c t) ! i) = init_pcb s" if "i < N_PROCS" "child_of c s i" for i
    using that lf(5) [OF that(1)] t(4) len k lf(4) by (auto simp: nth_list_update child_of_def)
  show ?thesis
    unfolding code
  proof (rule dispatch_goes_on [OF freed_sched [OF t(2) nc]], intro conjI allI impI)
    fix s' i
    assume fr: "proc_frame (freed c t) s'" and q: "in_ready ?Q i" and i: "i < N_PROCS" and
      pt: "ptable s' = (ptable (freed c t))[i := (ptable (freed c t) ! i)\<lparr>p_state := STATE_RUNNING, p_quantum := Q_STD\<rparr>]"
    show "told k s (p_pid (ptable s ! c)) (ARG c 1 s) s'" by (rule told_mem [OF tf]) (use fr in \<open>simp add: proc_frame_def\<close>)
    have "i \<noteq> c" using in_ready_queued [OF q] nc by auto
    then show "p_state (ptable s' ! c) = STATE_UNUSED" using pt len r(3) by simp
    fix j
    assume "j < N_PROCS" "child_of c s j"
    from par [OF this] show "p_parent (ptable s' ! j) = init_pcb s" using pt len i by (cases "j = i") simp_all
  qed
qed

text \<open>Otherwise the process becomes a zombie.\<close>

lemma exit_to_zombie:
  assumes run: "running s bs Q c" and ok: "may_exit c k s" and w: "p_state (ptable s ! k) \<noteq> STATE_WAITING"
  shows "goes_on (kbind (exit_parent k c (leaves c s)) dispatch) bs (Q(4 := Q 4 @ [Some c]))
    (\<lambda>s'. p_state (ptable s' ! c) = STATE_ZOMBIE \<and> p_status (ptable s' ! c) = ARG c 1 s \<and>
      (\<forall>i < N_PROCS. child_of c s i \<longrightarrow> p_parent (ptable s' ! i) = init_pcb s))"
proof -
  note r = runningD [OF run] and lf = leaves_fields [OF run]
  have k: "k < N_PROCS" "k \<noteq> c" using ok by (simp_all add: may_exit_def)
  let ?s = "leaves c s" and ?Q = "Q(4 := Q 4 @ [Some c])"
  have lk: "p_state (ptable ?s ! k) \<noteq> STATE_WAITING" using lf(5) [OF k(1)] k(2) w by simp
  have lc: "p_status (ptable ?s ! c) = ARG c 1 s" "unat (p_priority (ptable ?s ! c)) \<le> PRIO_LAST"
    using lf(5) [OF r(3)] r(6) by simp_all
  obtain t where t: "pcb_zombify (Some c) ?s = Inr t" "sched_inv t bs ?Q" "proc_frame ?s t"
    "ptable t = (ptable ?s)[c := (ptable ?s ! c)\<lparr>p_state := STATE_ZOMBIE\<rparr>]"
    using zombify_run [OF lf(1) r(3,4) lc(2)] by blast
  have code: "kbind (exit_parent k c ?s) dispatch = dispatch t" using lk t(1) by (simp add: exit_parent_def)
  have st: "p_state (ptable t ! c) = STATE_ZOMBIE" "p_status (ptable t ! c) = ARG c 1 s" using t(4) lc(1) lf(4) r(3) by simp_all
  have par: "p_parent (ptable t ! i) = init_pcb s" if "i < N_PROCS" "child_of c s i" for i
    using that lf(5) [OF that(1)] t(4) by (auto simp: child_of_def)
  show ?thesis
    unfolding code
  proof (rule dispatch_goes_on [OF t(2)])
    fix s' i
    assume q: "in_ready ?Q i" and i: "i < N_PROCS" and len: "length (ptable t) = N_PROCS" and
      pt: "ptable s' = (ptable t)[i := (ptable t ! i)\<lparr>p_state := STATE_RUNNING, p_quantum := Q_STD\<rparr>]"
    have "in_ready Q i" using q by (auto simp: in_ready_def PRIO_LAST_def split: if_splits)
    then have ne: "i \<noteq> c" using in_ready_queued [of Q i] r(4) by auto
    show "p_state (ptable s' ! c) = STATE_ZOMBIE \<and> p_status (ptable s' ! c) = ARG c 1 s \<and>
      (\<forall>i < N_PROCS. child_of c s i \<longrightarrow> p_parent (ptable s' ! i) = init_pcb s)"
      using st par pt len i ne by (auto simp: nth_list_update)
  qed
qed

section \<open>The calls that do not do what they are meant to\<close>

lemma sio_read_empty: "incount s = 0 \<Longrightarrow> sio_read buf n s = Inr (0, s)"
  by (simp add: sio_read_def)

lemma sys_read_blocks:
  assumes run: "running s bs Q c" and arg: "ARG c 1 s = CHAN_SIO" "ARG c 3 s \<noteq> 0" and empty: "incount s = 0"
  shows "sys_read c s = Inl Panic"
proof -
  note r = runningD [OF run]
  let ?s = "upd_pcb c (\<lambda>p. p\<lparr>p_state := STATE_BLOCKED\<rparr>) s"
  have "sched_inv ?s bs Q" by (rule sched_inv_upd [OF r(1,4)])
  moreover have "member_ok 6 (ptable ?s ! c)" using r(3,6) sched_invD(2) [OF r(1)] by (simp add: member_ok_def PRIO_LAST_def)
  moreover have "6 < N_QUEUES" "(6 :: nat) \<noteq> 3" by (simp_all add: N_QUEUES_def)
  ultimately obtain s' where "que_insert call_compare (Some 6) (Some c) ?s = Inr (E_SUCCESS, s')"
    using sched_append [where f = "\<lambda>p. p", OF _ _ _ r(3,4), of ?s bs 6] by blast
  then show ?thesis
    using arg empty sched_invD(7) [OF r(1)] by (simp add: sys_read_def sio_read_empty Let_def CHAN_CIO_def CHAN_SIO_def)
qed

lemma sys_getprio_absent:
  assumes run: "running s bs Q c" and pid: "sint (ARG c 1 s) \<ge> 2" "ARG c 1 s \<noteq> p_pid (ptable s ! c)"
    and no: "\<forall>i < N_PROCS. p_pid (ptable s ! i) = ARG c 1 s \<longrightarrow> p_state (ptable s ! i) = STATE_UNUSED"
  shows "sys_getprio c s = Inl Undef"
proof -
  have "first_ix (\<lambda>i. p_pid (ptable s ! i) = ARG c 1 s \<and> p_state (ptable s ! i) \<noteq> STATE_UNUSED) N_PROCS = None"
    using no by (auto simp: first_ix_None)
  moreover have "ARG c 1 s \<noteq> 0" using pid(1) by auto
  ultimately show ?thesis
    using pid runningD(5) [OF run] by (simp add: sys_getprio_def pcb_find_pid_def FIRST_USER_PID_def pcb_deref_def)
qed

text \<open>The frame loop of \<^verbatim>\<open>sys_fork()\<close> at the outermost frame, whose saved frame pointer is zero: the loop does not stop there
  but goes on at the address \<open>offset\<close>.\<close>

lemma fix_frames_overruns:
  assumes "bp \<noteq> NULL" and "load32 m bp = 0" and "offset \<noteq> 0"
  shows "fix_frames offset bp lastbp m =
    (let m = store32 m bp offset in
     fix_frames offset (load32 (store32 m offset (load32 m offset + offset)) offset) offset (store32 m offset (load32 m offset + offset)))"
proof -
  have "fix_frames offset bp lastbp m = fix_frames offset offset bp (store32 m bp offset)"
    using assms by (subst fix_frames.simps) (simp add: Let_def)
  also have "\<dots> = (let m = store32 m bp offset in
     fix_frames offset (load32 (store32 m offset (load32 m offset + offset)) offset) offset (store32 m offset (load32 m offset + offset)))"
    using assms(3) by (subst fix_frames.simps) (simp add: Let_def)
  finally show ?thesis .
qed

lemma stk_alloc_more:
  assumes "stk_alloc s = Inr (e, k, s')"
  shows "stk_st.more s' = stk_st.more s"
proof (cases "free_stacks s = NULL")
  case True
  then obtain new s1 where p: "km_page_alloc STACK_PAGES s = Inr (new, s1)" "stk_st.more s' = stk_st.more s1"
    using assms by (auto simp: stk_alloc_def kbind_eq_Inr split: if_splits)
  have "que_st.more s1 = que_st.more s" using km_page_alloc_more(1) [OF p(1)] by (cases s1; cases s) simp
  then show ?thesis using p(2) by (cases s1; cases s) simp
next
  case False
  then show ?thesis using assms by (auto simp: stk_alloc_def Let_def split: if_splits)
qed

lemma stk_setup_more: "stk_setup k e a s = Inr (ctx, s') \<Longrightarrow> stk_st.more s' = stk_st.more s"
  by (auto simp: stk_setup_def Let_def kbind_eq_Inr poke32_def split: option.splits)

lemma stk_more_ptable: "stk_st.more s = stk_st.more t \<Longrightarrow> ptable s = ptable t"
  by (cases s; cases t) simp

text \<open>A successful \<^verbatim>\<open>exec()\<close> gives the process a context in the new stack, frees the old stack, and leaves the old stack in
  the control block; the new one is recorded nowhere.\<close>

lemma sys_exec_keeps_old_stack:
  assumes al: "stk_alloc s = Inr (E_SUCCESS, Some k, s1)" and su: "stk_setup k (ARG c 1 s) (ARG c 2 s) s1 = Inr (ctx, s2)"
    and nn: "ctx \<noteq> NULL" "p_stack (ptable s ! c) \<noteq> NULL" and c: "c < length (ptable s)"
  shows "\<exists>s'. sys_exec c s = Inr s' \<and> p_context (ptable s' ! c) = ctx \<and> p_stack (ptable s' ! c) = p_stack (ptable s ! c) \<and>
    free_stacks s' = p_stack (ptable s ! c)"
proof -
  have "ptable s2 = ptable s"
    using stk_more_ptable [OF stk_setup_more [OF su]] stk_more_ptable [OF stk_alloc_more [OF al]] by simp
  then show ?thesis using assms by (simp add: sys_exec_def stk_free_def Let_def)
qed

section \<open>Correctness of the system calls\<close>

text \<open>C11. \<^verbatim>\<open>sleep(0)\<close> yields: the caller goes to the end of the ready queue of its priority. \<^verbatim>\<open>sleep(n)\<close> puts the caller into the
  sleeping queue behind every process that wakes no later, with the time at which it is to be woken. In both
  cases the head of the highest-priority ready queue goes on, and the kernel panics if there is none.\<close>

theorem sys_sleep_correct:
  assumes "running s bs Q c"
  shows "if ARG c 1 s = 0
    then goes_on (sys_sleep c s) bs (let k = unat (p_priority (ptable s ! c)) in Q(k := Q k @ [Some c])) (\<lambda>_. True)
    else goes_on (sys_sleep c s) bs
      (Q(3 := sleep_place (upd_pcb c (\<lambda>p. p\<lparr>p_wakeup := system_time s + ARG c 1 s\<rparr>) s) (Some c) (Q 3)))
      (\<lambda>s'. p_wakeup (ptable s' ! c) = system_time s + ARG c 1 s)"
  by (rule sys_sleep_run [OF assms])

text \<open>C10. \<^verbatim>\<open>wait()\<close>: with a terminated child, the caller gets the child's identifier as the result and its status through the
  pointer it passed, if any, and goes on, and the child's control block and stack are freed; without children the
  result is \<^verbatim>\<open>S_NO_CHILD\<close>; otherwise the caller is marked as waiting and another process goes on. The queues are left as they
  are, so a child that is collected this way stays in the zombie queue.\<close>

theorem sys_wait_branches:
  assumes "running s bs Q c"
    and "\<And>j. first_ix (dead_child c s) N_PROCS = Some j \<Longrightarrow> status_clear c s \<and> stack_clear c j s"
  shows "case first_ix (dead_child c s) N_PROCS of
      Some j \<Rightarrow> \<exists>s'. sys_wait c s = Inr s' \<and> current s' = Some c \<and> told c s (p_pid (ptable s ! j)) (p_status (ptable s ! j)) s' \<and>
        ptable s' = (ptable s)[j := (ptable s ! j)\<lparr>p_stack := NULL, p_state := STATE_UNUSED\<rparr>] \<and> que_abs s' bs Q
    | None \<Rightarrow> if \<forall>i < N_PROCS. \<not> child_of c s i then sys_wait c s = Inr (set_RET c S_NO_CHILD s)
        else goes_on (sys_wait c s) bs Q (\<lambda>s'. p_state (ptable s' ! c) = STATE_WAITING)"
  by (rule sys_wait_run [OF assms])

text \<open>C9. \<^verbatim>\<open>exit()\<close> of a process that has a live parent and is not \<^verbatim>\<open>init\<close>, when no terminated child of it has to be handed to a
  waiting \<^verbatim>\<open>init\<close>: all its children belong to \<^verbatim>\<open>init\<close> afterwards. A waiting parent gets the identifier and the status, is
  ready again, and the process is gone; otherwise the process is a zombie that keeps its status. The head of the
  highest-priority ready queue goes on.\<close>

theorem sys_exit_correct:
  assumes "running s bs Q c" and "may_exit c k s" and "unat (p_priority (ptable s ! k)) = n" and "n \<le> PRIO_LAST"
    and "status_clear k s" and "stack_clear k c s"
    and "(\<forall>i < N_PROCS. \<not> dead_child c s i) \<or> (\<exists>z < N_PROCS. init_pcb s = Some z \<and> p_state (ptable s ! z) \<noteq> STATE_WAITING)"
  shows "if p_state (ptable s ! k) = STATE_WAITING
    then goes_on (sys_exit c s) bs (Q(n := Q n @ [Some k]))
      (\<lambda>s'. told k s (p_pid (ptable s ! c)) (ARG c 1 s) s' \<and> p_state (ptable s' ! c) = STATE_UNUSED \<and>
        (\<forall>i < N_PROCS. child_of c s i \<longrightarrow> p_parent (ptable s' ! i) = init_pcb s))
    else goes_on (sys_exit c s) bs (Q(4 := Q 4 @ [Some c]))
      (\<lambda>s'. p_state (ptable s' ! c) = STATE_ZOMBIE \<and> p_status (ptable s' ! c) = ARG c 1 s \<and>
        (\<forall>i < N_PROCS. child_of c s i \<longrightarrow> p_parent (ptable s' ! i) = init_pcb s))"
  unfolding sys_exit_leaves [OF assms(1,2,7)]
  using exit_to_waiting [OF assms(1,2) _ assms(3-6)] exit_to_zombie [OF assms(1,2)] by simp

lemma bad_code_lit: "lit ''sys_isr: pid %d bad syscall (%d)'' @ [10] =
  [115, 121, 115, 95, 105, 115, 114, 58, 32, 112, 105, 100, 32, 37, 100, 32, 98, 97, 100, 32, 115, 121, 115, 99, 97, 108, 108,
   32, 40, 37, 100, 41, 10]"
  by code_simp

lemma bad_code_ok: "fmt_ok ((lit ''sys_isr: pid %d bad syscall (%d)'' @ [10]) @ [0]) [Num a, Num b]"
  unfolding bad_code_lit using parg_num_ok [of 100 a] parg_num_ok [of 100 b]
  by (simp add: fmt_ok.simps fmt_spec_def is_conv_def)


text \<open>C12. A read from the serial line for which no input is there, which is meant to block the caller, panics instead: the assertion
  around the insertion into the queue of blocked readers demands that the insertion fails.\<close>

theorem sys_read_panics:
  assumes "running s bs Q c" and "ARG c 1 s = CHAN_SIO" and "ARG c 3 s \<noteq> 0" and "incount s = 0"
  shows "sys_read c s = Inl Panic"
  by (rule sys_read_blocks [OF assms])

text \<open>A family: process 0 is running, process 1 is its parent and waits, process 2 is its child and has terminated.\<close>

definition family :: "pcb_t list" where
  "family = [zero_pcb\<lparr>p_state := STATE_RUNNING, p_parent := Some 1, p_pid := 8, p_context := 0x200000\<rparr>,
     zero_pcb\<lparr>p_state := STATE_WAITING, p_parent := Some 1, p_pid := 1, p_context := 0x300000\<rparr>,
     zero_pcb\<lparr>p_state := STATE_ZOMBIE, p_parent := Some 0, p_pid := 9, p_status := 5\<rparr>] @ replicate 22 zero_pcb"

lemma running_init [simp]: "running (s\<lparr>init_pcb := i\<rparr>) bs Q c = running s bs Q c" "running (s\<lparr>mem := m\<rparr>) bs Q c = running s bs Q c"
proof -
  have "sched_inv (s\<lparr>init_pcb := i\<rparr>) bs Q = sched_inv s bs Q" by (intro sched_inv_cong que_abs_cong; simp)
  then show "running (s\<lparr>init_pcb := i\<rparr>) bs Q c = running s bs Q c" by (simp add: running_def)
qed (simp add: running_def)

lemma load32_zero [simp]: "load32 (\<lambda>_. 0) a = 0"
  by (simp add: load32_def)

lemma at_home:
  assumes "length pt = N_PROCS" and "p_state (pt ! 0) = STATE_RUNNING" and "unat (p_priority (pt ! 0)) \<le> PRIO_LAST"
  obtains s :: clk_st where "running s [(0x101000, 3)] (\<lambda>_. []) 0" and "ptable s = pt" and "init_pcb s = Some 1" and "mem s = (\<lambda>_. 0)"
    and "cio_inv s" and "dup_to_sio s = 0"
proof -
  obtain s :: clk_st where s: "running s [(0x101000, 3)] (\<lambda>_. []) 0" "ptable s = pt" "cio_inv s" "dup_to_sio s = 0"
    by (rule boot_running [OF assms])
  then show thesis
    by (intro that [of "s\<lparr>mem := \<lambda>_. 0, init_pcb := Some 1\<rparr>"]) (simp_all add: cio_inv_def cio_geom_def)
qed

lemma family_ok: "length family = N_PROCS" "p_state (family ! 0) = STATE_RUNNING" "unat (p_priority (family ! 0)) \<le> PRIO_LAST"
  by (simp_all add: family_def N_PROCS_def zero_pcb_def PRIO_LAST_def)

lemma pick_only: "pick ((\<lambda>_. [])(0 := [Some i])) = Some ((\<lambda>_. []), i)"
proof -
  have "first_ix (\<lambda>k. ((\<lambda>_. [])(0 := [Some i])) k \<noteq> []) 3 = Some 0" unfolding first_ix_Some by simp
  then show ?thesis unfolding pick_def by (simp add: fun_eq_iff)
qed

theorem sys_sleep_correct_witness:
  "\<exists>(s :: clk_st) s'. ARG 0 1 s = 0 \<and> sys_sleep 0 s = Inr s' \<and> current s' = Some 0"
proof -
  obtain s :: clk_st where s: "running s [(0x101000, 3)] (\<lambda>_. []) 0" "ptable s = family" "mem s = (\<lambda>_. 0)"
    by (rule at_home [OF family_ok])
  have a: "ARG 0 1 s = 0" by (simp add: ARG_def s(3))
  have p: "unat (p_priority (ptable s ! 0)) = 0" by (simp add: s(2) family_def zero_pcb_def)
  have "goes_on (sys_sleep 0 s) [(0x101000, 3)] ((\<lambda>_. [])(0 := [Some 0])) (\<lambda>_. True)"
    using sys_sleep_correct [OF s(1)] a p by (simp add: Let_def)
  then show ?thesis using a unfolding goes_on_def pick_only by (auto dest: runningD(2))
qed

theorem sys_wait_branches_witness:
  "\<exists>(s :: clk_st) s'. sys_wait 0 s = Inr s' \<and> current s' = Some 0 \<and> p_state (ptable s' ! 2) = STATE_UNUSED \<and>
     load32 (mem s') (0x200000 + ctx_eax) = 9"
proof -
  obtain s :: clk_st where s: "running s [(0x101000, 3)] (\<lambda>_. []) 0" "ptable s = family" "mem s = (\<lambda>_. 0)"
    by (rule at_home [OF family_ok])
  have d: "first_ix (dead_child 0 s) N_PROCS = Some 2"
    unfolding first_ix_Some by (auto simp: dead_child_def child_of_def s(2) family_def zero_pcb_def N_PROCS_def less_Suc_eq numeral_2_eq_2)
  have "status_clear 0 s \<and> stack_clear 0 2 s"
    by (simp add: status_clear_def stack_clear_def ARG_def s(2,3)) (simp add: family_def zero_pcb_def)
  then have c: "status_clear 0 s \<and> stack_clear 0 j s" if "first_ix (dead_child 0 s) N_PROCS = Some j" for j using d that by simp
  from sys_wait_branches [OF s(1) c] d obtain s' where "sys_wait 0 s = Inr s'" "current s' = Some 0"
    "told 0 s (p_pid (ptable s ! 2)) (p_status (ptable s ! 2)) s'"
    "ptable s' = (ptable s)[2 := (ptable s ! 2)\<lparr>p_stack := NULL, p_state := STATE_UNUSED\<rparr>]" by auto
  then show ?thesis by (intro exI [of _ s] exI [of _ s']) (simp add: told_def s(2) family_def)
qed

theorem sys_exit_correct_witness:
  "\<exists>(s :: clk_st) s'. sys_exit 0 s = Inr s' \<and> current s' = Some 1 \<and> p_state (ptable s' ! 0) = STATE_UNUSED \<and>
     load32 (mem s') (0x300000 + ctx_eax) = 8"
proof -
  let ?pt = "family[2 := zero_pcb]"
  obtain s :: clk_st where s: "running s [(0x101000, 3)] (\<lambda>_. []) 0" "ptable s = ?pt" "init_pcb s = Some 1" "mem s = (\<lambda>_. 0)"
    by (rule at_home [of ?pt]) (simp_all add: family_def N_PROCS_def zero_pcb_def PRIO_LAST_def)
  have ok: "may_exit 0 1 s" by (simp add: may_exit_def s(2,3) family_def N_PROCS_def)
  have cl: "status_clear 1 s" "stack_clear 1 0 s"
    by (simp_all add: status_clear_def stack_clear_def ARG_def s(2,4)) (simp add: family_def zero_pcb_def)
  have p: "unat (p_priority (ptable s ! 1)) = 0" "p_state (ptable s ! 1) = STATE_WAITING" "p_context (ptable s ! 1) = 0x300000"
    "p_pid (ptable s ! 0) = 8" by (simp_all add: s(2) family_def zero_pcb_def)
  have dead: "\<not> dead_child 0 s i" if "i < N_PROCS" for i
  proof -
    have "i = 0 \<or> i = 1 \<or> i = 2 \<or> 3 \<le> i" by arith
    then have "p_state (ptable s ! i) \<noteq> STATE_ZOMBIE"
      using that by (auto simp: s(2) family_def zero_pcb_def N_PROCS_def nth_Cons' nth_list_update)
    then show ?thesis by (simp add: dead_child_def)
  qed
  have "goes_on (sys_exit 0 s) [(0x101000, 3)] ((\<lambda>_. [])(0 := [Some 1]))
    (\<lambda>s'. told 1 s 8 (ARG 0 1 s) s' \<and> p_state (ptable s' ! 0) = STATE_UNUSED \<and>
      (\<forall>i < N_PROCS. child_of 0 s i \<longrightarrow> p_parent (ptable s' ! i) = init_pcb s))"
    using sys_exit_correct [OF s(1) ok p(1) _ cl] dead p by simp
  then show ?thesis unfolding goes_on_def pick_only using p(3) by (auto simp: told_def dest: runningD(2))
qed


lemma running_incount [simp]: "running (s\<lparr>incount := v\<rparr>) bs Q c = running s bs Q c"
proof -
  have "sched_inv (s\<lparr>incount := v\<rparr>) bs Q = sched_inv s bs Q" by (intro sched_inv_cong que_abs_cong; simp)
  then show ?thesis by (simp add: running_def)
qed

theorem sys_read_panics_witness: "\<exists>s :: clk_st. current s = Some 0 \<and> sys_read 0 s = Inl Panic"
proof -
  obtain s :: clk_st where s: "running s [(0x101000, 3)] (\<lambda>_. []) 0" "ptable s = family" by (rule at_home [OF family_ok])
  let ?a = "0x200000 + SZ_CONTEXT + 4 :: u32" and ?b = "0x200000 + SZ_CONTEXT + 12 :: u32"
  let ?s = "s\<lparr>incount := 0, mem := store32 (store32 (\<lambda>_. 0) ?a 1) ?b 1\<rparr>"
  have "load32 (mem ?s) ?b = 1" "load32 (mem ?s) ?a = 1" by (simp_all add: load32_store32_other apart4_def)
  moreover have "p_context (ptable ?s ! 0) = 0x200000" by (simp add: s(2) family_def)
  ultimately have "ARG 0 1 ?s = CHAN_SIO" "ARG 0 3 ?s \<noteq> 0" by (simp_all add: ARG_def ARG_ADDR_def CHAN_SIO_def)
  moreover have run: "running ?s [(0x101000, 3)] (\<lambda>_. []) 0" using s(1) by simp
  ultimately have "sys_read 0 ?s = Inl Panic" by (intro sys_read_panics [OF run]) simp_all
  then show ?thesis using runningD(2) [OF run] by blast
qed

end
