(* ===== verification/Serial.thy ===== *)
theory Serial
  imports Syscalls
begin

text \<open>
  The interrupt handler of the serial line, \<^verbatim>\<open>sio_isr()\<close> of \<^verbatim>\<open>kernel/sio.c\<close>, together with the scheduler: a received character
  goes to the first process that is blocked for one, or into the input buffer.
\<close>

section \<open>The handler\<close>

definition UA4_IIR_NO_INT :: u8 where "UA4_IIR_NO_INT = 0x01"
definition UA4_IIR_LINE_STATUS :: u8 where "UA4_IIR_LINE_STATUS = 0x06"
definition UA4_IIR_RX :: u8 where "UA4_IIR_RX = 0x04"
definition UA5_IIR_RX_FIFO :: u8 where "UA5_IIR_RX_FIFO = 0x0c"
definition UA4_IIR_TX :: u8 where "UA4_IIR_TX = 0x02"
definition UA4_IIR_MODEM_STATUS :: u8 where "UA4_IIR_MODEM_STATUS = 0x00"

lemmas iir_defs = UA4_IIR_NO_INT_def UA4_IIR_LINE_STATUS_def UA4_IIR_RX_def UA5_IIR_RX_FIFO_def UA4_IIR_TX_def
  UA4_IIR_MODEM_STATUS_def

text \<open>A character that has been received, after the mapping of carriage returns.\<close>

definition sio_rx :: "u8 \<Rightarrow> 'z sio_st_scheme \<Rightarrow> kerr + 'z sio_st_scheme" where
  "sio_rx ch s =
     kbind (que_length (sioread s) s) (\<lambda>n.
       if \<not> n < 1 then
         kbind (que_remove (sioread s) (Some None) s) (\<lambda>(e, d, s).
         kbind (kassert (e = E_SUCCESS)) (\<lambda>_.
           let pcb = Option.bind d id in
           kbind (kassert (pcb \<noteq> None)) (\<lambda>_.
           kbind (pcb_deref pcb) (\<lambda>i.
             let buf = ARG i 2 s;
                 len = ARG i 3 s;
                 s = (if len > 0 then set_RET i 1 (s\<lparr>mem := (mem s)(buf := ch)\<rparr>) else set_RET i 0 s)
             in schedule pcb s))))
       else sio_rx_store ch s)"

text \<open>One event of the loop, other than the last; every event takes at least one answer of the device.\<close>

definition sio_event :: "u8 \<Rightarrow> 'z cio_st_scheme \<Rightarrow> kerr + 'z cio_st_scheme" where
  "sio_event iir s =
     (if iir = UA4_IIR_LINE_STATUS then
        kbind (inb UA4_LSR s) (\<lambda>(v, s). cio_printf (lit ''** SIO int, LSR = %02x'' @ [10]) [Num (ucast v)] s)
      else if iir = UA4_IIR_RX then
        kbind (inb UA4_RXD s) (\<lambda>(ch, s). sio_rx (if ch = 13 then 10 else ch) s)
      else if iir = UA5_IIR_RX_FIFO then
        kbind (inb UA4_RXD s) (\<lambda>(ch, s). cio_printf (lit ''** SIO FIFO timeout, RXD = %02x'' @ [10]) [Num (ucast ch)] s)
      else if iir = UA4_IIR_TX then sio_tx s
      else if iir = UA4_IIR_MODEM_STATUS then
        kbind (inb UA4_MSR s) (\<lambda>(v, s). cio_printf (lit ''** SIO int, MSR = %02x'' @ [10]) [Num (ucast v)] s)
      else Inl Panic)"

fun sio_events :: "nat \<Rightarrow> 'z cio_st_scheme \<Rightarrow> kerr + 'z cio_st_scheme" where
  "sio_events 0 s = Inl NoInput"
| "sio_events (Suc n) s =
     kbind (inb UA4_IIR s) (\<lambda>(v, s).
       let iir = v AND 0x0f in
       if iir = UA4_IIR_NO_INT then Inr (outb PIC1_CMD PIC_EOI s)
       else kbind (sio_event iir s) (sio_events n))"

definition sio_isr :: "'z cio_st_scheme \<Rightarrow> kerr + 'z cio_st_scheme" where
  "sio_isr s = sio_events (Suc (length (io_in s))) s"

section \<open>A character for a blocked process\<close>

lemma sioread_length:
  assumes "sched_inv s bs Q"
  shows "que_length (sioread s) s = Inr (int (length (Q 6)))"
proof -
  have i: "6 < N_QUEUES" by (simp add: N_QUEUES_def)
  obtain fs N where rep: "que_rep s bs fs N" and QN: "\<forall>i < N_QUEUES. Q i = map (\<lambda>a. qn_data (qn s a)) (N i)"
    using sched_invD(1) [OF assms] by (auto simp: que_abs_def)
  have "unat (q_count (queues s ! 6)) = length (Q 6)"
    using rep QN i by (auto simp: que_rep_def q_chain_def)
  moreover have "length (Q 6) < 512"
    using sched_short(1) [OF assms] member_le_sum [of 6 "{..<N_QUEUES}" "\<lambda>i. length (Q i)"] i by simp
  ultimately show ?thesis using que_length_sched [OF assms, of 6] sched_invD(7) [OF assms] by (simp add: sint_small)
qed

lemma sched_inv_sio [simp]:
  "sched_inv (s\<lparr>inbuffer := buf\<rparr>) bs Q = sched_inv s bs Q" "sched_inv (s\<lparr>inlast := n\<rparr>) bs Q = sched_inv s bs Q"
  "sched_inv (s\<lparr>incount := v\<rparr>) bs Q = sched_inv s bs Q" "sched_inv (s\<lparr>innext := n\<rparr>) bs Q = sched_inv s bs Q"
  "sched_inv (s'\<lparr>io_in := xs\<rparr>) bs Q = sched_inv s' bs Q" "sched_inv (outb p b s') bs Q = sched_inv s' bs Q"
  by (intro sched_inv_cong que_abs_cong; simp add: outb_def)+

lemma sio_rx_blocked:
  assumes inv: "sched_inv s bs Q" and Q: "Q 6 = Some j # ds" and len: "ARG j 3 s \<noteq> 0"
    and clear: "\<forall>i < 4. p_context (ptable s ! j) + ctx_eax + i \<noteq> ARG j 2 s"
  defines "k \<equiv> unat (p_priority (ptable s ! j))"
  shows "\<exists>s'. sio_rx ch s = Inr s' \<and> sched_inv s' bs (Q(6 := ds, k := Q k @ [Some j])) \<and> current s' = current s \<and>
    mem s' (ARG j 2 s) = ch \<and> REG j ctx_eax s' = 1 \<and> p_state (ptable s' ! j) = STATE_READY"
proof -
  have i6: "6 < N_QUEUES" by (simp add: N_QUEUES_def)
  obtain s1 where rem: "que_remove (Some 6) (Some None) s = Inr (E_SUCCESS, Some (Some j), s1)" "que_frame s s1"
      "sched_inv s1 bs (Q(6 := ds))" and j: "j < N_PROCS" "member_ok 6 (ptable s ! j)" "Some j \<notin> set ds"
    using que_remove_sched [OF inv i6 Q, of None] by auto
  have same: "ptable s1 = ptable s" "current s1 = current s" "mem s1 = mem s"
    using rem(2) que_more [of s1 s] by (simp_all add: que_frame_def)
  have args: "ARG j 2 s1 = ARG j 2 s" "ARG j 3 s1 = ARG j 3 s" by (simp_all add: ARG_def ARG_ADDR_def same)
  let ?t = "set_RET j 1 (s1\<lparr>mem := (mem s1)(ARG j 2 s := ch)\<rparr>)"
  have inv_t: "sched_inv ?t bs (Q(6 := ds))" using rem(3) by simp
  have k: "k \<le> PRIO_LAST" using j(2) by (simp add: member_ok_def k_def)
  have nq: "\<not> queued (Q(6 := ds)) j" by (rule sched_removed [OF inv i6]) (use Q j in simp_all)
  have "unat (p_priority (ptable ?t ! j)) = k" by (simp add: same k_def)
  from schedule_run [OF inv_t j(1) nq this k]
  obtain s' where s': "schedule (Some j) ?t = Inr s'" "sched_inv s' bs (Q(6 := ds, k := (Q(6 := ds)) k @ [Some j]))"
    "ptable s' = (ptable s)[j := (ptable s ! j)\<lparr>p_state := STATE_READY\<rparr>]" "current s' = current s" "proc_frame ?t s'"
    by (auto simp: same)
  have k6: "k \<noteq> 6" using k by (simp add: PRIO_LAST_def)
  have mem: "mem s' = mem ?t" using s'(5) by (simp add: proc_frame_def)
  have run: "sio_rx ch s = Inr s'"
    using sioread_length [OF inv] sched_invD(7) [OF inv] Q rem(1) j(1) len s'(1) args
    by (simp add: sio_rx_def pcb_deref_def Let_def word_gt_0)
  have "store32 m (p_context (ptable s ! j) + ctx_eax) v (ARG j 2 s) = m (ARG j 2 s)" for m v
    using clear [rule_format, of 0] clear [rule_format, of 1] clear [rule_format, of 2] clear [rule_format, of 3]
    by (simp add: store32_def)
  then have "mem s' (ARG j 2 s) = ch" unfolding mem by (simp add: same)
  moreover have "REG j ctx_eax s' = 1"
    using j(1) sched_invD(2) [OF inv] unfolding REG_def mem s'(3) by (simp add: same)
  moreover have "p_state (ptable s' ! j) = STATE_READY" using s'(3) j(1) sched_invD(2) [OF inv] by simp
  ultimately show ?thesis using run s'(2,4) k6 by (simp del: fun_upd_apply add: fun_upd_other)
qed

section \<open>A burst of characters\<close>

definition cr_lf :: "u8 \<Rightarrow> u8" where
  "cr_lf ch = (if ch = 13 then 10 else ch)"

text \<open>What the device answers when the characters \<open>cs\<close> have arrived and nothing else is pending.\<close>

fun rx_script :: "u8 list \<Rightarrow> u8 list" where
  "rx_script [] = [UA4_IIR_NO_INT]"
| "rx_script (c # cs) = UA4_IIR_RX # c # rx_script cs"

lemma in_frames [simp]:
  "in_ok (s\<lparr>io_in := xs\<rparr>) = in_ok s" "in_queue (s\<lparr>io_in := xs\<rparr>) = in_queue s" "in_ok (outb p b s) = in_ok s" "in_queue (outb p b s) = in_queue s"
  by (simp_all add: in_ok_def in_queue_def outb_def)

lemma sio_events_rx:
  assumes "sched_inv s bs Q" and "Q 6 = []" and "in_ok s" and "inlast s + length cs \<le> BUF_SIZE"
    and "io_in s = rx_script cs @ rest" and "length cs < n"
  shows "\<exists>s'. sio_events n s = Inr s' \<and> sched_inv s' bs Q \<and> in_ok s' \<and> in_queue s' = in_queue s @ map cr_lf cs \<and> io_in s' = rest"
  using assms
proof (induction cs arbitrary: s n)
  case Nil
  then obtain k where n: "n = Suc k" by (cases n) auto
  let ?s = "outb PIC1_CMD PIC_EOI (s\<lparr>io_in := rest\<rparr>)"
  have "sio_events n s = Inr ?s" using Nil.prems n by (simp add: inb_def iir_defs)
  moreover have "io_in ?s = rest" by (simp add: outb_def)
  ultimately show ?case using Nil.prems by simp
next
  case (Cons c cs)
  then obtain k where n: "n = Suc k" by (cases n) auto
  let ?s = "s\<lparr>io_in := rx_script cs @ rest\<rparr>"
  have room: "in_ok ?s" "inlast ?s < BUF_SIZE" using Cons.prems by simp_all
  note st = sio_rx_store_room [OF room, of "cr_lf c"]
  define t where "t = ?s\<lparr>inbuffer := (inbuffer ?s)[inlast ?s := cr_lf c], inlast := Suc (inlast ?s), incount := incount ?s + 1\<rparr>"
  have inv: "sched_inv ?s bs Q" "sched_inv t bs Q" using Cons.prems(1) by (simp_all add: t_def)
  have "sio_rx (cr_lf c) ?s = Inr t"
    using sioread_length [OF inv(1)] Cons.prems(2) st(1) by (simp add: sio_rx_def t_def)
  then have "sio_events n s = sio_events k t"
    using Cons.prems(5) n by (simp add: inb_def iir_defs sio_event_def cr_lf_def)
  moreover have "\<exists>s'. sio_events k t = Inr s' \<and> sched_inv s' bs Q \<and> in_ok s' \<and> in_queue s' = in_queue t @ map cr_lf cs \<and> io_in s' = rest"
  proof (rule Cons.IH [OF inv(2) Cons.prems(2)])
    show "in_ok t" using st(2) unfolding t_def .
    show "inlast t + length cs \<le> BUF_SIZE" "io_in t = rx_script cs @ rest" "length cs < k"
      using Cons.prems n by (simp_all add: t_def)
  qed
  moreover have "in_queue t = in_queue s @ [cr_lf c]" using st(3) unfolding t_def [symmetric] by simp
  ultimately show ?case by auto
qed

section \<open>Correctness of the handler\<close>

text \<open>C13. Characters that arrive while no process is blocked for them go, carriage returns mapped to line feeds, behind the unread
  ones in their order of arrival, as long as the buffer has room behind the last one; the handler returns when the
  device has nothing more to report, having taken exactly its answers, and the queues are untouched.\<close>

theorem sio_isr_receives:
  assumes "sched_inv s bs Q" and "Q 6 = []" and "in_ok s" and "inlast s + length cs \<le> BUF_SIZE"
    and "io_in s = rx_script cs @ rest"
  shows "\<exists>s'. sio_isr s = Inr s' \<and> sched_inv s' bs Q \<and> in_ok s' \<and> in_queue s' = in_queue s @ map cr_lf cs \<and> io_in s' = rest"
proof -
  have "length cs < length (rx_script cs)" by (induction cs) simp_all
  then have "length cs < Suc (length (io_in s))" using assms(5) by simp
  from sio_events_rx [OF assms this] show ?thesis by (simp add: sio_isr_def)
qed

theorem sio_isr_receives_witness:
  "\<exists>(s :: clk_st) s'. io_in s = [4, 104, 4, 13, 1] \<and> sio_isr s = Inr s' \<and> in_queue s' = [104, 10]"
proof -
  obtain s :: clk_st where s: "running s [(0x101000, 3)] (\<lambda>_. []) 0" by (rule boot_running [OF family_ok])
  let ?s = "s\<lparr>inbuffer := replicate 1024 0, inlast := 0, innext := 0, incount := 0, io_in := rx_script [104, 13] @ []\<rparr>"
  have inv: "sched_inv ?s [(0x101000, 3)] (\<lambda>_. [])" using runningD(1) [OF s] by simp
  have ok: "in_ok ?s" "inlast ?s + length [104, 13 :: u8] \<le> BUF_SIZE" "io_in ?s = rx_script [104, 13] @ []" "in_queue ?s = []"
    by (simp_all add: in_ok_def in_queue_def BUF_SIZE_def)
  from sio_isr_receives [OF inv refl ok(1-3)] obtain s' where "sio_isr ?s = Inr s'" "in_queue s' = [104, 10]"
    using ok(4) by (auto simp: cr_lf_def)
  moreover have "io_in ?s = [4, 104, 4, 13, 1]" by (simp add: iir_defs)
  ultimately show ?thesis by blast
qed

text \<open>C14. A character that arrives while processes are blocked for one goes into the buffer of the first of them; its call
  returns 1 and the process is appended to the ready queue of its priority. The others stay blocked.\<close>

theorem sio_rx_wakes_reader:
  assumes "sched_inv s bs Q" and "Q 6 = Some j # ds" and "ARG j 3 s \<noteq> 0"
    and "\<forall>i < 4. p_context (ptable s ! j) + ctx_eax + i \<noteq> ARG j 2 s" and "k = unat (p_priority (ptable s ! j))"
  shows "\<exists>s'. sio_rx ch s = Inr s' \<and> sched_inv s' bs (Q(6 := ds, k := Q k @ [Some j])) \<and> current s' = current s \<and>
    mem s' (ARG j 2 s) = ch \<and> REG j ctx_eax s' = 1 \<and> p_state (ptable s' ! j) = STATE_READY"
  using sio_rx_blocked [OF assms(1-4)] assms(5) by simp

text \<open>Process 1 is blocked for the serial line, with a buffer of one byte.\<close>

definition reader_table :: "pcb_t list" where
  "reader_table = [zero_pcb\<lparr>p_state := STATE_RUNNING\<rparr>, zero_pcb\<lparr>p_state := STATE_BLOCKED, p_context := 0x300000\<rparr>] @ replicate 23 zero_pcb"

theorem sio_rx_wakes_reader_witness:
  "\<exists>(s :: clk_st) s'. sio_rx 65 s = Inr s' \<and> mem s' 0 = 65 \<and> p_state (ptable s' ! 1) = STATE_READY"
proof -
  obtain s :: clk_st where s: "running s [(0x101000, 3)] (\<lambda>_. []) 0" "ptable s = reader_table"
    by (rule boot_running [of reader_table]) (simp_all add: reader_table_def N_PROCS_def zero_pcb_def PRIO_LAST_def)
  let ?s = "s\<lparr>mem := store32 (\<lambda>_. 0) (0x300000 + SZ_CONTEXT + 12) 1\<rparr>"
  have inv: "sched_inv ?s [(0x101000, 3)] (\<lambda>_. [])" using runningD(1) [OF s(1)] by simp
  have i: "6 < N_QUEUES" "(6 :: nat) \<noteq> 3" "1 < N_PROCS" "\<not> queued (\<lambda>_. []) 1" by (simp_all add: N_QUEUES_def N_PROCS_def)
  have "member_ok 6 (ptable ?s ! 1)" by (simp add: s(2) reader_table_def member_ok_def zero_pcb_def PRIO_LAST_def)
  from sched_append [where f = "\<lambda>p. p", OF inv i this] obtain t where t: "que_frame ?s t"
    "sched_inv (upd_pcb 1 (\<lambda>p. p) t) [(0x101000, 3)] ((\<lambda>_. [])(6 := [] @ [Some 1]))" by blast
  have idn: "upd_pcb 1 (\<lambda>p. p) t = t" by (simp add: upd_pcb_def)
  have inv_t: "sched_inv t [(0x101000, 3)] ((\<lambda>_. [])(6 := [Some 1]))" using t(2) unfolding idn append_Nil .
  have same: "ptable t = reader_table" "mem t = mem ?s" using t(1) que_more(1) [of t ?s] s(2) by (simp_all add: que_frame_def)
  have ctx: "p_context (ptable t ! 1) = 0x300000" by (simp add: same reader_table_def)
  have a3: "ARG 1 3 t = 1" unfolding ARG_def ARG_ADDR_def same(2) ctx by simp
  have "load32 (store32 (\<lambda>_. 0) (0x300000 + SZ_CONTEXT + 12) 1) (0x300000 + SZ_CONTEXT + 8) = 0"
    by (subst load32_store32_other) (simp_all add: apart4_def)
  then have a2: "ARG 1 2 t = 0" unfolding ARG_def ARG_ADDR_def same(2) ctx by simp
  have clear: "\<forall>i < 4. p_context (ptable t ! 1) + ctx_eax + i \<noteq> ARG 1 2 t"
    unfolding ctx a2 by (auto simp: ctx_offsets word_less_nat_alt word_unat_eq_iff unat_word_ariths)
  have "((\<lambda>_. [])(6 := [Some 1])) 6 = Some (1 :: nat) # []" by simp
  from sio_rx_wakes_reader [OF inv_t this _ clear refl, of 65] a2 a3 show ?thesis by auto
qed

end
