(* ===== verification/Keyboard.thy ===== *)
theory Keyboard
  imports Console
begin

text \<open>
  Correctness of keyboard input (\<^verbatim>\<open>kernel/cio.c\<close>): the circular buffer is an instance of the ring buffer
  interface, so characters are delivered in the order in which the keys were pressed.
\<close>

section \<open>The keyboard buffer as a ring\<close>

definition key_used :: "'z cio_st_scheme \<Rightarrow> nat" where
  "key_used s = (next_space s + C_BUFSIZE - next_char s) mod C_BUFSIZE"

definition key_ok :: "'z cio_st_scheme \<Rightarrow> bool" where
  "key_ok s \<longleftrightarrow> length (input_buffer s) = C_BUFSIZE \<and> next_char s < C_BUFSIZE \<and> next_space s < C_BUFSIZE"

definition key_queue :: "'z cio_st_scheme \<Rightarrow> u8 list" where
  "key_queue s = ring_seq (input_buffer s) (next_char s) (key_used s)"

lemma key_used_cases:
  assumes "key_ok s"
  shows "key_used s = (if next_char s \<le> next_space s then next_space s - next_char s
    else next_space s + 200 - next_char s)"
  using assms by (auto simp: key_used_def key_ok_def C_BUFSIZE_def mod_if)

lemma key_place:
  assumes "key_ok s"
  shows "(next_char s + key_used s) mod 200 = next_space s"
  using assms key_used_cases [OF assms] by (auto simp: key_ok_def C_BUFSIZE_def)

lemma key_empty: "key_ok s \<Longrightarrow> key_used s = 0 \<longleftrightarrow> next_char s = next_space s"
  using key_used_cases [of s] by (auto simp: key_ok_def C_BUFSIZE_def)

lemma key_full: "key_ok s \<Longrightarrow> increment (next_space s) = next_char s \<longleftrightarrow> key_used s = 199"
  using key_used_cases [of s] by (auto simp: key_ok_def C_BUFSIZE_def increment_def)

lemma key_store_ok:
  assumes "key_ok s" and "key_used s < 199"
  shows "key_ok (key_store c s) \<and> next_char (key_store c s) = next_char s \<and> key_used (key_store c s) = Suc (key_used s) \<and>
    input_buffer (key_store c s) = (input_buffer s)[(next_char s + key_used s) mod length (input_buffer s) := c]"
proof -
  have room: "increment (next_space s) \<noteq> next_char s" using key_full [OF assms(1)] assms(2) by simp
  let ?s = "s\<lparr>input_buffer := (input_buffer s)[next_space s := c], next_space := increment (next_space s)\<rparr>"
  have run: "key_store c s = ?s" using room by (simp add: key_store_def Let_def)
  have ok: "key_ok ?s" using assms(1) by (auto simp: key_ok_def increment_def C_BUFSIZE_def)
  have "key_used ?s = Suc (key_used s)"
    using key_used_cases [OF ok] key_used_cases [OF assms(1)] assms room
    by (auto simp: key_ok_def increment_def C_BUFSIZE_def split: if_splits)
  then show ?thesis unfolding run using ok key_place [OF assms(1)] assms(1) by (simp add: key_ok_def C_BUFSIZE_def)
qed

lemma key_take_ok:
  assumes "key_ok s" and "0 < key_used s"
  shows "\<exists>s'. key_take s = Inr (input_buffer s ! (next_char s mod length (input_buffer s)), s') \<and> key_ok s' \<and>
    next_char s' = Suc (next_char s) mod length (input_buffer s) \<and> key_used s' = key_used s - 1 \<and>
    input_buffer s' = input_buffer s"
proof -
  let ?s = "s\<lparr>next_char := increment (next_char s)\<rparr>"
  have ok: "key_ok ?s" using assms(1) by (auto simp: key_ok_def increment_def C_BUFSIZE_def)
  have "key_used ?s = key_used s - 1"
    using key_used_cases [OF ok] key_used_cases [OF assms(1)] assms
    by (auto simp: key_ok_def increment_def C_BUFSIZE_def split: if_splits)
  moreover have "increment (next_char s) = Suc (next_char s) mod 200"
    using assms(1) by (auto simp: increment_def key_ok_def C_BUFSIZE_def mod_Suc)
  ultimately show ?thesis using ok assms(1) by (simp add: key_take_def key_ok_def C_BUFSIZE_def)
qed

interpretation kb: ring_buffer input_buffer next_char key_used 199 key_ok "\<lambda>c s. Inr (key_store c s)" key_take
proof
  fix s :: "'a cio_st_scheme" and c
  show "key_ok s \<Longrightarrow> 199 \<le> length (input_buffer s)" by (simp add: key_ok_def C_BUFSIZE_def)
  show "key_ok s \<Longrightarrow> key_used s \<le> 199"
    using key_used_cases [of s] by (auto simp: key_ok_def C_BUFSIZE_def)
  show "key_ok s \<Longrightarrow> key_used s < 199 \<Longrightarrow> \<exists>s'. Inr (key_store c s) = Inr s' \<and> key_ok s' \<and> next_char s' = next_char s \<and>
    key_used s' = Suc (key_used s) \<and> input_buffer s' = (input_buffer s)[(next_char s + key_used s) mod length (input_buffer s) := c]"
    using key_store_ok by blast
  show "key_ok s \<Longrightarrow> 0 < key_used s \<Longrightarrow> \<exists>s'. key_take s = Inr (input_buffer s ! (next_char s mod length (input_buffer s)), s') \<and>
    key_ok s' \<and> next_char s' = Suc (next_char s) mod length (input_buffer s) \<and> key_used s' = key_used s - 1 \<and>
    input_buffer s' = input_buffer s"
    using key_take_ok by blast
qed

section \<open>Keys\<close>

text \<open>The scan codes of keys that produce a character when pressed.\<close>

definition char_key :: "u32 \<Rightarrow> bool" where
  "char_key code \<longleftrightarrow> code < 0x80 \<and> code \<noteq> 0x2a \<and> code \<noteq> 0x36 \<and> code \<noteq> 0x1d"

definition key_char :: "'z cio_st_scheme \<Rightarrow> u32 \<Rightarrow> u8" where
  "key_char s code = ucast (ucast (scan_code ! kb_shift s ! unat code) AND ctrl_mask s)"

lemma table_not_minus: "(ucast (v :: u8) :: u32) \<noteq> i32_of_char 0xff"
proof
  assume "(ucast v :: u32) = i32_of_char 0xff"
  then have "bit (ucast v :: u32) 31 = bit (i32_of_char 0xff) 31" by simp
  then show False using bit_imp_le_length [of v 31] by (simp add: i32_of_char_def bit_simps)
qed

lemma low_code:
  fixes code :: u32
  assumes "code < 0x80"
  shows "code AND BMASK8 = code" and "code AND 0x80 = 0" and "code \<noteq> 0xaa" and "code \<noteq> 0xb6" and "code \<noteq> 0x9d"
proof -
  have n: "unat code < 2 ^ 7" using assms by (simp add: word_less_nat_alt)
  have "unat (take_bit 7 code) = unat code" using n by (simp add: unsigned_take_bit_eq take_bit_eq_mod unat_mod)
  then have "take_bit 7 code = code" by (simp add: word_unat_eq_iff)
  then have hi: "bit code k \<Longrightarrow> k < 7" for k by (metis bit_take_bit_iff)
  show "code AND BMASK8 = code"
  proof -
    have m: "BMASK8 = mask 8" by (simp add: BMASK8_def mask_eq_exp_minus_1)
    show ?thesis unfolding m by (rule bit_word_eqI) (auto simp: bit_simps dest: hi)
  qed
  show "code AND 0x80 = 0"
  proof -
    have m: "(0x80 :: u32) = push_bit 7 1" by simp
    have "\<not> bit (code AND push_bit 7 1) n" for n
      unfolding bit_and_iff bit_push_bit_iff using hi [of n] by auto
    then show ?thesis unfolding m by (intro bit_word_eqI) simp
  qed
  show "code \<noteq> 0xaa" "code \<noteq> 0xb6" "code \<noteq> 0x9d" using n by auto
qed

lemma char_key_press:
  assumes "char_key code"
  shows "input_scan_code code s = (ucast (scan_code ! kb_shift s ! unat code) AND ctrl_mask s, key_store (key_char s code) s)"
proof -
  have c: "code < 0x80" "code \<noteq> 0x2a" "code \<noteq> 0x36" "code \<noteq> 0x1d" using assms by (simp_all add: char_key_def)
  show ?thesis
    unfolding input_scan_code_def Let_def low_code(1) [OF c(1)]
    using c low_code(2-5) [OF c(1)] table_not_minus by (simp add: key_char_def)
qed

fun press_keys :: "u32 list \<Rightarrow> 'z cio_st_scheme \<Rightarrow> 'z cio_st_scheme" where
  "press_keys [] s = s"
| "press_keys (c # cs) s = press_keys cs (snd (input_scan_code c s))"

lemma key_store_mode [simp]:
  "kb_shift (key_store c s) = kb_shift s" "ctrl_mask (key_store c s) = ctrl_mask s" "key_char (key_store c s) = key_char s"
  by (simp_all add: key_store_def Let_def key_char_def fun_eq_iff)

lemma press_keys_puts:
  "\<forall>c \<in> set cs. char_key c \<Longrightarrow> puts (\<lambda>c s. Inr (key_store c s)) (map (key_char s) cs) s = Inr (press_keys cs s)"
proof (induction cs arbitrary: s)
  case (Cons c cs)
  then show ?case using Cons.IH [of "key_store (key_char s c) s"] by (simp add: char_key_press)
qed simp

text \<open>C38. Characters arrive in order: when up to 199 character keys are pressed while the keyboard buffer is
  empty, taking as many characters as were typed delivers the characters of these keys, for the current
  shift and control state, in the order of the key presses.\<close>

theorem keys_in_order:
  assumes "key_ok s" and "next_char s = next_space s" and "\<forall>c \<in> set cs. char_key c" and "length cs < C_BUFSIZE"
  shows "\<exists>s'. gets key_take (length cs) (press_keys cs s) = Inr (map (key_char s) cs, s') \<and> key_ok s'"
proof -
  have "key_used s = 0" using key_empty [OF assms(1)] assms(2) by simp
  with kb.puts_gets [OF assms(1), of "map (key_char s) cs"] press_keys_puts [OF assms(3), of s] assms(4)
  show ?thesis by (simp add: C_BUFSIZE_def)
qed

theorem keys_in_order_witness:
  "\<exists>s'. gets key_take 2 (press_keys [0x23, 0x17] boot_cio) = Inr ([104, 105], s')"
proof -
  have ok: "key_ok boot_cio" by (simp add: key_ok_def C_BUFSIZE_def)
  have cs: "\<forall>c \<in> set [0x23, 0x17]. char_key c" by (simp add: char_key_def)
  have "scan_code ! 0 ! 35 = 104" "scan_code ! 0 ! 23 = 105" by (simp_all add: scan_code_def)
  then have "map (key_char boot_cio) [0x23, 0x17] = [104, 105]" by (simp add: key_char_def)
  with keys_in_order [OF ok _ cs] show ?thesis by (auto simp: C_BUFSIZE_def numeral_2_eq_2)
qed

text \<open>A key without a character is not ignored: the test for the table's filler value compares an unsigned
  byte with a negative constant, so with the control key up the filler 255 is stored as if it had been
  typed.\<close>

theorem undefined_key_stored:
  assumes "char_key code" and "scan_code ! kb_shift s ! unat code = 255" and "ctrl_mask s = BMASK8"
    and "key_ok s" and "key_used s < 199"
  shows "fst (input_scan_code code s) = 255 \<and> key_queue (snd (input_scan_code code s)) = key_queue s @ [255]"
proof -
  have "key_char s code = 255" using assms(2,3) by (simp add: key_char_def BMASK8_def)
  moreover have "key_queue (key_store 255 s) = key_queue s @ [255]"
    using kb.put_contents [OF assms(4,5), of 255] unfolding key_queue_def by (metis sum.inject(2))
  ultimately show ?thesis using assms(2,3) by (simp add: char_key_press [OF assms(1)] BMASK8_def)
qed

theorem undefined_key_stored_witness: "key_queue (snd (input_scan_code 0x54 boot_cio)) = [255]"
proof -
  have ok: "key_ok boot_cio" by (simp add: key_ok_def C_BUFSIZE_def)
  have e: "key_used boot_cio = 0" using key_empty [OF ok] by simp
  have t: "scan_code ! 0 ! 84 = 255" by (simp add: scan_code_def)
  show ?thesis
    using undefined_key_stored [of "0x54" boot_cio] ok e t by (simp add: char_key_def key_queue_def BMASK8_def)
qed

end
