(* ===== verification/Devices.thy ===== *)
theory Devices
  imports Serial Keyboard
begin

text \<open>
  What the device code leaves alone. The operations of the serial line, the keyboard and the parts of the console that print at
  a fixed place change memory, the device traffic and their own buffers; everything else, the scheduler and the cursor
  included, is as before. This holds whatever the buffers look like, on every path that returns.
\<close>

section \<open>Preserved observations\<close>

text \<open>\<open>keeps f p s r\<close>: if the code that started in \<open>s\<close> returns, the observation \<open>f\<close> of the state is unchanged; \<open>p\<close> selects the
  state in the result.\<close>

definition keeps :: "('s \<Rightarrow> 'v) \<Rightarrow> ('a \<Rightarrow> 's) \<Rightarrow> 's \<Rightarrow> kerr + 'a \<Rightarrow> bool" where
  "keeps f p s r \<longleftrightarrow> (\<forall>x. r = Inr x \<longrightarrow> f (p x) = f s)"

named_theorems keeps_intro \<open>operations that keep an observation\<close>

lemma keepsD: "keeps f p s r \<Longrightarrow> r = Inr x \<Longrightarrow> f (p x) = f s"
  by (simp add: keeps_def)

lemma keeps_Inr [simp]: "keeps f p s (Inr x) \<longleftrightarrow> f (p x) = f s"
  by (simp add: keeps_def)

lemma keeps_Inl [simp]: "keeps f p s (Inl e)"
  by (simp add: keeps_def)

lemma keeps_bind:
  assumes "keeps f p s r" and "\<And>x. r = Inr x \<Longrightarrow> keeps f q (p x) (g x)"
  shows "keeps f q s (kbind r g)"
  using assms by (cases r) (auto simp: keeps_def)

lemma keeps_if: "(b \<Longrightarrow> keeps f p s r) \<Longrightarrow> (\<not> b \<Longrightarrow> keeps f p s r') \<Longrightarrow> keeps f p s (if b then r else r')"
  by simp

lemma keeps_start: "keeps f p t r \<Longrightarrow> f t = f s \<Longrightarrow> keeps f p s r"
  by (simp add: keeps_def)

lemma keeps_assert: "(b \<Longrightarrow> keeps f q s (g ())) \<Longrightarrow> keeps f q s (kbind (kassert b) g)"
  by (cases b) simp_all

section \<open>Device state\<close>

text \<open>A state without memory, device traffic and the buffers of the drivers.\<close>

definition dev_erase :: "'z cio_st_scheme \<Rightarrow> 'z cio_st_scheme" where
  "dev_erase s = s\<lparr>mem := (\<lambda>_. 0), io_in := [], io_out := [], inbuffer := [], inlast := 0, innext := 0, incount := 0,
     outbuffer := [], outlast := 0, outnext := 0, outcount := 0, sending := False, ier := 0, dup2sio_bak := 0,
     input_buffer := [], next_char := 0, next_space := 0, kb_shift := 0, ctrl_mask := 0\<rparr>"

lemma dev_erase_simps [simp]:
  "dev_erase (s\<lparr>mem := m\<rparr>) = dev_erase s" "dev_erase (s\<lparr>io_in := xs\<rparr>) = dev_erase s" "dev_erase (s\<lparr>io_out := ys\<rparr>) = dev_erase s"
  "dev_erase (s\<lparr>inbuffer := ib\<rparr>) = dev_erase s" "dev_erase (s\<lparr>inlast := n\<rparr>) = dev_erase s" "dev_erase (s\<lparr>innext := n\<rparr>) = dev_erase s"
  "dev_erase (s\<lparr>incount := v\<rparr>) = dev_erase s" "dev_erase (s\<lparr>outbuffer := ib\<rparr>) = dev_erase s" "dev_erase (s\<lparr>outlast := n\<rparr>) = dev_erase s"
  "dev_erase (s\<lparr>outnext := n\<rparr>) = dev_erase s" "dev_erase (s\<lparr>outcount := v\<rparr>) = dev_erase s" "dev_erase (s\<lparr>sending := b\<rparr>) = dev_erase s"
  "dev_erase (s\<lparr>ier := w\<rparr>) = dev_erase s" "dev_erase (s\<lparr>dup2sio_bak := w\<rparr>) = dev_erase s" "dev_erase (s\<lparr>input_buffer := ib\<rparr>) = dev_erase s"
  "dev_erase (s\<lparr>next_char := n\<rparr>) = dev_erase s" "dev_erase (s\<lparr>next_space := n\<rparr>) = dev_erase s" "dev_erase (s\<lparr>kb_shift := n\<rparr>) = dev_erase s"
  "dev_erase (s\<lparr>ctrl_mask := v\<rparr>) = dev_erase s" "dev_erase (outb p w s) = dev_erase s"
  by (simp_all add: dev_erase_def outb_def)

lemma dev_eraseD:
  assumes "dev_erase s' = dev_erase s"
  shows "scroll_min_x s' = scroll_min_x s" and "scroll_min_y s' = scroll_min_y s"
    and "scroll_max_x s' = scroll_max_x s" and "scroll_max_y s' = scroll_max_y s" and "min_x s' = min_x s"
    and "min_y s' = min_y s" and "max_x s' = max_x s" and "max_y s' = max_y s" and "dup_to_sio s' = dup_to_sio s"
    and "curr_x s' = curr_x s" and "curr_y s' = curr_y s" and "notify s' = notify s" and "cio_st.more s' = cio_st.more s"
    and "blk s' = blk s" and "free_pages s' = free_pages s" and "n_pages s' = n_pages s"
    and "km_initialized s' = km_initialized s" and "qn s' = qn s" and "free_qnodes s' = free_qnodes s"
    and "queues s' = queues s" and "queue_free s' = queue_free s" and "ptable s' = ptable s"
    and "current s' = current s" and "ready s' = ready s" and "sleeping s' = sleeping s" and "zombie s' = zombie s"
    and "blocked s' = blocked s" and "sioread s' = sioread s" and "init_pcb s' = init_pcb s"
  using assms by (cases s; cases s'; simp add: dev_erase_def)+

lemma dev_sched:
  assumes "dev_erase s' = dev_erase s"
  shows "sched_inv s' bs Q = sched_inv s bs Q"
  by (intro sched_inv_cong que_abs_cong) (simp_all add: dev_eraseD [OF assms])

lemma dev_running:
  assumes "dev_erase s' = dev_erase s"
  shows "running s' bs Q c = running s bs Q c"
  unfolding running_def dev_sched [OF assms] dev_eraseD(22,23) [OF assms] ..

lemma dev_cio_inv:
  assumes "dev_erase s' = dev_erase s"
  shows "cio_inv s' = cio_inv s"
  unfolding cio_inv_def cio_geom_def dev_eraseD(1-11) [OF assms] ..

section \<open>Serial line\<close>

lemma dev_inb [keeps_intro]: "keeps dev_erase snd s (inb p s)"
  by (auto simp: keeps_def inb_def split: list.splits)

lemma dev_sio_enable [simp]: "dev_erase (snd (sio_enable w s)) = dev_erase s" "dev_erase (snd (sio_disable w s)) = dev_erase s"
  by (simp_all add: sio_enable_def sio_disable_def Let_def)

lemma dev_out_store [keeps_intro]: "keeps dev_erase (\<lambda>x. x) s (out_store c s)"
  by (simp add: keeps_def out_store_def)

lemma dev_sio_emit [keeps_intro]: "keeps dev_erase (\<lambda>x. x) s (sio_emit c s)"
  by (simp add: sio_emit_def Let_def dev_out_store)

lemma dev_sio_writec [keeps_intro]: "keeps dev_erase (\<lambda>x. x) s (sio_writec c s)"
  unfolding sio_writec_def by (rule keeps_bind [of _ "\<lambda>x. x"]) (simp_all add: keeps_intro)

lemma dev_sio_put [keeps_intro]: "keeps dev_erase (\<lambda>x. x) s (sio_put c s)"
  unfolding sio_put_def by (rule keeps_bind [OF dev_out_store]) simp

lemma dev_sio_write_loop [keeps_intro]: "keeps dev_erase snd s (sio_write_loop n m ptr copied s)"
proof (induction n arbitrary: ptr copied s)
  case (Suc n)
  then show ?case by (auto intro: keeps_bind [OF dev_sio_put])
qed simp

lemma dev_sio_write [keeps_intro]: "keeps dev_erase snd s (sio_write m buffer len s)"
  unfolding sio_write_def Let_def case_prod_beta
  by (rule keeps_bind [OF dev_sio_write_loop], rule keeps_bind [of _ "\<lambda>x. x"]) (simp_all add: keeps_intro)

lemma dev_sio_tx [keeps_intro]: "keeps dev_erase (\<lambda>x. x) s (sio_tx s)"
  by (auto simp: keeps_def sio_tx_def sio_send_def Let_def kbind_eq_Inr split: if_splits)

lemma dev_sio_rx_store [keeps_intro]: "keeps dev_erase (\<lambda>x. x) s (sio_rx_store c s)"
  by (simp add: keeps_def sio_rx_store_def)

lemma dev_sio_read_loop [keeps_intro]: "keeps dev_erase snd s (sio_read_loop n ptr copied s)"
proof (induction n arbitrary: ptr copied s)
  case (Suc n)
  have "keeps dev_erase snd s (sio_read_loop n (ptr + 1) (copied + 1) t)" if "dev_erase t = dev_erase s" for t
    by (rule keeps_start [OF Suc that])
  then show ?case by (auto simp: in_char_def Let_def)
qed simp

lemma dev_sio_read [keeps_intro]: "keeps dev_erase snd s (sio_read buf len s)"
  unfolding sio_read_def Let_def case_prod_beta
  by (rule keeps_if, simp, rule keeps_bind [OF dev_sio_read_loop]) simp

section \<open>Printing at a place\<close>

lemma dev_dup_char [keeps_intro]: "keeps dev_erase (\<lambda>x. x) s (dup_char c s)"
proof -
  have "keeps dev_erase (\<lambda>x. x) s (kbind (sio_write buf 0 4 s) (\<lambda>(_, s). Inr s))" for buf
    by (rule keeps_bind [OF dev_sio_write]) (simp add: case_prod_beta)
  then show ?thesis
    by (cases "sprint 16 0 (92 # lit ''x%02x'') [c] (\<lambda>_. 0)") (simp_all add: dup_char_def dev_sio_writec)
qed

lemma dev_putchar_at [keeps_intro]: "keeps dev_erase (\<lambda>x. x) s (putchar_at x y c s)"
  unfolding putchar_at_def Let_def by (auto intro: keeps_start [OF dev_dup_char])

lemma dev_geom:
  assumes "dev_erase s' = dev_erase s"
  shows "cio_geom s' = cio_geom s"
  unfolding cio_geom_def dev_eraseD(1-8) [OF assms] ..

lemma dev_end_line: "cio_geom s \<Longrightarrow> keeps dev_erase (\<lambda>x. x) s (end_line limit x y s)"
  using end_line_run [of s limit x y] by (cases "limit = -1") (auto simp: end_line_def blank_to_def)

lemma dev_putchar_to: "cio_geom s \<Longrightarrow> keeps dev_erase (\<lambda>x. x) s (cio_putchar_at x y c s)"
  by (simp add: cio_putchar_at_def dev_end_line dev_putchar_at)

lemma dev_puts_at: "cio_geom s \<Longrightarrow> keeps dev_erase (\<lambda>x. x) s (cio_puts_at x y str s)"
proof (induction str arbitrary: x s)
  case (Cons ch str)
  have "keeps dev_erase (\<lambda>x. x) s (kbind (cio_putchar_at x y (i32_of_char ch) s) (cio_puts_at (x + 1) y str))"
    by (rule keeps_bind [OF dev_putchar_to [OF Cons.prems]])
      (use Cons dev_geom keepsD [OF dev_putchar_to [OF Cons.prems]] in blast)
  then show ?case by simp
qed simp

lemma dev_mypad_at: "cio_geom s \<Longrightarrow> y \<noteq> -1 \<Longrightarrow> keeps dev_erase snd s (mypad x y extra padchar s)"
proof -
  have "cio_geom s \<Longrightarrow> y \<noteq> -1 \<Longrightarrow> keeps dev_erase snd s (mypad_loop n x y padchar s)" for n
  proof (induction n arbitrary: x s)
    case (Suc n)
    have "keeps dev_erase snd s (kbind (cio_putchar_at x y padchar s) (mypad_loop n (x + 1) y padchar))"
      by (rule keeps_bind [OF dev_putchar_to [OF Suc.prems(1)]])
        (use Suc dev_geom keepsD [OF dev_putchar_to [OF Suc.prems(1)]] in blast)
    then show ?case using Suc.prems(2) by simp
  qed simp
  then show "cio_geom s \<Longrightarrow> y \<noteq> -1 \<Longrightarrow> ?thesis" by (simp add: mypad_def)
qed

text \<open>Sequencing while the geometry of the screen is known.\<close>

lemma dev_bind:
  assumes "cio_geom s" and "keeps dev_erase p s r" and "\<And>x. r = Inr x \<Longrightarrow> cio_geom (p x) \<Longrightarrow> keeps dev_erase q (p x) (g x)"
  shows "keeps dev_erase q s (kbind r g)"
  using assms(3) dev_geom [OF keepsD [OF assms(2)]] assms(1) by (intro keeps_bind [OF assms(2)]) simp

lemma dev_mypadstr_at:
  assumes "cio_geom s" and "y \<noteq> -1"
  shows "keeps dev_erase snd s (mypadstr x y str len width left padchar s)"
proof -
  define extra where "extra = width - (if len < 0 then int (length str) else len)"
  have pad: "keeps dev_erase snd t (if b then mypad x y extra padchar t else Inr (x, t))" if "cio_geom t" for b x and t :: "'a cio_st_scheme"
    using dev_mypad_at [OF that assms(2)] by simp
  have mid: "keeps dev_erase snd t (kbind (cio_puts_at x y str t) (\<lambda>s. Inr (x + v, s)))" if "cio_geom t" for x v and t :: "'a cio_st_scheme"
    by (rule keeps_bind [OF dev_puts_at [OF that]]) simp
  show ?thesis
    unfolding mypadstr_def Let_def extra_def [symmetric] case_prod_beta
    by (rule dev_bind [OF assms(1) pad [OF assms(1)]], rule dev_bind [where p = snd])
      (use assms(2) mid pad in simp_all)
qed

lemma dev_printf_loop_at:
  "cio_geom s \<Longrightarrow> y \<noteq> -1 \<Longrightarrow> 10 \<notin> set fmt \<Longrightarrow> keeps dev_erase (\<lambda>x. x) s (do_printf_loop x y fmt ap s)"
proof (induction "length fmt" arbitrary: x fmt ap s rule: less_induct)
  case less
  show ?case
  proof (cases fmt)
    case (Cons ch rest)
    note step = do_printf_loop.simps [of x y fmt ap s, unfolded Cons, simplified]
    have IH: "keeps dev_erase (\<lambda>x. x) t (do_printf_loop x' y fmt' ap' t)"
      if "length fmt' < length fmt" "set fmt' \<subseteq> set fmt" "cio_geom t" for x' fmt' ap' and t :: "'a cio_st_scheme"
      using less.hyps [OF that(1,3) less.prems(2)] that(2) less.prems(3) by blast
    have conv: "keeps dev_erase (\<lambda>x. x) s (kbind (mypadstr x y str n w l p s) (\<lambda>(x, s). do_printf_loop x y fmt' ap' s))"
      if "length fmt' < length fmt" "set fmt' \<subseteq> set fmt" for str n w l p fmt' ap'
      by (rule dev_bind [OF less.prems(1) dev_mypadstr_at [OF less.prems(1,2)]]) (use IH [OF that] in \<open>simp add: case_prod_beta\<close>)
    have plain: "keeps dev_erase (\<lambda>x. x) s (kbind (cio_putchar_at x y (i32_of_char ch) s) (\<lambda>s.
          if ch = 13 then do_printf_loop (scroll_min_x s) y rest ap s else do_printf_loop (x + 1) y rest ap s))"
      by (rule dev_bind [OF less.prems(1) dev_putchar_to [OF less.prems(1)]]) (use IH [of rest] Cons in auto)
    consider (nul) "ch = 0" | (pc) "ch = 37" | (plain) "ch \<noteq> 0" "ch \<noteq> 37" by blast
    then show ?thesis
    proof cases
      case nul
      then show ?thesis unfolding Cons step by simp
    next
      case plain
      then show ?thesis unfolding Cons step using less.prems(2,3) Cons \<open>keeps dev_erase _ s (kbind (cio_putchar_at _ _ _ _) _)\<close> by simp
    next
      case pc
      show ?thesis
      proof (cases "fmt_spec rest")
        case (Some a)
        obtain l p w c fmt' where a: "a = (l, p, w, c, fmt')" by (cases a)
        have f: "length fmt' < length fmt" "set fmt' \<subseteq> set fmt"
          using fmt_spec_length [of rest] fmt_spec_subset [of rest] Some a Cons by fastforce+
        show ?thesis unfolding Cons step using pc Some a IH [OF f less.prems(1)] conv [OF f]
          by (auto split: list.split option.split)
      qed (unfold Cons step, use pc in simp)
    qed
  qed (simp add: do_printf_loop.simps)
qed

lemma dev_printf_at: "cio_geom s \<Longrightarrow> y \<noteq> -1 \<Longrightarrow> 10 \<notin> set fmt \<Longrightarrow> keeps dev_erase (\<lambda>x. x) s (cio_printf_at x y fmt ap s)"
  by (simp add: cio_printf_at_def do_printf_def dev_printf_loop_at)

section \<open>Keyboard\<close>

lemma dev_scan [simp]: "dev_erase (snd (input_scan_code code s)) = dev_erase s"
  by (simp add: input_scan_code_def key_store_def Let_def)

lemma dev_key_take: "keeps dev_erase snd s (key_take s)"
  by (simp add: key_take_def)

lemma dev_key_wait: "keeps dev_erase (\<lambda>x. x) s (key_wait n ie s)"
proof (induction n arbitrary: s)
  case (Suc n)
  have "keeps dev_erase (\<lambda>x. x) s (kbind (inb 96 (s\<lparr>io_in := xs\<rparr>)) (\<lambda>(data, s). key_wait n ie (snd (input_scan_code (ucast data) s))))" for xs
    by (rule keeps_start [OF keeps_bind [OF dev_inb]]) (auto simp: case_prod_beta intro: keeps_start [OF Suc.IH])
  then show ?case by (cases ie; cases "kbd_wait (io_in s)") simp_all
qed simp

lemma keyboard_isr_dev: "notify s = None \<Longrightarrow> keeps dev_erase (\<lambda>x. x) s (keyboard_isr call_notify s)"
proof -
  assume none: "notify s = None"
  have "keeps dev_erase (\<lambda>x. x) s (kbind (inb 96 s) (\<lambda>(data, s).
      kbind (case notify (snd (input_scan_code (ucast data) s)) of
               Some f \<Rightarrow> if fst (input_scan_code (ucast data) s) \<noteq> -1
                 then call_notify f (fst (input_scan_code (ucast data) s)) (snd (input_scan_code (ucast data) s))
                 else Inr (snd (input_scan_code (ucast data) s))
             | None \<Rightarrow> Inr (snd (input_scan_code (ucast data) s)))
        (\<lambda>s. Inr (outb PIC1_CMD PIC_EOI s))))"
  proof (rule keeps_bind [OF dev_inb])
    fix x
    assume "inb 96 s = Inr x"
    then have "dev_erase (snd x) = dev_erase s" by (rule keepsD [OF dev_inb])
    then have "dev_erase (snd (input_scan_code (ucast (fst x)) (snd x))) = dev_erase s" by simp
    then have "notify (snd (input_scan_code (ucast (fst x)) (snd x))) = None" using dev_eraseD(12) none by metis
    then show "keeps dev_erase (\<lambda>x. x) (snd x) (case x of (data, s) \<Rightarrow>
      kbind (case notify (snd (input_scan_code (ucast data) s)) of
               Some f \<Rightarrow> if fst (input_scan_code (ucast data) s) \<noteq> -1
                 then call_notify f (fst (input_scan_code (ucast data) s)) (snd (input_scan_code (ucast data) s))
                 else Inr (snd (input_scan_code (ucast data) s))
             | None \<Rightarrow> Inr (snd (input_scan_code (ucast data) s)))
        (\<lambda>s. Inr (outb PIC1_CMD PIC_EOI s)))"
      by (simp add: case_prod_beta)
  qed
  then show ?thesis by (simp add: keyboard_isr_def Let_def case_prod_beta)
qed

section \<open>The kernel invariant\<close>

text \<open>Process \<open>c\<close> is running, the scheduler is in order, and no other process is lost.\<close>

definition up :: "'z proc_st_scheme \<Rightarrow> nat \<Rightarrow> bool" where
  "up s c \<longleftrightarrow> (\<exists>bs Q. running s bs Q c \<and> placed {c} s Q)"

text \<open>The invariant of the kernel between interrupts: some process runs, the cursor is on the screen, and, as \<^verbatim>\<open>main()\<close> sets it up,
  nobody is notified of key presses.\<close>

definition kinv :: "'z cio_st_scheme \<Rightarrow> bool" where
  "kinv s \<longleftrightarrow> cio_inv s \<and> notify s = None \<and> (\<exists>c. up s c)"

lemma dev_up: "dev_erase s' = dev_erase s \<Longrightarrow> up s' c = up s c"
  using dev_running [of s' s] placed_cong [OF dev_eraseD(22) [of s' s]] by (simp add: up_def)

lemma dev_kinv: "dev_erase s' = dev_erase s \<Longrightarrow> kinv s' = kinv s"
  using dev_up [of s' s] dev_cio_inv [of s' s] dev_eraseD(12) [of s' s] by (simp add: kinv_def)

lemma con_up: "con_frame s s' \<Longrightarrow> up s' c = up s c"
  using con_eraseD(24,25) [of s' s] con_frame_sched [of s s'] placed_cong [of s' s] by (simp add: up_def running_def con_frame_def)

lemma con_notify: "con_frame s s' \<Longrightarrow> notify s' = notify s"
  using con_eraseD(14) [of s' s] by (simp add: con_frame_def)

text \<open>A step of the console or of a device keeps the invariant and the running process.\<close>

definition io_step :: "'z cio_st_scheme \<Rightarrow> 'z cio_st_scheme \<Rightarrow> bool" where
  "io_step s s' \<longleftrightarrow> (cio_inv s \<longrightarrow> cio_inv s') \<and> notify s' = notify s \<and> (\<forall>c. up s' c = up s c)"

lemma io_step_trans: "io_step s t \<Longrightarrow> io_step t u \<Longrightarrow> io_step s u"
  by (simp add: io_step_def)

lemma io_step_dev: "dev_erase s' = dev_erase s \<Longrightarrow> io_step s s'"
  using dev_up [of s' s] dev_cio_inv [of s' s] dev_eraseD(12) [of s' s] by (simp add: io_step_def)

lemma io_step_cur: "cur_res p s r \<Longrightarrow> r = Inr x \<Longrightarrow> io_step s (p x)"
  using con_up con_notify con_resD unfolding cur_res_def io_step_def by metis

lemma io_step_kinv: "io_step s s' \<Longrightarrow> kinv s \<Longrightarrow> kinv s'"
  by (auto simp: io_step_def kinv_def)

lemma proc_more_cio:
  assumes "proc_st.more s' = proc_st.more s"
  shows "notify s' = notify s" and "scroll_min_x s' = scroll_min_x s"
    and "scroll_min_y s' = scroll_min_y s" and "scroll_max_x s' = scroll_max_x s" and "scroll_max_y s' = scroll_max_y s"
    and "min_x s' = min_x s" and "min_y s' = min_y s" and "max_x s' = max_x s" and "max_y s' = max_y s"
    and "curr_x s' = curr_x s" and "curr_y s' = curr_y s"
  using assms by (cases s; cases s'; simp)+

lemma proc_more_kinv:
  assumes "proc_st.more s' = proc_st.more s" and "up s' c" and "kinv s"
  shows "kinv s'"
proof -
  have "cio_inv s' = cio_inv s"
    unfolding cio_inv_def cio_geom_def proc_more_cio [OF assms(1)] ..
  then show ?thesis using assms(2,3) proc_more_cio(1) [OF assms(1)] by (auto simp: kinv_def)
qed

end
