(* ===== verification/Kernel.thy ===== *)
theory Kernel
  imports Serial
begin

text \<open>
  System initialization, \<^verbatim>\<open>main()\<close> of \<^verbatim>\<open>kernel/kernel.c\<close>, in the order of the code: interrupts, console, modules, the initial user
  process. The section boundaries, the addresses of the interrupt stubs and the address of the literal with the arguments
  of the initial process come from the linker and are parameters.
\<close>

section \<open>State\<close>

record kern_st = clk_st +
  user_offset :: u16
  user_segment :: u16
  user_sectors :: u16

record sections =
  sec_start :: u32
  sec_etext :: u32
  sec_rodata :: u32
  sec_erodata :: u32
  sec_data :: u32
  sec_edata :: u32
  sec_bss_start :: u32
  sec_end :: u32

definition BOOT_ADDR :: u32 where "BOOT_ADDR = 0x7c00"
definition USER_BLOB_DATA :: u32 where "USER_BLOB_DATA = BOOT_ADDR + 0x400 - 12"
definition N_PRIOS :: u32 where "N_PRIOS = 3"
definition N_STATES :: u32 where "N_STATES = 8"
definition DBLV :: u32 where "DBLV = 9999"

section \<open>Reports\<close>

text \<open>A line of a report: its text and the line feed.\<close>

definition line :: "string \<Rightarrow> u8 list" where
  "line str = lit str @ [10]"

definition kreport :: "'z cio_st_scheme \<Rightarrow> kerr + 'z cio_st_scheme" where
  "kreport s =
     kbind (cio_puts (10 # line ''-------------------------------'') s) (\<lambda>s.
     kbind (cio_printf (lit ''Config:  N_PROCS = %d'') [Num (of_nat N_PROCS)] s) (\<lambda>s.
     kbind (cio_printf (lit '' N_PRIOS = %d'') [Num N_PRIOS] s) (\<lambda>s.
     kbind (cio_printf (lit '' N_STATES = %d'') [Num N_STATES] s) (\<lambda>s.
     kbind (cio_printf (line '' CLOCK = %dHz'') [Num CLOCK_FREQ] s) (\<lambda>s.
     kbind (cio_puts (lit ''Options:  R-uint CX'') s) (\<lambda>s.
     kbind (cio_printf (lit '' DBLV = %d'') [Num DBLV] s) (\<lambda>s.
       cio_putchar 10 s)))))))"

definition main_banner :: "sections \<Rightarrow> 'z kern_st_scheme \<Rightarrow> kerr + 'z kern_st_scheme" where
  "main_banner sec s =
     kbind (cio_printf (line ''Text: %08x to %08x'') [Num (sec_start sec), Num (sec_etext sec)] s) (\<lambda>s.
     kbind (cio_printf (line ''Rdat: %08x to %08x'') [Num (sec_rodata sec), Num (sec_erodata sec)] s) (\<lambda>s.
     kbind (cio_printf (line ''Data: %08x to %08x'') [Num (sec_data sec), Num (sec_edata sec)] s) (\<lambda>s.
     kbind (cio_printf (line ''BSS:  %08x to %08x'') [Num (sec_bss_start sec), Num (sec_end sec)] s) (\<lambda>s.
       let s = s\<lparr>user_locs := push_bit 4 (ucast (user_segment s)) + ucast (user_offset s)\<rparr> in
       kbind (cio_printf (line ''User blob %u sectors @ %04x:%04x (%08x)'')
                [Num (ucast (user_sectors s)), Num (ucast (user_segment s)), Num (ucast (user_offset s)), Num (user_locs s)] s) (\<lambda>s.
       kbind (cio_puts (line ''System initialization starting.'') s) (\<lambda>s.
         cio_puts (line ''-------------------------------'') s))))))"

section \<open>Modules\<close>

definition main_modules :: "'z clk_st_scheme \<Rightarrow> kerr + 'z clk_st_scheme" where
  "main_modules s =
     kbind (km_init s) (\<lambda>s.
     kbind (que_init s) (\<lambda>s.
     kbind (sio_init s) (\<lambda>s.
     kbind (pcb_init s) (\<lambda>s.
     kbind (stk_init s) (\<lambda>s.
     kbind (clk_init s) (\<lambda>s.
       sys_init s))))))"

section \<open>The initial user process\<close>

text \<open>\<open>args\<close> is the address of the string literal with the command line.\<close>

definition main_process :: "u32 \<Rightarrow> 'z proc_st_scheme \<Rightarrow> kerr + 'z proc_st_scheme" where
  "main_process args s =
     (case pcb_alloc s of
        (e, new) \<Rightarrow>
          let s = s\<lparr>init_pcb := new\<rparr> in
          kbind (kassert (e = E_SUCCESS)) (\<lambda>_.
          kbind (pcb_deref (init_pcb s)) (\<lambda>i.
            let s = upd_pcb i (\<lambda>p. p\<lparr>p_pid := PID_INIT, p_state := STATE_NEW, p_priority := PRIO_HIGH\<rparr>) s in
            kbind (stk_alloc s) (\<lambda>(e, stk, s).
            kbind (kassert (e = E_SUCCESS)) (\<lambda>_.
            kbind (case stk of None \<Rightarrow> Inl Undef | Some k \<Rightarrow> Inr k) (\<lambda>k.
              let s = upd_pcb i (\<lambda>p. p\<lparr>p_stack := k\<rparr>) s in
              kbind (stk_setup k (load32 (mem s) (user_locs s + 4 * ULOC_INIT)) args s) (\<lambda>(ctx, s).
                let s = upd_pcb i (\<lambda>p. p\<lparr>p_context := ctx\<rparr>) s in
                kbind (kassert (ctx \<noteq> NULL)) (\<lambda>_.
                  let s = upd_pcb i (\<lambda>p. p\<lparr>p_parent := init_pcb s\<rparr>) s in
                  kbind (schedule (init_pcb s) s) dispatch))))))))"

section \<open>main\<close>

text \<open>The screen of the running system: a top line, a separator and the scrolling region.\<close>

definition main_screen :: "'z cio_st_scheme \<Rightarrow> kerr + 'z cio_st_scheme" where
  "main_screen s =
     (let s = cio_clearscreen s;
          s = cio_setscroll 0 7 99 99 s;
          s = cio_clearscroll s
      in kbind (cio_puts_at 0 0 (42 # replicate 79 32) s) (\<lambda>s.
           cio_puts_at 0 6 (replicate 80 61) s))"

definition main :: "(nat \<Rightarrow> u32) \<Rightarrow> sections \<Rightarrow> u32 \<Rightarrow> 'z kern_st_scheme \<Rightarrow> kerr + 'z kern_st_scheme" where
  "main stubs sec args s =
     (let s = s\<lparr>user_offset := load16 (mem s) USER_BLOB_DATA\<rparr>;
          s = s\<lparr>user_segment := load16 (mem s) (USER_BLOB_DATA + 2)\<rparr>;
          s = s\<lparr>user_sectors := load16 (mem s) (USER_BLOB_DATA + 4)\<rparr>
      in
        kbind (init_interrupts stubs s) (\<lambda>s.
        kbind (cio_init None s) (\<lambda>s.
        kbind (main_banner sec s) (\<lambda>s.
        kbind (main_modules s) (\<lambda>s.
          let s = snd (cio_opt_set CIO_OPT_DUP s) in
          kbind (cio_puts (10 # line ''Module initialization complete.'') s) (\<lambda>s.
          kbind (kreport s) (\<lambda>s.
          kbind (cio_puts (line ''-------------------------------'') s) (\<lambda>s.
          kbind (cio_puts (lit ''Creating initial user process...'') s) (\<lambda>s.
          kbind (main_process args s) (\<lambda>s.
          kbind (cio_puts (line '' done.'') s) (\<lambda>s.
          kbind (main_screen s) (\<lambda>s.
          kbind (sio_flush (SIO_RX OR SIO_TX) s) (\<lambda>s.
            let s = snd (sio_enable SIO_RX s) in
            kbind (cio_puts (line ''System initialization complete.'') s) (\<lambda>s.
              cio_puts (line ''-------------------------------'') s))))))))))))))"

section \<open>Stacks beside the scheduler\<close>

text \<open>Taking pages away from the free list does not disturb the queues, which hold none of them.\<close>

lemma sched_page_alloc:
  assumes inv: "sched_inv s bs Q" and al: "alloc_blocks (unat n) bs = Some (r, bs')" and n: "0 < n"
    and run: "km_page_alloc n s = Inr (a, s1)" and abs: "kmem_abs s1 bs'"
  shows "sched_inv s1 bs' Q"
proof -
  have more: "kmem_st.more s1 = kmem_st.more s" using km_page_alloc_more(1) [OF run] .
  note same = kmem_more [OF more]
  have q: "que_st.more s1 = que_st.more s" using more by (cases s1; cases s) simp
  note qs = que_more [OF q]
  obtain fs N where rep: "que_rep s bs fs N" and QN: "\<forall>i < N_QUEUES. Q i = map (\<lambda>a. qn_data (qn s a)) (N i)"
    using sched_invD(1) [OF inv] by (auto simp: que_abs_def)
  have wf: "wf_blocks 1 bs" using rep by (simp add: que_rep_def kmem_abs_def)
  have "free_cells bs' \<subseteq> free_cells bs" using alloc_blocks_Some(5) [OF al wf] n by (auto simp: word_less_nat_alt)
  then have "que_rep s1 bs' fs N" using rep abs by (auto simp: que_rep_def q_chain_def same)
  then have "que_abs s1 bs' Q" using QN by (auto simp: que_abs_def same)
  moreover have "wake_of s1 = wake_of s" by (rule wake_of_cong) (rule qs)
  ultimately show ?thesis
    using inv nodes_ok_cong [of s1 s] queues_taken_cong [of s1 s] by (simp add: sched_inv_def same qs)
qed

lemma sched_stk_alloc:
  assumes inv: "sched_inv s bs Q" and stk: "stk_inv s bs []" and al: "alloc_blocks 2 bs = Some (r, bs')"
  shows "\<exists>s'. stk_alloc s = Inr (E_SUCCESS, Some (of_nat r), s') \<and> stk_inv s' bs' [] \<and> stk_ok bs' (of_nat r) \<and> sched_inv s' bs' Q \<and>
    (\<forall>x. mem s' x = (if x - of_nat r < SZ_STACK then 0 else mem s x)) \<and> que_st.more s' = que_st.more s \<and> io_in s' = io_in s"
proof -
  obtain s' where s': "stk_alloc s = Inr (E_SUCCESS, Some (of_nat r), s')" "stk_inv s' bs' []" "stk_ok bs' (of_nat r)"
    "\<forall>x. mem s' x = (if x - of_nat r < SZ_STACK then 0 else mem s x)"
    using stk_alloc_fresh [OF stk al] by blast
  have abs: "kmem_abs s bs" and e: "free_stacks s = 0" using stk by (simp_all add: stk_inv_def)
  obtain s1 where run: "km_page_alloc 2 s = Inr (of_nat r, s1)" and abs1: "kmem_abs s1 bs'"
    using km_page_alloc_refines [OF abs, of 2] al by auto
  have "sched_inv s1 bs' Q" by (rule sched_page_alloc [OF inv _ _ run abs1]) (simp_all add: al)
  moreover have eq: "s' = s1\<lparr>mem := memclr (of_nat r) SZ_STACK (mem s1)\<rparr>"
    using s'(1) run e by (simp add: stk_alloc_def STACK_PAGES_def split: if_splits)
  moreover have "que_st.more s1 = que_st.more s" using km_page_alloc_more(1) [OF run] by (cases s1; cases s) simp
  ultimately show ?thesis using s' km_page_alloc_more(2) [OF run] by simp
qed

section \<open>The initial process runs\<close>

lemma sched_inv_init [simp]: "sched_inv (s\<lparr>init_pcb := i\<rparr>) bs Q = sched_inv s bs Q"
  by (intro sched_inv_cong que_abs_cong; simp)

lemma stk_inv_frames [simp]:
  "stk_inv (upd_pcb i f s) bs ss = stk_inv s bs ss" "stk_inv (s\<lparr>init_pcb := p\<rparr>) bs ss = stk_inv s bs ss"
proof -
  have "kmem_abs (upd_pcb i f s) bs = kmem_abs s bs" "kmem_abs (s\<lparr>init_pcb := p\<rparr>) bs = kmem_abs s bs"
    by (rule kmem_abs_cong; simp add: upd_pcb_def)+
  then show "stk_inv (upd_pcb i f s) bs ss = stk_inv s bs ss" "stk_inv (s\<lparr>init_pcb := p\<rparr>) bs ss = stk_inv s bs ss"
    by (simp_all add: stk_inv_def)
qed

lemma user_locs_upd [simp]: "user_locs (upd_pcb i f s) = user_locs s"
  by (simp add: upd_pcb_def)

lemma stk_setup_frame:
  assumes "stk_setup k e a s = Inr (ctx, s')"
  shows "s' = s\<lparr>mem := mem s'\<rparr>"
  using assms by (auto simp: stk_setup_def Let_def kbind_eq_Inr poke32_def split: option.splits)

text \<open>Where the literals and the entry points lie, relative to a stack.\<close>

definition outside :: "u32 \<Rightarrow> u32 \<Rightarrow> nat \<Rightarrow> bool" where
  "outside stk a n \<longleftrightarrow> (\<forall>i < n. \<not> (a + of_nat i) - stk < SZ_STACK)"

lemma outside_word: "outside stk a n \<Longrightarrow> i < of_nat n \<Longrightarrow> n \<le> 100 \<Longrightarrow> \<not> (a + i) - stk < SZ_STACK" for i :: u32
proof -
  assume o: "outside stk a n" "i < of_nat n" "n \<le> 100"
  then have "unat i < n" by (simp add: word_less_nat_alt unat_of_nat_small)
  moreover have "i = of_nat (unat i)" by simp
  ultimately show ?thesis using o(1) unfolding outside_def by metis
qed

lemma str_at_clear:
  assumes "str_at m a xs" and "outside stk a (Suc (length xs))" and "\<And>x. \<not> x - stk < SZ_STACK \<Longrightarrow> m' x = m x"
  shows "str_at m' a xs"
  by (rule str_at_copy [OF assms(1)]) (use assms(2,3) in \<open>auto simp: outside_def\<close>)

text \<open>The first process as it is handed over to the user: at \<open>entry\<close>, with the arguments \<open>xs\<close>, its own parent.\<close>

definition is_init :: "u32 \<Rightarrow> u32 \<Rightarrow> u8 list \<Rightarrow> 'z proc_st_scheme \<Rightarrow> bool" where
  "is_init stk entry xs s \<longleftrightarrow> (let p = ptable s ! 0; ctx = p_context p in
     init_pcb s = Some 0 \<and> p_pid p = PID_INIT \<and> p_priority p = PRIO_HIGH \<and> p_parent p = Some 0 \<and> p_stack p = stk \<and>
     p_quantum p = Q_STD \<and> unat stk \<le> unat ctx \<and> unat ctx + unat SZ_CONTEXT < unat stk + unat SZ_STACK \<and>
     load32 (mem s) (ctx + ctx_eip) = entry \<and> load32 (mem s) (ctx + ctx_cs) = GDT_CODE \<and>
     load32 (mem s) (ctx + ctx_eflags) = DEFAULT_EFLAGS \<and> load32 (mem s) (ctx + SZ_CONTEXT + 4) = ctx + SZ_CONTEXT + 8 \<and>
     unat ctx + unat SZ_CONTEXT + 8 + length xs < unat stk + unat SZ_STACK \<and> str_at (mem s) (ctx + SZ_CONTEXT + 8) xs)"

lemma load32_outside:
  assumes "outside stk a n" and "4 \<le> n" "n \<le> 100" and "\<And>x. \<not> x - stk < SZ_STACK \<Longrightarrow> m' x = m x"
  shows "load32 m' a = load32 m a"
proof (rule load32_cong)
  fix i :: u32 assume "i < 4"
  then have "i < of_nat n" using assms(2,3) by (simp add: word_less_nat_alt unat_of_nat_small)
  then show "m' (a + i) = m (a + i)" using outside_word [OF assms(1) _ assms(3)] assms(4) by blast
qed

lemma main_process_run:
  assumes inv: "sched_inv s bs (\<lambda>_. [])" and free: "p_state (ptable s ! 0) = STATE_UNUSED"
    and stk: "stk_inv s bs []" and al: "alloc_blocks 2 bs = Some (r, bs')"
    and args: "str_at (mem s) args xs" "length xs \<le> 90" "unat args + length xs + 4 < 2 ^ 32"
    and out: "outside (of_nat r) args (Suc (length xs))" "outside (of_nat r) (user_locs s) 8"
  shows "\<exists>s'. main_process args s = Inr s' \<and> running s' bs' (\<lambda>_. []) 0 \<and>
    is_init (of_nat r) (load32 (mem s) (user_locs s)) xs s' \<and> proc_st.more s' = proc_st.more s \<and> io_in s' = io_in s \<and>
    (\<forall>j. j \<noteq> 0 \<longrightarrow> ptable s' ! j = ptable s ! j) \<and> (\<forall>x. \<not> x - of_nat r < SZ_STACK \<longrightarrow> mem s' x = mem s x)"
proof -
  have len: "length (ptable s) = N_PROCS" and n: "0 < N_PROCS" by (rule sched_invD(2) [OF inv]) (simp add: N_PROCS_def)
  let ?k = "of_nat r :: u32"
  have "first_ix (\<lambda>i. p_state (ptable s ! i) = STATE_UNUSED) N_PROCS = Some 0" unfolding first_ix_Some using free n by simp
  then have pa: "pcb_alloc s = (E_SUCCESS, Some 0)" by (simp add: pcb_alloc_def)
  define s1 where "s1 = upd_pcb 0 (\<lambda>p. p\<lparr>p_pid := PID_INIT, p_state := STATE_NEW, p_priority := PRIO_HIGH\<rparr>) (s\<lparr>init_pcb := Some 0\<rparr>)"
  have "sched_inv s1 bs (\<lambda>_. [])" "stk_inv s1 bs []" unfolding s1_def using inv stk by (simp_all add: sched_inv_upd)
  from sched_stk_alloc [OF this al] obtain s2 where s2: "stk_alloc s1 = Inr (E_SUCCESS, Some ?k, s2)" "stk_ok bs' ?k"
    "sched_inv s2 bs' (\<lambda>_. [])" "\<forall>x. mem s2 x = (if x - ?k < SZ_STACK then 0 else mem s1 x)" "que_st.more s2 = que_st.more s1"
    "io_in s2 = io_in s1"
    by blast
  note q2 = que_more [OF s2(5)]
  have m2: "mem s2 x = mem s x" if "\<not> x - ?k < SZ_STACK" for x using s2(4) that by (simp add: s1_def)
  have ul: "user_locs s2 = user_locs s" "init_pcb s2 = Some 0" "ptable s2 = ptable s1" using q2 by (simp_all add: s1_def)
  have loc: "load32 (mem s2) (user_locs s) = load32 (mem s) (user_locs s)" by (rule load32_outside [OF out(2) _ _ m2]) simp_all
  define s3 where "s3 = upd_pcb 0 (\<lambda>p. p\<lparr>p_stack := ?k\<rparr>) s2"
  have s3: "mem s3 = mem s2" "user_locs s3 = user_locs s" by (simp_all add: s3_def ul)
  have str: "str_at (mem s3) args xs" unfolding s3 by (rule str_at_clear [OF args(1) out(1) m2])
  have ao: "\<forall>i \<le> length xs. \<not> (args + of_nat i) - ?k < SZ_STACK" using out(1) by (auto simp: outside_def)
  have uo: "\<forall>i < 4. \<not> (user_locs s3 + 4 + i) - ?k < SZ_STACK"
  proof (intro allI impI)
    fix i :: u32 assume "i < 4"
    then have "4 + i < of_nat 8" by (simp add: word_less_nat_alt unat_word_ariths)
    then show "\<not> (user_locs s3 + 4 + i) - ?k < SZ_STACK" using outside_word [OF out(2), of "4 + i"] by (simp add: s3 add.assoc)
  qed
  have ok: "block_ok (?k, 2)" using s2(2) by (simp add: stk_ok_def)
  obtain ctx s4 where su: "stk_setup ?k (load32 (mem s) (user_locs s)) args s3 = Inr (ctx, s4)"
    and c: "unat ?k \<le> unat ctx" "unat ctx + unat SZ_CONTEXT < unat ?k + unat SZ_STACK"
    and l: "load32 (mem s4) (ctx + ctx_eip) = load32 (mem s) (user_locs s)" "load32 (mem s4) (ctx + ctx_cs) = GDT_CODE"
      "load32 (mem s4) (ctx + ctx_eflags) = DEFAULT_EFLAGS" "load32 (mem s4) (ctx + SZ_CONTEXT + 4) = ctx + SZ_CONTEXT + 8"
      "unat ctx + unat SZ_CONTEXT + 8 + length xs < unat ?k + unat SZ_STACK" "str_at (mem s4) (ctx + SZ_CONTEXT + 8) xs"
    and m4: "\<forall>x. \<not> x - ?k < SZ_STACK \<longrightarrow> mem s4 x = mem s3 x"
    using stk_setup_spec [OF ok str _ args(3) ao uo, of "load32 (mem s) (user_locs s)"] args(2) by auto
  have s4: "s4 = s3\<lparr>mem := mem s4\<rparr>" by (rule stk_setup_frame [OF su])
  have p4: "ptable s4 = ptable s3" "init_pcb s4 = Some 0"
    using arg_cong [OF s4, of ptable] arg_cong [OF s4, of init_pcb] ul(2) by (simp_all add: s3_def)
  have i4: "sched_inv s4 bs' (\<lambda>_. [])" by (subst s4) (use s2(3) in \<open>simp add: s3_def sched_inv_upd\<close>)
  define s6 where "s6 = upd_pcb 0 (\<lambda>p. p\<lparr>p_parent := Some 0\<rparr>) (upd_pcb 0 (\<lambda>p. p\<lparr>p_context := ctx\<rparr>) s4)"
  have i6: "sched_inv s6 bs' (\<lambda>_. [])" unfolding s6_def by (intro sched_inv_upd i4) simp_all
  define p where "p = (ptable s ! 0)\<lparr>p_pid := PID_INIT, p_state := STATE_NEW, p_priority := PRIO_HIGH, p_stack := ?k, p_context := ctx, p_parent := Some 0\<rparr>"
  have p6: "ptable s6 ! 0 = p" using len n by (simp add: s6_def p4 s3_def ul s1_def p_def)
  have pr: "unat (p_priority (ptable s6 ! 0)) = 0" by (simp add: p6 p_def PRIO_HIGH_def)
  obtain s7 where s7: "schedule (Some 0) s6 = Inr s7" "sched_inv s7 bs' ((\<lambda>_. [])(0 := [Some 0]))" "proc_frame s6 s7"
    "ptable s7 = (ptable s6)[0 := p\<lparr>p_state := STATE_READY\<rparr>]"
    using schedule_run [OF i6 n _ pr] by (auto simp: p6 simp del: fun_upd_apply)
  obtain s8 where s8: "dispatch s7 = Inr s8" "running s8 bs' (\<lambda>_. []) 0" "proc_frame s7 s8"
    "ptable s8 = (ptable s7)[0 := (ptable s7 ! 0)\<lparr>p_state := STATE_RUNNING, p_quantum := Q_STD\<rparr>]"
    using dispatch_pick [OF s7(2)] unfolding pick_only by auto
  have c0: "ctx \<noteq> 0" using c(1) ok by (auto simp: block_ok_def unat_eq_0)
  have code: "main_process args s = Inr s8"
    using pa n s2(1) su c0 s7(1) s8(1) loc p4(2)
    by (simp add: main_process_def pcb_deref_def Let_def s1_def [symmetric] s3_def [symmetric] s6_def [symmetric] s3 ULOC_INIT_def ul)
  have l8: "length (ptable s7) = N_PROCS" "length (ptable s6) = N_PROCS" by (rule sched_invD(2) [OF s7(2)], rule sched_invD(2) [OF i6])
  have p8: "ptable s8 ! 0 = p\<lparr>p_state := STATE_RUNNING, p_quantum := Q_STD\<rparr>" using l8 n s8(4) s7(4) by simp
  have fr: "proc_frame s6 s8" by (rule proc_frame_trans [OF s7(3) s8(3)])
  then have m8: "mem s8 = mem s4" "init_pcb s8 = Some 0" by (simp_all add: proc_frame_def s6_def p4)
  have "is_init ?k (load32 (mem s) (user_locs s)) xs s8"
    using c l by (simp add: is_init_def p8 m8 p_def)
  moreover have "proc_st.more s4 = proc_st.more s" "io_in s4 = io_in s"
    using arg_cong [OF s4, of proc_st.more] arg_cong [OF s4, of io_in] q2(11) s2(6) by (simp_all add: s3_def s1_def upd_pcb_def)
  then have "proc_st.more s8 = proc_st.more s" "io_in s8 = io_in s" using fr by (simp_all add: proc_frame_def s6_def upd_pcb_def)
  moreover have "ptable s8 ! j = ptable s ! j" if "j \<noteq> 0" for j
    using that s8(4) s7(4) by (simp add: s6_def p4 s3_def ul s1_def)
  moreover have "mem s8 x = mem s x" if "\<not> x - ?k < SZ_STACK" for x using that m4 m2 by (simp add: m8 s3)
  ultimately show ?thesis using code s8(2) by blast
qed

section \<open>The modules come up\<close>

lemma set_isr_run:
  "v < 256 \<Longrightarrow> length (isr_table s) = 256 \<Longrightarrow> set_isr v h s = Inr (s\<lparr>isr_table := (isr_table s)[v := h]\<rparr>)"
  by (simp add: set_isr_def install_isr_def)

text \<open>The lower modules, and the scheduler, are the same.\<close>

definition low_same :: "'z proc_st_scheme \<Rightarrow> 'z proc_st_scheme \<Rightarrow> bool" where
  "low_same s s' \<longleftrightarrow> mem s' = mem s \<and> blk s' = blk s \<and> free_pages s' = free_pages s \<and> n_pages s' = n_pages s \<and>
     km_initialized s' = km_initialized s \<and> qn s' = qn s \<and> free_qnodes s' = free_qnodes s \<and> queues s' = queues s \<and>
     queue_free s' = queue_free s \<and> free_stacks s' = free_stacks s \<and> user_locs s' = user_locs s \<and> ptable s' = ptable s \<and>
     ready s' = ready s \<and> sleeping s' = sleeping s \<and> zombie s' = zombie s \<and> blocked s' = blocked s \<and> sioread s' = sioread s"

lemma low_sameD:
  assumes "low_same s s'"
  shows "que_abs s' bs Q = que_abs s bs Q" and "sched_inv s' bs Q = sched_inv s bs Q" and "que_nodes s' = que_nodes s"
    and "stk_inv s' bs ss = stk_inv s bs ss" and "mem s' = mem s" and "user_locs s' = user_locs s" and "ptable s' = ptable s"
    and "queue_free s' = queue_free s" and "queues s' = queues s"
proof -
  show q: "que_abs s' bs Q = que_abs s bs Q" by (rule que_abs_cong) (use assms in \<open>simp_all add: low_same_def\<close>)
  show "sched_inv s' bs Q = sched_inv s bs Q" by (rule sched_inv_cong [OF q]) (use assms in \<open>simp_all add: low_same_def\<close>)
  show "que_nodes s' = que_nodes s" by (rule que_nodes_cong) (use assms in \<open>simp_all add: low_same_def\<close>)
  have "kmem_abs s' bs = kmem_abs s bs" by (rule kmem_abs_cong) (use assms in \<open>simp_all add: low_same_def\<close>)
  then show "stk_inv s' bs ss = stk_inv s bs ss" using assms by (simp add: low_same_def stk_inv_def)
  show "mem s' = mem s" "user_locs s' = user_locs s" "ptable s' = ptable s" "queue_free s' = queue_free s" "queues s' = queues s"
    using assms by (simp_all add: low_same_def)
qed

lemma sio_init_run:
  assumes "length (isr_table s) = 256"
  shows "\<exists>s'. sio_init s = Inr s' \<and> low_same s s' \<and> isr_table s' = (isr_table s)[0x24 := H_sio] \<and> in_ok s' \<and> out_ok s'"
  using assms
  by (simp add: sio_init_def set_isr_run VEC_COM1_def outb_def low_same_def in_ok_def out_ok_def out_used_def BUF_SIZE_def)

lemma clk_init_run:
  assumes "length (isr_table s) = 256"
  shows "\<exists>s'. clk_init s = Inr s' \<and> low_same s s' \<and> isr_table s' = (isr_table s)[0x20 := H_clk] \<and> system_time s' = 0"
  using assms by (simp add: clk_init_def set_isr_run VEC_TIMER_def outb_def low_same_def Let_def)

lemma sys_init_run:
  assumes "length (isr_table s) = 256"
  shows "\<exists>s'. sys_init s = Inr s' \<and> low_same s s' \<and> isr_table s' = (isr_table s)[0x80 := H_sys] \<and> system_time s' = system_time s"
  using assms by (simp add: sys_init_def set_isr_run VEC_SYSCALL_def low_same_def)

lemma stk_init_run:
  assumes inv: "sched_inv s bs Q" and al: "alloc_blocks 2 bs = Some (r, bs')"
  shows "\<exists>s'. stk_init s = Inr s' \<and> sched_inv s' bs' Q \<and> stk_inv s' bs' [] \<and> kstack s' = of_nat r \<and>
    (\<forall>x. \<not> x - of_nat r < SZ_STACK \<longrightarrow> mem s' x = mem s x) \<and> user_locs s' = user_locs s \<and> stk_st.more s' = stk_st.more s"
proof -
  let ?s = "s\<lparr>free_stacks := NULL\<rparr>"
  have "kmem_abs s bs" using sched_invD(1) [OF inv] by (auto simp: que_abs_def que_rep_def)
  then have "stk_inv ?s bs []" by (simp add: stk_inv_def)
  moreover have "sched_inv ?s bs Q" using inv by simp
  ultimately obtain t where t: "stk_alloc ?s = Inr (E_SUCCESS, Some (of_nat r), t)" "stk_inv t bs' []" "sched_inv t bs' Q"
    "\<forall>x. mem t x = (if x - of_nat r < SZ_STACK then 0 else mem ?s x)" "que_st.more t = que_st.more ?s"
    using sched_stk_alloc [of ?s bs Q r bs'] al by blast
  let ?t = "t\<lparr>kstack := of_nat r, kesp := of_nat r + 4 * STACK_WDS - 4\<rparr>"
  have "sched_inv ?t bs' Q = sched_inv t bs' Q" by (intro sched_inv_cong que_abs_cong; simp)
  moreover have "kmem_abs ?t bs' = kmem_abs t bs'" by (rule kmem_abs_cong; simp)
  ultimately show ?thesis using t que_more(12) [OF t(5)]
    by (intro exI [of _ ?t]) (cases t, cases s, simp add: stk_init_def Let_def stk_inv_def)
qed

lemma que_get_frame: "que_get c s = Inr (q, s') \<Longrightarrow> mem s' = mem s \<and> user_locs s' = user_locs s"
  by (auto simp: que_get_def que_alloc_def Let_def kbind_eq_Inr split: option.splits)

lemma isr_more: "proc_st.more s = proc_st.more t \<Longrightarrow> isr_table s = isr_table t" for s t :: "'z sup_st_scheme"
  by (cases s; cases t) simp

lemma stk_more: "stk_st.more s = stk_st.more t \<Longrightarrow> ptable s = ptable t \<and> isr_table s = isr_table t" for s t :: "'z sup_st_scheme"
  by (cases s; cases t) simp

lemma pcb_init_frame: "pcb_init s = Inr s' \<Longrightarrow> mem s' = mem s \<and> user_locs s' = user_locs s"
  by (auto simp: pcb_init_def Let_def kbind_eq_Inr dest!: que_get_frame)

lemma main_modules_run:
  assumes km: "km_init s = Inr s0" "kmem_abs s0 bs" and isr: "length (isr_table s0) = 256"
    and al: "alloc_blocks 1 bs = Some (r1, bs1)" "alloc_blocks 2 bs1 = Some (r2, bs2)"
  shows "\<exists>s'. main_modules s = Inr s' \<and> sched_inv s' bs2 (\<lambda>_. []) \<and> stk_inv s' bs2 [] \<and> ptable s' = replicate N_PROCS zero_pcb \<and>
    system_time s' = 0 \<and> isr_table s' = (isr_table s0)[0x24 := H_sio, 0x20 := H_clk, 0x80 := H_sys] \<and>
    (\<forall>x. \<not> x - of_nat r2 < SZ_STACK \<longrightarrow> mem s' x = mem s0 x) \<and> user_locs s' = user_locs s0"
proof -
  obtain s1 where s1: "que_init s0 = Inr s1" "que_abs s1 bs1 (\<lambda>_. [])" "que_nodes s1 512" "queue_free s1 = replicate N_QUEUES QUE_FREE"
    "mem s1 = mem s0" "que_st.more s1 = que_st.more s0" "map q_compare (queues s1) = replicate N_QUEUES None"
    using que_init_abs [OF km(2)] al(1) by auto
  have more1: "proc_st.more s1 = proc_st.more s0" "user_locs s1 = user_locs s0" using que_more(11,12) [OF s1(6)] by simp_all
  have i1: "isr_table s1 = isr_table s0" by (rule isr_more [OF more1(1)])
  obtain s2 where s2: "sio_init s1 = Inr s2" "low_same s1 s2" "isr_table s2 = (isr_table s0)[0x24 := H_sio]"
    using sio_init_run [of s1] isr i1 by auto
  note l2 = low_sameD [OF s2(2)]
  obtain s3 where s3: "pcb_init s2 = Inr s3" "sched_inv s3 bs1 (\<lambda>_. [])" "ptable s3 = replicate N_PROCS zero_pcb"
    "proc_st.more s3 = proc_st.more s2" "mem s3 = mem s2" "user_locs s3 = user_locs s2"
  proof -
    obtain s3 where "pcb_init s2 = Inr s3" "sched_inv s3 bs1 (\<lambda>_. [])" "ptable s3 = replicate N_PROCS zero_pcb"
      "proc_st.more s3 = proc_st.more s2"
      using pcb_init_run [of s2 bs1] s1(2,3,4,7) l2(1,3,8,9) by auto
    with pcb_init_frame [of s2 s3] that show thesis by blast
  qed
  have i3: "isr_table s3 = isr_table s2" by (rule isr_more [OF s3(4)])
  obtain s4 where s4: "stk_init s3 = Inr s4" "sched_inv s4 bs2 (\<lambda>_. [])" "stk_inv s4 bs2 []"
    "\<forall>x. \<not> x - of_nat r2 < SZ_STACK \<longrightarrow> mem s4 x = mem s3 x" "user_locs s4 = user_locs s3" "stk_st.more s4 = stk_st.more s3"
    using stk_init_run [OF s3(2) al(2)] by blast
  have more4: "ptable s4 = ptable s3" "isr_table s4 = isr_table s3" using stk_more [OF s4(6)] by simp_all
  obtain s5 where s5: "clk_init s4 = Inr s5" "low_same s4 s5" "isr_table s5 = (isr_table s4)[0x20 := H_clk]" "system_time s5 = 0"
    using clk_init_run [of s4] isr more4 i3 s2(3) by auto
  obtain s6 where s6: "sys_init s5 = Inr s6" "low_same s5 s6" "isr_table s6 = (isr_table s5)[0x80 := H_sys]" "system_time s6 = system_time s5"
    using sys_init_run [of s5] isr more4 i3 s2(3) s5(3) by auto
  have run: "main_modules s = Inr s6" using km(1) s1(1) s2(1) s3(1) s4(1) s5(1) s6(1) by (simp add: main_modules_def)
  show ?thesis
    using run low_sameD [OF s5(2)] low_sameD [OF s6(2)] s4 s3 more4 l2 s1(5) more1(2) s5(4) s6(4) s6(3) s5(3) i3 s2(3)
    by (intro exI [of _ s6]) simp
qed

end
