(* ===== verification/Reachable.thy ===== *)
theory Reachable
  imports Devices Kernel
begin

text \<open>
  Every interleaving of interrupts and user code: each interrupt handler, on every path on which it returns, keeps the
  invariant of the kernel, so that in every reachable state one process runs and every other one is where its state says.
\<close>

section \<open>Scheduling steps\<close>

text \<open>The process \<open>c\<close> has left the processor or is about to: the scheduler is in order.\<close>

lemma upD:
  assumes "up s c"
  obtains bs Q where "running s bs Q c" "placed {c} s Q"
  using assms by (auto simp: up_def)

lemma schedule_assert: "schedule (Some i) s = Inr s' \<Longrightarrow> i < N_PROCS \<and> unat (p_priority (ptable s ! i)) \<le> PRIO_LAST"
  by (auto simp: schedule_def Let_def kbind_eq_Inr pcb_ix_def split: if_splits)

lemma dispatch_up:
  assumes "sched_inv s bs Q" and "placed {} s Q" and "dispatch s = Inr s'"
  shows "\<exists>c. up s' c" and "proc_st.more s' = proc_st.more s"
proof -
  have "pick Q \<noteq> None" using dispatch_pick [OF assms(1)] assms(3) by (auto split: option.splits)
  then obtain Q' i where "pick Q = Some (Q', i)" by auto
  then obtain t where "dispatch s = Inr t" "running t bs Q' i" "proc_frame s t" "placed {i} t Q'"
    using dispatch_pick [OF assms(1)] assms(2) by auto
  with assms(3) show "\<exists>c. up s' c" "proc_st.more s' = proc_st.more s" by (auto simp: up_def proc_frame_def)
qed

text \<open>Making another process ready does not disturb the running one.\<close>

lemma schedule_other:
  assumes run: "running s bs Q c" and i: "\<not> queued Q i" "i \<noteq> c" and s': "schedule (Some i) s = Inr s'"
    and pl: "placed (insert i X) s Q"
  shows "\<exists>Q'. running s' bs Q' c \<and> (\<forall>j. queued Q' j \<longleftrightarrow> queued Q j \<or> j = i) \<and> placed X s' Q'"
    and "proc_frame s s'"
proof -
  note r = runningD [OF run] and a = schedule_assert [OF s']
  let ?k = "unat (p_priority (ptable s ! i))"
  let ?Q = "Q(?k := Q ?k @ [Some i])"
  have k: "?k < N_QUEUES" using a by (simp add: PRIO_LAST_def N_QUEUES_def)
  obtain t where t: "schedule (Some i) s = Inr t" "sched_inv t bs ?Q"
    "ptable t = (ptable s)[i := (ptable s ! i)\<lparr>p_state := STATE_READY\<rparr>]" "current t = current s" "proc_frame s t"
    using schedule_run [OF r(1) _ i(1) refl] a by blast
  then have [simp]: "t = s'" using s' by simp
  show "proc_frame s s'" using t by simp
  have "running s' bs ?Q c"
    using t r i(2) queued_upd [OF k, of Q i c] by (simp add: running_def del: fun_upd_apply)
  moreover have "placed X s' ?Q"
  proof (rule placedI [OF pl])
    fix j
    assume "j \<notin> X"
    show "j \<in> insert i X \<Longrightarrow> p_state (ptable s' ! j) \<in> {STATE_UNUSED, STATE_WAITING} \<or> queued ?Q j"
      using \<open>j \<notin> X\<close> queued_upd [OF k, of Q i j] by simp
    show "j \<notin> insert i X \<Longrightarrow> p_state (ptable s' ! j) = p_state (ptable s ! j) \<or> queued ?Q j" using t(3) by simp
    show "queued Q j \<Longrightarrow> queued ?Q j" using queued_upd [OF k, of Q i j] by simp
  qed
  ultimately show "\<exists>Q'. running s' bs Q' c \<and> (\<forall>j. queued Q' j \<longleftrightarrow> queued Q j \<or> j = i) \<and> placed X s' Q'"
    using queued_upd [OF k, of Q i] by blast
qed

text \<open>Changing one entry of the table; a free or a waiting one needs no place.\<close>

lemma placed_upd:
  assumes "placed X s Q" and "i \<in> X"
  shows "placed X (upd_pcb i f s) Q"
proof (rule placedI [OF assms(1)])
  fix j
  assume "j \<notin> X"
  then show "p_state (ptable (upd_pcb i f s) ! j) = p_state (ptable s ! j) \<or> queued Q j" using assms(2) by (cases "j = i") simp_all
qed simp_all

lemma queued_replace:
  assumes "queued Q j" and "Some j \<in> set (Q k) \<Longrightarrow> Some j \<in> set xs"
  shows "queued (Q(k := xs)) j"
proof -
  obtain i where "i < N_QUEUES" "Some j \<in> set (Q i)" using assms(1) by (auto simp: queued_def)
  then show ?thesis unfolding queued_def by (intro exI [of _ i]) (use assms(2) in auto)
qed

lemma placed_idle:
  assumes "placed (insert i X) s Q" and "length (ptable s) = N_PROCS" and "p_state (f (ptable s ! i)) \<in> {STATE_UNUSED, STATE_WAITING}"
  shows "placed X (upd_pcb i f s) Q"
  unfolding placed_def
proof (intro allI impI)
  fix j
  assume "j < N_PROCS" "j \<notin> X"
  then show "p_state (ptable (upd_pcb i f s) ! j) \<in> {STATE_UNUSED, STATE_WAITING} \<or> queued Q j"
    using assms by (cases "j = i") (auto simp: placed_def)
qed

lemma placed_insert: "placed X s Q \<Longrightarrow> placed (insert i X) s Q"
  by (rule placed_mono) auto

lemma running_upd_other:
  assumes "running s bs Q c" and "\<not> queued Q i" and "i \<noteq> c"
  shows "running (upd_pcb i f s) bs Q c"
  using assms sched_inv_upd [of s bs Q i f] by (simp add: running_def)

lemma running_upd_self:
  assumes "running s bs Q c" and "p_state (f (ptable s ! c)) = STATE_RUNNING" and "p_priority (f (ptable s ! c)) = p_priority (ptable s ! c)"
  shows "running (upd_pcb c f s) bs Q c"
  using assms sched_inv_upd [of s bs Q c f] sched_invD(2) [of s bs Q] by (simp add: running_def)

lemma state_not_queued:
  assumes "sched_inv s bs Q" and "p_state (ptable s ! i) \<in> {STATE_UNUSED, STATE_NEW, STATE_RUNNING, STATE_WAITING}"
  shows "\<not> queued Q i"
proof
  assume "queued Q i"
  then obtain k where "k < N_QUEUES" "Some i \<in> set (Q k)" by (auto simp: queued_def)
  then have "member_ok k (ptable s ! i)" using sched_members [OF assms(1)] by blast
  then show False using assms(2) by (auto simp: member_ok_def split: if_splits)
qed

lemma running_freed:
  assumes "running s bs Q c" and "\<not> queued Q i" and "i \<noteq> c"
  shows "running (freed i s) bs Q c"
  using assms freed_sched [of s bs Q i] by (simp add: running_def)

lemma freed_placed:
  assumes "placed (insert i X) s Q" and "length (ptable s) = N_PROCS"
  shows "placed X (freed i s) Q"
  using placed_idle [OF assms, of "\<lambda>p. p\<lparr>p_stack := NULL, p_state := STATE_UNUSED\<rparr>"] by (simp add: placed_def)

lemma freed_more [simp]: "proc_st.more (freed i s) = proc_st.more s" "proc_st.more (upd_pcb i f s) = proc_st.more s"
  "proc_st.more (poke32 a v s) = proc_st.more s" "proc_st.more (tell_status p c s) = proc_st.more s"
  "proc_st.more (set_RET i v s) = proc_st.more s"
  by (simp_all add: freed_def Let_def upd_pcb_def poke32_def tell_status_def set_RET_def set_REG_def)

lemma pcb_cleanup_cases: "pcb_cleanup (Some i) s = Inr s' \<Longrightarrow> length (ptable s) = N_PROCS \<Longrightarrow> i < N_PROCS \<and> s' = freed i s"
  using pcb_cleanup_run [of i s] by (cases "i < N_PROCS") (auto simp: pcb_cleanup_def pcb_deref_def)

lemma status_return_cases: "status_return (Some p) (Some c) s = Inr s' \<Longrightarrow> p < N_PROCS \<and> c < N_PROCS \<and> s' = tell_status p c s"
  using status_return_run [of p c s] by (auto simp: status_return_def pcb_deref_def split: if_splits)

section \<open>Exit\<close>

text \<open>Nothing but parents changes while the children are given away.\<close>

definition reparented :: "'z proc_st_scheme \<Rightarrow> 'z proc_st_scheme \<Rightarrow> bool" where
  "reparented s s' \<longleftrightarrow> (\<exists>pt. s' = s\<lparr>ptable := pt\<rparr> \<and> length pt = length (ptable s) \<and>
     (\<forall>i < length (ptable s). \<exists>p. pt ! i = (ptable s ! i)\<lparr>p_parent := p\<rparr>))"

lemma reparented_refl: "reparented s s"
proof -
  have "\<exists>p. ptable s ! i = (ptable s ! i)\<lparr>p_parent := p\<rparr>" for i
    by (rule exI [of _ "p_parent (ptable s ! i)"]) simp
  then show ?thesis unfolding reparented_def by (intro exI [of _ "ptable s"]) simp
qed

lemma reparented_trans:
  assumes "reparented s t" and "reparented t u"
  shows "reparented s u"
proof -
  obtain pt where pt: "t = s\<lparr>ptable := pt\<rparr>" "length pt = length (ptable s)"
    "\<forall>i < length (ptable s). \<exists>p. pt ! i = (ptable s ! i)\<lparr>p_parent := p\<rparr>" using assms(1) by (auto simp: reparented_def)
  obtain pu where pu: "u = t\<lparr>ptable := pu\<rparr>" "length pu = length pt"
    "\<forall>i < length pt. \<exists>p. pu ! i = (pt ! i)\<lparr>p_parent := p\<rparr>" using assms(2) pt(1) by (auto simp: reparented_def)
  have "\<exists>p. pu ! i = (ptable s ! i)\<lparr>p_parent := p\<rparr>" if i: "i < length (ptable s)" for i
  proof -
    obtain p q where "pt ! i = (ptable s ! i)\<lparr>p_parent := p\<rparr>" "pu ! i = (pt ! i)\<lparr>p_parent := q\<rparr>" using i pt(2,3) pu(3) by metis
    then show ?thesis by (intro exI [of _ q]) simp
  qed
  then show ?thesis unfolding reparented_def using pt(1,2) pu(1,2) by (intro exI [of _ pu]) simp
qed

lemma reparented_upd: "reparented s (upd_pcb i (\<lambda>p. p\<lparr>p_parent := q\<rparr>) s)"
proof -
  have "\<exists>p. ((ptable s)[i := (ptable s ! i)\<lparr>p_parent := q\<rparr>]) ! j = (ptable s ! j)\<lparr>p_parent := p\<rparr>" if "j < length (ptable s)" for j
  proof (cases "j = i")
    case True
    then show ?thesis using that by auto
  next
    case False
    then show ?thesis by (intro exI [of _ "p_parent (ptable s ! j)"]) simp
  qed
  then show ?thesis unfolding reparented_def upd_pcb_def
    by (intro exI [of _ "(ptable s)[i := (ptable s ! i)\<lparr>p_parent := q\<rparr>]"]) simp
qed

lemma reparented_fields:
  assumes "reparented s s'"
  shows "i < length (ptable s) \<Longrightarrow> p_state (ptable s' ! i) = p_state (ptable s ! i) \<and> p_priority (ptable s' ! i) = p_priority (ptable s ! i) \<and>
      p_wakeup (ptable s' ! i) = p_wakeup (ptable s ! i)"
    and "proc_st.more s' = proc_st.more s"
proof -
  show "i < length (ptable s) \<Longrightarrow> p_state (ptable s' ! i) = p_state (ptable s ! i) \<and> p_priority (ptable s' ! i) = p_priority (ptable s ! i) \<and>
      p_wakeup (ptable s' ! i) = p_wakeup (ptable s ! i)"
    using assms unfolding reparented_def by fastforce
  show "proc_st.more s' = proc_st.more s" using assms by (auto simp: reparented_def)
qed

lemma reparented_running:
  assumes "reparented s s'" and "running s bs Q c"
  shows "running s' bs Q c"
proof -
  note r = runningD [OF assms(2)]
  have len: "length (ptable s) = N_PROCS" by (rule sched_invD(2) [OF r(1)])
  obtain pt where pt: "s' = s\<lparr>ptable := pt\<rparr>" "length pt = length (ptable s)" using assms(1) by (auto simp: reparented_def)
  have "sched_inv s' bs Q" unfolding pt(1)
    by (rule sched_inv_table [OF r(1)]) (use pt len reparented_fields(1) [OF assms(1)] in auto)
  then show ?thesis using r pt reparented_fields(1) [OF assms(1), of c] len by (simp add: running_def)
qed

lemma reparented_placed: "reparented s s' \<Longrightarrow> length (ptable s) = N_PROCS \<Longrightarrow> placed X s Q \<Longrightarrow> placed X s' Q"
  using reparented_fields(1) [of s s'] by (simp add: placed_def)

lemma reparent_partial:
  "reparent c f s = Some r \<Longrightarrow> r = Inr (f', s') \<Longrightarrow> length (ptable s) = N_PROCS \<Longrightarrow>
    reparented s s' \<and> (f' = f \<or> (\<exists>i < N_PROCS. f' = Some i \<and> p_state (ptable s ! i) = STATE_ZOMBIE))"
proof (induction c f s r arbitrary: f' s' rule: reparent.raw_induct [rotated, consumes 1, case_names step])
  case (step rep c f s r)
  show ?case
  proof (cases "pcb_find_child_of (Some c) s")
    case (Inl e)
    then show ?thesis using step.hyps step.prems by simp
  next
    case (Inr ch)
    show ?thesis
    proof (cases ch)
      case None
      then show ?thesis using Inr step.hyps step.prems reparented_refl by simp
    next
      case (Some i)
      have i: "i < N_PROCS" using Inr Some by (auto simp: pcb_find_child_of_def kbind_eq_Inr first_ix_Some)
      let ?s = "upd_pcb i (\<lambda>p. p\<lparr>p_parent := init_pcb s\<rparr>) s"
      let ?f = "if p_state (ptable ?s ! i) = STATE_ZOMBIE then Some i else f"
      have "rep c ?f ?s = Some r" "p_parent (ptable s ! i) = Some c"
        using Inr Some step.hyps step.prems by (auto simp: Let_def split: if_splits)
      from step.IH [OF this(1) step.prems(1)] step.prems(2)
      have IH: "reparented ?s s'" "f' = ?f \<or> (\<exists>j < N_PROCS. f' = Some j \<and> p_state (ptable ?s ! j) = STATE_ZOMBIE)" by simp_all
      have st: "p_state (ptable ?s ! j) = p_state (ptable s ! j)" if "j < N_PROCS" for j
        using reparented_fields(1) [OF reparented_upd [of s i "init_pcb s"]] that step.prems(2) by simp
      show ?thesis using reparented_trans [OF reparented_upd IH(1)] IH(2) st i by (auto split: if_splits)
    qed
  qed
qed

text \<open>Taking a zombie out of its queue.\<close>

lemma remove_zombie:
  assumes run: "running s bs Q c" and z: "que_remove_by (zombie s) (Some z) s = Inr (E_SUCCESS, s')"
  shows "\<exists>Q'. running s' bs Q' c \<and> (\<forall>j. queued Q' j \<longleftrightarrow> queued Q j \<and> j \<noteq> z)" and "que_frame s s'"
proof -
  note r = runningD [OF run]
  have i: "4 < N_QUEUES" by (simp add: N_QUEUES_def)
  have mem: "Some z \<in> set (Q 4)"
    using que_remove_by_absent [OF sched_invD(1) [OF r(1)] i, of "Some z"] z sched_invD(5) [OF r(1)]
    by (cases "Some z \<in> set (Q 4)") (simp_all split: if_splits)
  let ?Q = "Q(4 := remove1 (Some z) (Q 4))"
  obtain t where t: "que_remove_by (Some 4) (Some z) s = Inr (E_SUCCESS, t)" "que_frame s t" "que_abs t bs ?Q"
    "\<forall>n. que_nodes s n \<longrightarrow> que_nodes t (Suc n)"
    using que_remove_by_abs [OF sched_invD(1) [OF r(1)] i _ mem] by auto
  have [simp]: "t = s'" using t(1) z sched_invD(5) [OF r(1)] by simp
  show "que_frame s s'" using t(2) by simp
  have d: "distinct (Q 4)" using r(1) i by (simp add: sched_inv_def)
  have "length (Q 4) = Suc (length (remove1 (Some z) (Q 4)))" using mem by (simp add: length_remove1) (metis Suc_pred length_pos_if_in_set)
  then have "nodes_ok s' ?Q"
    by (intro nodes_ok_get [OF _ _ i]) (use r(1) t(4) in \<open>auto simp: sched_inv_def\<close>)
  then have inv: "sched_inv s' bs ?Q"
    by (intro sched_inv_remove [OF r(1)]) (use t d in \<open>simp_all add: set_remove1_subset\<close>)
  have nz: "\<not> queued ?Q z" by (rule sched_removed [OF r(1) i mem]) (use d in simp)
  have sub: "queued Q j" if "queued ?Q j" for j
    using that set_remove1_subset [of "Some z" "Q 4"] by (auto simp: queued_def split: if_splits)
  have same: "ptable s' = ptable s" "current s' = current s" using t(2) que_more [of t s] by (simp_all add: que_frame_def)
  have "running s' bs ?Q c" using inv r sub same by (auto simp: running_def)
  moreover have "queued ?Q j" if "queued Q j" "j \<noteq> z" for j
    by (rule queued_replace [OF that(1)]) (use that(2) in \<open>simp add: in_set_remove1\<close>)
  ultimately show "\<exists>Q'. running s' bs Q' c \<and> (\<forall>j. queued Q' j \<longleftrightarrow> queued Q j \<and> j \<noteq> z)" using nz sub by blast
qed

lemma tell_status_running: "running (tell_status p i s) bs Q c = running s bs Q c"
  by simp

lemma exit_for_init_keeps:
  assumes up: "up s c" and z: "\<And>i. f = Some i \<Longrightarrow> i < N_PROCS \<and> p_state (ptable s ! i) = STATE_ZOMBIE" and run: "exit_for_init f s = Inr s'"
  shows "up s' c" and "proc_st.more s' = proc_st.more s"
proof -
  obtain bs Q where r: "running s bs Q c" and pl: "placed {c} s Q" by (rule upD [OF up])
  have "up s' c \<and> proc_st.more s' = proc_st.more s"
  proof (cases f)
    case None
    then show ?thesis using run up by (simp add: exit_for_init_def)
  next
    case (Some i)
    obtain k where k: "init_pcb s = Some k" "k < N_PROCS" using run Some
      by (cases "init_pcb s") (auto simp: exit_for_init_def pcb_deref_def split: if_splits)
    show ?thesis
    proof (cases "p_state (ptable s ! k) = STATE_WAITING")
      case False
      then show ?thesis using run up Some k by (simp add: exit_for_init_def pcb_deref_def)
    next
      case True
      obtain s1 where s1: "que_remove_by (zombie s) (Some i) s = Inr (E_SUCCESS, s1)"
          "kbind (status_return (init_pcb s1) (Some i) s1) (\<lambda>s. kbind (schedule (init_pcb s) s) (\<lambda>s. pcb_cleanup (Some i) s)) = Inr s'"
        using run Some k True by (auto simp: exit_for_init_def pcb_deref_def kbind_eq_Inr)
      obtain Q1 where Q1: "running s1 bs Q1 c" "\<forall>j. queued Q1 j \<longleftrightarrow> queued Q j \<and> j \<noteq> i" and fr: "que_frame s s1"
        using remove_zombie [OF r s1(1)] by blast
      have pt: "ptable s1 = ptable s" "init_pcb s1 = Some k" "proc_st.more s1 = proc_st.more s"
        using fr que_more [of s1 s] k by (simp_all add: que_frame_def)
      obtain s2 s3 where s2: "s2 = tell_status k i s1" and s3: "schedule (Some k) s2 = Inr s3" "pcb_cleanup (Some i) s3 = Inr s'"
        using s1(2) pt(2) by (auto simp: kbind_eq_Inr dest!: status_return_cases)
      have ne: "k \<noteq> i" "i \<noteq> c" "k \<noteq> c" using True z [OF Some] runningD(5) [OF r] by auto
      have "\<not> queued Q k" by (rule state_not_queued [OF runningD(1) [OF r]]) (use True in simp)
      then have nk: "\<not> queued Q1 k" using Q1(2) by blast
      have r2: "running s2 bs Q1 c" using Q1(1) by (simp add: s2)
      have pl2: "placed (insert k {i, c}) s2 Q1" by (rule placedI [OF pl]) (use Q1(2) in \<open>auto simp: s2 pt(1)\<close>)
      obtain Q3 where Q3: "running s3 bs Q3 c" "\<forall>j. queued Q3 j \<longleftrightarrow> queued Q1 j \<or> j = k" "placed {i, c} s3 Q3"
        using schedule_other(1) [OF r2 nk ne(3) s3(1) pl2] by blast
      have "s' = freed i s3" using pcb_cleanup_cases [OF s3(2)] sched_invD(2) [OF runningD(1) [OF Q3(1)]] by simp
      moreover have "\<not> queued Q3 i" using Q3(2) Q1(2) ne(1) by simp
      moreover have "placed {c} (freed i s3) Q3" by (rule freed_placed [OF Q3(3) sched_invD(2) [OF runningD(1) [OF Q3(1)]]])
      ultimately have "running s' bs Q3 c" "placed {c} s' Q3" using running_freed [OF Q3(1) _ ne(2)] by simp_all
      moreover have "proc_st.more s3 = proc_st.more s2" using schedule_other(2) [OF r2 nk ne(3) s3(1) pl2] by (simp add: proc_frame_def)
      ultimately show ?thesis using \<open>s' = freed i s3\<close> pt(3) by (auto simp: up_def s2)
    qed
  qed
  then show "up s' c" "proc_st.more s' = proc_st.more s" by simp_all
qed

lemma exit_parent_keeps:
  assumes up: "up s c" and k: "k \<noteq> c" and run: "kbind (exit_parent k c s) dispatch = Inr s'"
  shows "\<exists>c. up s' c" and "proc_st.more s' = proc_st.more s"
proof -
  obtain bs Q where r: "running s bs Q c" and pl: "placed {c} s Q" by (rule upD [OF up])
  note rd = runningD [OF r]
  have "\<exists>t Q. exit_parent k c s = Inr t \<and> sched_inv t bs Q \<and> placed {} t Q \<and> proc_st.more t = proc_st.more s"
  proof (cases "p_state (ptable s ! k) = STATE_WAITING")
    case True
    obtain s3 where s3: "exit_parent k c s = Inr s3" using run by (auto simp: kbind_eq_Inr)
    then obtain t where t: "schedule (Some k) (tell_status k c s) = Inr t" "pcb_cleanup (Some c) t = Inr s3"
      using True by (auto simp: exit_parent_def kbind_eq_Inr dest!: status_return_cases)
    have nk: "\<not> queued Q k" by (rule state_not_queued [OF rd(1)]) (use True in simp)
    have r2: "running (tell_status k c s) bs Q c" using r by simp
    have pl2: "placed (insert k {c}) (tell_status k c s) Q" using placed_insert [OF pl] by (simp add: placed_def)
    obtain Q3 where Q3: "running t bs Q3 c" "placed {c} t Q3" using schedule_other(1) [OF r2 nk k t(1) pl2] by blast
    note len = sched_invD(2) [OF runningD(1) [OF Q3(1)]]
    have "s3 = freed c t" using pcb_cleanup_cases [OF t(2) len] by simp
    moreover have "sched_inv (freed c t) bs Q3" by (rule freed_sched) (use runningD [OF Q3(1)] in simp_all)
    moreover have "placed {} (freed c t) Q3" by (rule freed_placed [OF Q3(2) len])
    moreover have "proc_st.more t = proc_st.more s" using schedule_other(2) [OF r2 nk k t(1) pl2] by (simp add: proc_frame_def)
    ultimately show ?thesis using s3 by auto
  next
    case False
    obtain t where t: "pcb_zombify (Some c) s = Inr t" "sched_inv t bs (Q(4 := Q 4 @ [Some c]))" "proc_frame s t"
      "ptable t = (ptable s)[c := (ptable s ! c)\<lparr>p_state := STATE_ZOMBIE\<rparr>]" using zombify_run [OF rd(1,3,4,6)] by blast
    have "4 < N_QUEUES" by (simp add: N_QUEUES_def)
    then have "placed {} t (Q(4 := Q 4 @ [Some c]))"
      by (intro placedI [OF pl]) (simp_all add: queued_upd t(4) del: fun_upd_apply)
    then show ?thesis using False t by (auto simp: exit_parent_def proc_frame_def)
  qed
  then obtain t Q' where t: "exit_parent k c s = Inr t" "sched_inv t bs Q'" "placed {} t Q'" "proc_st.more t = proc_st.more s" by blast
  then show "\<exists>c. up s' c" "proc_st.more s' = proc_st.more s" using dispatch_up [OF t(2,3)] run by simp_all
qed

text \<open>The outcome of a system call: some process runs, and the state of the devices is as before.\<close>

definition sched_step :: "'z proc_st_scheme \<Rightarrow> 'z proc_st_scheme \<Rightarrow> bool" where
  "sched_step s s' \<longleftrightarrow> (\<exists>c. up s' c) \<and> proc_st.more s' = proc_st.more s"

lemma sched_step_same: "up s' c \<Longrightarrow> proc_st.more s' = proc_st.more s \<Longrightarrow> sched_step s s'"
  by (auto simp: sched_step_def)

lemma sched_step_kinv: "sched_step s s' \<Longrightarrow> kinv s \<Longrightarrow> kinv s'"
  using proc_more_kinv by (auto simp: sched_step_def)

lemma up_RET: "up s c \<Longrightarrow> up (set_RET i v s) c"
  using placed_cong [of "set_RET i v s" s] by (simp add: up_def)

lemma upI: "running s bs Q c \<Longrightarrow> placed {c} s Q \<Longrightarrow> up s c"
  by (auto simp: up_def)

lemma sys_exit_step:
  assumes up: "up s c" and run: "sys_exit c s = Inr s'"
  shows "sched_step s s'"
proof -
  obtain bs Q where r: "running s bs Q c" and pl: "placed {c} s Q" by (rule upD [OF up])
  note rd = runningD [OF r]
  let ?s = "upd_pcb c (\<lambda>p. p\<lparr>p_status := ARG c 1 s\<rparr>) s"
  obtain k f s2 s3 where k: "k \<noteq> c" and s2: "krun (reparent c None ?s) = Inr (f, s2)" and s3: "exit_for_init f s2 = Inr s3"
      "kbind (exit_parent k c s3) dispatch = Inr s'"
    using run by (auto simp: sys_exit_def Let_def kbind_eq_Inr pcb_deref_def split: option.splits if_splits)
  have rs: "running ?s bs Q c" by (rule running_upd_self [OF r]) (use rd in simp_all)
  have len: "length (ptable ?s) = N_PROCS" by (rule sched_invD(2) [OF runningD(1) [OF rs]])
  have "reparent c None ?s = Some (Inr (f, s2))" using s2 by (cases "reparent c None ?s") simp_all
  from reparent_partial [OF this refl len]
  have rep: "reparented ?s s2" "f = None \<or> (\<exists>i < N_PROCS. f = Some i \<and> p_state (ptable ?s ! i) = STATE_ZOMBIE)" by simp_all
  have u2: "up s2 c"
    using reparented_running [OF rep(1) rs] reparented_placed [OF rep(1) len placed_upd [OF pl]] by (auto simp: up_def)
  have "i < N_PROCS \<and> p_state (ptable s2 ! i) = STATE_ZOMBIE" if "f = Some i" for i
    using rep(2) that reparented_fields(1) [OF rep(1), of i] len by simp
  note e = exit_for_init_keeps [OF u2 this s3(1)]
  show ?thesis using exit_parent_keeps [OF e(1) k s3(2)] e(2) reparented_fields(2) [OF rep(1)] by (simp add: sched_step_def)
qed

section \<open>Wait\<close>

text \<open>A caller that has a terminated child collects it and leaves its entry in the zombie queue; that path is excluded.\<close>

lemma sys_wait_step:
  assumes up: "up s c" and nd: "\<forall>i < N_PROCS. \<not> dead_child c s i" and run: "sys_wait c s = Inr s'"
  shows "sched_step s s'"
proof -
  obtain bs Q where r: "running s bs Q c" and pl: "placed {c} s Q" by (rule upD [OF up])
  note rd = runningD [OF r]
  have "snd (find_zombie c [0..<N_PROCS] 0 s) = None" using nd by (simp add: find_zombie_run(1) first_ix_None)
  then have "s' = set_RET c S_NO_CHILD s \<or> dispatch (upd_pcb c (\<lambda>p. p\<lparr>p_state := STATE_WAITING\<rparr>) s) = Inr s'"
    using run by (auto simp: sys_wait_def case_prod_beta split: if_splits)
  then show ?thesis
  proof
    assume "s' = set_RET c S_NO_CHILD s"
    then show ?thesis using up_RET [OF up] by (intro sched_step_same [of _ c]) simp_all
  next
    assume d: "dispatch (upd_pcb c (\<lambda>p. p\<lparr>p_state := STATE_WAITING\<rparr>) s) = Inr s'"
    have "placed {} (upd_pcb c (\<lambda>p. p\<lparr>p_state := STATE_WAITING\<rparr>) s) Q"
      by (rule placed_idle) (use pl sched_invD(2) [OF rd(1)] in simp_all)
    from dispatch_up [OF sched_inv_upd [OF rd(1,4)] this d] show ?thesis by (simp add: sched_step_def)
  qed
qed

section \<open>Fork and exec\<close>

lemma sched_step_trans: "proc_st.more t = proc_st.more s \<Longrightarrow> sched_step t u \<Longrightarrow> sched_step s u"
  by (simp add: sched_step_def)

lemma stk_alloc_running:
  assumes r: "running s bs Q c" and run: "stk_alloc s = Inr (e, k, s')"
  shows "\<exists>bs'. running s' bs' Q c" and "ptable s' = ptable s" and "proc_st.more s' = proc_st.more s"
proof -
  have more: "stk_st.more s' = stk_st.more s" by (rule stk_alloc_more [OF run])
  show pt: "ptable s' = ptable s" by (rule stk_more_ptable [OF more])
  have cu: "current s' = current s" "proc_st.more s' = proc_st.more s" using more by (cases s; cases s'; simp)+
  show "proc_st.more s' = proc_st.more s" by (rule cu(2))
  have "\<exists>bs'. sched_inv s' bs' Q"
  proof (cases "free_stacks s = NULL")
    case False
    then show ?thesis using run runningD(1) [OF r] by (auto simp: stk_alloc_def Let_def split: if_splits)
  next
    case True
    have abs: "kmem_abs s bs" using sched_invD(1) [OF runningD(1) [OF r]] by (auto simp: que_abs_def que_rep_def)
    obtain a s1 where s1: "km_page_alloc STACK_PAGES s = Inr (a, s1)" "s' = s1 \<or> (\<exists>m. s' = s1\<lparr>mem := m\<rparr>)"
      using run True by (auto simp: stk_alloc_def kbind_eq_Inr split: if_splits)
    have "\<exists>bs'. sched_inv s1 bs' Q"
    proof (cases "alloc_blocks 2 bs")
      case None
      then have "s1 = s" using km_page_alloc_refines [OF abs, of 2] s1(1) by (simp add: STACK_PAGES_def)
      then show ?thesis using runningD(1) [OF r] by blast
    next
      case (Some rb)
      obtain b bs' where rb: "rb = (b, bs')" by (cases rb)
      obtain t where "km_page_alloc 2 s = Inr (of_nat b, t)" "kmem_abs t bs'"
        using km_page_alloc_refines [OF abs, of 2] Some rb by auto
      then show ?thesis using sched_page_alloc [OF runningD(1) [OF r], of 2 b bs' "of_nat b" t] Some rb s1(1)
        by (auto simp: STACK_PAGES_def)
    qed
    then show ?thesis using s1(2) by auto
  qed
  then show "\<exists>bs'. running s' bs' Q c" using r pt cu(1) by (auto simp: running_def)
qed

lemma running_next_pid [simp]: "running (s\<lparr>next_pid := v\<rparr>) bs Q c = running s bs Q c"
proof -
  have "sched_inv (s\<lparr>next_pid := v\<rparr>) bs Q = sched_inv s bs Q" by (intro sched_inv_cong que_abs_cong; simp)
  then show ?thesis by (simp add: running_def)
qed

lemma running_mem [simp]: "running (s\<lparr>mem := m\<rparr>) bs Q c = running s bs Q c"
  by (simp add: running_def)

lemma running_stacks [simp]: "running (s\<lparr>free_stacks := v\<rparr>) bs Q c = running s bs Q c"
  by (simp add: running_def)

lemma move_REG_frames [simp]: "running (move_REG n x o' s) bs Q c = running s bs Q c" "proc_st.more (move_REG n x o' s) = proc_st.more s"
  by (simp_all add: move_REG_def set_REG_def)

lemma placed_frames [simp]:
  "placed X (s\<lparr>mem := m\<rparr>) Q = placed X s Q" "placed X (s\<lparr>next_pid := v\<rparr>) Q = placed X s Q" "placed X (move_REG n x o' s) Q = placed X s Q"
  "placed X (set_RET n w s) Q = placed X s Q" "placed X (s\<lparr>free_stacks := v'\<rparr>) Q = placed X s Q" "placed X (poke32 a w s) Q = placed X s Q"
  by (rule placed_cong; simp add: move_REG_def set_REG_def)+

lemma fork_pcb_keeps:
  assumes "running s bs Q c" and "\<not> queued Q n" and "n \<noteq> c"
  shows "running (fork_pcb c n k s) bs Q c" and "proc_st.more (fork_pcb c n k s) = proc_st.more s"
    and "placed (insert n X) s Q \<Longrightarrow> placed (insert n X) (fork_pcb c n k s) Q"
  using assms by (simp_all add: fork_pcb_def Let_def running_upd_other placed_upd)

lemma fork_stack_keeps:
  assumes r: "running s bs Q c" "\<not> queued Q n" "n \<noteq> c" and run: "fork_stack c n k s = Inr s'"
  shows "running s' bs Q c" and "proc_st.more s' = proc_st.more s" and "placed (insert n X) s Q \<Longrightarrow> placed (insert n X) s' Q"
proof -
  have "running (upd_pcb n f (s\<lparr>mem := m\<rparr>)) bs Q c" for f m by (rule running_upd_other) (use r in simp_all)
  then show "running s' bs Q c" "proc_st.more s' = proc_st.more s"
    using run by (auto simp: fork_stack_def Let_def split: option.splits)
  have "placed (insert n X) (upd_pcb n f (s\<lparr>mem := m\<rparr>)) Q" if "placed (insert n X) s Q" for f m
    by (rule placed_upd) (use that in simp_all)
  then show "placed (insert n X) s Q \<Longrightarrow> placed (insert n X) s' Q"
    using run by (auto simp: fork_stack_def Let_def split: option.splits)
qed

lemma sys_fork_step:
  assumes up: "up s c" and run: "sys_fork c s = Inr s'"
  shows "sched_step s s'"
proof -
  obtain bs Q where r: "running s bs Q c" and pl: "placed {c} s Q" by (rule upD [OF up])
  note rd = runningD [OF r]
  show ?thesis
  proof (cases "first_ix (\<lambda>i. p_state (ptable s ! i) = STATE_UNUSED) N_PROCS")
    case None
    then have "s' = set_RET c S_ERROR s" using run by (simp add: sys_fork_def pcb_alloc_def)
    then show ?thesis using up_RET [OF up] by (intro sched_step_same [of _ c]) simp_all
  next
    case (Some n)
    then have n: "n < N_PROCS" "p_state (ptable s ! n) = STATE_UNUSED" by (simp_all add: first_ix_Some)
    have nq: "\<not> queued Q n" by (rule state_not_queued [OF rd(1)]) (simp add: n)
    have ne: "n \<noteq> c" using n(2) rd(5) by auto
    obtain e stk s1 where al: "stk_alloc s = Inr (e, stk, s1)"
      using run Some by (auto simp: sys_fork_def pcb_alloc_def kbind_eq_Inr)
    obtain bs' where r1: "running s1 bs' Q c" using stk_alloc_running(1) [OF r al] by blast
    have pl1: "placed (insert n {c}) s1 Q" using placed_insert [OF pl] placed_cong [OF stk_alloc_running(2) [OF r al]] by simp
    note more = stk_alloc_running(3) [OF r al]
    show ?thesis
    proof (cases "e = E_SUCCESS")
      case False
      then have "s' = set_RET c S_ERROR (upd_pcb n (\<lambda>p. p\<lparr>p_state := STATE_UNUSED\<rparr>) s1)"
        using run Some al n by (simp add: sys_fork_def pcb_alloc_def pcb_free_def pcb_deref_def)
      moreover have "placed {c} (upd_pcb n (\<lambda>p. p\<lparr>p_state := STATE_UNUSED\<rparr>) s1) Q"
        by (rule placed_idle [OF pl1 sched_invD(2) [OF runningD(1) [OF r1]]]) simp
      ultimately show ?thesis using up_RET [OF upI [OF running_upd_other [OF r1 nq ne]]] more by (intro sched_step_same [of _ c]) simp_all
    next
      case True
      obtain k s2 where k: "stk = Some k" "fork_stack c n k (fork_pcb c n k s1) = Inr s2"
          "schedule (Some n) (set_RET n 0 (set_RET c (p_pid (ptable s2 ! n)) s2)) = Inr s'"
        using run Some al n True
        by (auto simp: sys_fork_def pcb_alloc_def pcb_deref_def kbind_eq_Inr Let_def split: option.splits)
      note f = fork_pcb_keeps [OF r1 nq ne, where k = k] and g = fork_stack_keeps [OF _ nq ne k(2)]
      let ?t = "set_RET n 0 (set_RET c (p_pid (ptable s2 ! n)) s2)"
      have rt: "running ?t bs' Q c" and pt: "placed (insert n {c}) ?t Q" using g(1) [OF f(1)] g(3) [OF f(1) f(3) [OF pl1]] by simp_all
      obtain Q' where "running s' bs' Q' c" "placed {c} s' Q'" using schedule_other(1) [OF rt nq ne k(3) pt] by blast
      moreover have "proc_st.more s' = proc_st.more s"
        using schedule_other(2) [OF rt nq ne k(3) pt] f(2) g(2) [OF f(1)] more by (simp add: proc_frame_def)
      ultimately show ?thesis by (intro sched_step_same [of _ c] upI)
    qed
  qed
qed

lemma sys_exec_step:
  assumes up: "up s c" and run: "sys_exec c s = Inr s'"
  shows "sched_step s s'"
proof -
  obtain bs Q where r: "running s bs Q c" and pl: "placed {c} s Q" by (rule upD [OF up])
  obtain e stk s1 where al: "stk_alloc s = Inr (e, stk, s1)" using run by (auto simp: sys_exec_def Let_def kbind_eq_Inr)
  obtain bs' where r1: "running s1 bs' Q c" using stk_alloc_running(1) [OF r al] by blast
  have pl1: "placed {c} s1 Q" using pl placed_cong [OF stk_alloc_running(2) [OF r al]] by simp
  note more = stk_alloc_running(3) [OF r al]
  show ?thesis
  proof (cases "e = E_SUCCESS")
    case False
    then have "s' = set_RET c S_ERROR s1" using run al by (simp add: sys_exec_def Let_def)
    then show ?thesis using up_RET [OF upI [OF r1 pl1]] more by (intro sched_step_same [of _ c]) simp_all
  next
    case True
    obtain k ctx s2 where s2: "stk_setup k (ARG c 1 s) (ARG c 2 s) s1 = Inr (ctx, s2)"
        "stk_free (p_stack (ptable s ! c)) (upd_pcb c (\<lambda>p. p\<lparr>p_context := ctx\<rparr>) s2) = Inr s'"
      using run al True by (auto simp: sys_exec_def Let_def kbind_eq_Inr split: option.splits)
    have eq: "s2 = s1\<lparr>mem := mem s2\<rparr>" by (rule stk_setup_frame [OF s2(1)])
    have r2: "running s2 bs' Q c" by (subst eq) (simp add: r1)
    have m2: "proc_st.more s2 = proc_st.more s1" by (subst eq) simp
    have "running (upd_pcb c (\<lambda>p. p\<lparr>p_context := ctx\<rparr>) s2) bs' Q c" by (rule running_upd_self [OF r2]) (use runningD [OF r2] in simp_all)
    then have "running s' bs' Q c" "proc_st.more s' = proc_st.more s2"
      using s2(2) by (auto simp: stk_free_def Let_def kbind_eq_Inr)
    moreover have "placed {c} s2 Q" by (subst eq) (simp add: pl1)
    then have "placed {c} s' Q" using s2(2) placed_upd [of "{c}" s2 Q c] by (auto simp: stk_free_def Let_def kbind_eq_Inr)
    ultimately show ?thesis using more m2 by (intro sched_step_same [of _ c] upI) simp_all
  qed
qed

section \<open>Sleep, input and output\<close>

lemma sys_sleep_step:
  assumes up: "up s c" and run: "sys_sleep c s = Inr s'"
  shows "sched_step s s'"
proof -
  obtain bs Q where r: "running s bs Q c" and pl: "placed {c} s Q" by (rule upD [OF up])
  note rd = runningD [OF r]
  show ?thesis
  proof (cases "ARG c 1 s = 0")
    case True
    let ?k = "unat (p_priority (ptable s ! c))"
    obtain s1 where s1: "schedule (Some c) s = Inr s1" "proc_frame s s1" "sched_inv s1 bs (Q(?k := Q ?k @ [Some c]))"
      "ptable s1 = (ptable s)[c := (ptable s ! c)\<lparr>p_state := STATE_READY\<rparr>]" using schedule_run [OF rd(1,3,4) refl rd(6)] by blast
    have "?k < N_QUEUES" using rd(6) by (simp add: PRIO_LAST_def N_QUEUES_def)
    then have "placed {} s1 (Q(?k := Q ?k @ [Some c]))"
      by (intro placedI [OF pl]) (simp_all add: queued_upd s1(4) del: fun_upd_apply)
    moreover have "dispatch s1 = Inr s'" using run True s1(1) by (simp add: sys_sleep_def Let_def)
    ultimately show ?thesis using dispatch_up [OF s1(3)] s1(2) by (simp add: sched_step_def proc_frame_def)
  next
    case False
    let ?s = "upd_pcb c (\<lambda>p. p\<lparr>p_state := STATE_SLEEPING, p_wakeup := system_time s + ARG c 1 s\<rparr>) s"
    have len: "c < length (ptable s)" using rd(3) sched_invD(2) [OF rd(1)] by simp
    have inv: "sched_inv ?s bs Q" by (rule sched_inv_upd [OF rd(1,4)])
    moreover have "member_ok 3 (ptable ?s ! c)" using len rd(6) by (simp add: member_ok_def PRIO_LAST_def)
    ultimately obtain s1 where s1: "que_insert call_compare (Some 3) (Some c) ?s = Inr (E_SUCCESS, s1)" "que_frame ?s s1"
        "sched_inv s1 bs (Q(3 := sleep_place ?s (Some c) (Q 3)))"
      using sched_sleep [OF _ rd(3,4), of ?s] by blast
    have pt: "ptable s1 = ptable ?s" using s1(2) que_more(1) [of s1 ?s] by (simp add: que_frame_def)
    have "queued (Q(3 := sleep_place ?s (Some c) (Q 3))) j" if "queued Q j" for j
      by (rule queued_replace [OF that]) (auto simp: sleep_place_def)
    moreover have "queued (Q(3 := sleep_place ?s (Some c) (Q 3))) c"
      unfolding queued_def by (intro exI [of _ 3]) (simp add: sleep_place_def N_QUEUES_def)
    ultimately have "placed {} s1 (Q(3 := sleep_place ?s (Some c) (Q 3)))"
      by (intro placedI [OF pl]) (simp_all add: pt del: fun_upd_apply)
    moreover have "dispatch s1 = Inr s'" using run False s1(1) sched_invD(4) [OF rd(1)] by (simp add: sys_sleep_def Let_def)
    ultimately show ?thesis using dispatch_up [OF s1(3)] que_frame_proc [OF s1(2)] by (simp add: sched_step_def proc_frame_def)
  qed
qed

lemma dev_poke [simp]: "dev_erase (poke32 a v s) = dev_erase s" "dev_erase (set_RET c v s) = dev_erase s"
  by (simp_all add: poke32_def set_RET_def set_REG_def)

lemma cio_getchar_io:
  assumes inv: "cio_inv s" and run: "cio_getchar ie s = Inr (ch, s')"
  shows "io_step s s'"
proof -
  obtain s1 c s2 where s1: "key_wait (length (io_in s)) ie s = Inr s1" "key_take s1 = Inr (c, s2)"
      "(if c \<noteq> EOT then cio_putchar (i32_of_char c) s2 else Inr s2) = Inr s'"
    using run by (auto simp: cio_getchar_def kbind_eq_Inr)
  have e: "dev_erase s2 = dev_erase s" using keepsD [OF dev_key_wait s1(1)] keepsD [OF dev_key_take s1(2)] by simp
  then have "cio_inv s2" using inv dev_cio_inv by blast
  from io_step_cur [OF cio_putchar_cur [OF this]] s1(3) have "io_step s2 s'"
    by (cases "c = EOT") (auto simp: io_step_def)
  with io_step_dev [OF e] show ?thesis by (rule io_step_trans)
qed

lemma cio_gets_loop_io:
  "cio_inv s \<Longrightarrow> cio_gets_loop n ie buf k s = Inr (buf', k', s') \<Longrightarrow> io_step s s'"
proof (induction n arbitrary: buf k s)
  case 0
  then show ?case by (simp add: io_step_def)
next
  case (Suc n)
  obtain ch s1 where s1: "cio_getchar ie s = Inr (ch, s1)" using Suc.prems(2) by (auto simp: kbind_eq_Inr)
  have st: "io_step s s1" by (rule cio_getchar_io [OF Suc.prems(1) s1])
  let ?s = "s1\<lparr>mem := (mem s1)(buf := ch)\<rparr>"
  have st': "io_step s ?s" using io_step_trans [OF st io_step_dev [of ?s s1]] by simp
  then have "cio_inv ?s" using Suc.prems(1) by (simp add: io_step_def)
  with Suc.IH [of ?s] Suc.prems(2) s1 st st' show ?case
    by (auto simp: Let_def split: if_splits intro: io_step_trans)
qed

lemma sys_read_kinv:
  assumes inv: "kinv s" and up: "up s c" and run: "sys_read c s = Inr s'"
  shows "kinv s'"
proof -
  have dev: "kinv (set_RET c v t)" if "kinv t" for v t using that dev_kinv [of "set_RET c v t" t] by simp
  consider (ret) v where "s' = set_RET c v s"
    | (gets) n s1 where "cio_gets False (ARG c 2 s) (ARG c 3 s) s = Inr (n, s1)" "s' = set_RET c n s1"
    | (read) n s1 where "sio_read (ARG c 2 s) (sint (ARG c 3 s)) s = Inr (n, s1)" "s' = set_RET c (word_of_int n) s1"
    | (block) n s1 s2 e where "sio_read (ARG c 2 s) (sint (ARG c 3 s)) s = Inr (n, s1)"
        "que_insert call_compare (sioread s1) (Some c) (upd_pcb c (\<lambda>p. p\<lparr>p_state := STATE_BLOCKED\<rparr>) s1) = Inr (e, s2)" "e \<noteq> E_SUCCESS"
    using run by (auto simp: sys_read_def Let_def kbind_eq_Inr split: if_splits)
  then show ?thesis
  proof cases
    case ret
    then show ?thesis using dev inv by simp
  next
    case gets
    obtain b k t where t: "cio_gets_loop (unat (ARG c 3 s) - 1) False (ARG c 2 s) 0 s = Inr (b, k, t)" "s1 = t\<lparr>mem := (mem t)(b := 0)\<rparr>"
      using gets(1) by (auto simp: cio_gets_def kbind_eq_Inr)
    have "cio_inv s" using inv by (simp add: kinv_def)
    from io_step_kinv [OF cio_gets_loop_io [OF this t(1)] inv] have "kinv s1" using dev_kinv [of s1 t] t(2) by simp
    then show ?thesis using gets(2) dev by simp
  next
    case read
    then show ?thesis using dev dev_kinv [OF keepsD [OF dev_sio_read read(1)]] inv by simp
  next
    case block
    have "up s1 c" using dev_up [OF keepsD [OF dev_sio_read block(1)]] up by simp
    then obtain bs Q where r: "running s1 bs Q c" by (rule upD)
    note rd = runningD [OF r]
    let ?s = "upd_pcb c (\<lambda>p. p\<lparr>p_state := STATE_BLOCKED\<rparr>) s1"
    have "sched_inv ?s bs Q" by (rule sched_inv_upd [OF rd(1,4)])
    moreover have "member_ok 6 (ptable ?s ! c)" using rd(3,6) sched_invD(2) [OF rd(1)] by (simp add: member_ok_def PRIO_LAST_def)
    moreover have "6 < N_QUEUES" "(6 :: nat) \<noteq> 3" by (simp_all add: N_QUEUES_def)
    ultimately obtain t where "que_insert call_compare (Some 6) (Some c) ?s = Inr (E_SUCCESS, t)"
      using sched_append [where f = "\<lambda>p. p", OF _ _ _ rd(3,4), of ?s bs 6] by blast
    then show ?thesis using block(2,3) sched_invD(7) [OF rd(1)] by simp
  qed
qed

lemma sys_write_kinv:
  assumes inv: "kinv s" and run: "sys_write c s = Inr s'"
  shows "kinv s'"
proof -
  have dev: "kinv (set_RET c v t)" if "kinv t" for v t using that dev_kinv [of "set_RET c v t" t] by simp
  consider (ret) v where "s' = set_RET c v s"
    | (con) v s1 where "cio_write (ARG c 2 s) (sint (ARG c 3 s)) s = Inr s1" "s' = set_RET c v s1"
    | (ser) v n s1 where "sio_write (mem s) (ARG c 2 s) (sint (ARG c 3 s)) s = Inr (n, s1)" "s' = set_RET c v s1"
    using run by (auto simp: sys_write_def Let_def kbind_eq_Inr split: if_splits)
  then show ?thesis
  proof cases
    case ret
    then show ?thesis using dev inv by simp
  next
    case con
    have "cio_inv s" using inv by (simp add: kinv_def)
    from io_step_kinv [OF io_step_cur [OF cio_write_cur [OF this] con(1)] inv] con(2) dev show ?thesis by simp
  next
    case ser
    then show ?thesis using dev dev_kinv [OF keepsD [OF dev_sio_write ser(1)]] inv by simp
  qed
qed

section \<open>The interrupt handlers\<close>

lemma syscalls_kinv:
  assumes inv: "kinv s" and up: "up s c" and nd: "code = 1 \<Longrightarrow> \<forall>i < N_PROCS. \<not> dead_child c s i" and run: "syscalls code c s = Inr s'"
  shows "kinv s'"
proof -
  have ret: "kinv (set_RET c v s)" for v using inv dev_kinv [of "set_RET c v s" s] by simp
  consider "sys_exit c s = Inr s'" | "sys_wait c s = Inr s'" "code = 1" | "sys_fork c s = Inr s'" | "sys_exec c s = Inr s'"
    | "sys_read c s = Inr s'" | "sys_write c s = Inr s'" | "sys_sleep c s = Inr s'" | v where "s' = set_RET c v s"
    using run by (auto simp: syscalls_def sys_getpid_def sys_gettime_def sys_getprio_def Let_def kbind_eq_Inr split: if_splits)
  then show ?thesis
    by cases (auto intro: sched_step_kinv [OF sys_exit_step [OF up] inv] sched_step_kinv [OF sys_wait_step [OF up nd] inv]
        sched_step_kinv [OF sys_fork_step [OF up] inv] sched_step_kinv [OF sys_exec_step [OF up] inv]
        sys_read_kinv [OF inv up] sys_write_kinv [OF inv] sched_step_kinv [OF sys_sleep_step [OF up] inv] ret)
qed

lemma up_current: "up s c \<Longrightarrow> current s = Some c"
  by (auto simp: up_def running_def)

text \<open>The one call that breaks the scheduler's books: \<^verbatim>\<open>wait()\<close> by a process with a terminated child.\<close>

definition reaps :: "'z proc_st_scheme \<Rightarrow> bool" where
  "reaps s \<longleftrightarrow> (\<exists>c. current s = Some c \<and> REG c ctx_eax s = 1 \<and> (\<exists>i < N_PROCS. dead_child c s i))"

lemma sint_one: "sint (v :: u32) = 1 \<longleftrightarrow> v = 1"
proof
  assume "sint v = 1"
  then have "sint v = sint (1 :: u32)" by simp
  then show "v = 1" by (rule signed_word_eqI)
qed simp

lemma sys_isr_kinv:
  assumes inv: "kinv s" and nr: "\<not> reaps s" and run: "sys_isr s = Inr s'"
  shows "kinv s'"
proof -
  obtain c where up: "up s c" using inv by (auto simp: kinv_def)
  have cur: "current s = Some c" by (rule up_current [OF up])
  have ci: "cio_inv s" using inv by (simp add: kinv_def)
  let ?code = "sint (REG c ctx_eax s)"
  let ?p = "cio_printf (lit ''sys_isr: pid %d bad syscall (%d)'' @ [10]) [Num (p_pid (ptable s ! c)), Num (REG c ctx_eax s)] s"
  consider (bad) t u where "?p = Inr t" "syscalls SYS_exit c (poke32 (ARG_ADDR c 1 t) S_BAD_SYSCALL t) = Inr u" "s' = outb PIC1_CMD PIC_EOI u"
    | (good) u where "syscalls ?code c s = Inr u" "s' = outb PIC1_CMD PIC_EOI u"
    using run cur by (auto simp: sys_isr_def kbind_eq_Inr pcb_deref_def Let_def split: if_splits)
  then show ?thesis
  proof cases
    case bad
    have st: "io_step s (poke32 (ARG_ADDR c 1 t) S_BAD_SYSCALL t)"
      using io_step_trans [OF io_step_cur [OF cio_printf_cur [OF ci bad_code_ok] bad(1)] io_step_dev] by simp
    then have "up (poke32 (ARG_ADDR c 1 t) S_BAD_SYSCALL t) c" using up by (simp add: io_step_def)
    from syscalls_kinv [OF io_step_kinv [OF st inv] this _ bad(2)] have "kinv u" by (simp add: SYS_exit_def)
    then show ?thesis using bad(3) dev_kinv [of s' u] by simp
  next
    case good
    have "\<forall>i < N_PROCS. \<not> dead_child c s i" if "?code = 1"
      using nr cur that sint_one by (auto simp: reaps_def)
    from syscalls_kinv [OF inv up this good(1)] have "kinv u" by simp
    then show ?thesis using good(2) dev_kinv [of s' u] by simp
  qed
qed

lemma clk_queues_dev: "cio_geom s \<Longrightarrow> keeps dev_erase (\<lambda>x. x) s (clk_queues s)"
proof -
  assume g: "cio_geom s"
  have "\<exists>str. cio_puts_at 15 0 str s = Inr s'" if "clk_queues s = Inr s'" for s'
    using that by (auto simp: clk_queues_def kbind_eq_Inr Let_def case_prod_beta split: option.splits)
  then show ?thesis using keepsD [OF dev_puts_at [OF g]] by (fastforce simp: keeps_def)
qed

lemma clk_status_dev: "cio_geom s \<Longrightarrow> keeps dev_erase (\<lambda>x. x) s (clk_status s)"
  unfolding clk_status_def
  by (rule dev_bind [OF _ dev_printf_at]) (auto simp: status_time_ok clk_queues_dev)

lemma clk_display_dev:
  assumes g: "cio_geom s" and run: "clk_display s = Inr s'"
  shows "\<exists>v w. dev_erase s' = dev_erase (s\<lparr>pinwheel := v, pindex := w\<rparr>)"
proof -
  obtain s1 where s1: "clk_pinwheel s = Inr s1" "clk_status s1 = Inr s'" using run by (auto simp: clk_display_def kbind_eq_Inr)
  have gt: "cio_geom (s\<lparr>pinwheel := v, pindex := w\<rparr>)" for v w using g by (simp add: cio_geom_def)
  have "\<exists>v w. dev_erase s1 = dev_erase (s\<lparr>pinwheel := v, pindex := w\<rparr>)"
  proof (cases "pinwheel s + 1 = CLOCK_FREQ div 10")
    case True
    then have "cio_putchar_at 0 0 (i32_of_char ([124, 47, 45, 92] ! unat ((pindex s + 1) AND 3))) (s\<lparr>pinwheel := 0, pindex := pindex s + 1\<rparr>) = Inr s1"
      using s1(1) by (simp add: clk_pinwheel_def Let_def)
    from keepsD [OF dev_putchar_to [OF gt] this] show ?thesis by blast
  next
    case False
    then have "s1 = s\<lparr>pinwheel := pinwheel s + 1\<rparr>" using s1(1) by (simp add: clk_pinwheel_def Let_def)
    moreover have "s\<lparr>pinwheel := pinwheel s + 1, pindex := pindex s\<rparr> = s\<lparr>pinwheel := pinwheel s + 1\<rparr>" by (cases s) simp
    ultimately show ?thesis by metis
  qed
  then obtain v w where e: "dev_erase s1 = dev_erase (s\<lparr>pinwheel := v, pindex := w\<rparr>)" by blast
  have "cio_geom s1" using dev_geom [OF e] gt by simp
  from keepsD [OF clk_status_dev [OF this] s1(2)] e show ?thesis by auto
qed

lemma clk_isr_kinv:
  assumes inv: "kinv s" and run: "clk_isr s = Inr s'"
  shows "kinv s'"
proof -
  obtain c bs Q where r: "running s bs Q c" and pl: "placed {c} s Q" using inv by (auto simp: kinv_def up_def)
  have g: "cio_geom s" "cio_inv s" "notify s = None" using inv by (simp_all add: kinv_def cio_inv_def)
  obtain s1 where s1: "clk_display s = Inr s1" using run by (auto simp: clk_isr_def kbind_eq_Inr)
  obtain v w where e: "dev_erase s1 = dev_erase (s\<lparr>pinwheel := v, pindex := w\<rparr>)" using clk_display_dev [OF g(1) s1] by blast
  let ?s = "s1\<lparr>system_time := system_time s1 + 1\<rparr>"
  have "cio_inv s1" "notify s1 = None"
    using dev_cio_inv [OF e] dev_eraseD(12) [OF e] g by (simp_all add: cio_inv_def cio_geom_def)
  moreover have "running s1 bs Q c" "ptable s1 = ptable s" using clk_display_run(1) [OF g(1) r s1] by simp_all
  moreover have "placed {c} ?s Q" using pl placed_cong [of ?s s] calculation(4) by simp
  ultimately have k1: "kinv ?s" by (auto simp: kinv_def cio_inv_def cio_geom_def up_def)
  obtain Q' c' where "tick s (Q, c) = (Q', c')" by (cases "tick s (Q, c)")
  from clk_isr_run [OF g(1) r s1 this] run
  have "running s' bs Q' c'" "proc_st.more s' = proc_st.more ?s" "placed {c'} s' Q'" using pl by auto
  then show ?thesis using proc_more_kinv [OF _ _ k1, of s' c'] by (auto simp: up_def)
qed

text \<open>A received character that wakes a reader.\<close>

lemma sio_rx_kinv:
  assumes inv: "kinv s" and run: "sio_rx ch s = Inr s'"
  shows "kinv s'"
proof -
  obtain c bs Q where r: "running s bs Q c" and pl: "placed {c} s Q" using inv by (auto simp: kinv_def up_def)
  note rd = runningD [OF r]
  show ?thesis
  proof (cases "Q 6")
    case Nil
    then have "sio_rx_store ch s = Inr s'" using run sioread_length [OF rd(1)] by (simp add: sio_rx_def)
    then show ?thesis using dev_kinv [OF keepsD [OF dev_sio_rx_store]] inv by blast
  next
    case (Cons d ds)
    have i6: "6 < N_QUEUES" by (simp add: N_QUEUES_def)
    obtain s1 j where rem: "que_remove (Some 6) (Some None) s = Inr (E_SUCCESS, Some d, s1)" "que_frame s s1"
        "sched_inv s1 bs (Q(6 := ds))" and j: "d = Some j" "j < N_PROCS" "Some j \<notin> set ds"
      using que_remove_sched [OF rd(1) i6 Cons, of None] by blast
    have same: "ptable s1 = ptable s" "current s1 = current s" "proc_st.more s1 = proc_st.more s"
      using rem(2) que_more [of s1 s] by (simp_all add: que_frame_def)
    have sub: "queued Q i" if "queued (Q(6 := ds)) i" for i using that Cons by (auto simp: queued_def split: if_splits)
    have r1: "running s1 bs (Q(6 := ds)) c" using rem(3) rd same sub by (auto simp: running_def)
    have nj: "\<not> queued (Q(6 := ds)) j" by (rule sched_removed [OF rd(1) i6]) (use Cons j in simp_all)
    have "queued Q j" using Cons j i6 by (auto simp: queued_def)
    then have ne: "j \<noteq> c" using rd(4) by auto
    have "queued (Q(6 := ds)) i" if "queued Q i" "i \<noteq> j" for i
      by (rule queued_replace [OF that(1)]) (use that(2) Cons j(1) in simp)
    then have pl1: "placed (insert j {c}) s1 (Q(6 := ds))" by (intro placedI [OF pl]) (auto simp: same(1) simp del: fun_upd_apply)
    obtain t where t: "schedule (Some j) t = Inr s'" "running t bs (Q(6 := ds)) c" "proc_st.more t = proc_st.more s1" "ptable t = ptable s1"
      using run sioread_length [OF rd(1)] sched_invD(7) [OF rd(1)] Cons rem(1) j r1
      by (auto simp: sio_rx_def pcb_deref_def Let_def split: if_splits)
    have "placed (insert j {c}) t (Q(6 := ds))" using pl1 placed_cong [OF t(4)] by blast
    from schedule_other [OF t(2) nj ne t(1) this] obtain Q' where "running s' bs Q' c" "placed {c} s' Q'" "proc_st.more s' = proc_st.more t"
      by (auto simp: proc_frame_def)
    then show ?thesis using proc_more_kinv [OF _ _ inv, of s' c] t(3) same(3) by (auto simp: up_def)
  qed
qed

text \<open>The reports of the serial handler.\<close>

lemma sio_report_lits:
  "lit ''** SIO int, LSR = %02x'' @ [10] =
    [42, 42, 32, 83, 73, 79, 32, 105, 110, 116, 44, 32, 76, 83, 82, 32, 61, 32, 37, 48, 50, 120, 10]"
  "lit ''** SIO int, MSR = %02x'' @ [10] =
    [42, 42, 32, 83, 73, 79, 32, 105, 110, 116, 44, 32, 77, 83, 82, 32, 61, 32, 37, 48, 50, 120, 10]"
  "lit ''** SIO FIFO timeout, RXD = %02x'' @ [10] =
    [42, 42, 32, 83, 73, 79, 32, 70, 73, 70, 79, 32, 116, 105, 109, 101, 111, 117, 116, 44, 32, 82, 88, 68, 32, 61, 32, 37, 48, 50, 120, 10]"
  by code_simp+

lemma sio_report_ok:
  "fmt_ok ((lit ''** SIO int, LSR = %02x'' @ [10]) @ [0]) [Num v]" "fmt_ok ((lit ''** SIO int, MSR = %02x'' @ [10]) @ [0]) [Num v]"
  "fmt_ok ((lit ''** SIO FIFO timeout, RXD = %02x'' @ [10]) @ [0]) [Num v]"
  unfolding sio_report_lits using parg_num_ok [of 120 v] by (simp_all add: fmt_ok.simps fmt_spec_def is_conv_def)

lemma printf_kinv: "kinv s \<Longrightarrow> fmt_ok (fmt @ [0]) ap \<Longrightarrow> cio_printf fmt ap s = Inr s' \<Longrightarrow> kinv s'"
  using io_step_kinv [OF io_step_cur [OF cio_printf_cur]] unfolding kinv_def by blast

lemma inb_kinv: "kinv s \<Longrightarrow> inb p s = Inr (v, s') \<Longrightarrow> kinv s'"
  using dev_kinv [OF keepsD [OF dev_inb]] by fastforce

lemma sio_event_kinv:
  assumes inv: "kinv s" and run: "sio_event iir s = Inr s'"
  shows "kinv s'"
proof -
  consider (tx) "sio_tx s = Inr s'" | (rx) v ch t where "inb UA4_RXD s = Inr (v, t)" "sio_rx ch t = Inr s'"
    | (rep) p v w t fmt where "inb p s = Inr (v, t)" "cio_printf fmt [Num w] t = Inr s'" "fmt_ok (fmt @ [0]) [Num w]"
    using run sio_report_ok by (auto simp: sio_event_def kbind_eq_Inr split: if_splits)
  then show ?thesis
    by cases (use inv dev_kinv [OF keepsD [OF dev_sio_tx]] in \<open>blast intro: inb_kinv sio_rx_kinv printf_kinv\<close>)+
qed

lemma sio_events_kinv: "kinv s \<Longrightarrow> sio_events n s = Inr s' \<Longrightarrow> kinv s'"
proof (induction n arbitrary: s)
  case (Suc n)
  obtain v t where t: "inb UA4_IIR s = Inr (v, t)" using Suc.prems(2) by (auto simp: kbind_eq_Inr)
  have kt: "kinv t" by (rule inb_kinv [OF Suc.prems(1) t])
  show ?case
  proof (cases "v AND 0x0f = UA4_IIR_NO_INT")
    case True
    then show ?thesis using Suc.prems(2) t kt dev_kinv [of "outb PIC1_CMD PIC_EOI t" t] by auto
  next
    case False
    then obtain u where "sio_event (v AND 0x0f) t = Inr u" "sio_events n u = Inr s'"
      using Suc.prems(2) t by (auto simp: kbind_eq_Inr)
    then show ?thesis using Suc.IH sio_event_kinv [OF kt] by blast
  qed
qed simp

lemma sio_isr_kinv: "kinv s \<Longrightarrow> sio_isr s = Inr s' \<Longrightarrow> kinv s'"
  unfolding sio_isr_def by (rule sio_events_kinv)

section \<open>Reachable states\<close>

text \<open>The steps of the machine. Between interrupts the running program may change any byte of memory, and the devices may have any
  input ready; an interrupt runs its handler to the end, because interrupts are off in the kernel. The handlers are those
  that \<^verbatim>\<open>main()\<close> installs. A handler that panics ends the run.\<close>

inductive kernel_step :: "'z clk_st_scheme \<Rightarrow> 'z clk_st_scheme \<Rightarrow> bool" where
  user: "kernel_step s (s\<lparr>mem := m\<rparr>)"
| input: "kernel_step s (s\<lparr>io_in := xs\<rparr>)"
| clock: "clk_isr s = Inr s' \<Longrightarrow> kernel_step s s'"
| serial: "sio_isr s = Inr s' \<Longrightarrow> kernel_step s s'"
| keyboard: "keyboard_isr call_notify s = Inr s' \<Longrightarrow> kernel_step s s'"
| syscall: "sys_isr s = Inr s' \<Longrightarrow> \<not> reaps s \<Longrightarrow> kernel_step s s'"

inductive_cases kernel_stepE: "kernel_step s s'"

inductive reachable :: "'z clk_st_scheme \<Rightarrow> 'z clk_st_scheme \<Rightarrow> bool" for s0 where
  start: "reachable s0 s0"
| step: "reachable s0 s \<Longrightarrow> kernel_step s s' \<Longrightarrow> reachable s0 s'"

lemma kernel_step_kinv:
  assumes "kernel_step s s'" and inv: "kinv s"
  shows "kinv s'"
  using assms(1)
proof cases
  case (user m)
  then show ?thesis using inv dev_kinv [of s' s] by simp
next
  case (input xs)
  then show ?thesis using inv dev_kinv [of s' s] by simp
next
  case (keyboard call_notify)
  have "notify s = None" using inv by (simp add: kinv_def)
  from dev_kinv [OF keepsD [OF keyboard_isr_dev [OF this] keyboard]] inv show ?thesis by simp
qed (use inv clk_isr_kinv sio_isr_kinv sys_isr_kinv in blast)+

lemma reachable_kinv: "reachable s0 s \<Longrightarrow> kinv s0 \<Longrightarrow> kinv s"
  by (induction rule: reachable.induct) (auto intro: kernel_step_kinv)

text \<open>Where every process is: one process runs and is the current one, every ready process is in the ready queue of its priority,
  every sleeping, terminated or blocked process in its queue, and a free or a waiting one in none; the cursor is on the screen.\<close>

definition in_order :: "'z cio_st_scheme \<Rightarrow> bool" where
  "in_order s \<longleftrightarrow> (\<exists>bs Q c. running s bs Q c \<and> cio_inv s \<and> (\<forall>j < N_PROCS. case p_state (ptable s ! j) of
        STATE_UNUSED \<Rightarrow> \<not> queued Q j | STATE_WAITING \<Rightarrow> \<not> queued Q j | STATE_NEW \<Rightarrow> False | STATE_RUNNING \<Rightarrow> j = c
      | STATE_READY \<Rightarrow> Some j \<in> set (Q (unat (p_priority (ptable s ! j)))) | STATE_SLEEPING \<Rightarrow> Some j \<in> set (Q 3)
      | STATE_ZOMBIE \<Rightarrow> Some j \<in> set (Q 4) | STATE_BLOCKED \<Rightarrow> Some j \<in> set (Q 5) \<union> set (Q 6) \<union> set (Q 7)))"

text \<open>What the invariant says of one process, by its state.\<close>

lemma kinv_entry:
  assumes "kinv s"
  obtains bs Q c where "running s bs Q c" and "cio_inv s"
    and "\<And>j. j < N_PROCS \<Longrightarrow> (case p_state (ptable s ! j) of
        STATE_UNUSED \<Rightarrow> \<not> queued Q j | STATE_WAITING \<Rightarrow> \<not> queued Q j | STATE_NEW \<Rightarrow> False | STATE_RUNNING \<Rightarrow> j = c
      | STATE_READY \<Rightarrow> Some j \<in> set (Q (unat (p_priority (ptable s ! j)))) | STATE_SLEEPING \<Rightarrow> Some j \<in> set (Q 3)
      | STATE_ZOMBIE \<Rightarrow> Some j \<in> set (Q 4) | STATE_BLOCKED \<Rightarrow> Some j \<in> set (Q 5) \<union> set (Q 6) \<union> set (Q 7))"
proof -
  obtain bs Q c where r: "running s bs Q c" and pl: "placed {c} s Q" using assms by (auto simp: kinv_def up_def)
  note rd = runningD [OF r]
  have "case p_state (ptable s ! j) of
        STATE_UNUSED \<Rightarrow> \<not> queued Q j | STATE_WAITING \<Rightarrow> \<not> queued Q j | STATE_NEW \<Rightarrow> False | STATE_RUNNING \<Rightarrow> j = c
      | STATE_READY \<Rightarrow> Some j \<in> set (Q (unat (p_priority (ptable s ! j)))) | STATE_SLEEPING \<Rightarrow> Some j \<in> set (Q 3)
      | STATE_ZOMBIE \<Rightarrow> Some j \<in> set (Q 4) | STATE_BLOCKED \<Rightarrow> Some j \<in> set (Q 5) \<union> set (Q 6) \<union> set (Q 7)"
    if j: "j < N_PROCS" for j
  proof (cases "queued Q j")
    case False
    then have "j = c \<or> p_state (ptable s ! j) \<in> {STATE_UNUSED, STATE_WAITING}" using pl j by (auto simp: placed_def)
    then show ?thesis using False rd(5) by auto
  next
    case True
    then obtain k where k: "k < N_QUEUES" "Some j \<in> set (Q k)" by (auto simp: queued_def)
    then have m: "member_ok k (ptable s ! j)" using sched_members [OF rd(1)] by blast
    have "k \<in> {0, 1, 2, 3, 4, 5, 6, 7}" using k(1) by (auto simp: N_QUEUES_def)
    then show ?thesis using k(2) m by (auto simp: member_ok_def PRIO_LAST_def split: state_e.split if_splits)
  qed
  with r assms show thesis by (intro that [of bs Q c]) (simp_all add: kinv_def)
qed

lemma kinv_in_order: "kinv s \<Longrightarrow> in_order s"
  unfolding in_order_def by (erule kinv_entry) metis


text \<open>The state after a tick, reached from one in which the initial process is alone.\<close>

definition lone_table :: "pcb_t list" where
  "lone_table = zero_pcb\<lparr>p_state := STATE_RUNNING, p_quantum := 3\<rparr> # replicate 24 zero_pcb"

lemma lone_kinv:
  obtains s0 :: clk_st where "kinv s0" and "ptable s0 = lone_table" and "dup_to_sio s0 = 0"
proof -
  have "length lone_table = N_PROCS" "p_state (lone_table ! 0) = STATE_RUNNING" "unat (p_priority (lone_table ! 0)) \<le> PRIO_LAST"
    by (simp_all add: lone_table_def N_PROCS_def zero_pcb_def)
  then obtain s :: clk_st where s: "running s [(0x101000, 3)] (\<lambda>_. []) 0" "ptable s = lone_table" "cio_inv s" "dup_to_sio s = 0" "notify s = None"
    using boot_running [of lone_table] by metis
  have "p_state (lone_table ! j) = STATE_UNUSED" if "j < N_PROCS" "j \<noteq> 0" for j
    using that by (cases j) (simp_all add: lone_table_def N_PROCS_def zero_pcb_def)
  then have "placed {0} s (\<lambda>_. [])" by (simp add: placed_def s(2))
  then show thesis using s by (intro that [of s]) (auto simp: kinv_def up_def)
qed


end
