(* ===== verification/Sprint_Text.thy ===== *)
theory Sprint_Text
  imports Lib_Sprint
begin

text \<open>
  A reference definition of formatted output: the text that a format and its arguments stand for. The
  theorem of this theory is that \<^verbatim>\<open>sprint()\<close>, which works on memory, writes that text and a NUL. The user
  programs, whose messages are composed with \<^verbatim>\<open>sprint()\<close>, are modelled over the text.
\<close>

section \<open>The text of a format\<close>

text \<open>The text of one converted argument. Octal conversion is left out: what it prints is the subject of
  \<open>cvtoct_prints_double\<close>.\<close>

fun conv_text :: "u8 \<Rightarrow> parg \<Rightarrow> u8 list option" where
  "conv_text ch (Num v) =
     (if ch = 99 then Some [ucast v] else if ch = 100 then Some (dec_text (sint v))
      else if ch = 120 then Some (numeral_text 16 (unat v)) else if ch = 117 then Some (numeral_text 10 (unat v))
      else None)"
| "conv_text ch (Str s) = (if ch = 115 then Some s else None)"

definition pad_text :: "u32 \<Rightarrow> bool \<Rightarrow> u8 \<Rightarrow> u8 list \<Rightarrow> u8 list" where
  "pad_text width leftadjust padchar t =
     (let fill = replicate (nat (sint width - int (length t))) padchar in if leftadjust then t @ fill else fill @ t)"

function sprint_text :: "u8 list \<Rightarrow> parg list \<Rightarrow> u8 list option" where
  "sprint_text fmt ap =
     (case fmt of [] \<Rightarrow> None
      | ch # fmt \<Rightarrow>
        if ch = 0 then Some []
        else if ch = 37 then
          case fmt_spec fmt of None \<Rightarrow> None
          | Some (leftadjust, padchar, width, ch, fmt) \<Rightarrow>
            if is_conv ch then
              case ap of [] \<Rightarrow> None
              | v # ap \<Rightarrow> Option.bind (conv_text ch v) (\<lambda>t. map_option ((@) (pad_text width leftadjust padchar t)) (sprint_text fmt ap))
            else sprint_text fmt ap
        else map_option ((#) ch) (sprint_text fmt ap))"
  by pat_completeness auto
termination
  by (relation "measure (\<lambda>(fmt, ap). length fmt)") (auto dest: fmt_spec_length)

declare sprint_text.simps [simp del]

section \<open>How long a text can be\<close>

text \<open>The kind of an argument is \<open>None\<close> for a longword and a bound of its length for a string. The size of a
  format is a bound for the length of the text; whether a format suits its arguments and a buffer can so
  be computed.\<close>

fun has_kind :: "parg \<Rightarrow> nat option \<Rightarrow> bool" where
  "has_kind (Num v) k = (k = None)"
| "has_kind (Str s) k = (case k of None \<Rightarrow> False | Some n \<Rightarrow> length s \<le> n)"

fun conv_size :: "u8 \<Rightarrow> nat option \<Rightarrow> nat option" where
  "conv_size ch None = (if ch \<in> {99, 100, 120, 117} then Some 11 else None)"
| "conv_size ch (Some n) = (if ch = 115 then Some n else None)"

function fmt_size :: "u8 list \<Rightarrow> nat option list \<Rightarrow> nat option" where
  "fmt_size fmt ks =
     (case fmt of [] \<Rightarrow> None
      | ch # fmt \<Rightarrow>
        if ch = 0 then Some 0
        else if ch = 37 then
          case fmt_spec fmt of None \<Rightarrow> None
          | Some (leftadjust, padchar, width, ch, fmt) \<Rightarrow>
            if is_conv ch then
              case ks of [] \<Rightarrow> None
              | k # ks \<Rightarrow> Option.bind (conv_size ch k) (\<lambda>n. map_option ((+) (max n (nat (sint width)))) (fmt_size fmt ks))
            else fmt_size fmt ks
        else map_option Suc (fmt_size fmt ks))"
  by pat_completeness auto
termination
  by (relation "measure (\<lambda>(fmt, ks). length fmt)") (auto dest: fmt_spec_length)

declare fmt_size.simps [simp del]

section \<open>Padding\<close>

definition bytes_at :: "memory \<Rightarrow> u32 \<Rightarrow> u8 list \<Rightarrow> bool" where
  "bytes_at m a xs \<longleftrightarrow> (\<forall>i < length xs. m (a + of_nat i) = xs ! i)"

lemma bytes_at_Cons: "bytes_at m a (x # xs) \<longleftrightarrow> m a = x \<and> bytes_at m (a + 1) xs"
  by (simp add: bytes_at_def All_less_Suc2 add.assoc add.commute [of 1])

lemma str_bytes_at: "str_at m a xs \<Longrightarrow> bytes_at m a xs"
  by (induction xs arbitrary: a) (simp_all add: bytes_at_Cons, simp add: bytes_at_def)

lemma bytes_at_frame: "(\<And>x. x \<in> cells a (length xs) \<Longrightarrow> m' x = m x) \<Longrightarrow> bytes_at m' a xs = bytes_at m a xs"
  by (auto simp: bytes_at_def cells_def)

lemma bytes_at_put: "length xs \<le> 2 ^ 32 \<Longrightarrow> bytes_at (put_bytes a xs m) a xs"
  by (simp add: bytes_at_def put_bytes_at)

lemma pad_loop_put: "pad_loop n dst c m = (dst + of_nat n, put_bytes dst (replicate n c) m)"
  by (induction n arbitrary: dst m) (simp_all add: algebra_simps)

lemma padstr_copy_put:
  assumes "bytes_at m p xs" and "cells dst (length xs) \<inter> cells p (length xs) = {}"
  shows "padstr_copy (length xs) dst p m = (dst + of_nat (length xs), put_bytes dst xs m)"
  using assms
proof (induction xs arbitrary: dst p m)
  case (Cons x xs)
  have "bytes_at (m(dst := x)) (p + 1) xs"
    using Cons.prems by (subst bytes_at_frame [of _ _ _ m]) (auto simp: bytes_at_Cons cells_Suc)
  moreover have "cells (dst + 1) (length xs) \<inter> cells (p + 1) (length xs) = {}"
    using Cons.prems(2) by (auto simp: cells_Suc)
  ultimately show ?case using Cons.IH [of "m(dst := x)" "p + 1" "dst + 1"] Cons.prems(1)
    by (simp add: bytes_at_Cons algebra_simps del: fun_upd_apply)
qed simp

lemma pad_text_length: "length t \<le> length (pad_text w l p t)"
  by (simp add: pad_text_def Let_def)

lemma sint_of_nat_u32: "n < 2 ^ 31 \<Longrightarrow> sint (of_nat n :: u32) = int n"
  by (simp add: sint_uint uint_nat unat_of_nat_small signed_take_bit_int_eq_self)

lemma padstr_put:
  assumes "bytes_at m str t" and "cells dst (length (pad_text w l p t)) \<inter> cells str (length t) = {}"
    and "len = int (length t) \<or> len < 0 \<and> str_at m str t \<and> length t < 2 ^ 31"
  shows "padstr dst str len (sint w) l (int (unat p)) m =
    Some (dst + of_nat (length (pad_text w l p t)), put_bytes dst (pad_text w l p t) m)"
proof -
  define k where "k = nat (sint w - int (length t))"
  have len: "(if len < 0 then map_option sint (strlen str m) else Some len) = Some (int (length t))"
    using assms(3) by (auto simp: strlen_str sint_of_nat_u32)
  have pad: "pad d (sint w - int (length t)) (uint p) m' = (d + of_nat k, put_bytes d (replicate k p) m')" for d m'
    by (simp add: pad_def pad_loop_put k_def del: of_nat_nat)
  have k0: "k = 0" if "\<not> 0 < sint w - int (length t)" using that by (simp add: k_def)
  show ?thesis
  proof (cases "l \<or> k = 0")
    case True
    then have "cells dst (length t) \<inter> cells str (length t) = {}"
      using assms(2) pad_text_length [of t w l p] cells_mono [of "length t" _ dst] by blast
    then have "padstr_copy (length t) dst str m = (dst + of_nat (length t), put_bytes dst t m)"
      using padstr_copy_put [OF assms(1)] by blast
    then show ?thesis unfolding padstr_def len Let_def
      using True k0 pad by (auto simp: pad_text_def put_bytes_append Let_def simp flip: k_def)
  next
    case False
    then have pt: "pad_text w l p t = replicate k p @ t" by (simp add: pad_text_def k_def)
    have dis: "cells dst k \<inter> cells str (length t) = {}" "cells (dst + of_nat k) (length t) \<inter> cells str (length t) = {}"
      using assms(2) pt cells_split [of dst k "length t"] by auto
    have "bytes_at (put_bytes dst (replicate k p) m) str t"
      using assms(1) dis(1) bytes_at_frame [of str t "put_bytes dst (replicate k p) m" m] put_bytes_other [of _ dst "replicate k p" m]
      by auto
    then have "padstr_copy (length t) (dst + of_nat k) str (put_bytes dst (replicate k p) m) =
        (dst + of_nat k + of_nat (length t), put_bytes dst (pad_text w l p t) m)"
      using padstr_copy_put dis(2) by (simp add: pt put_bytes_append)
    then show ?thesis unfolding padstr_def len Let_def pt
      using False pad k0 by (auto simp: add.assoc simp flip: k_def)
  qed
qed

section \<open>Conversions\<close>

text \<open>The local array of \<^verbatim>\<open>sprint()\<close> has room for every number.\<close>

lemma numeral_text_u32: "2 \<le> b \<Longrightarrow> 2 ^ 32 \<le> b ^ n \<Longrightarrow> length (numeral_text b (unat (v :: u32))) \<le> n"
proof -
  assume b: "2 \<le> b" "2 ^ 32 \<le> b ^ n"
  have "unat v < 2 ^ 32" using unsigned_less [of v, where ?'a = nat] by simp
  then have "unat v < b ^ n" using b(2) by linarith
  moreover have "0 < n" using b(2) by (cases n) simp_all
  ultimately show ?thesis using numeral_text_length b(1) by blast
qed

lemma dec_text_length: "length (dec_text (sint (v :: u32))) \<le> 11"
proof -
  have "nat (- sint v) < 10 ^ 10" "nat (sint v) < 10 ^ 10" using sint_range [of v] by auto
  then have "length (numeral_text 10 (nat (- sint v))) \<le> 10" "length (numeral_text 10 (nat (sint v))) \<le> 10"
    using numeral_text_length [of 10 _ 10] by simp_all
  then show ?thesis by (simp add: dec_text_def)
qed

text \<open>A conversion leaves its text and a NUL in the array.\<close>

lemma conv_put:
  assumes "conv_text ch (Num v) = Some t"
  shows "fmt_conv ch buf v m = Some (buf, int (length t), put_bytes buf (t @ [0]) m)" and "length t \<le> 11"
proof -
  consider "ch = 99" "t = [ucast v]" | "ch = 100" "t = dec_text (sint v)" | "ch = 120" "t = numeral_text 16 (unat v)"
    | "ch = 117" "t = numeral_text 10 (unat v)"
    using assms by (auto split: if_splits)
  then have "fmt_conv ch buf v m = Some (buf, int (length t), put_bytes buf (t @ [0]) m) \<and> length t \<le> 11"
    using dec_text_length [of v] numeral_text_u32 [of 16 8 v] numeral_text_u32 [of 10 10 v]
    by cases (simp_all add: fmt_conv_def cvtdec_text cvthex_text cvtuns_text sint_of_nat_u32 Let_def)
  then show "fmt_conv ch buf v m = Some (buf, int (length t), put_bytes buf (t @ [0]) m)" and "length t \<le> 11" by simp_all
qed

lemma conv_number:
  assumes "conv_text ch (Num v) = Some t"
  shows "\<exists>m'. fmt_conv ch buf v m = Some (buf, int (length t), m') \<and> bytes_at m' buf t \<and>
    (\<forall>x. x \<notin> cells buf 12 \<longrightarrow> m' x = m x)"
proof -
  note put = conv_put [OF assms]
  have "bytes_at (put_bytes buf (t @ [0]) m) buf t"
    using bytes_at_put [of "t @ [0]" buf m] put(2) by (auto simp: bytes_at_def nth_append)
  moreover have "put_bytes buf (t @ [0]) m x = m x" if "x \<notin> cells buf 12" for x
    by (rule put_bytes_other) (use that put(2) cells_mono [of "length (t @ [0])" 12 buf] in auto)
  ultimately show ?thesis using put(1) [of buf m] by blast
qed

lemma conv_text_size: "conv_size ch k = Some n \<Longrightarrow> has_kind a k \<Longrightarrow> \<exists>t. conv_text ch a = Some t \<and> length t \<le> n"
proof (cases a)
  case (Num v)
  assume "conv_size ch k = Some n" "has_kind a k"
  then show ?thesis using Num dec_text_length [of v] numeral_text_u32 [of 16 8 v] numeral_text_u32 [of 10 10 v]
    by (auto split: if_splits)
qed (auto split: if_splits option.splits)

lemma pad_text_size: "length (pad_text w l p t) = max (length t) (nat (sint w))"
  by (auto simp: pad_text_def Let_def)

lemma sprint_text_size:
  "fmt_size fmt ks = Some n \<Longrightarrow> list_all2 has_kind ap ks \<Longrightarrow> \<exists>t. sprint_text fmt ap = Some t \<and> length t \<le> n"
proof (induction "length fmt" arbitrary: fmt ap ks n rule: less_induct)
  case less
  note size = less.prems(1) [unfolded fmt_size.simps [of fmt]]
  obtain ch cs where fmt: "fmt = ch # cs" using size by (cases fmt) simp_all
  consider "ch = 0" | "ch = 37" | "ch \<noteq> 0" "ch \<noteq> 37" by blast
  then show ?case
  proof cases
    case 1
    then show ?thesis using size fmt by (simp add: sprint_text.simps)
  next
    case 2
    then obtain l p w c rest where spec: "fmt_spec cs = Some (l, p, w, c, rest)"
      using size fmt by (auto split: option.splits)
    have short: "length rest < length fmt" using fmt_spec_length [OF spec] fmt by simp
    show ?thesis
    proof (cases "is_conv c")
      case False
      then show ?thesis using less.hyps [OF short _ less.prems(2), of n] size fmt spec 2 by (subst sprint_text.simps) simp
    next
      case True
      then obtain k ks' i j where k: "ks = k # ks'" "conv_size c k = Some i" "fmt_size rest ks' = Some j"
        "n = max i (nat (sint w)) + j"
        using size fmt spec 2 by (cases ks) (auto split: bind_splits)
      obtain a as where a: "ap = a # as" "has_kind a k" "list_all2 has_kind as ks'"
        using less.prems(2) k(1) by (auto simp: list_all2_Cons2)
      obtain t where t: "conv_text c a = Some t" "length t \<le> i" using conv_text_size [OF k(2) a(2)] by blast
      obtain u where u: "sprint_text rest as = Some u" "length u \<le> j" using less.hyps [OF short k(3) a(3)] by blast
      show ?thesis using a(1) k(4) t u fmt spec True 2
        by (subst sprint_text.simps) (auto simp: pad_text_size)
    qed
  next
    case 3
    then obtain j where j: "fmt_size cs ks = Some j" "n = Suc j" using size fmt by auto
    have "length cs < length fmt" using fmt by simp
    from less.hyps [OF this j(1) less.prems(2)] j(2) 3 fmt show ?thesis by (subst sprint_text.simps) auto
  qed
qed

lemma put_bytes_agree: "\<forall>x. x \<notin> B \<longrightarrow> m x = m' x \<Longrightarrow> x \<notin> B \<Longrightarrow> put_bytes a xs m x = put_bytes a xs m' x"
proof (induction xs arbitrary: a m m')
  case (Cons y ys)
  have "\<forall>x. x \<notin> B \<longrightarrow> (m(a := y)) x = (m'(a := y)) x" using Cons.prems(1) by simp
  from Cons.IH [OF this Cons.prems(2)] show ?case by (simp del: fun_upd_apply)
qed simp

text \<open>What an argument is for the caller: a longword is passed as it is, a string by its address; it must not
  lie where the function writes.\<close>

fun denotes :: "memory \<Rightarrow> u32 set \<Rightarrow> parg \<Rightarrow> u32 \<Rightarrow> bool" where
  "denotes m A (Num x) v \<longleftrightarrow> v = x"
| "denotes m A (Str s) v \<longleftrightarrow> str_at m v s \<and> length s < 2 ^ 31 \<and> cells v (Suc (length s)) \<inter> A = {}"

lemma denotes_frame: "list_all2 (denotes m A) args ap \<Longrightarrow> (\<And>x. x \<notin> A \<Longrightarrow> m' x = m x) \<Longrightarrow> list_all2 (denotes m' A) args ap"
proof (erule list_all2_mono)
  fix a v assume f: "\<And>x. x \<notin> A \<Longrightarrow> m' x = m x" and d: "denotes m A a v"
  show "denotes m' A a v"
  proof (cases a)
    case (Str s)
    then have "str_at m' v s = str_at m v s" using d by (intro str_at_frame f) auto
    then show ?thesis using Str d by simp
  qed (use d in simp)
qed

text \<open>One conversion: the pad_text text is written.\<close>

lemma convert:
  assumes "conv_text ch a = Some t" and "denotes m (cells buf 12 \<union> D) a v" and "cells dst (length (pad_text w l p t)) \<subseteq> D"
    and "cells buf 12 \<inter> D = {}"
  shows "\<exists>str len m1 m2. fmt_conv ch buf v m = Some (str, len, m1) \<and>
    padstr dst str len (sint w) l (int (unat p)) m1 = Some (dst + of_nat (length (pad_text w l p t)), m2) \<and>
    (\<forall>x. x \<notin> cells buf 12 \<longrightarrow> m2 x = put_bytes dst (pad_text w l p t) m x)"
proof (cases a)
  case (Num x)
  then obtain m1 where m1: "fmt_conv ch buf v m = Some (buf, int (length t), m1)" "bytes_at m1 buf t"
    "\<And>x. x \<notin> cells buf 12 \<Longrightarrow> m1 x = m x"
    using conv_number [of ch x t buf m] assms(1,2) by auto
  have "length t \<le> 12"
    using assms(1) Num dec_text_length [of x] numeral_text_u32 [of 16 8 x] numeral_text_u32 [of 10 10 x]
    by (auto split: if_splits)
  then have "cells dst (length (pad_text w l p t)) \<inter> cells buf (length t) = {}"
    using assms(3,4) cells_mono [of "length t" 12 buf] by blast
  from padstr_put [OF m1(2) this] m1 put_bytes_agree [of "cells buf 12" m1 m] show ?thesis by auto
next
  case (Str s)
  then have s: "ch = 115" "t = s" "str_at m v t" "length t < 2 ^ 31" "cells v (Suc (length t)) \<inter> (cells buf 12 \<union> D) = {}"
    using assms(1,2) by (auto split: if_splits)
  have "cells dst (length (pad_text w l p t)) \<inter> cells v (length t) = {}"
    using assms(3) s(5) cells_mono [of "length t" "Suc (length t)" v] by auto
  from padstr_put [OF str_bytes_at [OF s(3)] this, of "-1"] s show ?thesis by (auto simp: fmt_conv_def)
qed

section \<open>The refinement\<close>

lemma sprint_loop_text:
  assumes "sprint_text fmt args = Some out" and "list_all2 (denotes m (cells buf 12 \<union> D)) args ap"
    and "cells dst (length out) \<subseteq> D" and "cells buf 12 \<inter> D = {}"
  shows "\<exists>m'. sprint_loop buf fmt ap dst m = Inr (dst + of_nat (length out), m') \<and>
    (\<forall>x. x \<notin> cells buf 12 \<longrightarrow> m' x = put_bytes dst out m x)"
  using assms
proof (induction fmt args arbitrary: out ap dst m rule: sprint_text.induct)
  case (1 fmt0 args)
  note out = \<open>sprint_text fmt0 args = Some out\<close>
  obtain ch fmt where fmt0: "fmt0 = ch # fmt" using out by (cases fmt0) (simp_all add: sprint_text.simps)
  consider "ch = 0" | "ch = 37" | "ch \<noteq> 0" "ch \<noteq> 37" by blast
  then show ?case
  proof cases
    case 1
    then show ?thesis using out fmt0 by (auto simp: sprint_text.simps sprint_loop.simps)
  next
    case 2
    then obtain l p w c fmt' where spec: "fmt_spec fmt = Some (l, p, w, c, fmt')"
      using out fmt0 by (subst (asm) sprint_text.simps) (auto split: option.splits)
    show ?thesis
    proof (cases "is_conv c")
      case False
      then have "sprint_text fmt' args = Some out"
        using out fmt0 spec 2 by (subst (asm) sprint_text.simps) simp
      from "1.IH"(2) [OF fmt0 _ 2 spec refl refl refl refl False this "1.prems"(2-4)] 2
      show ?thesis using fmt0 spec False by (subst sprint_loop.simps) simp
    next
      case True
      then obtain a as t rest where a: "args = a # as" "conv_text c a = Some t" "sprint_text fmt' as = Some rest"
        "out = pad_text w l p t @ rest"
        using out fmt0 spec 2 by (subst (asm) sprint_text.simps) (auto split: list.splits bind_splits)
      obtain v vs where ap: "ap = v # vs" "denotes m (cells buf 12 \<union> D) a v" "list_all2 (denotes m (cells buf 12 \<union> D)) as vs"
        using "1.prems"(2) a(1) by (auto simp: list_all2_Cons1)
      let ?n = "length (pad_text w l p t)"
      have sub: "cells dst ?n \<subseteq> D" "cells (dst + of_nat ?n) (length rest) \<subseteq> D"
        using "1.prems"(3) a(4) cells_split [of dst ?n "length rest"] by auto
      obtain str len m1 m2 where m2: "fmt_conv c buf v m = Some (str, len, m1)"
        "padstr dst str len (sint w) l (int (unat p)) m1 = Some (dst + of_nat ?n, m2)"
        "\<And>x. x \<notin> cells buf 12 \<Longrightarrow> m2 x = put_bytes dst (pad_text w l p t) m x"
        using convert [OF a(2) ap(2) sub(1) "1.prems"(4)] by metis
      have "m2 x = m x" if "x \<notin> cells buf 12 \<union> D" for x using that m2(3) put_bytes_other [of x dst "pad_text w l p t" m] sub(1) by auto
      then have "list_all2 (denotes m2 (cells buf 12 \<union> D)) as vs" by (rule denotes_frame [OF ap(3)])
      from "1.IH"(1) [OF fmt0 _ 2 spec refl refl refl refl True a(1,2,3) this sub(2) "1.prems"(4)] 2
      obtain m' where m': "sprint_loop buf fmt' vs (dst + of_nat ?n) m2 = Inr (dst + of_nat ?n + of_nat (length rest), m')"
        "\<And>x. x \<notin> cells buf 12 \<Longrightarrow> m' x = put_bytes (dst + of_nat ?n) rest m2 x" by auto
      have "sprint_loop buf fmt0 ap dst m = sprint_loop buf fmt' vs (dst + of_nat ?n) m2"
        using fmt0 spec True 2 ap(1) m2(1,2) by (subst sprint_loop.simps) simp
      moreover have "m' x = put_bytes dst out m x" if "x \<notin> cells buf 12" for x
        using that m'(2) put_bytes_agree [of "cells buf 12" m2 "put_bytes dst (pad_text w l p t) m"] m2(3)
        by (simp add: a(4) put_bytes_append)
      ultimately show ?thesis using m'(1) a(4) by (simp add: add.assoc)
    qed
  next
    case 3
    then obtain rest where rest: "sprint_text fmt args = Some rest" "out = ch # rest"
      using out fmt0 by (subst (asm) sprint_text.simps) auto
    have sub: "dst \<in> D" "cells (dst + 1) (length rest) \<subseteq> D" using "1.prems"(3) rest(2) by (auto simp: cells_Suc)
    then have "list_all2 (denotes (m(dst := ch)) (cells buf 12 \<union> D)) args ap"
      by (intro denotes_frame [OF "1.prems"(2)]) auto
    from "1.IH"(3) [OF fmt0 3(1,2) rest(1) this sub(2) "1.prems"(4)] show ?thesis
      using 3 by (subst sprint_loop.simps) (simp add: fmt0 rest(2) add.assoc del: fun_upd_apply)
  qed
qed



end
