(* ===== verification/Printf_Text.thy ===== *)
theory Printf_Text
  imports Console Sprint_Text
begin

text \<open>
  The program has two implementations of formatted output: \<^verbatim>\<open>sprint()\<close> of the common library, which writes to
  memory, and \<^verbatim>\<open>do_printf()\<close> of the console, which prints. This theory shows that the second one prints the
  text that the first one writes.
\<close>

section \<open>Printing and padding\<close>

lemma cio_puts_append: "cio_puts (xs @ ys) s = kbind (cio_puts xs s) (cio_puts ys)"
proof (induction xs arbitrary: s)
  case (Cons x xs)
  show ?case by (cases "cio_putchar (i32_of_char x) s") (simp_all add: Cons.IH)
qed simp

lemma mypad_puts:
  assumes "i32_of_char p = ucast p"
  shows "mypad (-1) (-1) n (ucast p) s = kbind (cio_puts (replicate (nat n) p) s) (\<lambda>s. Inr (-1, s))"
proof -
  have "mypad_loop k (-1) (-1) (ucast p) s = kbind (cio_puts (replicate k p) s) (\<lambda>s. Inr (-1, s))" for k
  proof (induction k arbitrary: s)
    case (Suc k)
    show ?case by (cases "cio_putchar (ucast p) s") (simp_all add: assms Suc.IH)
  qed simp
  then show ?thesis by (simp add: mypad_def)
qed

lemma mypadstr_puts:
  assumes "i32_of_char p = ucast p" and "len = int (length t) \<or> len < 0"
  shows "mypadstr (-1) (-1) t len (sint w) l (ucast p) s = kbind (cio_puts (pad_text w l p t) s) (\<lambda>s. Inr (-1, s))"
proof -
  have len: "(if len < 0 then int (length t) else len) = int (length t)" using assms(2) by auto
  define fill where "fill = replicate (nat (sint w - int (length t))) p"
  have e: "fill = []" if "\<not> 0 < sint w - int (length t)" using that by (simp add: fill_def)
  have pad: "mypad (-1) (-1) (sint w - int (length t)) (ucast p) s = kbind (cio_puts fill s) (\<lambda>s. Inr (-1, s))" for s :: "'a cio_st_scheme"
    by (simp add: fill_def mypad_puts [OF assms(1)])
  have ret: "kbind r Inr = r" for r :: "kerr + u32 \<times> 'a cio_st_scheme" by (cases r) simp_all
  have pt: "pad_text w l p t = (if l then t @ fill else fill @ t)" by (simp add: pad_text_def fill_def Let_def)
  show ?thesis
  proof (cases l)
    case True
    then show ?thesis unfolding mypadstr_def len Let_def pt using e
      by (cases "cio_puts t s") (simp_all add: pad cio_puts_append)
  next
    case False
    then show ?thesis unfolding mypadstr_def len Let_def pt using e
      by (cases "cio_puts fill s") (auto simp add: pad cio_puts_append ret)
  qed
qed

section \<open>Conversions\<close>

lemma cstr_put: "0 \<notin> set t \<Longrightarrow> length t < n \<Longrightarrow> n \<le> 100 \<Longrightarrow> cstr n (put_bytes a (t @ [0]) m) a = t"
proof (induction t arbitrary: n a m)
  case Nil
  then show ?case by (cases n) simp_all
next
  case (Cons x xs)
  then obtain k where n: "n = Suc k" by (cases n) auto
  have "a \<notin> cells (a + 1) (length (xs @ [0 :: u8]))" using Cons.prems by (simp add: cells_iff unsigned_minus_1_eq_mask mask_eq_exp_minus_1)
  then have "put_bytes (a + 1) (xs @ [0]) (m(a := x)) a = x" by (simp add: put_bytes_other)
  then show ?case using Cons.IH [of k "a + 1" "m(a := x)"] Cons.prems n by (simp del: fun_upd_apply)
qed

lemma parg_conv_text:
  assumes "conv_text ch a = Some t" and "0 \<notin> set t"
  shows "\<exists>len. parg_text ch a = Some (t, len) \<and> (len = int (length t) \<or> len < 0)"
proof (cases a)
  case (Num v)
  have "conv_text ch (Num v) = Some t" using assms(1) Num by simp
  note put = conv_put [OF this]
  have "ch \<noteq> 115" using assms(1) Num by (auto split: if_splits)
  then show ?thesis using put(1) [of 0 "\<lambda>_. 0"] put(2) cstr_put [OF assms(2), of 12 0 "\<lambda>_. 0"] Num
    by (simp add: parg_text_def del: put_bytes.simps)
next
  case (Str xs)
  then show ?thesis using assms(1) by (auto simp: parg_text_def split: if_splits)
qed

lemma fmt_spec_padchar: "fmt_spec fmt = Some (l, p, w, c, rest) \<Longrightarrow> i32_of_char p = ucast p"
  by (auto simp: fmt_spec_def i32_of_char_def split: list.splits if_splits bind_splits simp del: fmt_width.simps)

section \<open>The equivalence\<close>

lemma do_printf_text: "sprint_text fmt ap = Some out \<Longrightarrow> 0 \<notin> set out \<Longrightarrow> do_printf_loop (-1) (-1) fmt ap s = cio_puts out s"
proof (induction "length fmt" arbitrary: fmt ap s out rule: less_induct)
  case less
  note out = less.prems(1)
  obtain ch cs where fmt: "fmt = ch # cs" using out by (cases fmt) (simp_all add: sprint_text.simps)
  note step = do_printf_loop.simps [of "-1" "-1" fmt ap s, unfolded fmt, simplified]
  consider "ch = 0" | "ch = 37" | "ch \<noteq> 0" "ch \<noteq> 37" by blast
  then show ?case
  proof cases
    case 1
    then show ?thesis using out unfolding fmt step by (simp add: sprint_text.simps)
  next
    case 2
    then obtain l p w c rest where spec: "fmt_spec cs = Some (l, p, w, c, rest)"
      using out fmt by (subst (asm) sprint_text.simps) (auto split: option.splits)
    have short: "length rest < length fmt" using fmt_spec_length [OF spec] fmt by simp
    show ?thesis
    proof (cases "is_conv c")
      case False
      then have "sprint_text rest ap = Some out" using out fmt spec 2 by (subst (asm) sprint_text.simps) simp
      from less.hyps [OF short this less.prems(2)] show ?thesis unfolding fmt step using spec 2 False by simp
    next
      case True
      then obtain a as t u where a: "ap = a # as" "conv_text c a = Some t" "sprint_text rest as = Some u" "out = pad_text w l p t @ u"
        using out fmt spec 2 by (subst (asm) sprint_text.simps) (auto split: list.splits bind_splits)
      have nul: "0 \<notin> set t" "0 \<notin> set u" using less.prems(2) a(4) by (auto simp: pad_text_def Let_def split: if_splits)
      obtain len where len: "parg_text c a = Some (t, len)" "len = int (length t) \<or> len < 0" using parg_conv_text [OF a(2) nul(1)] by blast
      have "do_printf_loop (-1) (-1) fmt ap s = kbind (cio_puts (pad_text w l p t) s) (do_printf_loop (-1) (-1) rest as)"
        unfolding fmt step using spec 2 True a(1) len(1) mypadstr_puts [OF fmt_spec_padchar [OF spec] len(2), of w l s]
        by (cases "cio_puts (pad_text w l p t) s") simp_all
      also have "\<dots> = kbind (cio_puts (pad_text w l p t) s) (cio_puts u)"
        using less.hyps [OF short a(3) nul(2)] by (cases "cio_puts (pad_text w l p t) s") simp_all
      finally show ?thesis by (simp add: a(4) cio_puts_append)
    qed
  next
    case 3
    then obtain u where u: "sprint_text cs ap = Some u" "out = ch # u" using out fmt by (subst (asm) sprint_text.simps) auto
    have "do_printf_loop (-1) (-1) cs ap t = cio_puts u t" for t :: "'a cio_st_scheme" by (rule less.hyps) (use u less.prems(2) fmt in auto)
    then show ?thesis unfolding fmt step using 3 u(2) by (cases "cio_putchar (i32_of_char ch) s") simp_all
  qed
qed

text \<open>C37. \<^verbatim>\<open>cio_printf()\<close> prints the text that \<^verbatim>\<open>sprint()\<close> would write for the same format and arguments (unless the
  text contains a NUL, which a \<^verbatim>\<open>%c\<close> conversion of 0 writes but does not print), from every state of the console.\<close>

theorem cio_printf_prints_text:
  assumes "sprint_text (fmt @ [0]) args = Some out" and "0 \<notin> set out"
  shows "cio_printf fmt args s = cio_puts out s"
  unfolding cio_printf_def do_printf_def by (rule do_printf_text [OF assms])

theorem cio_printf_prints_text_witness:
  "cio_printf (lit ''pid %3d'') [Num 7] boot_cio = cio_puts [112, 105, 100, 32, 32, 32, 55] boot_cio"
proof -
  have "sprint_text (lit ''pid %3d'' @ [0]) [Num 7] = Some [112, 105, 100, 32, 32, 32, 55]" by code_simp
  from cio_printf_prints_text [OF this] show ?thesis by simp
qed

end
