(* ===== verification/Boot_Print.thy ===== *)
theory Boot_Print
  imports Reachable Printf_Text
begin

text \<open>
  What the kernel prints while it starts. Once \<^verbatim>\<open>main()\<close> has turned on the echo to the serial line, every printed
  character takes a place in the output buffer of the serial module, because no interrupt empties it
  before the first process runs; a character stored behind the end of the buffer would be undefined
  behaviour. The messages are short enough.
\<close>

section \<open>Printing while the echo has room\<close>

definition plain :: "u8 \<Rightarrow> bool" where
  "plain c \<longleftrightarrow> c = 10 \<or> 32 \<le> c \<and> c < 0x7f"

lemma out_store_room: "outlast s < BUF_SIZE \<Longrightarrow> \<exists>s'. out_store c s = Inr s' \<and> outlast s' \<le> Suc (outlast s)"
  by (simp add: out_store_def)

lemma outlast_enable [simp]: "outlast (snd (sio_enable w s)) = outlast s"
  by (simp add: sio_enable_def Let_def outb_def)

lemma sio_writec_room:
  assumes "outlast s < BUF_SIZE" and "c \<noteq> 10"
  shows "\<exists>s'. sio_writec c s = Inr s' \<and> outlast s' \<le> Suc (outlast s)"
  using out_store_room [OF assms(1), of "ucast c"] assms(2) by (simp add: sio_writec_def sio_emit_def Let_def outb_def)

definition print_fits :: "u8 \<Rightarrow> bool" where
  "print_fits ch \<longleftrightarrow> i32_of_char ch = ucast ch \<and> (ucast ch :: u32) AND BMASK8 = ucast ch \<and> (ucast ch :: u32) AND 0xffff = ucast ch \<and>
     (ucast ch :: u32) AND 0x7f = ucast ch \<and> (ucast ch :: u32) \<noteq> 10 \<and> (ucast ch :: u32) \<noteq> 13 \<and> ISPRINT (ucast ch)"

lemma print_fits_ascii: "\<forall>n \<in> set [32..<127]. print_fits (word_of_nat n)"
  by code_simp

lemma plain_char: "32 \<le> ch \<Longrightarrow> ch < 0x7f \<Longrightarrow> print_fits ch"
proof -
  assume "32 \<le> ch" "ch < 0x7f"
  then have "unat ch \<in> set [32..<127]" unfolding set_upt atLeastLessThan_iff
    by (simp add: word_le_nat_alt word_less_nat_alt)
  then have "print_fits (word_of_nat (unat ch))" using print_fits_ascii by blast
  then show ?thesis by simp
qed

lemma putchar_at_room:
  assumes "print_fits ch" and "outlast s < BUF_SIZE"
  shows "\<exists>s'. putchar_at x y (ucast ch) s = Inr s' \<and> outlast s' \<le> Suc (outlast s)"
proof -
  note c = assms(1) [unfolded print_fits_def]
  let ?t = "\<lambda>m. s\<lparr>mem := m\<rparr>"
  have "\<exists>s'. sio_writec (ucast ch) (?t m) = Inr s' \<and> outlast s' \<le> Suc (outlast s)" for m
    using sio_writec_room [of "?t m" "ucast ch"] assms(2) c by simp
  then show ?thesis using c by (auto simp: putchar_at_def Let_def dup_char_def BMASK8_def)
qed

lemma outlast_frames [simp]:
  "outlast (setcursor s) = outlast s" "outlast (clear_rows n l s) = outlast s" "outlast (copy_rows n l k s) = outlast s"
  "outlast (scrolled s) = outlast s"
proof -
  show c: "outlast (setcursor s) = outlast s" for s :: "'a cio_st_scheme" by (simp add: setcursor_def Let_def outb_def)
  show r: "outlast (clear_rows n l s) = outlast s" "outlast (copy_rows n l k s) = outlast s" for n l k and s :: "'a cio_st_scheme"
    by (induction n arbitrary: l s) simp_all
  show "outlast (scrolled s) = outlast s" by (simp add: scrolled_def cio_scroll_def cio_clearscroll_def Let_def c r)
qed

lemma cio_putchar_room:
  assumes inv: "cio_inv s" and ch: "plain ch" and room: "outlast s < BUF_SIZE"
  shows "\<exists>s'. cio_putchar (i32_of_char ch) s = Inr s' \<and> outlast s' \<le> Suc (outlast s)"
proof (cases "ch = 10")
  case True
  define t where "t = scrolled s"
  have t: "con_frame s t" "cio_inv t" using scrolled_inv [OF inv] by (auto simp: t_def)
  have "scroll_max_x t \<noteq> -1" using t(2) by (intro not_all_ones) (simp add: cio_inv_def cio_geom_def)
  moreover have "cio_geom t" using t(2) by (simp add: cio_inv_def)
  ultimately obtain m where
    m: "end_line (scroll_max_x t) (curr_x t) (curr_y t) t = Inr (t\<lparr>mem := m, dup2sio_bak := dup_to_sio t\<rparr>)"
    using end_line_run [of t "scroll_max_x t" "curr_x t" "curr_y t"] by blast
  have "cio_putchar (i32_of_char ch) s = Inr (setcursor (t\<lparr>mem := m, dup2sio_bak := dup_to_sio t, curr_x := scroll_min_x t,
      curr_y := curr_y t + 1\<rparr>))"
    using m True by (simp add: cio_putchar_def t_def [symmetric] scrolled_def [symmetric] Let_def i32_of_char_def BMASK8_def)
  then show ?thesis by (simp add: t_def)
next
  case False
  then have c: "print_fits ch" using ch plain_char by (auto simp: plain_def)
  define t where "t = scrolled s"
  obtain u where u: "putchar_at (curr_x t) (curr_y t) (ucast ch) t = Inr u" "outlast u \<le> Suc (outlast s)"
    using putchar_at_room [OF c, of t "curr_x t" "curr_y t"] room by (auto simp: t_def)
  show ?thesis using c u
    by (simp add: cio_putchar_def t_def [symmetric] scrolled_def [symmetric] Let_def print_fits_def)
qed

text \<open>A message of \<open>n\<close> characters that is printed when there is room for it.\<close>

definition echoes :: "nat \<Rightarrow> 'z cio_st_scheme \<Rightarrow> kerr + 'z cio_st_scheme \<Rightarrow> bool" where
  "echoes n s r \<longleftrightarrow> (\<exists>s'. r = Inr s' \<and> cio_inv s' \<and> con_frame s s' \<and> outlast s' \<le> outlast s + n)"

lemma cio_puts_room:
  "cio_inv s \<Longrightarrow> list_all plain xs \<Longrightarrow> outlast s + length xs \<le> BUF_SIZE \<Longrightarrow> echoes (length xs) s (cio_puts xs s)"
proof (induction xs arbitrary: s)
  case (Cons x xs)
  obtain t where t: "cio_putchar (i32_of_char x) s = Inr t" "outlast t \<le> Suc (outlast s)"
    using cio_putchar_room [OF Cons.prems(1), of x] Cons.prems(2,3) by auto
  have inv: "cio_inv t" "con_frame s t" using cio_putchar_run [OF Cons.prems(1)] t(1) by (auto dest: con_resD)
  have "echoes (length xs) t (cio_puts xs t)" using Cons.IH [OF inv(1)] Cons.prems(2,3) t(2) by simp
  then show ?case using t inv by (auto simp: echoes_def intro: con_frame_trans)
qed (simp add: echoes_def)

section \<open>The configuration report\<close>

definition dashes :: "u8 list" where
  "dashes = line ''-------------------------------''"

definition kreport_text :: "u8 list" where
  "kreport_text = 10 # dashes @ line ''Config:  N_PROCS = 25 N_PRIOS = 3 N_STATES = 8 CLOCK = 1000Hz'' @
     line ''Options:  R-uint CX DBLV = 9999''"

lemma kreport_lines:
  "sprint_text (lit ''Config:  N_PROCS = %d'' @ [0]) [Num (of_nat N_PROCS)] = Some (lit ''Config:  N_PROCS = 25'')"
  "sprint_text (lit '' N_PRIOS = %d'' @ [0]) [Num N_PRIOS] = Some (lit '' N_PRIOS = 3'')"
  "sprint_text (lit '' N_STATES = %d'' @ [0]) [Num N_STATES] = Some (lit '' N_STATES = 8'')"
  "sprint_text (line '' CLOCK = %dHz'' @ [0]) [Num CLOCK_FREQ] = Some (line '' CLOCK = 1000Hz'')"
  by code_simp+

lemma kreport_DBLV: "sprint_text (lit '' DBLV = %d'' @ [0]) [Num DBLV] = Some (lit '' DBLV = 9999'')"
proof -
  have l: "lit '' DBLV = %d'' @ [0] = [32, 68, 66, 76, 86, 32, 61, 32, 37, 100, 0]"
    "lit '' DBLV = 9999'' = [32, 68, 66, 76, 86, 32, 61, 32, 57, 57, 57, 57]"
    by code_simp+
  have d: "dec_text 9999 = [57, 57, 57, 57]" by (simp add: dec_text_def numeral_text_def nd.simps hexdigits_def)
  have "sint DBLV = 9999" by (simp add: DBLV_def)
  then show ?thesis unfolding l by (simp add: sprint_text.simps fmt_spec_def is_conv_def pad_text_def d)
qed

lemma kreport_prints: "kreport s = cio_puts kreport_text s"
proof -
  have two: "kbind (cio_puts xs s) (\<lambda>s. kbind (cio_puts ys s) f) = kbind (cio_puts (xs @ ys) s) f"
    "kbind (cio_puts xs s) (cio_puts ys) = cio_puts (xs @ ys) s" for xs ys f and s :: "'a cio_st_scheme"
    by (cases "cio_puts xs s"; simp add: cio_puts_append)+
  have nl: "cio_putchar 10 s = cio_puts [10] s" for s :: "'a cio_st_scheme"
    by (cases "cio_putchar 10 s") (simp_all add: i32_of_char_def)
  have nul: "0 \<notin> set (lit ''Config:  N_PROCS = 25'')" "0 \<notin> set (lit '' N_PRIOS = 3'')" "0 \<notin> set (lit '' N_STATES = 8'')"
    "0 \<notin> set (line '' CLOCK = 1000Hz'')" "0 \<notin> set (lit '' DBLV = 9999'')"
    by code_simp+
  have full: "kreport_text = (10 # line ''-------------------------------'') @ lit ''Config:  N_PROCS = 25'' @ lit '' N_PRIOS = 3'' @
      lit '' N_STATES = 8'' @ line '' CLOCK = 1000Hz'' @ lit ''Options:  R-uint CX'' @ lit '' DBLV = 9999'' @ [10]"
    by code_simp
  show ?thesis unfolding kreport_def cio_printf_def do_printf_def
    do_printf_text [OF kreport_lines(1) nul(1)] do_printf_text [OF kreport_lines(2) nul(2)] do_printf_text [OF kreport_lines(3) nul(3)]
    do_printf_text [OF kreport_lines(4) nul(4)] do_printf_text [OF kreport_DBLV nul(5)] nl two full append.assoc ..
qed

section \<open>The banner\<close>

text \<open>The address of the table of entry points, from the information that the boot loader left.\<close>

definition blob_locs :: "'z kern_st_scheme \<Rightarrow> u32" where
  "blob_locs s = push_bit 4 (ucast (user_segment s)) + ucast (user_offset s)"

lemma con_frame_locs: "con_frame s t \<Longrightarrow> con_frame (s\<lparr>user_locs := v\<rparr>) (t\<lparr>user_locs := v\<rparr>)"
  by (cases s; cases t) (simp add: con_frame_def con_erase_def)

lemma banner_lits:
  "line ''Text: %08x to %08x'' @ [0] =
    [84, 101, 120, 116, 58, 32, 37, 48, 56, 120, 32, 116, 111, 32, 37, 48, 56, 120, 10, 0]"
  "line ''Rdat: %08x to %08x'' @ [0] =
    [82, 100, 97, 116, 58, 32, 37, 48, 56, 120, 32, 116, 111, 32, 37, 48, 56, 120, 10, 0]"
  "line ''Data: %08x to %08x'' @ [0] =
    [68, 97, 116, 97, 58, 32, 37, 48, 56, 120, 32, 116, 111, 32, 37, 48, 56, 120, 10, 0]"
  "line ''BSS:  %08x to %08x'' @ [0] =
    [66, 83, 83, 58, 32, 32, 37, 48, 56, 120, 32, 116, 111, 32, 37, 48, 56, 120, 10, 0]"
  "line ''User blob %u sectors @ %04x:%04x (%08x)'' @ [0] =
    [85, 115, 101, 114, 32, 98, 108, 111, 98, 32, 37, 117, 32, 115, 101, 99, 116, 111, 114, 115, 32, 64, 32, 37, 48, 52, 120, 58,
     37, 48, 52, 120, 32, 40, 37, 48, 56, 120, 41, 10, 0]"
  by code_simp+

lemma banner_ok:
  "fmt_ok (line ''Text: %08x to %08x'' @ [0]) [Num a, Num b]" "fmt_ok (line ''Rdat: %08x to %08x'' @ [0]) [Num a, Num b]"
  "fmt_ok (line ''Data: %08x to %08x'' @ [0]) [Num a, Num b]" "fmt_ok (line ''BSS:  %08x to %08x'' @ [0]) [Num a, Num b]"
  "fmt_ok (line ''User blob %u sectors @ %04x:%04x (%08x)'' @ [0]) [Num a, Num b, Num c, Num d]"
  unfolding banner_lits using parg_num_ok [of 120] parg_num_ok [of 117]
  by (simp_all add: fmt_ok.simps fmt_spec_def is_conv_def)

text \<open>A quiet operation on the console: it returns, and keeps the cursor and the frame.\<close>

lemma cur_resE:
  assumes "cur_res (\<lambda>x. x) s r" and "dup_to_sio s = 0"
  obtains t where "r = Inr t" and "con_frame s t" and "cio_inv t" and "dup_to_sio t = 0"
proof -
  obtain t where t: "r = Inr t" using assms by (auto simp: cur_res_def con_res_def)
  then have "con_frame s t" "cio_inv t" using assms(1) by (auto simp: cur_res_def con_res_def)
  with t that con_frame_dup [of s t] assms(2) show thesis by simp
qed

lemma main_banner_run:
  assumes inv: "cio_inv s" and dup: "dup_to_sio s = 0"
  shows "\<exists>s'. main_banner sec s = Inr s' \<and> cio_inv s' \<and> con_frame (s\<lparr>user_locs := blob_locs s\<rparr>) s'"
proof -
  obtain s1 where s1: "cio_printf (line ''Text: %08x to %08x'') [Num (sec_start sec), Num (sec_etext sec)] s = Inr s1"
    "con_frame s s1" "cio_inv s1" "dup_to_sio s1 = 0"
    by (rule cur_resE [OF cio_printf_cur [OF inv banner_ok(1)] dup])
  obtain s2 where s2: "cio_printf (line ''Rdat: %08x to %08x'') [Num (sec_rodata sec), Num (sec_erodata sec)] s1 = Inr s2"
    "con_frame s1 s2" "cio_inv s2" "dup_to_sio s2 = 0"
    by (rule cur_resE [OF cio_printf_cur [OF s1(3) banner_ok(2)] s1(4)])
  obtain s3 where s3: "cio_printf (line ''Data: %08x to %08x'') [Num (sec_data sec), Num (sec_edata sec)] s2 = Inr s3"
    "con_frame s2 s3" "cio_inv s3" "dup_to_sio s3 = 0"
    by (rule cur_resE [OF cio_printf_cur [OF s2(3) banner_ok(3)] s2(4)])
  obtain s4 where s4: "cio_printf (line ''BSS:  %08x to %08x'') [Num (sec_bss_start sec), Num (sec_end sec)] s3 = Inr s4"
    "con_frame s3 s4" "cio_inv s4" "dup_to_sio s4 = 0"
    by (rule cur_resE [OF cio_printf_cur [OF s3(3) banner_ok(4)] s3(4)])
  have f4: "con_frame s s4" by (rule con_frame_trans [OF con_frame_trans [OF con_frame_trans [OF s1(2) s2(2)] s3(2)] s4(2)])
  define u where "u = s4\<lparr>user_locs := blob_locs s4\<rparr>"
  have blob: "blob_locs s4 = blob_locs s"
    using con_eraseD(15) [OF f4 [unfolded con_frame_def, THEN conjunct1]] by (cases s; cases s4) (simp add: blob_locs_def)
  have u: "con_frame (s\<lparr>user_locs := blob_locs s\<rparr>) u" "cio_inv u" "dup_to_sio u = 0"
    using con_frame_locs [OF f4] s4(3,4) by (simp_all add: u_def blob cio_inv_def cio_geom_def)
  obtain s5 where s5: "cio_printf (line ''User blob %u sectors @ %04x:%04x (%08x)'')
      [Num (ucast (user_sectors u)), Num (ucast (user_segment u)), Num (ucast (user_offset u)), Num (user_locs u)] u = Inr s5"
    "con_frame u s5" "cio_inv s5" "dup_to_sio s5 = 0"
    by (rule cur_resE [OF cio_printf_cur [OF u(2) banner_ok(5)] u(3)])
  obtain s6 where s6: "cio_puts (line ''System initialization starting.'') s5 = Inr s6" "con_frame s5 s6" "cio_inv s6" "dup_to_sio s6 = 0"
    by (rule cur_resE [OF cio_puts_cur [OF s5(3)] s5(4)])
  obtain s7 where s7: "cio_puts (line ''-------------------------------'') s6 = Inr s7" "con_frame s6 s7" "cio_inv s7"
    by (rule cur_resE [OF cio_puts_cur [OF s6(3)] s6(4)])
  have "main_banner sec s = Inr s7"
    using s1(1) s2(1) s3(1) s4(1) s5(1) s6(1) s7(1) by (simp add: main_banner_def Let_def u_def blob_locs_def)
  moreover have "con_frame (s\<lparr>user_locs := blob_locs s\<rparr>) s7"
    by (rule con_frame_trans [OF con_frame_trans [OF con_frame_trans [OF u(1) s5(2)] s6(2)] s7(2)])
  ultimately show ?thesis using s7(3) by blast
qed

section \<open>The screen of the running system\<close>

text \<open>What the other modules own below the console.\<close>

definition core :: "'z proc_st_scheme \<Rightarrow> proc_st" where
  "core s = proc_st.truncate (s\<lparr>mem := \<lambda>_. 0, io_in := [], io_out := []\<rparr>)"

definition boot_frame :: "'z cio_st_scheme \<Rightarrow> 'z cio_st_scheme \<Rightarrow> bool" where
  "boot_frame s s' \<longleftrightarrow> core s' = core s \<and> notify s' = notify s \<and> isr_table s' = isr_table s \<and> dup_to_sio s' = dup_to_sio s \<and>
     (\<forall>a. \<not> in_video a \<longrightarrow> mem s' a = mem s a)"

lemma boot_frame_trans: "boot_frame s t \<Longrightarrow> boot_frame t u \<Longrightarrow> boot_frame s u"
  by (simp add: boot_frame_def)

lemma con_frame_boot: "con_frame s s' \<Longrightarrow> boot_frame s s'"
proof -
  assume f: "con_frame s s'"
  then have e: "con_erase s' = con_erase s" "\<forall>a. \<not> in_video a \<longrightarrow> mem s' a = mem s a" by (simp_all add: con_frame_def)
  have "core s' = core s" using e(1) by (cases s; cases s') (simp add: con_erase_def core_def proc_st.defs)
  then show ?thesis using con_eraseD [OF e(1)] e(2) by (simp add: boot_frame_def)
qed

lemma coreD:
  assumes "core s' = core s"
  shows "blk s' = blk s" and "free_pages s' = free_pages s" and "n_pages s' = n_pages s"
    and "km_initialized s' = km_initialized s" and "qn s' = qn s" and "free_qnodes s' = free_qnodes s"
    and "queues s' = queues s" and "queue_free s' = queue_free s" and "ptable s' = ptable s" and "current s' = current s"
    and "ready s' = ready s" and "sleeping s' = sleeping s" and "zombie s' = zombie s" and "blocked s' = blocked s"
    and "sioread s' = sioread s" and "free_stacks s' = free_stacks s" and "user_locs s' = user_locs s" and "init_pcb s' = init_pcb s"
  using assms by (cases s; cases s'; simp add: core_def proc_st.defs)+

lemma core_inv:
  assumes "core s' = core s"
  shows "sched_inv s' bs Q = sched_inv s bs Q" and "stk_inv s' bs [] = stk_inv s bs []" and "up s' c = up s c"
proof -
  note same = coreD [OF assms]
  show i: "sched_inv s' bs Q = sched_inv s bs Q" for bs Q by (intro sched_inv_cong que_abs_cong; simp add: same)
  then show "up s' c = up s c" using placed_cong [OF same(9)] by (simp add: up_def running_def same)
  have "kmem_abs s' bs = kmem_abs s bs" by (rule kmem_abs_cong) (simp_all add: same)
  then show "stk_inv s' bs [] = stk_inv s bs []" by (simp add: stk_inv_def same)
qed

lemma cio_clearscreen_run: "cio_geom s \<Longrightarrow> con_frame s (cio_clearscreen s)"
proof -
  assume "cio_geom s"
  then have e: "cio_clearscreen s = s\<lparr>mem := fill_row 2000 (va 0) (mem s)\<rparr>"
    by (simp add: cio_clearscreen_def cio_geom_def VIDEO_ADDR_def va_def)
  have "vid_frame (mem s) (fill_row 2000 (va 0) (mem s))" using fill_row_cells [of 0 2000] by simp
  from con_frame_mem [OF this] show ?thesis by (simp add: e)
qed

text \<open>Printing above the scrolling region is not echoed.\<close>

lemma cio_puts_at_above:
  "cio_geom s \<Longrightarrow> y < scroll_min_y s \<Longrightarrow> list_all print_fits xs \<Longrightarrow>
    \<exists>m. cio_puts_at x y xs s = Inr (s\<lparr>mem := m\<rparr>) \<and> con_frame s (s\<lparr>mem := m\<rparr>)"
proof (induction xs arbitrary: x s)
  case Nil
  show ?case by (intro exI [of _ "mem s"]) simp
next
  case (Cons c xs)
  have c: "print_fits c" using Cons.prems(3) by simp
  have "\<exists>m. putchar_at x y (ucast c) s = Inr (s\<lparr>mem := m\<rparr>)"
  proof (cases "x \<le> max_x s \<and> y \<le> max_y s")
    case True
    then show ?thesis using Cons.prems(2) by (auto simp: putchar_at_def Let_def)
  next
    case False
    then show ?thesis by (intro exI [of _ "mem s"]) (auto simp: putchar_at_def)
  qed
  then obtain m where m: "putchar_at x y (ucast c) s = Inr (s\<lparr>mem := m\<rparr>)" by blast
  have f: "con_frame s (s\<lparr>mem := m\<rparr>)" by (rule con_resD [OF putchar_at_res [OF Cons.prems(1)] m])
  have p: "cio_putchar_at x y (i32_of_char c) s = Inr (s\<lparr>mem := m\<rparr>)"
    using c m by (simp add: cio_putchar_at_def print_fits_def)
  have "cio_geom (s\<lparr>mem := m\<rparr>)" using con_frame_geom [OF f] Cons.prems(1) by simp
  from Cons.IH [OF this, of "x + 1"] Cons.prems(2,3) obtain m' where
    m': "cio_puts_at (x + 1) y xs (s\<lparr>mem := m\<rparr>) = Inr (s\<lparr>mem := m'\<rparr>)" "con_frame (s\<lparr>mem := m\<rparr>) (s\<lparr>mem := m'\<rparr>)" by auto
  show ?case
  proof (cases "x \<le> max_x s")
    case True
    then show ?thesis using p m' con_frame_trans [OF f m'(2)] by auto
  next
    case False
    then show ?thesis by (intro exI [of _ "mem s"]) simp
  qed
qed

lemma cio_setscroll_run:
  assumes "cio_geom s"
  defines "t \<equiv> cio_setscroll 0 7 99 99 s"
  shows "cio_inv t" and "boot_frame s t" and "io_in t = io_in s" and "outlast t = outlast s" and "scroll_min_y t = 7" and "curr_y t = 7"
proof -
  let ?u = "s\<lparr>scroll_min_x := 0, scroll_min_y := 7, scroll_max_x := 79, scroll_max_y := 24, curr_x := 0, curr_y := 7\<rparr>"
  have e: "t = setcursor ?u" using assms(1) by (simp add: t_def cio_setscroll_def cio_geom_def Let_def bound_def)
  have f: "con_frame ?u (setcursor ?u)" by simp
  note same = con_eraseD [OF f [unfolded con_frame_def, THEN conjunct1]]
  show "cio_inv t" using assms(1) f con_frame_geom [OF f] by (simp add: e cio_inv_def same cio_geom_def)
  have "core ?u = core s" by (cases s) (simp add: core_def proc_st.defs)
  then have "boot_frame s ?u" by (simp add: boot_frame_def)
  then show "boot_frame s t" unfolding e using con_frame_boot [OF f] boot_frame_trans by blast
  show "io_in t = io_in s" "scroll_min_y t = 7" by (simp_all add: e same)
  show "outlast t = outlast s" "curr_y t = 7" by (simp_all add: e)
qed

lemma cio_clearscroll_run:
  assumes "cio_geom s"
  shows "\<exists>m. cio_clearscroll s = s\<lparr>mem := m\<rparr> \<and> con_frame s (s\<lparr>mem := m\<rparr>)"
proof -
  have "unat (scroll_min_y s) + rows (scroll_min_y s) (scroll_max_y s) \<le> 25"
    using assms by (simp add: rows_def cio_geom_def word_le_nat_alt unat_sub_if')
  from clear_rows_screen [OF assms this] con_frame_mem show ?thesis unfolding cio_clearscroll_def by blast
qed

lemma main_screen_run:
  assumes inv: "cio_inv s"
  shows "\<exists>s'. main_screen s = Inr s' \<and> cio_inv s' \<and> boot_frame s s' \<and> io_in s' = io_in s"
proof -
  have g: "cio_geom s" using inv by (simp add: cio_inv_def)
  define s1 where "s1 = cio_clearscreen s"
  have f1: "con_frame s s1" unfolding s1_def by (rule cio_clearscreen_run [OF g])
  have g1: "cio_geom s1" using con_frame_geom [OF f1] g by simp
  define s2 where "s2 = cio_setscroll 0 7 99 99 s1"
  note s2 = cio_setscroll_run [OF g1, folded s2_def]
  have g2: "cio_geom s2" using s2(1) by (simp add: cio_inv_def)
  obtain m3 where m3: "cio_clearscroll s2 = s2\<lparr>mem := m3\<rparr>" "con_frame s2 (s2\<lparr>mem := m3\<rparr>)" using cio_clearscroll_run [OF g2] by blast
  have stars: "list_all print_fits (42 # replicate 79 32)" "list_all print_fits (replicate 80 61)" by code_simp+
  have g3: "cio_geom (s2\<lparr>mem := m3\<rparr>)" using con_frame_geom [OF m3(2)] g2 by simp
  obtain m4 where m4: "cio_puts_at 0 0 (42 # replicate 79 32) (s2\<lparr>mem := m3\<rparr>) = Inr (s2\<lparr>mem := m4\<rparr>)"
    "con_frame (s2\<lparr>mem := m3\<rparr>) (s2\<lparr>mem := m4\<rparr>)"
    using cio_puts_at_above [OF g3 _ stars(1), of 0 0] s2(5) by auto
  have g4: "cio_geom (s2\<lparr>mem := m4\<rparr>)" using con_frame_geom [OF m4(2)] g3 by simp
  obtain m5 where m5: "cio_puts_at 0 6 (replicate 80 61) (s2\<lparr>mem := m4\<rparr>) = Inr (s2\<lparr>mem := m5\<rparr>)"
    "con_frame (s2\<lparr>mem := m4\<rparr>) (s2\<lparr>mem := m5\<rparr>)"
    using cio_puts_at_above [OF g4 _ stars(2), of 6 0] s2(5) by auto
  have "main_screen s = Inr (s2\<lparr>mem := m5\<rparr>)"
    using m3(1) m4(1) m5(1) by (simp add: main_screen_def Let_def s1_def [symmetric] s2_def [symmetric] del: replicate.simps cio_puts_at.simps)
  moreover have "con_frame s2 (s2\<lparr>mem := m5\<rparr>)" by (rule con_frame_trans [OF con_frame_trans [OF m3(2) m4(2)] m5(2)])
  from boot_frame_trans [OF boot_frame_trans [OF con_frame_boot [OF f1] s2(2)] con_frame_boot [OF this]]
  have "boot_frame s (s2\<lparr>mem := m5\<rparr>)" .
  moreover have "cio_inv (s2\<lparr>mem := m5\<rparr>)" using s2(1) by (simp add: cio_inv_def cio_geom_def)
  moreover have "io_in s1 = io_in s" using con_eraseD(10) [OF f1 [unfolded con_frame_def, THEN conjunct1]] .
  ultimately show ?thesis using s2(3) by (intro exI [of _ "s2\<lparr>mem := m5\<rparr>"]) simp
qed

end
