(* ===== verification/Boot.thy ===== *)
theory Boot
  imports Boot_Print Page_Store
begin

text \<open>
  The whole of \<^verbatim>\<open>main()\<close>: from the memory that the boot loader leaves to the first dispatch of the initial
  process, through every module and every message, and from there to all the states that the running
  system can reach.
\<close>

section \<open>Memory that initialization leaves alone\<close>

text \<open>Below the video memory and outside the interrupt descriptor table.\<close>

definition spared :: "u32 \<Rightarrow> nat \<Rightarrow> bool" where
  "spared a n \<longleftrightarrow> unat a + n \<le> 0x2500 \<or> 0x2D00 \<le> unat a \<and> unat a + n \<le> 0xB8000"

definition spares :: "memory \<Rightarrow> memory \<Rightarrow> bool" where
  "spares m m' \<longleftrightarrow> (\<forall>x. spared x 1 \<longrightarrow> m' x = m x)"

lemma sparesI:
  assumes "\<forall>x. \<not> x - IDT_ADDR < 0x800 \<longrightarrow> m1 x = m x" and "\<forall>a. \<not> in_video a \<longrightarrow> m2 a = m1 a"
  shows "spares m m2"
  unfolding spares_def
proof (intro allI impI)
  fix x assume "spared x 1"
  then have "\<not> x - IDT_ADDR < 0x800" "\<not> in_video x"
    using in_range32 [of IDT_ADDR "0x800" x] by (auto simp: spared_def in_video_iff IDT_ADDR_def)
  then show "m2 x = m x" using assms by simp
qed

lemma spared_nth:
  assumes "spared a n" and "i < n"
  shows "spared (a + of_nat i) 1" and "unat (a + of_nat i) = unat a + i"
proof -
  have "unat a + i < 2 ^ 32" using assms by (auto simp: spared_def)
  then show u: "unat (a + of_nat i) = unat a + i" by (simp add: unat_word_ariths unat_of_nat)
  show "spared (a + of_nat i) 1" using assms u by (auto simp: spared_def)
qed

lemma spares_nth: "spares m m' \<Longrightarrow> spared a n \<Longrightarrow> i < n \<Longrightarrow> m' (a + of_nat i) = m (a + of_nat i)"
  using spared_nth(1) by (simp add: spares_def)

lemma spares_str: "spares m m' \<Longrightarrow> spared a (Suc (length xs)) \<Longrightarrow> str_at m a xs \<Longrightarrow> str_at m' a xs"
  by (erule str_at_copy) (auto intro: spares_nth)

lemma spares_word: "spares m m' \<Longrightarrow> spared a n \<Longrightarrow> unat i < n \<Longrightarrow> m' (a + i) = m (a + i)" for i :: u32
  using spares_nth [of m m' a n "unat i"] by simp

lemma spares_load32: "spares m m' \<Longrightarrow> spared a n \<Longrightarrow> 4 \<le> n \<Longrightarrow> load32 m' a = load32 m a"
  by (rule load32_cong, rule spares_word [of m m' a n]) (auto simp: word_less_nat_alt)

lemma spared_part: "spared a n \<Longrightarrow> k + j \<le> n \<Longrightarrow> 0 < j \<Longrightarrow> spared (a + of_nat k) j"
  using spared_nth(2) [of a n k] by (auto simp: spared_def)

lemma spares_region:
  assumes "spares m m'" and "spared a 24"
  shows "read_region m' a = read_region m a"
proof -
  have part: "load32 m' (a + of_nat k) = load32 m (a + of_nat k)" if "k \<le> 20" for k
    by (rule spares_load32 [OF assms(1) spared_part [OF assms(2), of k 4]]) (use that in auto)
  from part [of 0] part [of 4] part [of 8] part [of 12] part [of 16] part [of 20]
  show ?thesis by (simp add: read_region_def load64_def add.assoc)
qed

lemma spares_usable: "spares m m' \<Longrightarrow> spared a (24 * n) \<Longrightarrow> usable m' n a = usable m n a"
proof (induction n arbitrary: a)
  case (Suc n)
  have "spared a 24" using spared_part [OF Suc.prems(2), of 0 24] by simp
  then have r: "read_region m' a = read_region m a" by (rule spares_region [OF Suc.prems(1)])
  have "usable m' n (a + 24) = usable m n (a + 24)"
  proof (cases n)
    case (Suc k)
    then have "spared (a + 24) (24 * n)" using spared_part [OF Suc.prems(2), of 24 "24 * n"] by simp
    then show ?thesis by (rule Suc.IH [OF Suc.prems(1)])
  qed simp
  then show ?case by (simp add: r)
qed simp

section \<open>The memory of the allocator\<close>

lemma km_region_low:
  assumes "km_region r = Some (b, l)"
  shows "0x100000 \<le> unat b"
proof -
  let ?base = "if reg_base r < KM_LOW_CUTOFF then KM_LOW_CUTOFF else reg_base r"
  have "b = ucast ?base \<and> reg_base r \<le> KM_HIGH_CUTOFF"
    using assms unfolding km_region_def Let_def by (auto split: if_splits simp: not_less kmem_consts)
  then have "unat b = unat ?base mod 2 ^ 32" "0x100000 \<le> unat ?base" "unat ?base \<le> 0x40000000"
    by (auto simp: unat_ucast kmem_consts word_le_nat_alt word_less_nat_alt)
  then show ?thesis by simp
qed

lemma usable_low: "(b, l) \<in> set (usable m n a) \<Longrightarrow> 0x100000 \<le> unat b"
  by (induction n arbitrary: a) (auto split: option.splits if_splits dest: km_region_low km_region_low [OF sym])

lemma wf_blocks_from: "wf_blocks lo bs \<Longrightarrow> \<forall>(b, n) \<in> set bs. lo' \<le> b \<Longrightarrow> wf_blocks lo' bs"
  by (cases bs) auto

lemma fold_insert_set: "set (fold insert_block ps bs) = set ps \<union> set bs"
proof (induction ps arbitrary: bs)
  case (Cons p ps)
  have "set (insert_block p bs) = insert p (set bs)" for bs by (induction bs) auto
  then show ?case by (auto simp: Cons.IH)
qed simp

text \<open>No block lies below one megabyte.\<close>

lemma boot_blocks_high:
  assumes "kmem_abs s (fold insert_block (map piece (usable m n a)) [])"
  shows "wf_blocks 0x100000 (fold insert_block (map piece (usable m n a)) [])"
  by (rule wf_blocks_from [of 1])
    (use assms in \<open>auto simp: kmem_abs_def fold_insert_set piece_def dest: usable_low\<close>)

lemma outside_low:
  assumes "0x100000 \<le> r" and "r + 8192 < 2 ^ 32" and "unat a + n \<le> 0x100000"
  shows "outside (of_nat r) a n"
  unfolding outside_def
proof (intro allI impI)
  fix i assume "i < n"
  then have "unat (a + of_nat i) < 0x100000" using assms(3) by (simp add: unat_word_ariths unat_of_nat)
  moreover have "unat (of_nat r :: u32) = r" using assms(2) by (intro unat_of_nat_small) simp
  ultimately show "\<not> (a + of_nat i) - of_nat r < SZ_STACK"
    using in_range32 [of "of_nat r" SZ_STACK "a + of_nat i"] assms(1,2) by (simp add: SZ_STACK_val)
qed

section \<open>What each stage leaves alone\<close>

text \<open>What \<^verbatim>\<open>main()\<close> relies on of the console, and the pending answers of the devices.\<close>

definition con_view where
  "con_view s = (scroll_min_x s, scroll_min_y s, scroll_max_x s, scroll_max_y s, curr_x s, curr_y s, min_x s, min_y s, max_x s, max_y s,
     dup_to_sio s, notify s, io_in s)"

lemma con_viewD:
  assumes "con_view s' = con_view s"
  shows "cio_inv s' = cio_inv s" and "dup_to_sio s' = dup_to_sio s" and "notify s' = notify s" and "io_in s' = io_in s"
  using assms by (simp_all add: con_view_def cio_inv_def cio_geom_def)

lemma view_more:
  fixes s s' :: "'z cio_st_scheme"
  assumes "io_in s' = io_in s"
  shows "proc_st.more s' = proc_st.more s \<Longrightarrow> con_view s' = con_view s" and "stk_st.more s' = stk_st.more s \<Longrightarrow> con_view s' = con_view s"
    and "que_st.more s' = que_st.more s \<Longrightarrow> con_view s' = con_view s" and "kmem_st.more s' = kmem_st.more s \<Longrightarrow> con_view s' = con_view s"
  using assms by (cases s; cases s'; simp add: con_view_def)+

lemma outlast_more:
  fixes s s' :: "'z sio_st_scheme"
  shows "proc_st.more s' = proc_st.more s \<Longrightarrow> outlast s' = outlast s" and "stk_st.more s' = stk_st.more s \<Longrightarrow> outlast s' = outlast s"
  by (cases s; cases s'; simp)+

lemma set_isr_cases: "set_isr v h s = Inr s' \<Longrightarrow> s' = s\<lparr>isr_table := (isr_table s)[v := h]\<rparr>"
  by (auto simp: set_isr_def install_isr_def split: if_splits)

lemma core_upd [simp]:
  "core (s\<lparr>mem := m\<rparr>) = core s" "core (s\<lparr>io_in := xs\<rparr>) = core s" "core (s\<lparr>io_out := ys\<rparr>) = core s" "core (outb p v s) = core s"
  by (simp_all add: core_def outb_def)

lemma core_isr [simp]: "core (s\<lparr>isr_table := t\<rparr>) = core s"
  by (cases s) (simp add: core_def proc_st.defs)

lemma set_idt_entry_keeps [simp]:
  "core (set_idt_entry i h s) = core s" "io_in (set_idt_entry i h s) = io_in s" "sup_st.more (set_idt_entry i h s) = sup_st.more s"
  by (simp_all add: set_idt_entry_def Let_def)

lemma init_pic_keeps [simp]: "core (init_pic s) = core s" "io_in (init_pic s) = io_in s" "sup_st.more (init_pic s) = sup_st.more s"
  by (simp_all add: init_pic_def Let_def) (simp_all add: outb_def)

lemma init_idt_loop_keeps:
  "init_idt_loop stubs is s = Inr s' \<Longrightarrow> core s' = core s \<and> io_in s' = io_in s \<and> sup_st.more s' = sup_st.more s"
  by (induction "is" arbitrary: s) (fastforce simp: kbind_eq_Inr dest!: set_isr_cases)+

lemma init_interrupts_keeps:
  "init_interrupts stubs s = Inr s' \<Longrightarrow> core s' = core s \<and> io_in s' = io_in s \<and> sup_st.more s' = sup_st.more s"
  by (auto simp: init_interrupts_def init_idt_def kbind_eq_Inr dest!: set_isr_cases init_idt_loop_keeps)

lemma add_block_keeps:
  "add_block b l s = Inr s' \<Longrightarrow> kmem_st.more s' = kmem_st.more s \<and> io_in s' = io_in s \<and> mem s' = mem s"
  by (auto simp: add_block_def Let_def kbind_eq_Inr set_blk_next_def split: if_splits)

lemma km_init_loop_keeps:
  "km_init_loop n a s = Inr s' \<Longrightarrow> kmem_st.more s' = kmem_st.more s \<and> io_in s' = io_in s \<and> mem s' = mem s"
  by (induction n arbitrary: a s) (fastforce simp: kbind_eq_Inr split: option.splits dest!: add_block_keeps)+

lemma km_init_keeps: "km_init s = Inr s' \<Longrightarrow> kmem_st.more s' = kmem_st.more s \<and> io_in s' = io_in s \<and> mem s' = mem s"
  by (auto simp: km_init_def Let_def kbind_eq_Inr split: if_splits dest!: km_init_loop_keeps)

lemma qnode_add_loop_keeps: "qnode_add_loop n a s = Inr s' \<Longrightarrow> que_st.more s' = que_st.more s \<and> io_in s' = io_in s"
  by (induction n arbitrary: a s) (auto simp: kbind_eq_Inr qnode_free_def set_qn_next_def Let_def split: if_splits)

lemma km_page_alloc_keeps: "km_page_alloc k s = Inr (r, s') \<Longrightarrow> kmem_st.more s' = kmem_st.more s \<and> io_in s' = io_in s"
  using km_page_alloc_more by blast

lemma que_init_keeps: "que_init s = Inr s' \<Longrightarrow> que_st.more s' = que_st.more s \<and> io_in s' = io_in s"
  by (auto simp: que_init_def qnode_add_page_def kbind_eq_Inr dest!: qnode_add_loop_keeps km_page_alloc_keeps kmem_more(5))

lemma que_get_keeps: "que_get c s = Inr (q, s') \<Longrightarrow> que_st.more s' = que_st.more s \<and> io_in s' = io_in s"
  by (auto simp: que_get_def que_alloc_def Let_def kbind_eq_Inr split: option.splits)

lemma pcb_init_keeps: "pcb_init s = Inr s' \<Longrightarrow> proc_st.more s' = proc_st.more s \<and> io_in s' = io_in s"
  by (auto simp: pcb_init_def Let_def kbind_eq_Inr dest!: que_get_keeps que_more(11))

lemma stk_init_keeps: "stk_init s = Inr s' \<Longrightarrow> stk_st.more s' = stk_st.more s \<and> io_in s' = io_in s"
proof -
  have "stk_st.more b = stk_st.more (s\<lparr>free_stacks := NULL\<rparr>) \<and> io_in b = io_in s"
    if "km_page_alloc STACK_PAGES (s\<lparr>free_stacks := NULL\<rparr>) = Inr (a, b)" for a b
    using km_page_alloc_keeps [OF that] by (cases b; cases s) simp
  then show "stk_init s = Inr s' \<Longrightarrow> ?thesis"
    by (fastforce simp: stk_init_def stk_alloc_def Let_def kbind_eq_Inr split: if_splits option.splits)
qed

section \<open>The stages of main\<close>

text \<open>The console comes up.\<close>

lemma cio_init_run:
  assumes isr: "length (isr_table s) = 256" and dup: "dup_to_sio s = 0"
  shows "\<exists>s'. cio_init None s = Inr s' \<and> cio_inv s' \<and> notify s' = None \<and> dup_to_sio s' = 0 \<and> core s' = core s \<and> io_in s' = io_in s \<and>
    isr_table s' = (isr_table s)[VEC_KBD := H_kbd] \<and> cio_st.more s' = cio_st.more s \<and> (\<forall>a. \<not> in_video a \<longrightarrow> mem s' a = mem s a)"
proof -
  define v where "v = s\<lparr>min_x := 0, min_y := 0, max_x := 79, max_y := 24, scroll_min_x := 0, scroll_min_y := 0, scroll_max_x := 79,
    scroll_max_y := 24, curr_y := 0, curr_x := 0, notify := None, isr_table := (isr_table s)[VEC_KBD := H_kbd]\<rparr>"
  define u where "u = (setcursor (s\<lparr>min_x := 0, min_y := 0, max_x := 79, max_y := 24, scroll_min_x := 0, scroll_min_y := 0, scroll_max_x := 79,
    scroll_max_y := 24, curr_y := 0, curr_x := 0\<rparr>))\<lparr>notify := None\<rparr>"
  define w where "w = u\<lparr>isr_table := (isr_table s)[VEC_KBD := H_kbd]\<rparr>"
  have w: "con_frame v w" by (simp add: w_def u_def v_def con_frame_def con_erase_def setcursor_def Let_def outb_def)
  have iu: "isr_table u = isr_table s" by (simp add: u_def setcursor_def Let_def outb_def)
  have set: "set_isr VEC_KBD H_kbd u = Inr w" using isr by (simp add: set_isr_run VEC_KBD_def iu w_def)
  have vs: "cio_geom v" "dup_to_sio v = 0" "notify v = None" "io_in v = io_in s" "cio_st.more v = cio_st.more s" "mem v = mem s"
    "isr_table v = (isr_table s)[VEC_KBD := H_kbd]"
    using dup by (simp_all add: v_def cio_geom_def)
  have gw: "cio_geom w" using con_frame_geom [OF w] vs(1) by simp
  define x where "x = cio_clearscreen w"
  have x: "con_frame v x" using con_frame_trans [OF w cio_clearscreen_run [OF gw]] by (simp add: x_def)
  have "curr_x x = 0" "curr_y x = 0" by (simp_all add: x_def w_def u_def cio_clearscreen_def Let_def setcursor_def outb_def)
  moreover have gx: "cio_geom x" using con_frame_geom [OF x] vs(1) by simp
  moreover have "scroll_min_x x = 0" "scroll_min_y x = 0"
    using con_eraseD(1,2) [OF x [unfolded con_frame_def, THEN conjunct1]] by (simp_all add: v_def)
  ultimately have inv: "cio_inv x" by (simp add: cio_inv_def)
  have "dup_to_sio x = 0" using con_frame_dup [OF x] vs(2) by simp
  from cur_resE [OF cio_puts_cur [OF inv] this, of "lit ''Console I/O is active'' @ [10]"]
  obtain y where y: "cio_puts (lit ''Console I/O is active'' @ [10]) x = Inr y" "con_frame x y" "cio_inv y" "dup_to_sio y = 0" by blast
  have run: "cio_init None s = Inr (y\<lparr>cio_ready := True\<rparr>)"
    using set y(1) by (simp add: cio_init_def Let_def u_def [symmetric] x_def [symmetric])
  have f: "con_frame v y" by (rule con_frame_trans [OF x y(2)])
  note same = con_eraseD [OF f [unfolded con_frame_def, THEN conjunct1]]
  have "core v = core s" by (cases s) (simp add: v_def core_def proc_st.defs)
  moreover have "core y = core v" using con_frame_boot [OF f] by (simp add: boot_frame_def)
  moreover have "core (y\<lparr>cio_ready := True\<rparr>) = core y" by (cases y) (simp add: core_def proc_st.defs)
  moreover have "cio_inv (y\<lparr>cio_ready := True\<rparr>)" using y(3) by (simp add: cio_inv_def cio_geom_def)
  moreover have "\<forall>a. \<not> in_video a \<longrightarrow> mem y a = mem s a" using f vs(6) by (simp add: con_frame_def)
  ultimately show ?thesis using run vs y(4) same(10,14,15,35) by (intro exI [of _ "y\<lparr>cio_ready := True\<rparr>"]) simp
qed

text \<open>Interrupts, console and banner.\<close>

definition boot_handlers2 :: "handler list" where
  "boot_handlers2 = boot_handlers[VEC_KBD := H_kbd]"

lemma boot_prologue:
  fixes s :: "'z kern_st_scheme"
  assumes isr: "length (isr_table s) = 256" and dup: "dup_to_sio s = 0"
  shows "\<exists>s1 s2 s3. init_interrupts stubs s = Inr s1 \<and> cio_init None s1 = Inr s2 \<and> main_banner sec s2 = Inr s3 \<and>
    cio_inv s3 \<and> notify s3 = None \<and> dup_to_sio s3 = 0 \<and> user_locs s3 = blob_locs s \<and> io_in s3 = io_in s \<and>
    isr_table s3 = boot_handlers2 \<and> spares (mem s) (mem s3) \<and> (\<forall>i < 256. idt_gate (mem s3) i = (stubs i, 0x0010, IDT_FLAGS))"
proof -
  obtain s1 where s1: "init_interrupts stubs s = Inr s1" "\<forall>i < 256. idt_gate (mem s1) i = (stubs i, 0x0010, IDT_FLAGS)"
    "\<forall>x. \<not> x - IDT_ADDR < 0x800 \<longrightarrow> mem s1 x = mem s x" "isr_table s1 = boot_handlers"
    using init_interrupts_run [OF isr, of stubs] by blast
  have k1: "io_in s1 = io_in s" "sup_st.more s1 = sup_st.more s" using init_interrupts_keeps [OF s1(1)] by simp_all
  have d1: "dup_to_sio s1 = 0" "blob_locs s1 = blob_locs s" using k1(2) dup by (cases s; cases s1; simp add: blob_locs_def)+
  have i1: "length (isr_table s1) = 256" by (simp add: s1(4) boot_handlers_def)
  obtain s2 where s2: "cio_init None s1 = Inr s2" "cio_inv s2" "notify s2 = None" "dup_to_sio s2 = 0" "io_in s2 = io_in s1"
    "isr_table s2 = (isr_table s1)[VEC_KBD := H_kbd]" "cio_st.more s2 = cio_st.more s1" "\<forall>a. \<not> in_video a \<longrightarrow> mem s2 a = mem s1 a"
    using cio_init_run [OF i1 d1(1)] by blast
  have b2: "blob_locs s2 = blob_locs s1" using s2(7) by (cases s1; cases s2) (simp add: blob_locs_def)
  obtain s3 where s3: "main_banner sec s2 = Inr s3" "cio_inv s3" "con_frame (s2\<lparr>user_locs := blob_locs s2\<rparr>) s3"
    using main_banner_run [OF s2(2,4)] by blast
  note same = con_eraseD [OF s3(3) [unfolded con_frame_def, THEN conjunct1]]
  have m3: "\<forall>a. \<not> in_video a \<longrightarrow> mem s3 a = mem s1 a" using s3(3) s2(8) by (simp add: con_frame_def)
  have "idt_gate (mem s3) i = idt_gate (mem s1) i" if "i < 256" for i
  proof (rule idt_gate_cong)
    fix k :: u32 assume "k < 8"
    then have "unat (gate_addr i + k) = 0x2500 + 8 * i + unat k" "unat k < 8"
      using unat_gate_addr [OF that] that by (simp_all add: unat_word_ariths word_less_nat_alt)
    then show "mem s3 (gate_addr i + k) = mem s1 (gate_addr i + k)" using m3 that by (simp add: in_video_iff)
  qed
  then show ?thesis
    using s1(1,2,4) s2(1,3-6) s3(1,2) same(9,10,14,34,35) k1(1) b2 d1(2) sparesI [OF s1(3) m3]
    by (intro exI [of _ s1] exI [of _ s2] exI [of _ s3]) (simp add: boot_handlers2_def)
qed

text \<open>The modules come up.\<close>

lemma sio_init_keeps: "sio_init s = Inr s' \<Longrightarrow> con_view s' = con_view s \<and> outlast s' = 0"
  by (auto simp: sio_init_def Let_def kbind_eq_Inr outb_def con_view_def dest!: set_isr_cases)

lemma clk_sys_init_keeps:
  "clk_init s = Inr s' \<Longrightarrow> con_view s' = con_view s \<and> outlast s' = outlast s"
  "sys_init s = Inr s' \<Longrightarrow> con_view s' = con_view s \<and> outlast s' = outlast s"
  by (auto simp: clk_init_def sys_init_def Let_def outb_def con_view_def dest!: set_isr_cases)

lemma main_modules_keeps:
  assumes "main_modules s = Inr s'"
  shows "con_view s' = con_view s" and "outlast s' = 0"
proof -
  obtain s1 s2 s3 s4 s5 s6 where run: "km_init s = Inr s1" "que_init s1 = Inr s2" "sio_init s2 = Inr s3" "pcb_init s3 = Inr s4"
    "stk_init s4 = Inr s5" "clk_init s5 = Inr s6" "sys_init s6 = Inr s'"
    using assms by (auto simp: main_modules_def kbind_eq_Inr)
  have v: "con_view s1 = con_view s" "con_view s2 = con_view s1" "con_view s4 = con_view s3" "con_view s5 = con_view s4"
    using km_init_keeps [OF run(1)] que_init_keeps [OF run(2)] pcb_init_keeps [OF run(4)] stk_init_keeps [OF run(5)] view_more by blast+
  have o: "outlast s4 = outlast s3" "outlast s5 = outlast s4"
    using pcb_init_keeps [OF run(4)] stk_init_keeps [OF run(5)] outlast_more by blast+
  note k = sio_init_keeps [OF run(3)] clk_sys_init_keeps(1) [OF run(6)] clk_sys_init_keeps(2) [OF run(7)]
  show "con_view s' = con_view s" "outlast s' = 0" using v o k by simp_all
qed

text \<open>The blocks that the queues and the two stacks get; the rest stays with the allocator.\<close>

definition boot_blocks :: "memory \<Rightarrow> blocks" where
  "boot_blocks m = fold insert_block (map piece (usable m (nat (sint (load32 m MMAP_ADDR))) (MMAP_ADDR + 4))) []"

lemma main_modules_boot:
  assumes n: "0 < sint (load32 (mem s) MMAP_ADDR)" and "map_sound (usable (mem s) (nat (sint (load32 (mem s) MMAP_ADDR))) (MMAP_ADDR + 4))"
    and isr: "length (isr_table s) = 256"
    and al: "alloc_blocks 1 (boot_blocks (mem s)) = Some (r1, bs1)" "alloc_blocks 2 bs1 = Some (r2, bs2)"
  shows "\<exists>s'. main_modules s = Inr s' \<and> sched_inv s' bs2 (\<lambda>_. []) \<and> stk_inv s' bs2 [] \<and> ptable s' = replicate N_PROCS zero_pcb \<and>
    isr_table s' = (isr_table s)[0x24 := H_sio, 0x20 := H_clk, 0x80 := H_sys] \<and>
    (\<forall>x. \<not> x - of_nat r2 < SZ_STACK \<longrightarrow> mem s' x = mem s x) \<and> user_locs s' = user_locs s \<and>
    con_view s' = con_view s \<and> outlast s' = 0 \<and> wf_blocks 0x100000 bs2 \<and> 0x100000 \<le> r2 \<and> r2 + 8192 < 2 ^ 32"
proof -
  obtain s0 where s0: "km_init s = Inr s0" "kmem_abs s0 (boot_blocks (mem s))"
    using km_init_run [OF n refl assms(2)] unfolding boot_blocks_def by blast
  have k: "kmem_st.more s0 = kmem_st.more s" "mem s0 = mem s" using km_init_keeps [OF s0(1)] by simp_all
  have same: "isr_table s0 = isr_table s" "user_locs s0 = user_locs s" using k(1) by (cases s; cases s0; simp)+
  have isr0: "length (isr_table s0) = 256" using isr same by simp
  obtain s' where s': "main_modules s = Inr s'" "sched_inv s' bs2 (\<lambda>_. [])" "stk_inv s' bs2 []" "ptable s' = replicate N_PROCS zero_pcb"
    "isr_table s' = (isr_table s0)[0x24 := H_sio, 0x20 := H_clk, 0x80 := H_sys]"
    "\<forall>x. \<not> x - of_nat r2 < SZ_STACK \<longrightarrow> mem s' x = mem s0 x" "user_locs s' = user_locs s0"
    using main_modules_run [OF s0 isr0 al] by blast
  have "wf_blocks 0x100000 (boot_blocks (mem s))" using boot_blocks_high s0(2) unfolding boot_blocks_def by blast
  from alloc_blocks_Some(1) [OF al(1) this] have "wf_blocks 0x100000 bs1" by simp
  note r2 = alloc_blocks_Some [OF al(2) this]
  show ?thesis using s' same k(2) main_modules_keeps [OF s'(1)] r2(1,2,4) by (intro exI [of _ s']) simp
qed

text \<open>The messages with the echo on.\<close>

lemma boot_texts:
  "list_all plain (10 # line ''Module initialization complete.'')" "list_all plain kreport_text"
  "list_all plain (line ''-------------------------------'')" "list_all plain (lit ''Creating initial user process...'')"
  "list_all plain (line '' done.'')" "list_all plain (line ''System initialization complete.'')"
  by code_simp+

lemma boot_text_sizes:
  "length (10 # line ''Module initialization complete.'') = 33" "length kreport_text = 127"
  "length (line ''-------------------------------'') = 32" "length (lit ''Creating initial user process...'') = 32"
  "length (line '' done.'') = 7" "length (line ''System initialization complete.'') = 32"
  by (simp_all add: kreport_text_def dashes_def line_def lit_def)

lemma echoE:
  assumes "cio_inv s" and "list_all plain xs" and "outlast s + length xs \<le> 1024"
  obtains t where "cio_puts xs s = Inr t" and "cio_inv t" and "con_frame s t" and "outlast t \<le> outlast s + length xs"
  using cio_puts_room [OF assms(1,2)] assms(3) by (auto simp: echoes_def BUF_SIZE_def)

lemma boot_report:
  assumes inv: "cio_inv s" and room: "outlast s = 0"
  shows "\<exists>s1 s2 s3 s4. cio_puts (10 # line ''Module initialization complete.'') s = Inr s1 \<and> kreport s1 = Inr s2 \<and>
    cio_puts (line ''-------------------------------'') s2 = Inr s3 \<and> cio_puts (lit ''Creating initial user process...'') s3 = Inr s4 \<and>
    cio_inv s4 \<and> con_frame s s4 \<and> outlast s4 \<le> 500"
proof -
  note sz = boot_text_sizes
  obtain s1 where s1: "cio_puts (10 # line ''Module initialization complete.'') s = Inr s1" "cio_inv s1" "con_frame s s1" "outlast s1 \<le> 33"
    by (rule echoE [OF inv boot_texts(1)]) (use sz(1) room in auto)
  obtain s2 where s2: "cio_puts kreport_text s1 = Inr s2" "cio_inv s2" "con_frame s1 s2" "outlast s2 \<le> 160"
    by (rule echoE [OF s1(2) boot_texts(2)]) (use sz(2) s1(4) in auto)
  obtain s3 where s3: "cio_puts (line ''-------------------------------'') s2 = Inr s3" "cio_inv s3" "con_frame s2 s3" "outlast s3 \<le> 192"
    by (rule echoE [OF s2(2) boot_texts(3)]) (use sz(3) s2(4) in auto)
  obtain s4 where s4: "cio_puts (lit ''Creating initial user process...'') s3 = Inr s4" "cio_inv s4" "con_frame s3 s4" "outlast s4 \<le> 224"
    by (rule echoE [OF s3(2) boot_texts(4)]) (use sz(4) s3(4) in auto)
  have "con_frame s s4" by (rule con_frame_trans [OF con_frame_trans [OF con_frame_trans [OF s1(3) s2(3)] s3(3)] s4(3)])
  then show ?thesis using s1(1) s2(1) s3(1) s4 kreport_prints [of s1] by (intro exI [of _ s1] exI [of _ s2] exI [of _ s3] exI [of _ s4]) simp
qed

text \<open>The end of \<^verbatim>\<open>main()\<close>.\<close>

lemma sio_flush_run:
  assumes "flush_rx (io_in s) = Inr rest" and "cio_inv s"
  shows "\<exists>s'. sio_flush (SIO_RX OR SIO_TX) s = Inr s' \<and> cio_inv s' \<and> boot_frame s s' \<and> outlast s' = 0"
proof -
  let ?s = "s\<lparr>incount := 0, inlast := 0, innext := 0, io_in := rest, outcount := 0, outlast := 0, outnext := 0, sending := False\<rparr>"
  have "core ?s = core s" by (cases s) (simp add: core_def proc_st.defs)
  then have "boot_frame s ?s" by (simp add: boot_frame_def)
  moreover have "sio_flush (SIO_RX OR SIO_TX) s = Inr ?s" using assms(1) by (simp add: sio_flush_def Let_def SIO_RX_def SIO_TX_def)
  moreover have "cio_inv ?s" using assms(2) by (simp add: cio_inv_def cio_geom_def)
  ultimately show ?thesis by (intro exI [of _ ?s]) simp
qed

lemma boot_epilogue:
  assumes inv: "cio_inv s" and room: "outlast s \<le> 500" and dev: "flush_rx (io_in s) = Inr rest"
  shows "\<exists>s1 s2 s3 s4 s'. cio_puts (line '' done.'') s = Inr s1 \<and> main_screen s1 = Inr s2 \<and> sio_flush (SIO_RX OR SIO_TX) s2 = Inr s3 \<and>
    cio_puts (line ''System initialization complete.'') (snd (sio_enable SIO_RX s3)) = Inr s4 \<and>
    cio_puts (line ''-------------------------------'') s4 = Inr s' \<and> cio_inv s' \<and> boot_frame s s'"
proof -
  note sz = boot_text_sizes
  obtain s1 where s1: "cio_puts (line '' done.'') s = Inr s1" "cio_inv s1" "con_frame s s1" "outlast s1 \<le> 507"
    by (rule echoE [OF inv boot_texts(5)]) (use sz(5) room in auto)
  obtain s2 where s2: "main_screen s1 = Inr s2" "cio_inv s2" "boot_frame s1 s2" "io_in s2 = io_in s1"
    using main_screen_run [OF s1(2)] by blast
  have "io_in s1 = io_in s" using con_eraseD(10) [OF s1(3) [unfolded con_frame_def, THEN conjunct1]] .
  then have "flush_rx (io_in s2) = Inr rest" using dev s2(4) by simp
  from sio_flush_run [OF this s2(2)] obtain s3 where s3: "sio_flush (SIO_RX OR SIO_TX) s2 = Inr s3" "cio_inv s3" "boot_frame s2 s3" "outlast s3 = 0"
    by blast
  let ?t = "snd (sio_enable SIO_RX s3)"
  have t: "con_frame s3 ?t" "curr_x ?t = curr_x s3" "curr_y ?t = curr_y s3" using sio_enable_frame [of s3 SIO_RX] by (simp_all add: echo_frame_def)
  have ti: "cio_inv ?t" using s3(2) con_frame_geom [OF t(1)] con_eraseD(1-4) [OF t(1) [unfolded con_frame_def, THEN conjunct1]] t(2,3)
    by (simp add: cio_inv_def)
  obtain s4 where s4: "cio_puts (line ''System initialization complete.'') ?t = Inr s4" "cio_inv s4" "con_frame ?t s4" "outlast s4 \<le> 32"
    by (rule echoE [OF ti boot_texts(6)]) (use sz(6) s3(4) in auto)
  obtain s5 where s5: "cio_puts (line ''-------------------------------'') s4 = Inr s5" "cio_inv s5" "con_frame s4 s5"
    by (rule echoE [OF s4(2) boot_texts(3)]) (use sz(3) s4(4) in auto)
  have "boot_frame s s5"
    using con_frame_boot [OF s1(3)] s2(3) s3(3) con_frame_boot [OF con_frame_trans [OF con_frame_trans [OF t(1) s4(3)] s5(3)]] boot_frame_trans
    by blast
  then show ?thesis using s1(1) s2(1) s3(1) s4(1) s5(1,2) by blast
qed

text \<open>The stack of the initial process is above the video memory.\<close>

lemma is_init_keeps:
  assumes init: "is_init (of_nat r) e xs s" and f: "boot_frame s s'" and r: "0x100000 \<le> r" "r + 8192 < 2 ^ 32"
  shows "is_init (of_nat r) e xs s'"
proof -
  let ?c = "p_context (ptable s ! 0)"
  have same: "ptable s' = ptable s" "init_pcb s' = init_pcb s" using f coreD [of s' s] by (simp_all add: boot_frame_def)
  have ur: "unat (of_nat r :: u32) = r" using r(2) by (intro unat_of_nat_small) simp
  note i = init [unfolded is_init_def Let_def ur]
  have c: "r \<le> unat ?c" "unat ?c + 80 + length xs < r + 8192" using i by (simp_all add: SZ_CONTEXT_def SZ_STACK_val)
  have m: "mem s' (?c + v) = mem s (?c + v)" if "unat v \<le> 80 + length xs" for v
  proof -
    have "unat (?c + v) = unat ?c + unat v" using that c r(2) by (simp add: unat_word_ariths)
    then have "\<not> in_video (?c + v)" using c(1) r(1) by (simp add: in_video_iff)
    then show ?thesis using f by (simp add: boot_frame_def)
  qed
  have w: "load32 (mem s') (?c + v) = load32 (mem s) (?c + v)" if "unat v \<le> 76" for v
  proof (rule load32_cong)
    fix k :: u32 assume "k < 4"
    then have "unat (v + k) \<le> 80" using that by (simp add: word_less_nat_alt unat_word_ariths)
    then show "mem s' (?c + v + k) = mem s (?c + v + k)" using m [of "v + k"] by (simp add: add.assoc)
  qed
  have str: "str_at (mem s') (?c + SZ_CONTEXT + 8) xs"
  proof (rule str_at_copy)
    show "str_at (mem s) (?c + SZ_CONTEXT + 8) xs" using i by simp
    fix k assume k: "k \<le> length xs"
    then have "unat (SZ_CONTEXT + 8 + of_nat k) = 80 + k" using c(2) r(2) by (simp add: SZ_CONTEXT_def unat_word_ariths unat_of_nat)
    then show "mem s' (?c + SZ_CONTEXT + 8 + of_nat k) = mem s (?c + SZ_CONTEXT + 8 + of_nat k)"
      using m [of "SZ_CONTEXT + 8 + of_nat k"] k by (simp add: add.assoc)
  qed
  show ?thesis unfolding is_init_def Let_def ur same
    using i str w [of ctx_eip] w [of ctx_cs] w [of ctx_eflags] w [of "SZ_CONTEXT + 4"]
    by (simp add: ctx_offsets SZ_CONTEXT_def add.assoc)
qed

section \<open>From the boot loader to the running system\<close>

text \<open>The address of the table of entry points as \<^verbatim>\<open>main()\<close> computes it.\<close>

definition boot_locs :: "memory \<Rightarrow> u32" where
  "boot_locs m = push_bit 4 (ucast (load16 m (USER_BLOB_DATA + 2))) + ucast (load16 m USER_BLOB_DATA)"

definition system_handlers :: "handler list" where
  "system_handlers = boot_handlers[VEC_KBD := H_kbd, VEC_COM1 := H_sio, VEC_TIMER := H_clk, VEC_SYSCALL := H_sys]"

lemma spares_boot_blocks:
  assumes "spares m m'" and "sint (load32 m MMAP_ADDR) \<le> 30000"
  shows "load32 m' MMAP_ADDR = load32 m MMAP_ADDR"
    and "usable m' (nat (sint (load32 m MMAP_ADDR))) (MMAP_ADDR + 4) = usable m (nat (sint (load32 m MMAP_ADDR))) (MMAP_ADDR + 4)"
    and "boot_blocks m' = boot_blocks m"
proof -
  show l: "load32 m' MMAP_ADDR = load32 m MMAP_ADDR"
    by (rule spares_load32 [OF assms(1), of _ 4]) (simp_all add: spared_def MMAP_ADDR_def)
  show u: "usable m' (nat (sint (load32 m MMAP_ADDR))) (MMAP_ADDR + 4) = usable m (nat (sint (load32 m MMAP_ADDR))) (MMAP_ADDR + 4)"
    by (rule spares_usable [OF assms(1)]) (use assms(2) in \<open>simp add: spared_def MMAP_ADDR_def\<close>)
  show "boot_blocks m' = boot_blocks m" unfolding boot_blocks_def l u ..
qed

text \<open>The modules, the report and the initial process, from the state after the banner.\<close>

lemma boot_middle:
  fixes s :: "'z kern_st_scheme"
  assumes con: "cio_inv s" and isr: "isr_table s = boot_handlers2"
    and map: "0 < sint (load32 (mem s) MMAP_ADDR)" "map_sound (usable (mem s) (nat (sint (load32 (mem s) MMAP_ADDR))) (MMAP_ADDR + 4))"
    and al: "alloc_blocks 1 (boot_blocks (mem s)) = Some (r1, bs1)" "alloc_blocks 2 bs1 = Some (r2, bs2)" "alloc_blocks 2 bs2 = Some (r3, bs3)"
    and args: "spared args (Suc (length xs))" "str_at (mem s) args xs" "length xs \<le> 90" and locs: "spared (user_locs s) 8"
  shows "\<exists>s4 s6 s7 s8 s9 s10. main_modules s = Inr s4 \<and>
    cio_puts (10 # line ''Module initialization complete.'') (snd (cio_opt_set CIO_OPT_DUP s4)) = Inr s6 \<and> kreport s6 = Inr s7 \<and>
    cio_puts (line ''-------------------------------'') s7 = Inr s8 \<and> cio_puts (lit ''Creating initial user process...'') s8 = Inr s9 \<and>
    main_process args s9 = Inr s10 \<and> is_init (of_nat r3) (load32 (mem s) (user_locs s)) xs s10 \<and> up s10 0 \<and> cio_inv s10 \<and>
    notify s10 = notify s \<and> outlast s10 \<le> 500 \<and> io_in s10 = io_in s \<and> isr_table s10 = system_handlers \<and>
    (\<forall>x. unat x < 0x100000 \<and> \<not> in_video x \<longrightarrow> mem s10 x = mem s x) \<and> 0x100000 \<le> r3 \<and> r3 + 8192 < 2 ^ 32"
proof -
  have len: "length (isr_table s) = 256" by (simp add: isr boot_handlers2_def boot_handlers_def)
  obtain s4 where s4: "main_modules s = Inr s4" "sched_inv s4 bs2 (\<lambda>_. [])" "stk_inv s4 bs2 []" "ptable s4 = replicate N_PROCS zero_pcb"
    "isr_table s4 = (isr_table s)[0x24 := H_sio, 0x20 := H_clk, 0x80 := H_sys]" "\<forall>x. \<not> x - of_nat r2 < SZ_STACK \<longrightarrow> mem s4 x = mem s x"
    "user_locs s4 = user_locs s" "con_view s4 = con_view s" "outlast s4 = 0" "wf_blocks 0x100000 bs2" "0x100000 \<le> r2" "r2 + 8192 < 2 ^ 32"
    using main_modules_boot [OF map len al(1,2)] by blast
  define s5 where "s5 = s4\<lparr>dup_to_sio := 1\<rparr>"
  have opt: "snd (cio_opt_set CIO_OPT_DUP s4) = s5" by (simp add: cio_opt_set_def s5_def Let_def)
  have c5: "cio_inv s5" "outlast s5 = 0" "core s5 = core s4" "notify s5 = notify s" "io_in s5 = io_in s" "isr_table s5 = isr_table s4" "mem s5 = mem s4"
    using con con_viewD [OF s4(8)] s4(9) by (simp_all add: s5_def cio_inv_def cio_geom_def) (cases s4; simp add: core_def proc_st.defs)
  obtain s6 s7 s8 s9 where rep: "cio_puts (10 # line ''Module initialization complete.'') s5 = Inr s6" "kreport s6 = Inr s7"
    "cio_puts (line ''-------------------------------'') s7 = Inr s8" "cio_puts (lit ''Creating initial user process...'') s8 = Inr s9"
    "cio_inv s9" "con_frame s5 s9" "outlast s9 \<le> 500"
    using boot_report [OF c5(1,2)] by blast
  have f9: "core s9 = core s4" "notify s9 = notify s" "isr_table s9 = isr_table s4" "\<forall>a. \<not> in_video a \<longrightarrow> mem s9 a = mem s4 a"
    using con_frame_boot [OF rep(6)] c5 by (simp_all add: boot_frame_def)
  have io9: "io_in s9 = io_in s" using con_eraseD(10) [OF rep(6) [unfolded con_frame_def, THEN conjunct1]] c5(5) by simp
  have low: "mem s9 x = mem s x" if "unat x < 0x100000" "\<not> in_video x" for x
  proof -
    have "unat (of_nat r2 :: u32) = r2" using s4(12) by (intro unat_of_nat_small) simp
    then have "\<not> x - of_nat r2 < SZ_STACK" using that(1) s4(11,12) in_range32 [of "of_nat r2" SZ_STACK x] by (simp add: SZ_STACK_val)
    then show ?thesis using f9(4) s4(6) that(2) by simp
  qed
  have sp: "spares (mem s) (mem s9)" unfolding spares_def using low by (auto simp: spared_def in_video_iff)
  have same: "ptable s9 = replicate N_PROCS zero_pcb" "user_locs s9 = user_locs s" using coreD [OF f9(1)] s4(4,7) by simp_all
  have inv9: "sched_inv s9 bs2 (\<lambda>_. [])" "stk_inv s9 bs2 []" using core_inv [OF f9(1)] s4(2,3) by simp_all
  note r3 = alloc_blocks_Some [OF al(3) s4(10)]
  have far: "outside (of_nat r3) a n" if "spared a n" for a n by (rule outside_low) (use that r3(2,4) in \<open>auto simp: spared_def\<close>)
  have np: "j < N_PROCS \<Longrightarrow> p_state (ptable s9 ! j) = STATE_UNUSED" for j by (simp add: same zero_pcb_def)
  have n0: "0 < N_PROCS" by (simp add: N_PROCS_def)
  have l3: "unat args + length xs + 4 < 2 ^ 32" using args(1) by (auto simp: spared_def)
  have far2: "outside (of_nat r3) (user_locs s9) 8" using far locs same(2) by simp
  obtain s10 where s10: "main_process args s9 = Inr s10" "running s10 bs3 (\<lambda>_. []) 0"
    "is_init (of_nat r3) (load32 (mem s9) (user_locs s9)) xs s10" "proc_st.more s10 = proc_st.more s9" "io_in s10 = io_in s9"
    "\<forall>j. j \<noteq> 0 \<longrightarrow> ptable s10 ! j = ptable s9 ! j" "\<forall>x. \<not> x - of_nat r3 < SZ_STACK \<longrightarrow> mem s10 x = mem s9 x"
    using main_process_run [OF inv9(1) np [OF n0] inv9(2) al(3) spares_str [OF sp args(1,2)] args(3) l3 far [OF args(1)] far2] by blast
  have "placed {0} s10 (\<lambda>_. [])" using s10(6) np by (auto simp: placed_def)
  then have up: "up s10 0" using s10(2) by (auto simp: up_def)
  have v: "con_view s10 = con_view s9" by (rule view_more(1) [OF s10(5,4)])
  have "load32 (mem s9) (user_locs s9) = load32 (mem s) (user_locs s)" using spares_load32 [OF sp locs] same(2) by simp
  then have init: "is_init (of_nat r3) (load32 (mem s) (user_locs s)) xs s10" using s10(3) by simp
  have "mem s10 x = mem s x" if "unat x < 0x100000" "\<not> in_video x" for x
  proof -
    have "unat (of_nat r3 :: u32) = r3" using r3(4) by (intro unat_of_nat_small) simp
    then have "\<not> x - of_nat r3 < SZ_STACK" using that(1) r3(2,4) in_range32 [of "of_nat r3" SZ_STACK x] by (simp add: SZ_STACK_val)
    then show ?thesis using s10(7) low [OF that] by simp
  qed
  then have low10: "\<forall>x. unat x < 0x100000 \<and> \<not> in_video x \<longrightarrow> mem s10 x = mem s x" by blast
  have isr10: "isr_table s10 = system_handlers"
    using isr_more [OF s10(4)] f9(3) c5(6) s4(5) isr
    by (simp add: system_handlers_def boot_handlers2_def vectors boot_handlers_def list_update_swap)
  have r: "0x100000 \<le> r3" "r3 + 8192 < 2 ^ 32" using r3(2,4) by simp_all
  have con10: "cio_inv s10" "notify s10 = notify s" "outlast s10 \<le> 500" "io_in s10 = io_in s"
    using con_viewD [OF v] rep(5,7) f9(2) io9 outlast_more(1) [OF s10(4)] by simp_all
  have rep1: "cio_puts (10 # line ''Module initialization complete.'') (snd (cio_opt_set CIO_OPT_DUP s4)) = Inr s6"
    unfolding opt by (rule rep(1))
  show ?thesis
    by (rule exI [of _ s4], rule exI [of _ s6], rule exI [of _ s7], rule exI [of _ s8], rule exI [of _ s9], rule exI [of _ s10], intro conjI)
      (fact s4(1) rep1 rep s10(1) init up con10 isr10 low10 r)+
qed


text \<open>One megabyte up there are eight pages; the arguments are at 20 KB and the user image at 192 KB.\<close>

definition init_args :: "u8 list" where
  "init_args = [105, 110, 105, 116, 13, 43]"

definition boot_map :: memory where
  "boot_map = (\<lambda>_. 0)(0x2D00 := 1, 0x2D06 := 0x10, 0x2D0D := 0x80, 0x2D14 := 1, 0x2D18 := 1,
     0x5000 := 105, 0x5001 := 110, 0x5002 := 105, 0x5003 := 116, 0x5004 := 13, 0x5005 := 43)"

text \<open>The machine with this memory and a receiver that is empty.\<close>

definition boot_kern :: kern_st where
  "boot_kern = (clk_st.extend boot_clk (kern_st.fields 0 0 0))\<lparr>mem := boot_map, isr_table := replicate 256 H_none, io_in := [0]\<rparr>"

lemma boot_kern_fields:
  "mem boot_kern = boot_map" "isr_table boot_kern = replicate 256 H_none" "io_in boot_kern = [0]" "dup_to_sio boot_kern = 0"
  by (simp_all add: boot_kern_def boot_clk_def boot_cio_def boot_sio_def boot_sup_def boot_proc_def boot_stk_def boot_que_def que_st.defs
      stk_st.defs proc_st.defs sup_st.defs sio_st.defs cio_st.defs clk_st.defs kern_st.defs)

lemma boot_map_fields:
  "load32 boot_map MMAP_ADDR = 1" "usable boot_map 1 (MMAP_ADDR + 4) = [(0x100000, 0x8000)]" "boot_locs boot_map = 0" "load32 boot_map 0 = 0"
proof -
  show "load32 boot_map MMAP_ADDR = 1" by (simp add: boot_map_def load32_def MMAP_ADDR_def)
  have r: "read_region boot_map 0x2D04 = \<lparr>reg_base = 0x100000, reg_length = 0x8000, reg_type = 1, reg_acpi = 1\<rparr>"
    by (simp add: read_region_def boot_map_def load32_def load64_def)
  have "km_region (read_region boot_map 0x2D04) = Some (0x100000, 0x8000)" unfolding r by (simp add: km_region_def kmem_consts)
  then show "usable boot_map 1 (MMAP_ADDR + 4) = [(0x100000, 0x8000)]" by (simp add: kmem_consts)
  show "boot_locs boot_map = 0" by (simp add: boot_locs_def USER_BLOB_DATA_def BOOT_ADDR_def boot_map_def load16_def)
  show "load32 boot_map 0 = 0" by (simp add: boot_map_def load32_def)
qed


end
