(* ===== verification/Dumps.thy ===== *)
theory Dumps
  imports Kernel Devices
begin

text \<open>
  The functions that print the state of the kernel on the console: \<^verbatim>\<open>km_dump()\<close>, \<^verbatim>\<open>que_dump()\<close>, \<^verbatim>\<open>stk_dump()\<close>, the context
  and process table dumps of \<^verbatim>\<open>kernel/procs.c\<close>, \<^verbatim>\<open>sio_dump()\<close>, the back trace and the report that \<^verbatim>\<open>kpanic()\<close> prints
  before it halts (\<^verbatim>\<open>lib/kextras.c\<close>), and the reports of the fault handlers of \<^verbatim>\<open>kernel/support.c\<close>.

  An optional message is \<open>None\<close> for NULL. The addresses that are printed for static objects are given by
  the linker and are a parameter. The filler bytes of a process control block are never written by the
  kernel and are the zeros of \<^verbatim>\<open>pcb_init()\<close>. \<^verbatim>\<open>delay()\<close> only takes time.
\<close>

section \<open>Definitions\<close>

record addresses =
  at_ptable :: u32
  at_comp_wakeup :: u32
  at_free_pages :: u32
  at_free_slices :: u32

definition pcb_ptr :: "addresses \<Rightarrow> nat option \<Rightarrow> u32" where
  "pcb_ptr at p = (case p of None \<Rightarrow> NULL | Some i \<Rightarrow> at_ptable at + 32 * of_nat i)"

definition puts_opt :: "u8 list option \<Rightarrow> 'z cio_st_scheme \<Rightarrow> kerr + 'z cio_st_scheme" where
  "puts_opt msg s = (case msg of None \<Rightarrow> Inr s | Some str \<Rightarrow> cio_puts str s)"

definition put_char_or_code :: "u32 \<Rightarrow> 'z cio_st_scheme \<Rightarrow> kerr + 'z cio_st_scheme" where
  "put_char_or_code ch s =
     (if sint ch \<ge> 32 \<and> sint ch < 0x7f then cio_putchar ch s
      else cio_printf (92 # lit ''x%02x'') [Num ch] s)"

subsection \<open>Memory\<close>

partial_function (option) km_dump_loop :: "u8 list \<Rightarrow> u32 \<Rightarrow> 'z cio_st_scheme \<Rightarrow> (kerr + 'z cio_st_scheme) option" where
  "km_dump_loop fmt block s =
     (if block \<noteq> NULL then
        case cio_printf fmt [Num block, Num (blk_pages (blk s block)), Num (P2B (blk_pages (blk s block)) + block),
            Num (blk_next (blk s block))] s of
          Inl e \<Rightarrow> Some (Inl e)
        | Inr s \<Rightarrow> km_dump_loop fmt (blk_next (blk s block)) s
      else Some (Inr s))"

definition km_dump :: "addresses \<Rightarrow> 'z cio_st_scheme \<Rightarrow> kerr + 'z cio_st_scheme" where
  "km_dump at s =
     kbind (cio_printf (line ''&free_pages=%08x, &free_slices %08x, %u pages, %u slices'')
       [Num (at_free_pages at), Num (at_free_slices at), Num (n_pages s), Num (n_slices s)] s) (\<lambda>s.
     kbind (krun (km_dump_loop (line ''block @ 0x%08x 0x%08x pages (ends at 0x%08x) next @ 0x%08x'') (free_pages s) s)) (\<lambda>s.
       krun (km_dump_loop (line ''block @ 0x%08x 0x%08x slices (ends at 0x%08x) next @ 0x%08x'') (free_slices s) s)))"

subsection \<open>Queues\<close>

text \<open>The first nodes, at most \<open>n\<close> of them; what is left of the list.\<close>

fun que_dump_nodes :: "addresses \<Rightarrow> nat \<Rightarrow> u32 \<Rightarrow> 'z cio_st_scheme \<Rightarrow> kerr + u32 \<times> 'z cio_st_scheme" where
  "que_dump_nodes at 0 tmp s = Inr (tmp, s)"
| "que_dump_nodes at (Suc n) tmp s =
     (if tmp \<noteq> NULL
      then kbind (cio_printf (lit '' [%08x]'') [Num (pcb_ptr at (qn_data (qn s tmp)))] s) (\<lambda>s.
             que_dump_nodes at n (qn_next (qn s tmp)) s)
      else Inr (tmp, s))"

definition que_dump :: "addresses \<Rightarrow> u8 list option \<Rightarrow> queue_t \<Rightarrow> 'z cio_st_scheme \<Rightarrow> kerr + 'z cio_st_scheme" where
  "que_dump at msg q s =
     kbind (cio_printf (lit ''%s: '') [Str (case msg of None \<Rightarrow> lit ''???'' | Some m \<Rightarrow> m)] s) (\<lambda>s.
       if q = None then cio_puts (line ''NULL???'') s
       else kbind (que_deref q) (\<lambda>i.
         kbind (cio_printf (lit ''head %08x tail %08x len %d'')
           [Num (q_head (queues s ! i)), Num (q_tail (queues s ! i)), Num (q_count (queues s ! i))] s) (\<lambda>s.
         kbind (case q_compare (queues s ! i) of
             Some f \<Rightarrow> cio_printf (line '' compare %08x'') [Num (at_comp_wakeup at)] s
           | None \<Rightarrow> cio_puts (line '' FIFO'') s) (\<lambda>s.
         if q_count (queues s ! i) > 0 then
           kbind (cio_puts (lit '' data: '') s) (\<lambda>s.
           kbind (que_dump_nodes at 5 (q_head (queues s ! i)) s) (\<lambda>(tmp, s).
           kbind (if tmp \<noteq> NULL then cio_puts (lit '' ...'') s else Inr s) (\<lambda>s.
             cio_putchar 10 s)))
         else Inr s))))"

subsection \<open>Stacks\<close>

definition hex_text :: "u32 \<Rightarrow> u8 list" where
  "hex_text w = [32, 32] @ map (\<lambda>j. hexdigits ! unat (drop_bit 28 (push_bit (4 * j) w) AND 0xf)) [0..<8]"

definition char_text :: "u32 \<Rightarrow> u8 list" where
  "char_text w = 32 # map (\<lambda>j. let v = drop_bit 24 (push_bit (8 * j) w) AND 0xff
     in if v \<ge> 32 \<and> v < 0x7f then ucast v else 46) [0..<4]"

text \<open>The lines for \<open>4 * n\<close> words from \<open>sp\<close> on; \<open>oldbuf\<close> is the text of the last line printed.\<close>

fun stk_dump_loop :: "nat \<Rightarrow> u32 \<Rightarrow> u8 list \<Rightarrow> bool \<Rightarrow> 'z cio_st_scheme \<Rightarrow> kerr + 'z cio_st_scheme" where
  "stk_dump_loop 0 sp oldbuf eliding s = Inr s"
| "stk_dump_loop (Suc n) sp oldbuf eliding s =
     (let ws = map (\<lambda>i. load32 (mem s) (sp + 4 * of_nat i)) [0..<4];
          buf = concat (map hex_text ws);
          cbuf = concat (map char_text ws)
      in if oldbuf = buf then stk_dump_loop n (sp + 16) oldbuf True s
         else kbind (cio_printf (lit ''%08x%c'') [Num sp, Num (if eliding then 42 else 32)] s) (\<lambda>s.
              kbind (cio_printf (line ''%s %s'') [Str buf, Str cbuf] s) (\<lambda>s.
                stk_dump_loop n (sp + 16) buf False s)))"

definition stk_dump :: "u8 list option \<Rightarrow> u32 \<Rightarrow> u32 \<Rightarrow> 'z cio_st_scheme \<Rightarrow> kerr + 'z cio_st_scheme" where
  "stk_dump msg stk limit s =
     (let words = (if limit > 0 then if limit AND 0x3 \<noteq> 0 then (limit + 3) AND MOD4_MASK else limit else STACK_WDS);
          sp = (if limit > 0 then stk + 4 * (STACK_WDS - words) else stk)
      in kbind (cio_puts (lit ''*** stack'') s) (\<lambda>s.
         kbind (case msg of Some m \<Rightarrow> cio_printf (line '' (%s):'') [Str m] s | None \<Rightarrow> cio_puts (line '':'') s) (\<lambda>s.
           stk_dump_loop (unat words div 4) sp [] False s)))"

subsection \<open>Processes\<close>

definition state_str :: "state_e \<Rightarrow> u8 list" where
  "state_str st = (case st of
     STATE_UNUSED \<Rightarrow> lit ''Unu'' | STATE_NEW \<Rightarrow> lit ''New'' | STATE_READY \<Rightarrow> lit ''Rdy'' | STATE_RUNNING \<Rightarrow> lit ''Run''
   | STATE_SLEEPING \<Rightarrow> lit ''Slp'' | STATE_BLOCKED \<Rightarrow> lit ''Blk'' | STATE_WAITING \<Rightarrow> [] | STATE_ZOMBIE \<Rightarrow> lit ''Zom'')"

definition prio_str :: "u8 \<Rightarrow> u8 list" where
  "prio_str p = (if p = PRIO_HIGH then lit ''High'' else if p = PRIO_STD then lit ''Std '' else lit ''Low '')"

text \<open>The filler bytes, with a blank in front of each.\<close>

fun put_fill :: "nat \<Rightarrow> 'z cio_st_scheme \<Rightarrow> kerr + 'z cio_st_scheme" where
  "put_fill 0 s = Inr s"
| "put_fill (Suc n) s = kbind (cio_putchar 32 s) (\<lambda>s. kbind (put_char_or_code 0 s) (put_fill n))"

definition pcb_dump :: "addresses \<Rightarrow> u8 list option \<Rightarrow> nat option \<Rightarrow> bool \<Rightarrow> 'z cio_st_scheme \<Rightarrow> kerr + 'z cio_st_scheme" where
  "pcb_dump at msg pcb all s =
     kbind (puts_opt msg s) (\<lambda>s.
     kbind (cio_printf (lit '' @ %08x:'') [Num (pcb_ptr at pcb)] s) (\<lambda>s.
     if pcb = None then cio_puts (line '' NULL???'') s
     else kbind (pcb_deref pcb) (\<lambda>i.
       kbind (cio_printf (lit '' %d %s'') [Num (p_pid (ptable s ! i)), Str (state_str (p_state (ptable s ! i)))] s) (\<lambda>s.
       if \<not> all then Inr s
       else
         kbind (cio_printf (lit '' prio %s'')
           [Str (if p_priority (ptable s ! i) \<ge> ucast N_PRIOS then lit ''???'' else prio_str (p_priority (ptable s ! i)))] s) (\<lambda>s.
         kbind (cio_printf (line '' xit %d wake %08x'') [Num (p_status (ptable s ! i)), Num (p_wakeup (ptable s ! i))] s) (\<lambda>s.
         kbind (cio_printf (lit '' parent %08x'') [Num (pcb_ptr at (p_parent (ptable s ! i)))] s) (\<lambda>s.
         kbind (case p_parent (ptable s ! i) of
             None \<Rightarrow> Inr s
           | Some p \<Rightarrow> kbind (pcb_deref (Some p)) (\<lambda>j. cio_printf (lit '' (%u)'') [Num (p_pid (ptable s ! j))] s)) (\<lambda>s.
         kbind (cio_printf (lit '' context %08x stk %08x'') [Num (p_context (ptable s ! i)), Num (p_stack (ptable s ! i))] s) (\<lambda>s.
         kbind (cio_printf (lit '' fill'') [] s) (\<lambda>s.
         kbind (put_fill 5 s) (\<lambda>s.
           cio_putchar 10 s)))))))))))"

subsection \<open>Contexts\<close>

text \<open>A field of the context at an address.\<close>

definition ctx_at :: "u32 \<Rightarrow> u32 \<Rightarrow> 'z cio_st_scheme \<Rightarrow> parg" where
  "ctx_at c off s = Num (load32 (mem s) (c + off))"

definition seg_at :: "u32 \<Rightarrow> u32 \<Rightarrow> 'z cio_st_scheme \<Rightarrow> parg" where
  "seg_at c off s = Num (load32 (mem s) (c + off) AND 0xff)"

definition ctx_dump :: "u8 list option \<Rightarrow> u32 \<Rightarrow> 'z cio_st_scheme \<Rightarrow> kerr + 'z cio_st_scheme" where
  "ctx_dump msg c s =
     kbind (puts_opt msg s) (\<lambda>s.
     kbind (cio_printf (line '' @ %08x:'') [Num c] s) (\<lambda>s.
     if c = NULL then cio_puts (line '' NULL???'') s
     else
       kbind (cio_printf (line ''  ss %04x gs %04x fs %04x es %04x ds %04x cs %04x'')
         [seg_at c ctx_ss s, seg_at c ctx_gs s, seg_at c ctx_fs s, seg_at c ctx_es s, seg_at c ctx_ds s, seg_at c ctx_cs s] s) (\<lambda>s.
       kbind (cio_printf (line ''  edi %08x esi %08x ebp %08x esp %08x'')
         [ctx_at c 20 s, ctx_at c 24 s, ctx_at c ctx_ebp s, ctx_at c ctx_esp s] s) (\<lambda>s.
       kbind (cio_printf (line ''  ebx %08x edx %08x ecx %08x eax %08x'')
         [ctx_at c 36 s, ctx_at c 40 s, ctx_at c 44 s, ctx_at c ctx_eax s] s) (\<lambda>s.
         cio_printf (line ''  vec %08x cod %08x eip %08x efl %08x'')
           [ctx_at c 52 s, ctx_at c 56 s, ctx_at c ctx_eip s, ctx_at c ctx_eflags s] s)))))"

fun ctx_dump_loop :: "nat list \<Rightarrow> u32 \<Rightarrow> 'z cio_st_scheme \<Rightarrow> kerr + 'z cio_st_scheme" where
  "ctx_dump_loop [] n s = Inr s"
| "ctx_dump_loop (i # is) n s =
     (if p_state (ptable s ! i) \<noteq> STATE_UNUSED then
        kbind (cio_printf (lit ''%2d(%d): '') [Num (n + 1), Num (p_pid (ptable s ! i))] s) (\<lambda>s.
        kbind (ctx_dump None (p_context (ptable s ! i)) s) (ctx_dump_loop is (n + 1)))
      else ctx_dump_loop is n s)"

definition ctx_dump_all :: "u8 list option \<Rightarrow> 'z cio_st_scheme \<Rightarrow> kerr + 'z cio_st_scheme" where
  "ctx_dump_all msg s = kbind (puts_opt msg s) (ctx_dump_loop [0..<N_PROCS] 0)"

definition ctx_segments_bad :: "u32 \<Rightarrow> 'z cio_st_scheme \<Rightarrow> bool" where
  "ctx_segments_bad c s \<longleftrightarrow>
     load32 (mem s) (c + ctx_cs) \<noteq> GDT_CODE \<or> load32 (mem s) (c + ctx_ss) \<noteq> GDT_STACK \<or>
     load32 (mem s) (c + ctx_gs) \<noteq> GDT_DATA \<or> load32 (mem s) (c + ctx_fs) \<noteq> GDT_DATA \<or>
     load32 (mem s) (c + ctx_es) \<noteq> GDT_DATA \<or> load32 (mem s) (c + ctx_ds) \<noteq> GDT_DATA"

definition ctx_registers_bad :: "u32 \<Rightarrow> 'z cio_st_scheme \<Rightarrow> bool" where
  "ctx_registers_bad c s \<longleftrightarrow>
     (let esp = load32 (mem s) (c + ctx_esp); ebp = load32 (mem s) (c + ctx_ebp); eip = load32 (mem s) (c + ctx_eip)
      in (esp \<noteq> 0 \<and> (esp < 0x100000 \<or> esp > 0x200000)) \<or> (ebp \<noteq> 0 \<and> (ebp < 0x100000 \<or> ebp > 0x200000)) \<or>
         eip < 0x10000 \<or> eip > 0x40000)"

definition ctx_sanity_check :: "addresses \<Rightarrow> u32 \<Rightarrow> 'z cio_st_scheme \<Rightarrow> kerr + 'z cio_st_scheme" where
  "ctx_sanity_check at c s =
     (let bad = ctx_segments_bad c s in
      kbind (if bad then cio_printf (line ''CTXchk: cs %04x ss %04x ds %04x es %04x fs %04x gs %04x'')
          [ctx_at c ctx_cs s, ctx_at c ctx_ss s, ctx_at c ctx_ds s, ctx_at c ctx_es s, ctx_at c ctx_fs s, ctx_at c ctx_gs s] s
        else Inr s) (\<lambda>s.
      let bad' = ctx_registers_bad c s in
      kbind (if bad' then cio_printf (line ''        esp %08x ebp %08x eip %08x'')
          [ctx_at c ctx_esp s, ctx_at c ctx_ebp s, ctx_at c ctx_eip s] s
        else Inr s) (\<lambda>s.
      if (bad \<or> bad') \<and> current s \<noteq> None
      then kbind (pcb_dump at (Some (lit ''current process'')) (current s) True s) (cio_putchar 10)
      else Inr s)))"

subsection \<open>The process table\<close>

fun ptable_dump_loop :: "addresses \<Rightarrow> bool \<Rightarrow> nat list \<Rightarrow> u32 \<Rightarrow> u32 \<Rightarrow> 'z cio_st_scheme \<Rightarrow> kerr + u32 \<times> u32 \<times> 'z cio_st_scheme" where
  "ptable_dump_loop at all [] used unused s = Inr (used, unused, s)"
| "ptable_dump_loop at all (i # is) used unused s =
     (if p_state (ptable s ! i) = STATE_UNUSED then ptable_dump_loop at all is used (unused + 1) s
      else let used = used + 1 in
        kbind (if \<not> all \<and> used \<noteq> 0 then cio_putchar 44 s else Inr s) (\<lambda>s.
        kbind (cio_printf (lit '' #%d:'') [Num (of_nat i)] s) (\<lambda>s.
        kbind (pcb_dump at None (Some i) all s) (ptable_dump_loop at all is used unused))))"

definition ptable_dump :: "addresses \<Rightarrow> u8 list option \<Rightarrow> bool \<Rightarrow> 'z cio_st_scheme \<Rightarrow> kerr + 'z cio_st_scheme" where
  "ptable_dump at msg all s =
     kbind (puts_opt msg s) (\<lambda>s.
     kbind (cio_putchar 32 s) (\<lambda>s.
     kbind (ptable_dump_loop at all [0..<N_PROCS] 0 0 s) (\<lambda>(used, unused, s).
     kbind (if \<not> all then cio_putchar 10 s else Inr s) (\<lambda>s.
       if used + unused \<noteq> of_nat N_PROCS
       then cio_printf (line ''Table size %d, used %d + empty %d = %d???'')
         [Num (of_nat N_PROCS), Num used, Num unused, Num (used + unused)] s
       else Inr s))))"

fun put_stats :: "(state_e \<times> u32) list \<Rightarrow> 'z cio_st_scheme \<Rightarrow> kerr + 'z cio_st_scheme" where
  "put_stats [] s = Inr s"
| "put_stats ((st, n) # xs) s =
     kbind (if n \<noteq> 0 then cio_printf (lit '' %u %s'') [Num n, Str (state_str st)] s else Inr s) (put_stats xs)"

text \<open>\<^verbatim>\<open>ptable_dump_stats( NULL )\<close>.\<close>

definition ptable_dump_stats :: "'z cio_st_scheme \<Rightarrow> kerr + u32 \<times> 'z cio_st_scheme" where
  "ptable_dump_stats s =
     (let (nstate, unknown) = ptable_stats s in
      kbind (cio_printf (lit ''Ptable: %u ???'') [Num unknown] s) (\<lambda>s.
      kbind (put_stats (zip [STATE_UNUSED, STATE_NEW, STATE_READY, STATE_RUNNING, STATE_SLEEPING, STATE_BLOCKED,
        STATE_WAITING, STATE_ZOMBIE] nstate) s) (\<lambda>s.
      kbind (cio_putchar 10 s) (\<lambda>s. Inr (unknown, s)))))"

subsection \<open>The serial line\<close>

text \<open>
  The loops over the buffers. The counter of the output buffer is read again before every character,
  because the echo of what is printed may go into the same buffer. Reading past the end is undefined.
\<close>

partial_function (option) dump_inbuffer :: "nat \<Rightarrow> nat \<Rightarrow> 'z cio_st_scheme \<Rightarrow> (kerr + 'z cio_st_scheme) option" where
  "dump_inbuffer n ptr s =
     (if n < unat (incount s) then
        if ptr < length (inbuffer s) then
          case put_char_or_code (i32_of_char (inbuffer s ! ptr)) s of
            Inl e \<Rightarrow> Some (Inl e)
          | Inr s \<Rightarrow> dump_inbuffer (n + 1) (ptr + 1) s
        else Some (Inl Undef)
      else Some (Inr s))"

partial_function (option) dump_outbuffer :: "nat \<Rightarrow> nat \<Rightarrow> 'z cio_st_scheme \<Rightarrow> (kerr + 'z cio_st_scheme) option" where
  "dump_outbuffer n ptr s =
     (if n < unat (outcount s) then
        if ptr < length (outbuffer s) then
          case put_char_or_code (i32_of_char (outbuffer s ! ptr)) s of
            Inl e \<Rightarrow> Some (Inl e)
          | Inr s \<Rightarrow> dump_outbuffer (n + 1) (ptr + 1) s
        else Some (Inl Undef)
      else Some (Inr s))"

definition sio_dump :: "bool \<Rightarrow> 'z cio_st_scheme \<Rightarrow> kerr + 'z cio_st_scheme" where
  "sio_dump full s =
     kbind (cio_printf_at 48 0 (lit ''SIO: IER %02x (%c%c%c) in %d ot %d'')
       [Num (ucast (ier s) AND 0xff), Num (if sending s then 42 else 46), Num (if ier s AND UA4_IER_TX_IE \<noteq> 0 then 84 else 116),
        Num (if ier s AND UA4_IER_RX_IE \<noteq> 0 then 82 else 114), Num (incount s), Num (outcount s)] s) (\<lambda>s.
     if \<not> full then Inr s
     else
       kbind (if incount s \<noteq> 0 then
           kbind (cio_puts (lit ''SIO input queue: '' @ [34]) s) (\<lambda>s.
           kbind (krun (dump_inbuffer 0 (innext s) s)) (\<lambda>s.
             cio_puts [34, 10] s))
         else Inr s) (\<lambda>s.
       if outcount s \<noteq> 0 then
         kbind (cio_puts (lit ''SIO output queue: '' @ [34]) s) (\<lambda>s.
         kbind (cio_puts (lit '' ot: '' @ [34]) s) (\<lambda>s.
         kbind (krun (dump_outbuffer 0 (outnext s) s)) (\<lambda>s.
           cio_puts [34, 10] s)))
       else Inr s))"

subsection \<open>Panics and faults\<close>

fun trace_args :: "nat \<Rightarrow> nat \<Rightarrow> u32 \<Rightarrow> 'z cio_st_scheme \<Rightarrow> kerr + 'z cio_st_scheme" where
  "trace_args 0 i ebp s = Inr s"
| "trace_args (Suc n) i ebp s =
     kbind (cio_printf (lit '' [%u] %08x'') [Num (of_nat i + 1), Num (load32 (mem s) (ebp + 4 * (2 + of_nat i)))] s)
       (trace_args n (Suc i) ebp)"

partial_function (option) trace_loop :: "nat \<Rightarrow> u32 \<Rightarrow> 'z cio_st_scheme \<Rightarrow> (kerr + 'z cio_st_scheme) option" where
  "trace_loop args ebp s =
     (if ebp \<noteq> NULL then
        case kbind (cio_printf (lit '' ebp %08x ret %08x args'') [Num ebp, Num (load32 (mem s) (ebp + 4))] s) (\<lambda>s.
             kbind (trace_args args 0 ebp s) (cio_putchar 10)) of
          Inl e \<Rightarrow> Some (Inl e)
        | Inr s \<Rightarrow> trace_loop args (load32 (mem s) ebp) s
      else Some (Inr s))"

definition backtrace :: "u32 \<Rightarrow> nat \<Rightarrow> 'z cio_st_scheme \<Rightarrow> kerr + 'z cio_st_scheme" where
  "backtrace ebp args s =
     kbind (cio_puts (lit ''Trace:  '') s) (\<lambda>s.
     if ebp = NULL then cio_puts (line ''NULL ebp, no trace possible'') s
     else kbind (cio_putchar 10 s) (\<lambda>s. krun (trace_loop args ebp s)))"

text \<open>What \<^verbatim>\<open>kpanic()\<close> does before its endless loop; \<open>ebp\<close> is the value of the register.\<close>

definition kpanic_report :: "addresses \<Rightarrow> u32 \<Rightarrow> u8 list option \<Rightarrow> 'z cio_st_scheme \<Rightarrow> kerr + 'z cio_st_scheme" where
  "kpanic_report at ebp msg s =
     kbind (cio_puts (10 # line ''***** KERNEL PANIC *****'') s) (\<lambda>s.
     kbind (case msg of None \<Rightarrow> Inr s | Some m \<Rightarrow> cio_printf (line ''%s'') [Str m] s) (\<lambda>s.
     kbind (pcb_dump at (Some (lit ''Current'')) (current s) True s) (\<lambda>s.
     kbind (ptable_dump_stats s) (\<lambda>(u, s).
     kbind (que_dump at (Some (lit ''RH'')) (ready s ! 0) s) (\<lambda>s.
     kbind (que_dump at (Some (lit ''RS'')) (ready s ! 1) s) (\<lambda>s.
     kbind (que_dump at (Some (lit ''RL'')) (ready s ! 2) s) (\<lambda>s.
     kbind (que_dump at (Some (lit ''S'')) (sleeping s) s) (\<lambda>s.
     kbind (que_dump at (Some (lit ''Z'')) (zombie s) s) (\<lambda>s.
     kbind (que_dump at (Some (lit ''B'')) (blocked s) s) (\<lambda>s.
     kbind (que_dump at (Some (lit ''I'')) (sioread s) s) (\<lambda>s.
     kbind (cio_puts ([10, 10] @ line ''Panic information:'') s) (\<lambda>s.
     kbind (ptable_dump at (Some (lit ''Full process table'')) True s) (\<lambda>s.
     kbind (ctx_dump_all (Some (lit ''Full context dump'')) s) (\<lambda>s.
     kbind (backtrace ebp 3 s) (\<lambda>s.
       cio_printf (lit ''*** HALTING'') [] s)))))))))))))))"

text \<open>What \<^verbatim>\<open>panic()\<close> prints.\<close>

definition panic_report :: "u8 list \<Rightarrow> 'z cio_st_scheme \<Rightarrow> kerr + 'z cio_st_scheme" where
  "panic_report reason s = cio_printf (10 # line ''PANIC: %s'' @ lit ''Halting...'') [Str reason] s"

text \<open>The common part of the two fault handlers.\<close>

definition fault_process :: "addresses \<Rightarrow> u8 list \<Rightarrow> 'z cio_st_scheme \<Rightarrow> kerr + 'z cio_st_scheme" where
  "fault_process at reason s =
     kbind (pcb_deref (current s)) (\<lambda>i.
     let c = p_context (ptable s ! i) in
     if c = NULL then Inl Undef
     else
       kbind (cio_printf (line ''ADDRESS: CS %04x EIP %08x'') [ctx_at c ctx_cs s, ctx_at c ctx_eip s] s) (\<lambda>s.
       kbind (pcb_dump at (Some (lit ''Current'')) (current s) True s) (\<lambda>s.
       kbind (ctx_dump (Some (lit ''current'')) (p_context (ptable s ! i)) s) (panic_report reason))))"

definition illop_fault :: "addresses \<Rightarrow> u32 \<Rightarrow> u32 \<Rightarrow> 'z cio_st_scheme \<Rightarrow> kerr + 'z cio_st_scheme" where
  "illop_fault at vector code s =
     kbind (cio_printf (10 # line ''ILL OP FAULT vec %02x code %d'') [Num vector, Num code] s)
       (fault_process at (lit ''Illegal Opcode fault''))"

definition gp_fault :: "addresses \<Rightarrow> u32 \<Rightarrow> u32 \<Rightarrow> 'z cio_st_scheme \<Rightarrow> kerr + 'z cio_st_scheme" where
  "gp_fault at vector code s =
     kbind (cio_printf (10 # lit ''GP FAULT vec %02x code %d'') [Num vector, Num code] s) (\<lambda>s.
     kbind (if code \<noteq> 0 then cio_printf (line '' -> sel/idt number: %08x'') [Num code] s else cio_putchar 10 s)
       (fault_process at (lit ''General Protection fault'')))"

section \<open>Formats\<close>

text \<open>The conversions of a format take numbers and strings (\<open>True\<close>) in this order.\<close>

function fmt_takes :: "u8 list \<Rightarrow> bool list \<Rightarrow> bool" where
  "fmt_takes fmt ks =
     (case fmt of [] \<Rightarrow> False
      | ch # fmt \<Rightarrow>
        if ch = 0 then True
        else if ch = 37 then
          case fmt_spec fmt of None \<Rightarrow> False
          | Some (leftadjust, padchar, width, ch, fmt) \<Rightarrow>
            if is_conv ch then (case ks of [] \<Rightarrow> False | k # ks \<Rightarrow> k = (ch = 115) \<and> fmt_takes fmt ks)
            else fmt_takes fmt ks
        else fmt_takes fmt ks)"
  by pat_completeness auto
termination
  by (relation "measure (\<lambda>(fmt, ks). length fmt)") (auto dest: fmt_spec_length)

declare fmt_takes.simps [simp del]

definition is_str :: "parg \<Rightarrow> bool" where
  "is_str a = (case a of Num _ \<Rightarrow> False | Str _ \<Rightarrow> True)"

lemma is_str_simps [simp]: "\<not> is_str (Num v)" "is_str (Str xs)" "\<not> is_str (ctx_at c off s)" "\<not> is_str (seg_at c off s)"
  by (simp_all add: is_str_def ctx_at_def seg_at_def)

lemma parg_text_kind: "is_conv ch \<Longrightarrow> is_str a = (ch = 115) \<Longrightarrow> parg_text ch a \<noteq> None"
  using parg_num_ok by (cases a) (auto simp: is_str_def parg_text_def)

lemma fmt_takes_ok: "fmt_takes fmt (map is_str ap) \<Longrightarrow> fmt_ok fmt ap"
proof (induction "length fmt" arbitrary: fmt ap rule: less_induct)
  case less
  note ok = less.prems [unfolded fmt_takes.simps [of fmt]]
  obtain ch rest where fmt: "fmt = ch # rest"
    using ok by (cases fmt) auto
  show ?case
  proof (cases "ch = 37")
    case True
    then obtain l p w c fmt' where sp: "fmt_spec rest = Some (l, p, w, c, fmt')"
      using ok fmt by (auto split: option.splits)
    have len: "length fmt' < length fmt"
      using fmt_spec_length [OF sp] fmt by simp
    show ?thesis
      using True ok fmt sp less.hyps [OF len] parg_text_kind [of c "hd ap"]
      by (cases ap) (auto simp: fmt_ok.simps [of "37 # rest"] split: if_splits)
  next
    case False
    then show ?thesis
      using ok fmt less.hyps [of rest] by (auto simp: fmt_ok.simps [of "ch # rest"])
  qed
qed

section \<open>Reports\<close>

text \<open>The references from the process table and to the queues lead to entries of the tables.\<close>

definition refs_ok :: "'z cio_st_scheme \<Rightarrow> bool" where
  "refs_ok s \<longleftrightarrow> (\<forall>i < N_PROCS. \<forall>p. p_parent (ptable s ! i) = Some p \<longrightarrow> p < N_PROCS) \<and>
     (\<forall>p. current s = Some p \<longrightarrow> p < N_PROCS) \<and>
     (\<forall>q \<in> {ready s ! 0, ready s ! 1, ready s ! 2, sleeping s, zombie s, blocked s, sioread s}. \<forall>i. q = Some i \<longrightarrow> i < N_QUEUES)"

definition rep :: "('a \<Rightarrow> 'z cio_st_scheme) \<Rightarrow> 'z cio_st_scheme \<Rightarrow> kerr + 'a \<Rightarrow> bool" where
  "rep p s r \<longleftrightarrow> (cio_inv s \<and> refs_ok s \<longrightarrow> cur_res p s r)"

lemma refs_ok_frame: "con_frame s t \<Longrightarrow> refs_ok s \<Longrightarrow> refs_ok t"
  using con_eraseD [of t s] unfolding con_frame_def refs_ok_def by metis

lemma rep_bind:
  assumes "rep p s r"
    and "\<And>x. con_frame s (p x) \<Longrightarrow> cio_inv (p x) \<Longrightarrow> refs_ok (p x) \<Longrightarrow> rep q (p x) (k x)"
  shows "rep q s (kbind r k)"
  unfolding rep_def
proof
  assume s: "cio_inv s \<and> refs_ok s"
  then have r: "cur_res p s r"
    using assms(1) by (simp add: rep_def)
  show "cur_res q s (kbind r k)"
  proof (rule cur_res_bind [OF r])
    fix x assume "r = Inr x" and inv: "cio_inv (p x)"
    then have f: "con_frame s (p x)"
      using r by (auto simp: cur_res_def con_res_def)
    then show "cur_res q (p x) (k x)"
      using assms(2) [OF f inv] refs_ok_frame [OF f] s inv by (auto simp: rep_def)
  qed
qed

lemma rep_Inr [simp]: "p x = s \<Longrightarrow> rep p s (Inr x)"
  by (simp add: rep_def)

lemma rep_putchar: "rep (\<lambda>x. x) s (cio_putchar c s)"
  by (simp add: rep_def cio_putchar_cur)

lemma rep_puts: "rep (\<lambda>x. x) s (cio_puts str s)"
  by (simp add: rep_def cio_puts_cur)

lemma rep_printf: "fmt_takes (fmt @ [0]) (map is_str ap) \<Longrightarrow> rep (\<lambda>x. x) s (cio_printf fmt ap s)"
  by (simp add: rep_def cio_printf_cur fmt_takes_ok)

lemma rep_if: "(c \<Longrightarrow> rep p s r) \<Longrightarrow> (\<not> c \<Longrightarrow> rep p s r') \<Longrightarrow> rep p s (if c then r else r')"
  by simp

lemmas rep_intros = rep_putchar rep_puts rep_if rep_bind

lemma rep_puts_opt: "rep (\<lambda>x. x) s (puts_opt msg s)"
  by (simp add: puts_opt_def rep_puts split: option.split)

text \<open>The formats of the reports.\<close>

lemma code_formats:
  "fmt_takes (92 # lit ''x%02x'' @ [0]) [False]"
  "fmt_takes (line ''&free_pages=%08x, &free_slices %08x, %u pages, %u slices'' @ [0]) [False, False, False, False]"
  "fmt_takes (line ''block @ 0x%08x 0x%08x pages (ends at 0x%08x) next @ 0x%08x'' @ [0]) [False, False, False, False]"
  "fmt_takes (line ''block @ 0x%08x 0x%08x slices (ends at 0x%08x) next @ 0x%08x'' @ [0]) [False, False, False, False]"
  "fmt_takes (lit '' [%08x]'' @ [0]) [False]"
  "fmt_takes (lit ''%s: '' @ [0]) [True]"
  "fmt_takes (lit ''head %08x tail %08x len %d'' @ [0]) [False, False, False]"
  "fmt_takes (line '' compare %08x'' @ [0]) [False]"
  "fmt_takes (lit ''%08x%c'' @ [0]) [False, False]"
  "fmt_takes (line ''%s %s'' @ [0]) [True, True]"
  "fmt_takes (line '' (%s):'' @ [0]) [True]"
  by code_simp+

lemma process_formats:
  "fmt_takes (lit '' @ %08x:'' @ [0]) [False]" "fmt_takes (line '' @ %08x:'' @ [0]) [False]"
  "fmt_takes (lit '' %d %s'' @ [0]) [False, True]" "fmt_takes (lit '' prio %s'' @ [0]) [True]"
  "fmt_takes (line '' xit %d wake %08x'' @ [0]) [False, False]" "fmt_takes (lit '' parent %08x'' @ [0]) [False]"
  "fmt_takes (lit '' (%u)'' @ [0]) [False]" "fmt_takes (lit '' context %08x stk %08x'' @ [0]) [False, False]"
  "fmt_takes (lit '' fill'' @ [0]) []"
  "fmt_takes (line ''  ss %04x gs %04x fs %04x es %04x ds %04x cs %04x'' @ [0]) [False, False, False, False, False, False]"
  "fmt_takes (line ''  edi %08x esi %08x ebp %08x esp %08x'' @ [0]) [False, False, False, False]"
  "fmt_takes (line ''  ebx %08x edx %08x ecx %08x eax %08x'' @ [0]) [False, False, False, False]"
  "fmt_takes (line ''  vec %08x cod %08x eip %08x efl %08x'' @ [0]) [False, False, False, False]"
  "fmt_takes (lit ''%2d(%d): '' @ [0]) [False, False]"
  "fmt_takes (line ''CTXchk: cs %04x ss %04x ds %04x es %04x fs %04x gs %04x'' @ [0]) [False, False, False, False, False, False]"
  "fmt_takes (line ''        esp %08x ebp %08x eip %08x'' @ [0]) [False, False, False]"
  "fmt_takes (lit '' #%d:'' @ [0]) [False]"
  "fmt_takes (line ''Table size %d, used %d + empty %d = %d???'' @ [0]) [False, False, False, False]"
  "fmt_takes (lit '' %u %s'' @ [0]) [False, True]" "fmt_takes (lit ''Ptable: %u ???'' @ [0]) [False]"
  by code_simp+

lemma panic_formats:
  "fmt_takes (lit '' [%u] %08x'' @ [0]) [False, False]" "fmt_takes (lit '' ebp %08x ret %08x args'' @ [0]) [False, False]"
  "fmt_takes (line ''%s'' @ [0]) [True]" "fmt_takes (lit ''*** HALTING'' @ [0]) []"
  "fmt_takes (10 # line ''PANIC: %s'' @ lit ''Halting...'' @ [0]) [True]"
  "fmt_takes (line ''ADDRESS: CS %04x EIP %08x'' @ [0]) [False, False]"
  "fmt_takes (10 # line ''ILL OP FAULT vec %02x code %d'' @ [0]) [False, False]"
  "fmt_takes (10 # lit ''GP FAULT vec %02x code %d'' @ [0]) [False, False]"
  "fmt_takes (line '' -> sel/idt number: %08x'' @ [0]) [False]"
  by code_simp+

lemmas formats = code_formats process_formats panic_formats

lemma rep_code: "rep (\<lambda>x. x) s (put_char_or_code ch s)"
  unfolding put_char_or_code_def by (intro rep_intros rep_printf) (simp add: formats)

lemma rep_fill: "rep (\<lambda>x. x) s (put_fill n s)"
  by (induction n arbitrary: s) (auto intro!: rep_bind [OF rep_putchar] rep_bind [OF rep_code])

lemma rep_parent:
  assumes "i < N_PROCS"
  shows "rep (\<lambda>x. x) s (case p_parent (ptable s ! i) of None \<Rightarrow> Inr s
    | Some p \<Rightarrow> kbind (pcb_deref (Some p)) (\<lambda>j. cio_printf (lit '' (%u)'') [Num (p_pid (ptable s ! j))] s))"
proof (cases "p_parent (ptable s ! i)")
  case (Some p)
  have "refs_ok s \<Longrightarrow> p < N_PROCS"
    using assms Some by (auto simp: refs_ok_def)
  then show ?thesis
    using rep_printf [of "lit '' (%u)''" "[Num (p_pid (ptable s ! p))]" s]
    by (auto simp: rep_def Some pcb_deref_def formats)
qed simp

lemma rep_pcb_dump:
  assumes "\<And>p. pcb = Some p \<Longrightarrow> p < N_PROCS"
  shows "rep (\<lambda>x. x) s (pcb_dump at msg pcb all s)"
proof (cases pcb)
  case None
  then show ?thesis
    unfolding pcb_dump_def by (auto intro!: rep_bind [OF rep_puts_opt] rep_bind [OF rep_printf] rep_puts simp: formats)
next
  case (Some i)
  then have i: "i < N_PROCS" and d: "pcb_deref pcb = Inr i"
    using assms by (simp_all add: pcb_deref_def)
  show ?thesis
    unfolding pcb_dump_def d kbind_simps
    by (auto intro!: rep_bind [OF rep_puts_opt] rep_bind [OF rep_printf] rep_bind [OF rep_parent [OF i]]
      rep_bind [OF rep_fill] rep_putchar simp: formats Some)
qed

lemma rep_ctx_dump: "rep (\<lambda>x. x) s (ctx_dump msg c s)"
  unfolding ctx_dump_def
  by (auto intro!: rep_bind [OF rep_puts_opt] rep_bind [OF rep_printf] rep_puts rep_printf simp: formats)

lemma rep_ctx_dump_all: "rep (\<lambda>x. x) s (ctx_dump_all msg s)"
proof -
  have "rep (\<lambda>x. x) s (ctx_dump_loop is n s)" for "is" n s
    by (induction "is" arbitrary: n s) (auto intro!: rep_bind [OF rep_printf] rep_bind [OF rep_ctx_dump] simp: formats)
  then show ?thesis
    unfolding ctx_dump_all_def by (intro rep_bind [OF rep_puts_opt])
qed

lemma rep_ctx_sanity_check: "rep (\<lambda>x. x) s (ctx_sanity_check at c s)"
proof -
  have p: "rep (\<lambda>x. x) t (pcb_dump at msg (current t) all t)" if "refs_ok t" for msg all t
    using that by (intro rep_pcb_dump) (simp add: refs_ok_def)
  show ?thesis
    unfolding ctx_sanity_check_def Let_def
    by (auto intro!: rep_bind [OF rep_printf] rep_bind [OF rep_Inr] rep_bind [OF p] rep_putchar simp: formats)
qed

lemma rep_ptable_dump: "rep (\<lambda>x. x) s (ptable_dump at msg all s)"
proof -
  have loop: "rep (\<lambda>x. snd (snd x)) s (ptable_dump_loop at all is n k s)" if "\<forall>i \<in> set is. i < N_PROCS" for "is" n k s
    using that
    by (induction "is" arbitrary: n k s)
      (auto simp: Let_def formats intro!: rep_bind [OF rep_putchar] rep_bind [OF rep_printf] rep_bind [OF rep_pcb_dump] rep_bind [OF rep_Inr])
  show ?thesis
    unfolding ptable_dump_def
    by (intro rep_bind [OF rep_puts_opt] rep_bind [OF rep_putchar] rep_bind [OF loop])
      (auto intro!: rep_bind [OF rep_putchar] rep_bind [OF rep_Inr] rep_printf simp: formats split: prod.splits)
qed

lemma rep_stats: "rep snd s (ptable_dump_stats s)"
proof -
  have "rep (\<lambda>x. x) s (put_stats xs s)" for xs s
    by (induction xs arbitrary: s) (auto simp: formats intro!: rep_bind [OF rep_printf])
  then show ?thesis
    unfolding ptable_dump_stats_def ptable_stats_def
    by (auto simp: formats intro!: rep_bind [OF rep_printf] rep_bind [where p = "\<lambda>x. x" and k = "\<lambda>s. kbind (cio_putchar 10 s) _"] rep_bind [OF rep_putchar])
qed

lemma rep_que_dump:
  assumes "\<And>i. q = Some i \<Longrightarrow> i < N_QUEUES"
  shows "rep (\<lambda>x. x) s (que_dump at msg q s)"
proof (cases q)
  case None
  then show ?thesis
    unfolding que_dump_def by (auto intro!: rep_bind [OF rep_printf] rep_puts simp: formats)
next
  case (Some i)
  then have d: "que_deref q = Inr i"
    using assms by (simp add: que_deref_def)
  have nodes: "rep snd s (que_dump_nodes at n tmp s)" for n tmp s
    by (induction n arbitrary: tmp s) (auto intro!: rep_bind [OF rep_printf] simp: formats)
  have cmp: "rep (\<lambda>x. x) s (case c of Some f \<Rightarrow> cio_printf (line '' compare %08x'') [Num (at_comp_wakeup at)] s
      | None \<Rightarrow> cio_puts (line '' FIFO'') s)" for c :: "nat option" and s
    by (auto intro!: rep_printf rep_puts simp: formats split: option.split)
  show ?thesis
    unfolding que_dump_def d kbind_simps
    by (auto intro!: rep_bind [OF rep_printf] rep_bind [OF cmp] rep_bind [OF rep_puts] rep_bind [OF nodes]
      rep_bind [OF rep_Inr] rep_putchar simp: formats Some split: prod.splits)
qed

lemma rep_stk_dump: "rep (\<lambda>x. x) s (stk_dump msg stk limit s)"
proof -
  have loop: "rep (\<lambda>x. x) s (stk_dump_loop n sp buf el s)" for n sp buf el s
    by (induction n arbitrary: sp buf el s) (auto simp: Let_def formats intro!: rep_bind [OF rep_printf])
  show ?thesis
    unfolding stk_dump_def Let_def
    by (auto intro!: rep_bind [OF rep_puts] rep_bind [OF rep_printf] loop simp: formats split: option.splits)
qed

text \<open>The chain of frames that a back trace follows: it ends, and lies outside the screen.\<close>

fun ebp_chain :: "memory \<Rightarrow> u32 \<Rightarrow> u32 list \<Rightarrow> bool" where
  "ebp_chain m ebp [] \<longleftrightarrow> ebp = NULL"
| "ebp_chain m ebp (x # xs) \<longleftrightarrow> ebp = x \<and> x \<noteq> NULL \<and> (\<forall>j < 4. \<not> in_video (x + of_nat j)) \<and> ebp_chain m (load32 m x) xs"

lemma load32_off_screen:
  assumes "con_frame s t" "\<forall>j < 4. \<not> in_video (x + of_nat j)"
  shows "load32 (mem t) x = load32 (mem s) x"
proof -
  have "mem t (x + of_nat j) = mem s (x + of_nat j)" if "j < 4" for j
    using assms that by (simp add: con_frame_def)
  from this [of 0] this [of 1] this [of 2] this [of 3] show ?thesis
    by (simp add: load32_def)
qed

lemma ebp_chain_frame: "con_frame s t \<Longrightarrow> ebp_chain (mem s) ebp xs \<Longrightarrow> ebp_chain (mem t) ebp xs"
  by (induction xs arbitrary: ebp) (auto simp: load32_off_screen)

text \<open>A loop that stops at a failure is a sequence.\<close>

lemma krun_case: "krun (case r of Inl e \<Rightarrow> Some (Inl e) | Inr x \<Rightarrow> f x) = kbind r (\<lambda>x. krun (f x))"
  by (cases r) simp_all

lemma rep_trace: "ebp_chain (mem s) ebp xs \<Longrightarrow> rep (\<lambda>x. x) s (krun (trace_loop args ebp s))"
proof (induction xs arbitrary: ebp s)
  case (Cons x xs)
  have args: "rep (\<lambda>x. x) s (trace_args n i ebp s)" for n i ebp and s :: "'a cio_st_scheme"
    by (induction n arbitrary: i s) (auto intro!: rep_bind [OF rep_printf] simp: formats)
  let ?line = "kbind (cio_printf (lit '' ebp %08x ret %08x args'') [Num ebp, Num (load32 (mem s) (ebp + 4))] s)
    (\<lambda>s. kbind (trace_args args 0 ebp s) (cio_putchar 10))"
  have line: "rep (\<lambda>x. x) s ?line"
    by (intro rep_bind [OF rep_printf] rep_bind [OF args] rep_putchar) (simp add: formats)
  have "rep (\<lambda>x. x) s (kbind ?line (\<lambda>s. krun (trace_loop args (load32 (mem s) ebp) s)))"
    using Cons.prems
    by (intro rep_bind [OF line] Cons.IH) (auto simp: load32_off_screen intro: ebp_chain_frame)
  then show ?case
    unfolding trace_loop.simps [of args ebp s] using Cons.prems by (simp add: krun_case)
qed (simp add: trace_loop.simps)

lemma rep_backtrace: "ebp_chain (mem s) ebp xs \<Longrightarrow> rep (\<lambda>x. x) s (backtrace ebp args s)"
  unfolding backtrace_def
  by (intro rep_if rep_bind [OF rep_puts] rep_puts rep_bind [OF rep_putchar] rep_trace [of _ _ xs])
    ((erule ebp_chain_frame)+, assumption)

lemma con_frame_blk:
  assumes "con_frame s t"
  shows "blk t = blk s" "free_pages t = free_pages s" "free_slices t = free_slices s"
proof -
  have e: "con_erase t = con_erase s"
    using assms by (simp add: con_frame_def)
  show "blk t = blk s" "free_pages t = free_pages s" "free_slices t = free_slices s"
    using arg_cong [OF e, of blk] arg_cong [OF e, of free_pages] arg_cong [OF e, of free_slices]
    by (simp_all add: con_erase_def)
qed

lemma rep_km_loop:
  assumes "fmt_takes (fmt @ [0]) [False, False, False, False]"
  shows "llist (\<lambda>a. blk_next (blk s a)) b as \<Longrightarrow> rep (\<lambda>x. x) s (krun (km_dump_loop fmt b s))"
proof (induction as arbitrary: b s)
  case (Cons a as)
  have "rep (\<lambda>x. x) s (kbind (cio_printf fmt [Num b, Num (blk_pages (blk s b)), Num (P2B (blk_pages (blk s b)) + b),
      Num (blk_next (blk s b))] s) (\<lambda>s. krun (km_dump_loop fmt (blk_next (blk s b)) s)))"
    using Cons.prems assms
    by (intro rep_bind [OF rep_printf] Cons.IH) (auto simp: con_frame_blk)
  then show ?case
    unfolding km_dump_loop.simps [of fmt b s] using Cons.prems by (simp add: krun_case)
qed (simp add: km_dump_loop.simps)

lemma rep_km_dump:
  assumes "llist (\<lambda>a. blk_next (blk s a)) (free_pages s) as" "llist (\<lambda>a. blk_next (blk s a)) (free_slices s) ss"
  shows "rep (\<lambda>x. x) s (km_dump at s)"
proof -
  have loops: "rep (\<lambda>x. x) t (krun (km_dump_loop fmt (free_pages t) t))" "rep (\<lambda>x. x) t (krun (km_dump_loop fmt (free_slices t) t))"
    if "con_frame s t" "fmt_takes (fmt @ [0]) [False, False, False, False]" for t fmt
    using rep_km_loop [OF that(2), of t _ as] rep_km_loop [OF that(2), of t _ ss] assms
    by (simp_all add: con_frame_blk [OF that(1)])
  show ?thesis
    unfolding km_dump_def
    by (intro rep_bind [OF rep_printf] rep_bind [OF loops(1)] loops(2)) (auto simp: formats elim: con_frame_trans)
qed

lemma rep_current: "refs_ok s \<Longrightarrow> rep (\<lambda>x. x) s (pcb_dump at msg (current s) all s)"
  by (intro rep_pcb_dump) (simp add: refs_ok_def)

lemma rep_fault:
  assumes "current s = Some i" "p_context (ptable s ! i) \<noteq> NULL"
  shows "rep (\<lambda>x. x) s (illop_fault at vector code s)" "rep (\<lambda>x. x) s (gp_fault at vector code s)"
proof -
  have process: "rep (\<lambda>x. x) t (fault_process at reason t)" if "refs_ok t" "current t = Some i" "p_context (ptable t ! i) \<noteq> NULL"
    for reason and t :: "'a cio_st_scheme"
  proof -
    have "pcb_deref (current t) = Inr i"
      using that(1,2) by (simp add: refs_ok_def pcb_deref_def)
    then show ?thesis
      unfolding fault_process_def panic_report_def Let_def
      using that(3) unfolding kbind_simps
      by (auto simp: formats intro!: rep_bind [OF rep_printf] rep_bind [OF rep_current] rep_bind [OF rep_ctx_dump] rep_printf)
  qed
  have keep: "current t = Some i" "p_context (ptable t ! i) \<noteq> NULL" if "con_frame s t" for t
    using that assms con_eraseD(24,25) [of t s] by (simp_all add: con_frame_def)
  show "rep (\<lambda>x. x) s (illop_fault at vector code s)" "rep (\<lambda>x. x) s (gp_fault at vector code s)"
    unfolding illop_fault_def gp_fault_def
    by (auto simp: formats intro!: rep_bind [OF rep_printf] rep_bind [OF rep_putchar] process keep intro: con_frame_trans)
qed

section \<open>Results\<close>

lemma rep_returns:
  assumes "rep (\<lambda>x. x) s r" "cio_inv s" "refs_ok s" "dup_to_sio s = 0"
  shows "\<exists>s'. r = Inr s' \<and> con_frame s s' \<and> cio_inv s'"
  using assms by (auto simp: rep_def cur_res_def con_res_def)

lemma rep_queues:
  assumes "refs_ok s" "q \<in> {ready s ! 0, ready s ! 1, ready s ! 2, sleeping s, zombie s, blocked s, sioread s}"
  shows "rep (\<lambda>x. x) s (que_dump at msg q s)"
  using assms by (intro rep_que_dump) (auto simp: refs_ok_def)





text \<open>
  \<^verbatim>\<open>sio_dump()\<close> does not wrap around in the input buffer: when the characters that are waiting lie across its
  end, it reads past the end.
\<close>

lemma put_char_or_code_input:
  assumes "cio_inv s" "refs_ok s" "dup_to_sio s = 0"
  obtains s' where "put_char_or_code ch s = Inr s'" "cio_inv s'" "refs_ok s'" "dup_to_sio s' = 0"
    "inbuffer s' = inbuffer s" "incount s' = incount s" "innext s' = innext s"
proof -
  obtain s' where s': "put_char_or_code ch s = Inr s'" "con_frame s s'" "cio_inv s'"
    using rep_returns [OF rep_code assms] by blast
  then show thesis
    using that refs_ok_frame [OF s'(2) assms(2)] con_frame_dup [OF s'(2)] con_eraseD(36,37,39) [of s' s] assms(3)
    by (simp add: con_frame_def)
qed

lemma dump_inbuffer_past_end:
  assumes "cio_inv s" "refs_ok s" "dup_to_sio s = 0" "ptr \<le> length (inbuffer s)"
    and "length (inbuffer s) - ptr < unat (incount s) - n" "n < unat (incount s)"
  shows "krun (dump_inbuffer n ptr s) = Inl Undef"
  using assms
proof (induction "length (inbuffer s) - ptr" arbitrary: n ptr s)
  case 0
  then show ?case
    by (simp add: dump_inbuffer.simps)
next
  case (Suc k)
  obtain s' where s': "put_char_or_code (i32_of_char (inbuffer s ! ptr)) s = Inr s'" "cio_inv s'" "refs_ok s'" "dup_to_sio s' = 0"
    "inbuffer s' = inbuffer s" "incount s' = incount s"
    using put_char_or_code_input [OF Suc.prems(1-3)] by metis
  have "krun (dump_inbuffer (n + 1) (ptr + 1) s') = Inl Undef"
    using Suc.prems(4-6) Suc.hyps(2) s'(2-6) by (intro Suc.hyps(1)) auto
  then show ?case
    unfolding dump_inbuffer.simps [of n ptr s] using Suc.prems(6) Suc.hyps(2) s'(1) by simp
qed

lemma sio_format:
  "fmt_takes (lit ''SIO: IER %02x (%c%c%c) in %d ot %d'' @ [0]) [False, False, False, False, False, False]"
  "10 \<notin> set (lit ''SIO: IER %02x (%c%c%c) in %d ot %d'')"
  by code_simp+

lemma sio_dump_past_end:
  assumes "cio_inv s" "refs_ok s" "dup_to_sio s = 0" "innext s < length (inbuffer s)"
    and "length (inbuffer s) < innext s + unat (incount s)"
  shows "sio_dump True s = Inl Undef"
proof -
  let ?ap = "[Num (ucast (ier s) AND 0xff), Num (if sending s then 42 else 46), Num (if ier s AND UA4_IER_TX_IE \<noteq> 0 then 84 else 116),
        Num (if ier s AND UA4_IER_RX_IE \<noteq> 0 then 82 else 114), Num (incount s), Num (outcount s)]"
  have geom: "cio_geom s"
    using assms(1) by (simp add: cio_inv_def)
  have "con_res (\<lambda>x. x) s (cio_printf_at 48 0 (lit ''SIO: IER %02x (%c%c%c) in %d ot %d'') ?ap s)"
    using sio_format by (intro cio_printf_at_res [OF geom] fmt_takes_ok) simp_all
  then obtain t where t: "cio_printf_at 48 0 (lit ''SIO: IER %02x (%c%c%c) in %d ot %d'') ?ap s = Inr t" "con_frame s t"
    using assms(3) by (auto simp: con_res_def)
  have "dev_erase t = dev_erase s"
    using keepsD [OF dev_printf_at [OF geom _ sio_format(2)] t(1)] by simp
  then have "cio_inv t"
    using dev_cio_inv assms(1) by blast
  then have t': "cio_inv t" "refs_ok t" "dup_to_sio t = 0" "inbuffer t = inbuffer s" "incount t = incount s" "innext t = innext s"
    using refs_ok_frame [OF t(2) assms(2)] con_frame_dup [OF t(2)] con_eraseD(36,37,39) [of t s] assms(3) t(2)
    by (simp_all add: con_frame_def)
  obtain u where u: "cio_puts (lit ''SIO input queue: '' @ [34]) t = Inr u" "con_frame t u" "cio_inv u"
    using rep_returns [OF rep_puts t'(1-3)] by blast
  have u': "refs_ok u" "dup_to_sio u = 0" "inbuffer u = inbuffer s" "incount u = incount s" "innext u = innext s"
    using refs_ok_frame [OF u(2) t'(2)] con_frame_dup [OF u(2)] con_eraseD(36,37,39) [of u t] t'(3-6) u(2)
    by (simp_all add: con_frame_def)
  have "krun (dump_inbuffer 0 (innext u) u) = Inl Undef"
    using u(3) u' assms(4,5) by (intro dump_inbuffer_past_end) auto
  moreover have "incount t \<noteq> 0"
    using assms(4,5) t'(5) by auto
  ultimately show ?thesis
    unfolding sio_dump_def t(1) kbind_simps using u(1) by simp
qed

end
