(* ===== verification/User_Lib.thy ===== *)
theory User_Lib
  imports Lib_Conv "HOL-Library.Sublist"
begin

text \<open>
  The argument handling of the user library, \<^verbatim>\<open>lib/uextras.c\<close>: \<^verbatim>\<open>parseArgs()\<close>, which cuts an argument string
  into pieces in place and fills in the argument vector, and \<^verbatim>\<open>expand_args()\<close>, which copies a string and
  writes non-printing characters as escape sequences. Both work on the byte memory; the argument vector
  is an array of longwords. The remaining functions of the file are calls of the system call stubs.
\<close>

section \<open>Definitions\<close>

text \<open>The inner loop of \<^verbatim>\<open>parseArgs()\<close>: where the search for the separator stops.\<close>

partial_function (option) find_sep :: "u32 \<Rightarrow> u8 \<Rightarrow> memory \<Rightarrow> (u32 \<times> memory) option" where
  "find_sep ptr sep m =
     (if m ptr \<noteq> 0
      then if m ptr = sep then Some (ptr + 1, m(ptr := 0)) else find_sep (ptr + 1) sep m
      else Some (ptr, m))"

text \<open>The outer loop, from index \<open>i\<close> on; \<open>n\<close> is the length of the vector at address \<open>argv\<close>.\<close>

function parse_loop :: "int \<Rightarrow> int \<Rightarrow> int \<Rightarrow> u32 \<Rightarrow> u8 \<Rightarrow> u32 \<Rightarrow> memory \<Rightarrow> (int \<times> memory) option" where
  "parse_loop i argc n ptr sep argv m =
     (if i < argc \<and> i < n - 1
      then Option.bind (find_sep ptr sep (store32 m (argv + 4 * word_of_int i) ptr)) (\<lambda>(ptr, m).
        if m ptr = 0 then Some (i, m) else parse_loop (i + 1) argc n ptr sep argv m)
      else Some (i, m))"
  by pat_completeness auto
termination
  by (relation "measure (\<lambda>(i, argc, n, ptr, sep, argv, m). nat (argc - i))") auto

declare parse_loop.simps [simp del]

definition parseArgs :: "int \<Rightarrow> u32 \<Rightarrow> u8 \<Rightarrow> int \<Rightarrow> u32 \<Rightarrow> memory \<Rightarrow> (int \<times> memory) option" where
  "parseArgs argc args sep n argv m =
     (if args = NULL then Some (-1, m)
      else if argc \<ge> n then Some (-1, m)
      else map_option (\<lambda>(i, m). (i + 1, m)) (parse_loop 0 argc n args sep argv m))"

partial_function (option) expand_loop :: "u32 \<Rightarrow> u32 \<Rightarrow> u32 \<Rightarrow> u32 \<Rightarrow> memory \<Rightarrow> (u32 \<times> u32 \<times> memory) option" where
  "expand_loop buf1 buf2 len mx m =
     (if m buf2 \<noteq> 0 \<and> len < mx then
        let ch = m buf2; buf2 = buf2 + 1
        in if ch \<ge> 32 \<and> ch < 127 then expand_loop (buf1 + 1) buf2 (len + 1) mx (m(buf1 := ch))
           else
             let m = m(buf1 := 92); buf1 = buf1 + 1; len = len + 1;
                 (buf1, len, m) =
                   (if ch = 13 then (buf1 + 1, len, m(buf1 := 114))
                    else if ch = 9 then (buf1 + 1, len, m(buf1 := 116))
                    else if ch = 10 then (buf1 + 1, len, m(buf1 := 110))
                    else (buf1 + 3, len + 2,
                      m(buf1 := 120, buf1 + 1 := hexdigits ! unat (drop_bit 4 ch AND 15), buf1 + 2 := hexdigits ! unat (ch AND 15))));
                 len = len + 1
             in expand_loop buf1 buf2 (len + 1) mx m
      else Some (buf1, len, m))"

definition expand_args :: "u32 \<Rightarrow> u32 \<Rightarrow> u32 \<Rightarrow> memory \<Rightarrow> (u32 \<times> memory) option" where
  "expand_args buf1 buf2 mx m =
     map_option (\<lambda>(buf1, len, m). (len, m(buf1 := 0))) (expand_loop buf1 buf2 0 (mx - 1) m)"

section \<open>Escape sequences\<close>

definition printable :: "u8 \<Rightarrow> bool" where
  "printable ch \<longleftrightarrow> ch \<ge> 32 \<and> ch < 127"

text \<open>The text that stands for a character, and what the function adds to its count for it.\<close>

definition esc :: "u8 \<Rightarrow> u8 list" where
  "esc ch = (if printable ch then [ch] else if ch = 13 then [92, 114] else if ch = 9 then [92, 116]
     else if ch = 10 then [92, 110]
     else [92, 120, hexdigits ! unat (drop_bit 4 ch AND 15), hexdigits ! unat (ch AND 15)])"

definition counted :: "u8 \<Rightarrow> nat" where
  "counted ch = (if printable ch then 1 else if ch \<in> {13, 9, 10} then 3 else 5)"

text \<open>The characters that are copied when \<open>len\<close> have been counted and the limit is \<open>mx\<close>.\<close>

fun copied :: "nat \<Rightarrow> nat \<Rightarrow> u8 list \<Rightarrow> u8 list" where
  "copied len mx [] = []"
| "copied len mx (x # xs) = (if len < mx then x # copied (len + counted x) mx xs else [])"

lemma counted_esc: "counted ch = length (esc ch) + (if printable ch then 0 else 1)"
  by (simp add: counted_def esc_def)

lemma esc_length: "1 \<le> length (esc ch)" "length (esc ch) \<le> 4"
  by (simp_all add: esc_def)

lemma expand_loop_stop: "m buf2 = 0 \<or> \<not> len < mx \<Longrightarrow> expand_loop buf1 buf2 len mx m = Some (buf1, len, m)"
  by (subst expand_loop.simps) auto

lemma expand_loop_step:
  assumes "m buf2 = ch" and "ch \<noteq> 0" and "len < mx"
  shows "expand_loop buf1 buf2 len mx m = expand_loop (buf1 + of_nat (length (esc ch))) (buf2 + 1) (len + of_nat (counted ch)) mx (put_bytes buf1 (esc ch) m)"
  using assms by (subst expand_loop.simps) (simp add: esc_def counted_def printable_def Let_def add.assoc del: fun_upd_apply)

lemma copied_bound:
  "len \<le> mx \<Longrightarrow> len + length (concat (map esc (copied len mx xs))) \<le> mx + 3"
proof (induction xs arbitrary: len)
  case (Cons x xs)
  show ?case
  proof (cases "len + counted x \<le> mx")
    case True
    then show ?thesis using Cons.IH [OF True] counted_esc [of x] Cons.prems by auto
  next
    case False
    have "copied (len + counted x) mx xs = []" using False by (cases xs) auto
    then show ?thesis using esc_length [of x] Cons.prems by auto
  qed
qed simp

lemma copied_printable: "list_all printable xs \<Longrightarrow> copied len mx xs = take (mx - len) xs"
proof (induction xs arbitrary: len)
  case (Cons x xs)
  show ?case
  proof (cases "len < mx")
    case True
    then have "mx - len = Suc (mx - Suc len)" by simp
    then show ?thesis using Cons True by (simp add: counted_def)
  qed simp
qed simp

lemma concat_esc_printable: "list_all printable xs \<Longrightarrow> concat (map esc xs) = xs"
  by (induction xs) (simp_all add: esc_def)

lemma expand_loop_str:
  assumes "str_at m buf2 xs" and "cells buf1 (4 * length xs) \<inter> cells buf2 (Suc (length xs)) = {}"
    and "len + 5 * length xs < 2 ^ 32"
  shows "expand_loop buf1 buf2 (of_nat len) mx m =
    (let ys = copied len (unat mx) xs
     in Some (buf1 + of_nat (length (concat (map esc ys))), of_nat (len + sum_list (map counted ys)),
              put_bytes buf1 (concat (map esc ys)) m))"
  using assms
proof (induction xs arbitrary: m buf1 buf2 len)
  case Nil
  then show ?case by (simp add: expand_loop_stop)
next
  case (Cons x xs)
  have lt: "of_nat len < mx \<longleftrightarrow> len < unat mx"
    using Cons.prems(3) by (simp add: word_less_nat_alt unat_of_nat_small)
  show ?case
  proof (cases "len < unat mx")
    case False
    then show ?thesis using lt by (simp add: expand_loop_stop)
  next
    case True
    let ?m = "put_bytes buf1 (esc x) m" and ?b = "buf1 + of_nat (length (esc x))"
    have sub: "cells buf1 (length (esc x)) \<union> cells ?b (4 * length xs) \<subseteq> cells buf1 (4 * length (x # xs))"
    proof -
      have "cells a i \<subseteq> cells a j" if "i \<le> j" for a i j using that by (auto simp: cells_def)
      moreover have "cells ?b (4 * length xs) \<subseteq> cells buf1 (4 + 4 * length xs)"
        using esc_length [of x] by (fastforce simp: cells_def image_iff add.assoc simp flip: of_nat_add)
      ultimately show ?thesis using esc_length [of x] by simp
    qed
    have s: "str_at ?m (buf2 + 1) xs = str_at m (buf2 + 1) xs"
      using Cons.prems(2) sub by (intro str_at_frame put_bytes_other) (auto simp: cells_Suc)
    have "counted x \<le> 5" by (simp add: counted_def)
    moreover have "cells ?b (4 * length xs) \<inter> cells (buf2 + 1) (Suc (length xs)) = {}"
      using Cons.prems(2) sub by (auto simp: cells_Suc)
    ultimately have IH: "expand_loop ?b (buf2 + 1) (of_nat (len + counted x)) mx ?m =
        (let ys = copied (len + counted x) (unat mx) xs
         in Some (?b + of_nat (length (concat (map esc ys))), of_nat (len + counted x + sum_list (map counted ys)),
              put_bytes ?b (concat (map esc ys)) ?m))"
      using Cons.prems s by (intro Cons.IH) simp_all
    show ?thesis
      using expand_loop_step [of m buf2 x "of_nat len" mx buf1] Cons.prems(1) True lt IH
      by (simp add: Let_def put_bytes_append add.assoc del: fun_upd_apply)
  qed
qed

text \<open>C40. \<^verbatim>\<open>expand_args()\<close> writes the escape sequences of the characters it copies and a NUL, and nothing else;
  on printable text it is the truncation to the size of the buffer and the result is the number of
  characters. Every escape sequence is counted with one character too many, so the result is not the
  number of characters placed when there is one, and the text may exceed the buffer by up to three
  characters, because the room is tested before a sequence and not for it.\<close>

theorem expand_args_text:
  assumes "str_at m buf2 xs" and "cells buf1 (4 * length xs) \<inter> cells buf2 (Suc (length xs)) = {}"
    and "5 * length xs < 2 ^ 32" and "0 < mx" and "ys = copied 0 (unat mx - 1) xs"
  shows "expand_args buf1 buf2 mx m =
      Some (of_nat (length (concat (map esc ys)) + length (filter (\<lambda>c. \<not> printable c) ys)),
            put_bytes buf1 (concat (map esc ys) @ [0]) m) \<and>
    prefix ys xs \<and> length (concat (map esc ys)) < unat mx + 3 \<and>
    (list_all printable xs \<longrightarrow> concat (map esc ys) = take (unat mx - 1) xs)"
proof (intro conjI impI)
  have mx: "unat (mx - 1) = unat mx - 1" using assms(4) by (auto simp: unat_sub_if' word_le_nat_alt word_less_nat_alt)
  have "sum_list (map counted ys) = length (concat (map esc ys)) + length (filter (\<lambda>c. \<not> printable c) ys)" for ys
    by (induction ys) (simp_all add: counted_esc)
  then show "expand_args buf1 buf2 mx m =
      Some (of_nat (length (concat (map esc ys)) + length (filter (\<lambda>c. \<not> printable c) ys)),
            put_bytes buf1 (concat (map esc ys) @ [0]) m)"
    using expand_loop_str [OF assms(1,2), of 0 "mx - 1"] assms(3) mx
    by (simp add: assms(5) expand_args_def Let_def put_bytes_append del: fun_upd_apply)
  have "prefix (copied len k xs) xs" for len k by (induction xs arbitrary: len) simp_all
  then show "prefix ys xs" by (simp add: assms(5))
  have "0 < unat mx" using assms(4) by (simp add: word_less_nat_alt)
  then show "length (concat (map esc ys)) < unat mx + 3" using copied_bound [of 0 "unat mx - 1" xs] by (simp add: assms(5))
  show "concat (map esc ys) = take (unat mx - 1) xs" if "list_all printable xs"
    using that unfolding assms(5) by (metis concat_esc_printable copied_printable diff_zero list_all_iff in_set_takeD)
qed

text \<open>A control character and a buffer of two bytes: five bytes are written.\<close>

theorem expand_args_text_witness:
  "expand_args 100 200 2 (put_bytes 200 [7] (\<lambda>_. 0)) = Some (5, put_bytes 100 [92, 120, 48, 55, 0] (put_bytes 200 [7] (\<lambda>_. 0)))"
proof -
  let ?m = "put_bytes 200 [7] (\<lambda>_. 0) :: memory"
  have "str_at ?m 200 [7]" by simp
  moreover have "cells 100 (4 * length [7 :: u8]) \<inter> cells 200 (Suc (length [7 :: u8])) = {}"
    by (simp add: cells_Suc cells_iff)
  ultimately show ?thesis using expand_args_text [of ?m 200 "[7]" 100 2 "[7]"]
    by (simp add: esc_def printable_def hexdigits_def del: fun_upd_apply)
qed

section \<open>Argument vectors\<close>

text \<open>The first \<open>k\<close> fields of a string, where they begin, and whether there is more after them. A separator
  at the very end begins no field.\<close>

definition field :: "u8 \<Rightarrow> u8 list \<Rightarrow> u8 list" where
  "field sep xs = takeWhile (\<lambda>c. c \<noteq> sep) xs"

definition behind :: "u8 \<Rightarrow> u8 list \<Rightarrow> u8 list" where
  "behind sep xs = drop (Suc (length (field sep xs))) xs"

fun fields :: "nat \<Rightarrow> u8 \<Rightarrow> u8 list \<Rightarrow> u8 list list" where
  "fields 0 sep xs = []"
| "fields (Suc k) sep xs = field sep xs # (if behind sep xs = [] then [] else fields k sep (behind sep xs))"

fun more_fields :: "nat \<Rightarrow> u8 \<Rightarrow> u8 list \<Rightarrow> bool" where
  "more_fields 0 sep xs = True"
| "more_fields (Suc k) sep xs = (behind sep xs \<noteq> [] \<and> more_fields k sep (behind sep xs))"

fun starts :: "u32 \<Rightarrow> u8 list list \<Rightarrow> u32 list" where
  "starts p [] = []"
| "starts p (f # fs) = p # starts (p + of_nat (length f) + 1) fs"

lemma find_sep_str:
  "str_at m p xs \<Longrightarrow> find_sep p sep m =
    (if sep \<in> set xs then Some (p + of_nat (length (field sep xs)) + 1, m(p + of_nat (length (field sep xs)) := 0))
     else Some (p + of_nat (length xs), m))"
  by (induction xs arbitrary: p) (simp_all add: find_sep.simps field_def ac_simps del: fun_upd_apply)

lemma field_split:
  "xs = (if sep \<in> set xs then field sep xs @ sep # behind sep xs else field sep xs)"
  by (induction xs) (auto simp: field_def behind_def)

lemma str_at_append: "str_at m a (xs @ ys) \<longleftrightarrow> 0 \<notin> set xs \<and> (\<forall>i < length xs. m (a + of_nat i) = xs ! i) \<and> str_at m (a + of_nat (length xs)) ys"
  by (induction xs arbitrary: a) (auto simp: less_Suc_eq_0_disj nth_Cons' ac_simps All_less_Suc2)

lemma cells_subset: "unat (a - b) + i \<le> j \<Longrightarrow> cells a i \<subseteq> cells b j"
proof
  fix x assume j: "unat (a - b) + i \<le> j" and "x \<in> cells a i"
  then obtain k where k: "k < i" "x = a + of_nat k" by (auto simp: cells_def)
  then have "x = b + of_nat (unat (a - b) + k)" by simp
  then show "x \<in> cells b j" unfolding cells_def by (rule image_eqI) (use j k in simp)
qed

text \<open>One round of the outer loop after the entry of the vector has been written.\<close>

lemma find_sep_field:
  assumes "str_at m p xs" and "length xs < 2 ^ 32"
  obtains p' m' where "find_sep p sep m = Some (p', m')" "str_at m' p (field sep xs)"
    "m' p' = 0 \<longleftrightarrow> behind sep xs = []" "behind sep xs \<noteq> [] \<Longrightarrow> p' = p + of_nat (length (field sep xs)) + 1 \<and> str_at m' p' (behind sep xs)"
    "\<And>x. x \<notin> cells p (length xs) \<Longrightarrow> m' x = m x"
proof (cases "sep \<in> set xs")
  case False
  have "field sep xs = xs" using False field_split [of xs sep] by simp
  moreover have "behind sep xs = []" unfolding behind_def using calculation by simp
  moreover have "m (p + of_nat (length xs)) = 0" using assms(1) str_at_append [of m p xs "[]"] by simp
  ultimately show thesis using that False find_sep_str [OF assms(1), of sep] assms(1) by simp
next
  case True
  let ?f = "field sep xs" and ?r = "behind sep xs"
  let ?q = "p + of_nat (length ?f)"
  let ?m = "m(?q := 0)"
  have xs: "xs = ?f @ sep # ?r" using True field_split [of xs sep] by simp
  have len: "length xs = length ?f + Suc (length ?r)" by (subst xs) simp
  have s: "str_at m p (?f @ sep # ?r)" using assms(1) xs by simp
  have r: "str_at ?m (?q + 1) ?r = str_at m (?q + 1) ?r"
    using cells_head [of "Suc (length ?r)" ?q] assms(2) len by (intro str_at_frame) auto
  have "(of_nat i :: u32) \<noteq> of_nat (length ?f)" if "i < length ?f" for i
    using that assms(2) len by (simp add: word_unat_eq_iff unat_of_nat_small)
  then have f: "str_at ?m p ?f"
    using s str_at_append [of ?m p ?f "[]"] by (auto simp: str_at_append)
  have q: "str_at ?m (?q + 1) ?r" using s r by (simp add: str_at_append)
  have "?q \<in> cells p (length xs)" using len by (auto simp: cells_def)
  then have "?m x = m x" if "x \<notin> cells p (length xs)" for x using that by auto
  moreover have "?m (?q + 1) = 0 \<longleftrightarrow> ?r = []" using q by (cases ?r) auto
  ultimately show thesis using that [of "?q + 1" ?m] find_sep_str [OF assms(1), of sep] True f q by simp
qed

lemma cells_apart:
  assumes "n + k \<le> 2 ^ 32"
  shows "cells a n \<inter> cells (a + of_nat n) k = {}"
proof -
  have "(of_nat i :: u32) \<noteq> of_nat (n + j)" if "i < n" "j < k" for i j
    using that assms by (simp only: word_unat_eq_iff unat_of_nat_small)
  then show ?thesis by (auto simp: cells_def add.assoc simp flip: of_nat_add)
qed

lemma store32_outside: "x \<notin> cells a 4 \<Longrightarrow> store32 m a v x = m x"
  by (rule store32_other) (use cells_iff [of 4 x a] in \<open>simp add: word_le_nat_alt\<close>)

lemma load32_frame: "(\<And>x. x \<in> cells a 4 \<Longrightarrow> m' x = m x) \<Longrightarrow> load32 m' a = load32 m a"
  by (rule load32_cong) (simp add: cells_iff word_less_nat_alt)

lemma behind_length: "behind sep xs \<noteq> [] \<Longrightarrow> length xs = length (field sep xs) + 1 + length (behind sep xs)"
  by (simp add: behind_def)

lemma parse_loop_run:
  assumes "str_at m p xs" and "length xs < 2 ^ 32" and "int k = argc - i" and "argc < n"
    and "a = argv + 4 * word_of_int i" and "cells a (4 * k) \<inter> cells p (Suc (length xs)) = {}" and "4 * k \<le> 2 ^ 32"
    and "fs = fields k sep xs"
  shows "\<exists>m'. parse_loop i argc n p sep argv m = Some (i + int (length fs) - (if more_fields k sep xs then 0 else 1), m') \<and>
    (\<forall>j < length fs. load32 m' (a + 4 * of_nat j) = starts p fs ! j \<and> str_at m' (starts p fs ! j) (fs ! j)) \<and>
    (\<forall>x. x \<notin> cells a (4 * k) \<union> cells p (length xs) \<longrightarrow> m' x = m x)"
  using assms
proof (induction k arbitrary: m p xs i a fs)
  case 0
  then show ?case by (simp add: parse_loop.simps)
next
  case (Suc k)
  let ?f = "field sep xs" and ?r = "behind sep xs" and ?m = "store32 m a p"
  note dis = Suc.prems(6)
  have ca: "cells a (4 * Suc k) = cells a 4 \<union> cells (a + 4) (4 * k)" using cells_split [of a 4 "4 * k"] by simp
  have cp: "cells p (length xs) \<subseteq> cells p (Suc (length xs))" by (auto simp: cells_def)
  have "str_at ?m p xs" using Suc.prems(1) ca dis str_at_frame [of p xs ?m m] store32_outside by blast
  then obtain p' m2 where m2: "find_sep p sep ?m = Some (p', m2)" "str_at m2 p ?f" "m2 p' = 0 \<longleftrightarrow> ?r = []"
    "?r \<noteq> [] \<Longrightarrow> p' = p + of_nat (length ?f) + 1 \<and> str_at m2 p' ?r" "\<And>x. x \<notin> cells p (length xs) \<Longrightarrow> m2 x = ?m x"
    using find_sep_field [of ?m p xs sep] Suc.prems(2) by metis
  have ld: "load32 m2 a = p" using m2(5) load32_frame [of a m2 ?m] ca cp dis by fastforce
  have fr: "m2 x = m x" if "x \<notin> cells a (4 * Suc k) \<union> cells p (length xs)" for x
    using that m2(5) store32_outside ca by simp
  have step: "parse_loop i argc n p sep argv m =
      (if ?r = [] then Some (i, m2) else parse_loop (i + 1) argc n p' sep argv m2)"
    using Suc.prems(3,4,5) m2(1,3) by (subst parse_loop.simps) simp
  show ?case
  proof (cases "?r = []")
    case True
    then show ?thesis using step ld m2(2) fr Suc.prems(8) by auto
  next
    case False
    define gs where "gs = fields k sep ?r"
    have p': "p' = p + of_nat (Suc (length ?f))" "str_at m2 p' ?r" using m2(4) [OF False] by (auto simp: ac_simps)
    have len: "length xs = Suc (length ?f) + length ?r" using behind_length [OF False] by simp
    have cx: "cells p (Suc (length xs)) = cells p (Suc (length ?f)) \<union> cells p' (Suc (length ?r))"
      "cells p (length xs) = cells p (Suc (length ?f)) \<union> cells p' (length ?r)"
      using cells_split [of p "Suc (length ?f)" "Suc (length ?r)"] cells_split [of p "Suc (length ?f)" "length ?r"] len p'(1) by simp_all
    have a4: "a + 4 = argv + 4 * word_of_int (i + 1)" using Suc.prems(5) by (simp add: algebra_simps)
    have "cells (a + 4) (4 * k) \<inter> cells p' (Suc (length ?r)) = {}" using dis ca cx by blast
    then obtain m' where m': "parse_loop (i + 1) argc n p' sep argv m2 = Some (i + 1 + int (length gs) - (if more_fields k sep ?r then 0 else 1), m')"
      "\<And>j. j < length gs \<Longrightarrow> load32 m' (a + 4 + 4 * of_nat j) = starts p' gs ! j \<and> str_at m' (starts p' gs ! j) (gs ! j)"
      "\<And>x. x \<notin> cells (a + 4) (4 * k) \<union> cells p' (length ?r) \<Longrightarrow> m' x = m2 x"
      using Suc.IH [OF p'(2) _ _ Suc.prems(4) a4 _ _ gs_def] Suc.prems(2,3,7) len by fastforce
    have "cells a 4 \<inter> (cells (a + 4) (4 * k) \<union> cells p' (length ?r)) = {}"
      using cells_apart [of 4 "4 * k" a] Suc.prems(7) dis ca cx cp by (simp del: mult_Suc_right) blast
    then have "load32 m' a = p" using load32_frame [of a m' m2] m'(3) ld by blast
    moreover have "cells p (Suc (length ?f)) \<inter> (cells (a + 4) (4 * k) \<union> cells p' (length ?r)) = {}"
      using cells_apart [of "Suc (length ?f)" "length ?r" p] Suc.prems(2) len p'(1) dis ca cx by (simp del: of_nat_Suc) blast
    then have "str_at m' p ?f" using str_at_frame [of p ?f m' m2] m'(3) m2(2) by blast
    moreover have fs: "fs = ?f # gs" using Suc.prems(8) False gs_def by simp
    ultimately have "load32 m' (a + 4 * of_nat j) = starts p fs ! j \<and> str_at m' (starts p fs ! j) (fs ! j)" if "j < length fs" for j
      using that m'(2) [of "j - 1"] p'(1) by (cases j) (simp_all add: algebra_simps)
    moreover have "m' x = m x" if "x \<notin> cells a (4 * Suc k) \<union> cells p (length xs)" for x
      using that m'(3) fr ca cx by auto
    ultimately show ?thesis using step m'(1) False fs by auto
  qed
qed

text \<open>C39. \<^verbatim>\<open>parseArgs()\<close> on a string with room in the vector: the entries point to the first \<open>argc\<close> fields of
  the string, each of them terminated by a NUL, and nothing else changes. The result is the number of
  fields found when the string ends with them; when more of the string is left, and also for an
  \<open>argc\<close> of zero, it is one larger, and the last entry it promises has not been written.\<close>

theorem parseArgs_fields:
  assumes "str_at m args xs" and "args \<noteq> NULL" and "length xs < 2 ^ 32" and "0 \<le> argc" and "argc < n" and "argc \<le> 2 ^ 30"
    and "cells argv (4 * nat argc) \<inter> cells args (Suc (length xs)) = {}"
    and "fs = fields (nat argc) sep xs"
  shows "\<exists>m'. parseArgs argc args sep n argv m = Some (int (length fs) + (if more_fields (nat argc) sep xs then 1 else 0), m') \<and>
    (\<forall>j < length fs. load32 m' (argv + 4 * of_nat j) = starts args fs ! j \<and> str_at m' (starts args fs ! j) (fs ! j)) \<and>
    (\<forall>x. x \<notin> cells argv (4 * nat argc) \<union> cells args (length xs) \<longrightarrow> m' x = m x)"
  using parse_loop_run [of m args xs "nat argc" argc 0 n argv argv fs sep] assms by (fastforce simp: parseArgs_def)

text \<open>"a b" and a vector of three entries of which one may be used: the result is 2.\<close>

theorem parseArgs_fields_witness:
  "\<exists>m'. parseArgs 1 100 32 3 200 (put_bytes 100 [97, 32, 98] (\<lambda>_. 0)) = Some (2, m') \<and> load32 m' 200 = 100 \<and> str_at m' 100 [97] \<and>
    load32 m' 204 = 0"
proof -
  let ?m = "put_bytes 100 [97, 32, 98] (\<lambda>_. 0) :: memory"
  have "cells 200 (4 * nat 1) \<inter> cells 100 (Suc (length [97, 32, 98 :: u8])) = {}"
    by (simp add: cells_Suc cells_iff)
  moreover have "str_at ?m 100 [97, 32, 98]" by simp
  ultimately have "\<exists>m'. parseArgs 1 100 32 3 200 ?m = Some (2, m') \<and> load32 m' 200 = 100 \<and> str_at m' 100 [97] \<and>
      (\<forall>x. x \<notin> cells 200 4 \<union> cells 100 (Suc (Suc (Suc 0))) \<longrightarrow> m' x = ?m x)"
    using parseArgs_fields [of ?m 100 "[97, 32, 98]" 1 3 200 "[[97]]" 32]
    by (simp add: field_def behind_def del: fun_upd_apply)
  then obtain m' where m': "parseArgs 1 100 32 3 200 ?m = Some (2, m')" "load32 m' 200 = 100" "str_at m' 100 [97]"
    "\<And>x. x \<notin> cells 200 4 \<union> cells 100 (Suc (Suc (Suc 0))) \<Longrightarrow> m' x = ?m x" by blast
  have "m' x = 0" if "x \<in> {204, 205, 206, 207}" for x using m'(4) [of x] that by (auto simp: cells_iff)
  then have "load32 m' 204 = 0" by (simp add: load32_def)
  with m'(1-3) show ?thesis by blast
qed

end
