(* ===== verification/User_Calls.thy ===== *)
theory User_Calls
  imports Kernel Sprint_Text User_Lib
begin

text \<open>
  User programs as interaction trees. A program is what it asks of the kernel and how it goes on for every
  answer; strings are byte lists, messages are composed by the reference definition of \<^verbatim>\<open>sprint()\<close> into
  buffers of the declared size. The theory has the system call stubs of \<^verbatim>\<open>lib/usys.S\<close>, the short forms of
  \<^verbatim>\<open>lib/uextras.c\<close> with \<^verbatim>\<open>spawn()\<close>, the argument processing that all programs share (\<^verbatim>\<open>include/udefs.h\<close>), and
  a calculus for what holds of all runs of a program, whatever the kernel answers.
\<close>

section \<open>Programs\<close>

text \<open>The system calls. A string or buffer that is passed is given by its bytes; \<open>SysWait\<close> tells whether there is a
  pointer for the status.\<close>

datatype sysreq = SysExit u32 | SysWait bool | SysFork u8 | SysExec u32 "u8 list" | SysRead u32 u32
  | SysWrite u32 "u8 list" | SysSleep u32 | SysGetpid | SysGettime | SysGetprio u32 | SysBogus

text \<open>An answer: the value of the call and, for \<^verbatim>\<open>wait()\<close>, the status if one has been stored.\<close>

type_synonym sysans = "u32 \<times> u32 option"

text \<open>A program returns from its main function, makes a system call, does something that C leaves undefined,
  or is cut off after the number of iterations of an endless loop that the definition was given.\<close>

datatype prog = Return u32 | Call sysreq "sysans \<Rightarrow> prog" | Undefined | Running

section \<open>System calls and their short forms\<close>

text \<open>Definitions take the rest of the program as their last argument.\<close>

definition exit :: "u32 \<Rightarrow> prog \<Rightarrow> prog" where
  "exit status k = Call (SysExit status) (\<lambda>_. k)"

definition wait :: "bool \<Rightarrow> (sysans \<Rightarrow> prog) \<Rightarrow> prog" where
  "wait has_status k = Call (SysWait has_status) k"

definition fork :: "u8 \<Rightarrow> (u32 \<Rightarrow> prog) \<Rightarrow> prog" where
  "fork priority k = Call (SysFork priority) (\<lambda>(r, _). k r)"

definition exec :: "u32 \<Rightarrow> u8 list \<Rightarrow> prog \<Rightarrow> prog" where
  "exec what args k = Call (SysExec what args) (\<lambda>_. k)"

definition read :: "u32 \<Rightarrow> u32 \<Rightarrow> (u32 \<Rightarrow> prog) \<Rightarrow> prog" where
  "read chan len k = Call (SysRead chan len) (\<lambda>(r, _). k r)"

definition uwrite :: "u32 \<Rightarrow> u8 list \<Rightarrow> (u32 \<Rightarrow> prog) \<Rightarrow> prog" where
  "uwrite chan buf k = Call (SysWrite chan buf) (\<lambda>(r, _). k r)"

definition sleep :: "u32 \<Rightarrow> prog \<Rightarrow> prog" where
  "sleep n k = Call (SysSleep n) (\<lambda>_. k)"

definition getpid :: "(u32 \<Rightarrow> prog) \<Rightarrow> prog" where
  "getpid k = Call SysGetpid (\<lambda>(r, _). k r)"

definition gettime :: "(u32 \<Rightarrow> prog) \<Rightarrow> prog" where
  "gettime k = Call SysGettime (\<lambda>(r, _). k r)"

definition getprio :: "u32 \<Rightarrow> (u32 \<Rightarrow> prog) \<Rightarrow> prog" where
  "getprio pid k = Call (SysGetprio pid) (\<lambda>(r, _). k r)"

definition bogus :: "prog \<Rightarrow> prog" where
  "bogus k = Call SysBogus (\<lambda>_. k)"

text \<open>The bytes of a C string: up to the first NUL.\<close>

definition cstring :: "u8 list \<Rightarrow> u8 list" where
  "cstring buf = takeWhile (\<lambda>c. c \<noteq> 0) buf"

definition cwritech :: "u8 \<Rightarrow> (u32 \<Rightarrow> prog) \<Rightarrow> prog" where
  "cwritech ch k = uwrite CHAN_CIO [ch] k"

definition cwrites :: "u8 list \<Rightarrow> (u32 \<Rightarrow> prog) \<Rightarrow> prog" where
  "cwrites str k = uwrite CHAN_CIO (cstring str) k"

definition cwrite :: "u8 list \<Rightarrow> (u32 \<Rightarrow> prog) \<Rightarrow> prog" where
  "cwrite buf k = uwrite CHAN_CIO buf k"

definition swritech :: "u8 \<Rightarrow> (u32 \<Rightarrow> prog) \<Rightarrow> prog" where
  "swritech ch k = uwrite CHAN_SIO [ch] k"

definition swrites :: "u8 list \<Rightarrow> (u32 \<Rightarrow> prog) \<Rightarrow> prog" where
  "swrites str k = uwrite CHAN_SIO (cstring str) k"

definition swrite :: "u8 list \<Rightarrow> (u32 \<Rightarrow> prog) \<Rightarrow> prog" where
  "swrite buf k = uwrite CHAN_SIO buf k"

text \<open>\<^verbatim>\<open>sprint()\<close> into a buffer of \<open>sz\<close> bytes, and the common case that the text is then written to the
  console or to the serial line and the result of the write is ignored.\<close>

definition usprint :: "nat \<Rightarrow> u8 list \<Rightarrow> parg list \<Rightarrow> (u8 list \<Rightarrow> prog) \<Rightarrow> prog" where
  "usprint sz fmt ap k =
     (case sprint_text (fmt @ [0]) ap of None \<Rightarrow> Undefined
      | Some buf \<Rightarrow> if length buf < sz then k buf else Undefined)"

definition say :: "nat \<Rightarrow> u8 list \<Rightarrow> parg list \<Rightarrow> prog \<Rightarrow> prog" where
  "say sz fmt ap k = usprint sz fmt ap (\<lambda>buf. cwrites buf (\<lambda>_. k))"

definition tell :: "nat \<Rightarrow> u8 list \<Rightarrow> parg list \<Rightarrow> prog \<Rightarrow> prog" where
  "tell sz fmt ap k = usprint sz fmt ap (\<lambda>buf. swrites buf (\<lambda>_. k))"

text \<open>A \<^verbatim>\<open>char\<close> as an argument is promoted to \<^verbatim>\<open>int\<close>.\<close>

definition Char :: "u8 \<Rightarrow> parg" where
  "Char ch = Num (scast ch)"

text \<open>The child of \<^verbatim>\<open>spawn()\<close> goes on behind the \<^verbatim>\<open>exec()\<close> only when that has failed; the name of the program is
  copied into an array of 16 bytes.\<close>

definition spawn :: "u32 \<Rightarrow> u8 list \<Rightarrow> (u32 \<Rightarrow> prog) \<Rightarrow> prog" where
  "spawn what args k =
     fork PRIO_INHERIT (\<lambda>pid.
       if pid \<noteq> 0 then k pid
       else exec what args (getpid (\<lambda>pid.
         let pname = takeWhile (\<lambda>c. 32 \<le> sint c \<and> sint c < 127) args
         in if length pname < 16
            then say 512 (line ''Child %d exec(%08x,'%s') failed'') [Num pid, Num what, Str pname]
              (exit S_ERROR (k 42))
            else Undefined)))"

section \<open>Control\<close>

definition if_so :: "bool \<Rightarrow> (prog \<Rightarrow> prog) \<Rightarrow> prog \<Rightarrow> prog" where
  "if_so b body k = (if b then body k else k)"

text \<open>\<open>for_loop n i body k\<close>: the body for \<open>i\<close>, \<open>i + 1\<close> and so on, \<open>n\<close> times; \<open>for_state\<close> also carries the variables
  that the body assigns.\<close>

fun for_loop :: "nat \<Rightarrow> int \<Rightarrow> (int \<Rightarrow> prog \<Rightarrow> prog) \<Rightarrow> prog \<Rightarrow> prog" where
  "for_loop 0 i body k = k"
| "for_loop (Suc n) i body k = body i (for_loop n (i + 1) body k)"

fun for_state :: "nat \<Rightarrow> int \<Rightarrow> (int \<Rightarrow> 's \<Rightarrow> ('s \<Rightarrow> prog) \<Rightarrow> prog) \<Rightarrow> 's \<Rightarrow> ('s \<Rightarrow> prog) \<Rightarrow> prog" where
  "for_state 0 i body s k = k s"
| "for_state (Suc n) i body s k = body i s (\<lambda>s. for_state n (i + 1) body s k)"

section \<open>Arguments\<close>

definition ARG_SEP :: u8 where "ARG_SEP = 13"

text \<open>The macro that every program begins with: \<open>vlen\<close> entries, all NULL at first, then \<^verbatim>\<open>parseArgs()\<close>.\<close>

definition ARG_PROC :: "nat \<Rightarrow> u8 list option \<Rightarrow> nat \<Rightarrow> int \<times> u8 list option list" where
  "ARG_PROC n str vlen =
     (case str of None \<Rightarrow> (-1, replicate vlen None)
      | Some xs \<Rightarrow>
        if n \<ge> vlen then (-1, replicate vlen None)
        else let fs = fields n ARG_SEP xs
             in (int (length fs) + (if more_fields n ARG_SEP xs then 1 else 0),
                 map Some fs @ replicate (vlen - length fs) None))"

definition SEC_TO_MS :: "u32 \<Rightarrow> u32" where
  "SEC_TO_MS n = n * 1000"

text \<open>Reading an entry of the vector, a string in it and the first character of the string; a string of the
  vector as an argument of \<^verbatim>\<open>sprint()\<close>.\<close>

definition entry_at :: "u8 list option list \<Rightarrow> int \<Rightarrow> (u8 list option \<Rightarrow> prog) \<Rightarrow> prog" where
  "entry_at argv i k = (if 0 \<le> i \<and> i < int (length argv) then k (argv ! nat i) else Undefined)"

definition string_at :: "u8 list option list \<Rightarrow> int \<Rightarrow> (u8 list \<Rightarrow> prog) \<Rightarrow> prog" where
  "string_at argv i k = entry_at argv i (\<lambda>e. case e of None \<Rightarrow> Undefined | Some s \<Rightarrow> k s)"

definition first_char :: "u8 list \<Rightarrow> u8" where
  "first_char s = (case s of [] \<Rightarrow> 0 | c # _ \<Rightarrow> c)"

text \<open>\<^verbatim>\<open>str2int()\<close> in base 10 on the bytes of a string.\<close>

fun dec_digits :: "u32 \<Rightarrow> u8 list \<Rightarrow> u32" where
  "dec_digits num [] = num"
| "dec_digits num (c # cs) = (if 48 \<le> c \<and> c \<le> 57 then dec_digits (num * 10 + (ucast c - 48)) cs else num)"

definition dec_read :: "u8 list \<Rightarrow> u32" where
  "dec_read xs = (if xs \<noteq> [] \<and> hd xs = 45 then dec_digits 0 (tl xs) * (-1) else dec_digits 0 xs)"

text \<open>The unexpected number of arguments: a report and the entries from \<open>i0\<close> to \<open>argc\<close>, the last one included;
  \<open>ix\<close> is the index used for the entry.\<close>

definition show_args ::
    "nat \<Rightarrow> u8 list \<Rightarrow> parg list \<Rightarrow> int \<Rightarrow> (int \<Rightarrow> int) \<Rightarrow> int \<Rightarrow> u8 list option list \<Rightarrow> prog \<Rightarrow> prog" where
  "show_args sz fmt ap i0 ix argc argv k =
     say sz fmt ap
       (for_loop (nat (argc + 1 - i0)) i0
         (\<lambda>i k. entry_at argv (ix i) (\<lambda>e.
            say sz (lit '' %s'') [case e of None \<Rightarrow> Str (lit ''(null)'') | Some s \<Rightarrow> Str s] k))
         (cwrites (line []) (\<lambda>_. k)))"

text \<open>The common form of that report, headed by the program's name.\<close>

definition usage :: "nat \<Rightarrow> int \<Rightarrow> int \<Rightarrow> u8 list option list \<Rightarrow> prog \<Rightarrow> prog" where
  "usage sz i0 argc argv k =
     string_at argv 0 (\<lambda>name. show_args sz (lit ''%s: argc %d, args: '') [Str name, Num (word_of_int argc)] i0 (\<lambda>i. i) argc argv k)"

text \<open>The switch on the number of arguments that falls through from the last argument to the character; \<open>other\<close> is
  the default branch.\<close>

definition switch3 :: "int \<Rightarrow> u8 list option list \<Rightarrow> u32 \<Rightarrow> u8 \<Rightarrow> (prog \<Rightarrow> prog) \<Rightarrow> (u32 \<Rightarrow> u8 \<Rightarrow> prog) \<Rightarrow> prog" where
  "switch3 argc argv count ch other k =
     (if argc = 3 then string_at argv 2 (\<lambda>s2. string_at argv 1 (\<lambda>s1. k (dec_read s2) (first_char s1)))
      else if argc = 2 then string_at argv 1 (\<lambda>s1. k count (first_char s1))
      else other (k count ch))"

definition switch4 ::
    "int \<Rightarrow> u8 list option list \<Rightarrow> 'v \<Rightarrow> (u8 list \<Rightarrow> 'v) \<Rightarrow> u32 \<Rightarrow> u8 \<Rightarrow> (prog \<Rightarrow> prog) \<Rightarrow> ('v \<Rightarrow> u32 \<Rightarrow> u8 \<Rightarrow> prog) \<Rightarrow> prog" where
  "switch4 argc argv v conv count ch other k =
     (if argc = 4 then string_at argv 3 (\<lambda>s3. string_at argv 2 (\<lambda>s2. string_at argv 1 (\<lambda>s1.
        k (conv s3) (dec_read s2) (first_char s1))))
      else switch3 argc argv count ch other (k v))"

text \<open>An argument string from its parts.\<close>

fun argstr :: "u8 list list \<Rightarrow> u8 list" where
  "argstr [] = []"
| "argstr [f] = f"
| "argstr (f # fs) = f @ ARG_SEP # argstr fs"

section \<open>Runs\<close>

type_synonym trace = "(sysreq \<times> sysans) list"

text \<open>A run of a program on a list of answers: the calls it has made with their answers, and what is left. No
  answer is ever given to \<^verbatim>\<open>exit()\<close>; a return from the main function ends the program as well, because
  \<^verbatim>\<open>fake_exit\<close> passes the value on.\<close>

fun run_on :: "sysans list \<Rightarrow> prog \<Rightarrow> trace \<times> prog" where
  "run_on [] p = ([], p)"
| "run_on (r # rs) p =
     (case p of Call q k \<Rightarrow> (case q of SysExit s \<Rightarrow> ([], p) | _ \<Rightarrow> let (t, p') = run_on rs (k r) in ((q, r) # t, p'))
      | _ \<Rightarrow> ([], p))"

fun ended :: "prog \<Rightarrow> u32 option" where
  "ended (Return s) = Some s"
| "ended (Call q k) = (case q of SysExit s \<Rightarrow> Some s | _ \<Rightarrow> None)"
| "ended p = None"

text \<open>\<open>all_runs p E Q\<close>: under all answers that \<open>E\<close> allows, the program does nothing undefined and every complete
  run has a trace and an exit status with \<open>Q\<close>; the status is \<open>None\<close> where an endless loop has been cut off.\<close>

primrec all_runs :: "prog \<Rightarrow> (sysreq \<Rightarrow> sysans \<Rightarrow> bool) \<Rightarrow> (trace \<Rightarrow> u32 option \<Rightarrow> bool) \<Rightarrow> bool" where
  "all_runs (Return s) = (\<lambda>E Q. Q [] (Some s))"
| "all_runs (Call q k) = (\<lambda>E Q. case q of SysExit s \<Rightarrow> Q [] (Some s) | _ \<Rightarrow> \<forall>r. E q r \<longrightarrow> all_runs (k r) E (\<lambda>t. Q ((q, r) # t)))"
| "all_runs Undefined = (\<lambda>E Q. False)"
| "all_runs Running = (\<lambda>E Q. Q [] None)"

lemma all_runs_Call: "\<forall>s. q \<noteq> SysExit s \<Longrightarrow>
    all_runs (Call q k) E Q \<longleftrightarrow> (\<forall>r. E q r \<longrightarrow> all_runs (k r) E (\<lambda>t. Q ((q, r) # t)))"
  by (cases q) simp_all

lemma all_runs_mono: "all_runs p E Q \<Longrightarrow> (\<And>t e. Q t e \<Longrightarrow> Q' t e) \<Longrightarrow> all_runs p E Q'"
proof (induction p arbitrary: Q Q')
  case (Call q k)
  have "all_runs (k r) E (\<lambda>t. Q' ((q, r) # t))" if "E q r" "\<forall>s. q \<noteq> SysExit s" for r
  proof (rule Call.IH [OF rangeI])
    show "all_runs (k r) E (\<lambda>t. Q ((q, r) # t))" using Call.prems(1) that all_runs_Call by blast
  qed (rule Call.prems(2))
  then show ?case using Call.prems all_runs_Call by (cases "\<exists>s. q = SysExit s") auto
qed auto

text \<open>What the predicate says of the runs on lists of answers: nothing undefined is ever reached, and the
  trace and the status of every run that is complete have the property.\<close>

lemma all_runs_sound:
  "all_runs p E Q \<Longrightarrow> run_on rs p = (t, p') \<Longrightarrow> \<forall>(q, r) \<in> set t. E q r \<Longrightarrow>
    p' \<noteq> Undefined \<and> (\<forall>s. ended p' = Some s \<longrightarrow> Q t (Some s)) \<and> (p' = Running \<longrightarrow> Q t None)"
proof (induction rs arbitrary: p Q t)
  case Nil
  then show ?case by (cases p) (auto split: sysreq.splits)
next
  case (Cons r rs)
  show ?case
  proof (cases p)
    case (Call q k)
    show ?thesis
    proof (cases "\<exists>s. q = SysExit s")
      case True
      then show ?thesis using Cons.prems Call by auto
    next
      case False
      obtain t1 where t1: "run_on rs (k r) = (t1, p')" "t = (q, r) # t1"
        using Cons.prems(2) Call False by (cases q) (auto split: prod.splits)
      have "all_runs (k r) E (\<lambda>t. Q ((q, r) # t))" 
      proof -
        have "E q r" using Cons.prems(3) t1(2) by simp
        then show ?thesis using Cons.prems(1) False all_runs_Call [of q k E Q] unfolding Call by blast
      qed
      from Cons.IH [OF this t1(1)] show ?thesis using Cons.prems(3) t1(2) by auto
    qed
  qed (use Cons.prems in auto)
qed

text \<open>With all answers allowed, every infinite supply of answers brings the program to its end or, in a program
  with an endless loop, to where it has been cut off.\<close>

lemma all_runs_ends:
  "all_runs p (\<lambda>_ _. True) Q \<Longrightarrow> \<exists>n t p'. run_on (map f [i..<i + n]) p = (t, p') \<and>
    (case ended p' of Some s \<Rightarrow> Q t (Some s) | None \<Rightarrow> p' = Running \<and> Q t None)"
proof (induction p arbitrary: Q i)
  case (Return s)
  have "run_on (map f [i..<i + 0]) (Return s) = ([], Return s)" by simp
  then show ?case using Return by fastforce
next
  case Running
  have "run_on (map f [i..<i + 0]) Running = ([], Running)" by simp
  then show ?case using Running by fastforce
next
  case (Call q k)
  show ?case
  proof (cases "\<exists>s. q = SysExit s")
    case True
    have "run_on (map f [i..<i + 0]) (Call q k) = ([], Call q k)" by simp
    then show ?thesis using Call.prems True by fastforce
  next
    case False
    then have "all_runs (k (f i)) (\<lambda>_ _. True) (\<lambda>t. Q ((q, f i) # t))"
      using Call.prems all_runs_Call [of q k "\<lambda>_ _. True" Q] by blast
    then obtain n t p' where n: "run_on (map f [Suc i..<Suc i + n]) (k (f i)) = (t, p')"
      "case ended p' of Some s \<Rightarrow> Q ((q, f i) # t) (Some s) | None \<Rightarrow> p' = Running \<and> Q ((q, f i) # t) None"
      using Call.IH [OF rangeI] by blast
    have "map f [i..<i + Suc n] = f i # map f [Suc i..<Suc i + n]" by (simp add: upt_rec)
    then have "run_on (map f [i..<i + Suc n]) (Call q k) = ((q, f i) # t, p')" using n(1) False by (cases q) simp_all
    then show ?thesis using n(2) by blast
  qed
qed simp

section \<open>Serial output\<close>

text \<open>What a trace has written to the serial line, and the special form of the calculus for it: under all answers,
  the output and the exit status have the property.\<close>

fun written :: "sysreq \<times> sysans \<Rightarrow> u8 list" where
  "written (SysWrite chan buf, r) = (if chan = CHAN_SIO then buf else [])"
| "written (q, r) = []"

definition serial :: "trace \<Rightarrow> u8 list" where
  "serial t = concat (map written t)"

definition serves :: "prog \<Rightarrow> (u8 list \<Rightarrow> u32 option \<Rightarrow> bool) \<Rightarrow> bool" where
  "serves p Q = all_runs p (\<lambda>_ _. True) (\<lambda>t. Q (serial t))"

lemma serial_Nil [simp]: "serial [] = []"
  and serial_Cons [simp]: "serial (x # t) = written x @ serial t"
  by (simp_all add: serial_def)

named_theorems serving

lemma serves_exit [serving]: "Q [] (Some s) \<Longrightarrow> serves (exit s k) Q"
  and serves_Return [serving]: "Q [] (Some s) \<Longrightarrow> serves (Return s) Q"
  and serves_Running [serving]: "Q [] None \<Longrightarrow> serves Running Q"
  and serves_swritech [serving]: "(\<And>r. serves (k' r) (\<lambda>out. Q (ch # out))) \<Longrightarrow> serves (swritech ch k') Q"
  and serves_swrites [serving]: "(\<And>r. serves (k' r) (\<lambda>out. Q (cstring str @ out))) \<Longrightarrow> serves (swrites str k') Q"
  and serves_write [serving]: "(\<And>r. serves (k' r) (\<lambda>out. Q (str @ out))) \<Longrightarrow> serves (uwrite CHAN_SIO str k') Q"
  and serves_cwrites [serving]: "(\<And>r. serves (k' r) Q) \<Longrightarrow> serves (cwrites str k') Q"
  and serves_sleep [serving]: "serves k Q \<Longrightarrow> serves (sleep n k) Q"
  and serves_getpid [serving]: "(\<And>r. serves (k' r) Q) \<Longrightarrow> serves (getpid k') Q"
  and serves_gettime [serving]: "(\<And>r. serves (k' r) Q) \<Longrightarrow> serves (gettime k') Q"
  and serves_getprio [serving]: "(\<And>r. serves (k' r) Q) \<Longrightarrow> serves (getprio pid k') Q"
  and serves_bogus [serving]: "serves k Q \<Longrightarrow> serves (bogus k) Q"
  and serves_fork [serving]: "(\<And>r. serves (k' r) Q) \<Longrightarrow> serves (fork prio k') Q"
  and serves_exec [serving]: "serves k Q \<Longrightarrow> serves (exec what args k) Q"
  and serves_wait [serving]: "(\<And>r. serves (kw r) Q) \<Longrightarrow> serves (wait has kw) Q"
  by (simp_all add: serves_def exit_def swritech_def swrites_def uwrite_def cwrites_def sleep_def getpid_def
    gettime_def getprio_def bogus_def fork_def exec_def wait_def CHAN_CIO_def CHAN_SIO_def)

lemma serves_mono: "serves p Q \<Longrightarrow> (\<And>out e. Q out e \<Longrightarrow> Q' out e) \<Longrightarrow> serves p Q'"
  unfolding serves_def by (erule all_runs_mono) blast

text \<open>Whether every message of a format fits a buffer is computed from the kinds of its arguments.\<close>

definition fits :: "nat \<Rightarrow> u8 list \<Rightarrow> nat option list \<Rightarrow> bool" where
  "fits sz fmt ks = (case fmt_size (fmt @ [0]) ks of None \<Rightarrow> False | Some n \<Rightarrow> n < sz)"

lemma serves_usprint:
  assumes "fits sz fmt ks" and "list_all2 has_kind ap ks" and "\<And>t. serves (k t) Q"
  shows "serves (usprint sz fmt ap k) Q"
proof -
  obtain n where n: "fmt_size (fmt @ [0]) ks = Some n" "n < sz" using assms(1) by (auto simp: fits_def split: option.splits)
  from sprint_text_size [OF n(1) assms(2)] n(2) assms(3) show ?thesis by (auto simp: usprint_def)
qed

lemma serves_say: "fits sz fmt ks \<Longrightarrow> list_all2 has_kind ap ks \<Longrightarrow> serves k Q \<Longrightarrow> serves (say sz fmt ap k) Q"
  unfolding say_def by (rule serves_usprint) (auto intro: serving)

lemma serves_tell: "fits sz fmt ks \<Longrightarrow> list_all2 has_kind ap ks \<Longrightarrow> (\<And>t. serves k (\<lambda>out. Q (t @ out))) \<Longrightarrow>
    serves (tell sz fmt ap k) Q"
  unfolding tell_def by (rule serves_usprint) (auto intro: serving)

lemma serves_if [serving]: "(b \<Longrightarrow> serves (body k) Q) \<Longrightarrow> serves k Q \<Longrightarrow> serves (if_so b body k) Q"
  by (simp add: if_so_def)

lemma has_kind_Char [simp]: "has_kind (Char ch) k = (k = None)"
  by (simp add: Char_def)

text \<open>Loops: with a fixed output of every round, or when the output does not matter.\<close>

lemma serves_for:
  assumes "\<And>i k Q. serves k (\<lambda>out. Q (b @ out)) \<Longrightarrow> serves (body i k) Q" and "serves k (\<lambda>out. Q (concat (replicate n b) @ out))"
  shows "serves (for_loop n i body k) Q"
  using assms(2)
proof (induction n arbitrary: i Q)
  case (Suc n)
  show ?case unfolding for_loop.simps by (rule assms(1), rule Suc.IH) (use Suc.prems in simp)
qed simp

lemma serves_for_any:
  assumes "\<And>i k. serves k (\<lambda>_. P) \<Longrightarrow> serves (body i k) (\<lambda>_. P)" and "serves k (\<lambda>_. P)"
  shows "serves (for_loop n i body k) (\<lambda>_. P)"
  by (induction n arbitrary: i) (simp_all add: assms)

lemma serves_for_state:
  assumes "\<And>i s k. i0 \<le> i \<Longrightarrow> i < i0 + int n \<Longrightarrow> I i s \<Longrightarrow> (\<And>s'. I (i + 1) s' \<Longrightarrow> serves (k s') (\<lambda>_. P)) \<Longrightarrow>
      serves (body i s k) (\<lambda>_. P)"
    and "I i0 s" and "\<And>s'. I (i0 + int n) s' \<Longrightarrow> serves (k s') (\<lambda>_. P)"
  shows "serves (for_state n i0 body s k) (\<lambda>_. P)"
  using assms
proof (induction n arbitrary: i0 s)
  case (Suc n)
  have "serves (for_state n (i0 + 1) body s' k) (\<lambda>_. P)" if "I (i0 + 1) s'" for s'
    by (rule Suc.IH) (use Suc.prems that in \<open>auto simp: add.assoc\<close>)
  then show ?case unfolding for_state.simps by (intro Suc.prems(1)) (use Suc.prems(2) in auto)
qed simp

section \<open>Argument strings\<close>

text \<open>Parts that can be told apart: none has a separator, and the last one is not empty.\<close>

definition parts_ok :: "u8 list list \<Rightarrow> bool" where
  "parts_ok fs \<longleftrightarrow> fs \<noteq> [] \<and> (\<forall>f \<in> set fs. ARG_SEP \<notin> set f) \<and> last fs \<noteq> []"

lemma field_append: "sep \<notin> set f \<Longrightarrow> field sep (f @ sep # xs) = f \<and> behind sep (f @ sep # xs) = xs"
  by (induction f) (auto simp: field_def behind_def)

lemma field_all: "sep \<notin> set f \<Longrightarrow> field sep f = f \<and> behind sep f = []"
  by (induction f) (auto simp: field_def behind_def)

lemma argstr_not_Nil: "parts_ok fs \<Longrightarrow> argstr fs \<noteq> []"
  by (cases fs rule: argstr.cases) (auto simp: parts_ok_def)

lemma fields_argstr:
  "parts_ok fs \<Longrightarrow> length fs \<le> n \<Longrightarrow> fields n ARG_SEP (argstr fs) = fs \<and> \<not> more_fields n ARG_SEP (argstr fs)"
proof (induction fs arbitrary: n rule: argstr.induct)
  case (2 f)
  then show ?case by (cases n) (auto simp: parts_ok_def field_all)
next
  case (3 f g fs)
  obtain m where n: "n = Suc m" using "3.prems"(2) by (cases n) auto
  have "parts_ok (g # fs)" "ARG_SEP \<notin> set f" using "3.prems"(1) by (auto simp: parts_ok_def)
  with "3.IH" [of m] "3.prems"(2) n argstr_not_Nil field_append [of ARG_SEP f] show ?case by simp
qed (simp add: parts_ok_def)

text \<open>The macro delivers the parts, when there are not more than it expects.\<close>

lemma ARG_PROC_argstr:
  assumes "parts_ok fs" and "length fs \<le> n" and "n < vlen"
  shows "ARG_PROC n (Some (argstr fs)) vlen = (int (length fs), map Some fs @ replicate (vlen - length fs) None)"
  using fields_argstr [OF assms(1,2)] assms(3) by (simp add: ARG_PROC_def Let_def)

section \<open>The library on memory\<close>

text \<open>The definitions over byte lists agree with those over memory: \<^verbatim>\<open>str2int()\<close> in base 10, and the argument
  vector that \<^verbatim>\<open>parseArgs()\<close> fills in.\<close>

lemma digit_byte:
  assumes "48 \<le> (c :: u8)" and "c \<le> 57"
  shows "c \<in> set (take 10 hexdigits)" and "UCASE c = c" and "sint c \<le> 57"
proof -
  have "list_all (\<lambda>n. let c = of_nat n :: u8 in c \<in> set (take 10 hexdigits) \<and> UCASE c = c \<and> sint c \<le> 57) [48..<58]"
    by code_simp
  moreover have "unat c \<in> set [48..<58]" using assms unfolding set_upt by (simp add: word_le_nat_alt)
  ultimately have "let c = of_nat (unat c) :: u8 in c \<in> set (take 10 hexdigits) \<and> UCASE c = c \<and> sint c \<le> 57"
    unfolding list_all_iff by (elim bspec)
  then show "c \<in> set (take 10 hexdigits)" "UCASE c = c" "sint c \<le> 57" by (simp_all add: Let_def)
qed

lemma UCASE_letter:
  assumes "97 \<le> sint c" and "sint c \<le> 122"
  shows "UCASE c \<notin> set (take 10 hexdigits)"
proof -
  have "list_all (\<lambda>k. UCASE (word_of_int k) \<notin> set (take 10 hexdigits)) [97..122]" by code_simp
  moreover have "sint c \<in> set [97..122]" using assms unfolding set_upto by simp
  ultimately have "UCASE (word_of_int (sint c)) \<notin> set (take 10 hexdigits)" unfolding list_all_iff by (elim bspec)
  then show ?thesis by simp
qed

lemma UCASE_digit: "UCASE c \<in> set (take 10 hexdigits) \<longleftrightarrow> 48 \<le> c \<and> c \<le> 57"
proof
  show "UCASE c \<in> set (take 10 hexdigits)" if "48 \<le> c \<and> c \<le> 57" using digit_byte [of c] that by simp
  assume "UCASE c \<in> set (take 10 hexdigits)"
  moreover from this have "UCASE c = c" using UCASE_letter [of c] by (auto simp: UCASE_def)
  ultimately show "48 \<le> c \<and> c \<le> 57" by (auto simp: hexdigits_def)
qed

lemma strchr_loop_none: "str_at m a xs \<Longrightarrow> ch \<notin> set xs \<Longrightarrow> strchr_loop a ch m = Some NULL"
  by (induction xs arbitrary: a) (subst strchr_loop.simps, force)+

text \<open>The digit of a character is looked up in the table.\<close>

lemma lookup_digit:
  assumes "48 \<le> c" and "c \<le> 57"
  shows "strchr HEX (UCASE c) hexmem = Some (HEX + (ucast c - 48))" and "hexmem (HEX + (ucast c - 48)) = c"
    and "HEX + (ucast c - 48) \<noteq> 0"
proof -
  have "UCASE c \<in> set (take 10 hexdigits)" using UCASE_digit assms by blast
  then obtain d where d: "d < 10" "c = hexdigits ! d"
    using digit_byte [OF assms] by (auto simp: in_set_conv_nth)
  have u: "ucast c - 48 = (of_nat d :: u32)" using d less_16_cases [of d] by (auto simp: hexdigits_def)
  show "strchr HEX (UCASE c) hexmem = Some (HEX + (ucast c - 48))" "hexmem (HEX + (ucast c - 48)) = c"
    "HEX + (ucast c - 48) \<noteq> 0"
    unfolding u using d strchr_hexdigit [of d] hexmem_digit [of d] HEX_nonnull [of d] by simp_all
qed

lemma lookup_other:
  assumes "\<not> (48 \<le> c \<and> c \<le> 57)"
  shows "\<exists>p. strchr HEX (UCASE c) hexmem = Some p \<and> (p = NULL \<or> sint (hexmem p) > 57)"
proof (cases "UCASE c \<in> set hexdigits")
  case False
  then show ?thesis using strchr_loop_none [OF str_at_hexmem] by (simp add: strchr_def HEX_def)
next
  case True
  then obtain d where d: "d < 16" "UCASE c = hexdigits ! d" by (auto simp: in_set_conv_nth hexdigits_distinct)
  have "\<not> d < 10" using UCASE_digit [of c] assms d(2) by (auto simp: hexdigits_distinct in_set_conv_nth)
  then have "sint (hexmem (HEX + of_nat d)) > 57" using hexmem_digit [OF d(1)] hexdigit_le [OF d(1), of 10] by simp
  moreover have "strchr HEX (UCASE c) hexmem = Some (HEX + of_nat d)"
    using strchr_hexdigit [OF d(1)] UCASE_hexdigit [OF d(1)] d(2) by simp
  ultimately show ?thesis by blast
qed

lemma str2int_loop_dec: "str_at m a xs \<Longrightarrow> str2int_loop a 10 57 num m = Some (dec_digits num xs)"
proof (induction xs arbitrary: a num)
  case (Cons c cs)
  show ?case
  proof (cases "48 \<le> c \<and> c \<le> 57")
    case True
    then show ?thesis using Cons lookup_digit [of c] digit_byte [of c] by (subst str2int_loop.simps) simp
  next
    case False
    then obtain p where "strchr HEX (UCASE c) hexmem = Some p" "p = NULL \<or> sint (hexmem p) > 57"
      using lookup_other by blast
    then show ?thesis using Cons.prems False by (subst str2int_loop.simps) auto
  qed
qed (simp add: str2int_loop.simps)

lemma str2int_dec_read: "str_at m a xs \<Longrightarrow> str2int a 10 m = Some (dec_read xs)"
  using str2int_loop_dec [of m a xs 0] str2int_loop_dec [of m "a + 1" "tl xs" 0]
  by (cases xs) (auto simp: str2int_def dec_read_def Let_def)

lemma parseArgs_ARG_PROC:
  assumes "str_at m args xs" and "args \<noteq> NULL" and "length xs < 2 ^ 32" and "n < vlen" and "n \<le> 2 ^ 30"
    and "cells argv (4 * n) \<inter> cells args (Suc (length xs)) = {}" and "ARG_PROC n (Some xs) vlen = (argc, es)"
  shows "\<exists>m'. parseArgs (int n) args ARG_SEP (int vlen) argv m = Some (argc, m') \<and>
    (\<forall>j < n. \<forall>s. es ! j = Some s \<longrightarrow> str_at m' (load32 m' (argv + 4 * of_nat j)) s)"
proof -
  let ?fs = "fields n ARG_SEP xs"
  have es: "argc = int (length ?fs) + (if more_fields n ARG_SEP xs then 1 else 0)"
    "es = map Some ?fs @ replicate (vlen - length ?fs) None"
    using assms(4,7) by (auto simp: ARG_PROC_def Let_def)
  obtain m' where m': "parseArgs (int n) args ARG_SEP (int vlen) argv m = Some (argc, m')"
    "\<And>j. j < length ?fs \<Longrightarrow> load32 m' (argv + 4 * of_nat j) = starts args ?fs ! j \<and> str_at m' (starts args ?fs ! j) (?fs ! j)"
    using parse_loop_run [of m args xs n "int n" 0 "int vlen" argv argv ?fs ARG_SEP] assms es(1)
    by (fastforce simp: parseArgs_def)
  have "str_at m' (load32 m' (argv + 4 * of_nat j)) s" if "es ! j = Some s" "j < n" for j s
  proof (cases "j < length ?fs")
    case True
    then show ?thesis using that m'(2) es(2) by (auto simp: nth_append)
  next
    case False
    have "length ?fs \<le> n" by (induction n arbitrary: xs) auto
    then show ?thesis using False that es(2) assms(4) by (auto simp: nth_append)
  qed
  then show ?thesis using m'(1) by blast
qed

end
