(* ===== verification/User_Progs.thy ===== *)
theory User_Progs
  imports User_Calls
begin

text \<open>
  The test programs \<^verbatim>\<open>user/prog*.c\<close>, each as the interaction tree of its main function applied to its argument
  string. Delay loops take time only and are left out. Local arrays that the C code does not initialise
  have entries that are \<open>None\<close>; reading one, or an entry beyond the end of an array, is undefined. The
  link-time addresses of the entry points are the parameter \<open>adr\<close>.
\<close>

section \<open>Entry points\<close>

datatype uprog = Idle | ProgABC | ProgDE | ProgFG | ProgH | ProgI | ProgJ | ProgKL | ProgMN | ProgP | ProgQ | ProgR
  | ProgS | ProgTUV | ProgW | ProgX | ProgY | ProgZ

section \<open>Writing a character repeatedly\<close>

definition progABC :: "u8 list option \<Rightarrow> prog" where
  "progABC args =
     (let (argc, argv) = ARG_PROC 3 args 5
      in switch3 argc argv 30 49 (usage 128 1 argc argv) (\<lambda>count ch.
         swritech ch (\<lambda>n.
         if_so (n \<noteq> 1) (say 128 (line ''== %c, write #1 returned %d'') [Char ch, Num n]) (
         for_loop (nat (sint count)) 0 (\<lambda>i k.
           swritech ch (\<lambda>n.
           if_so (n \<noteq> 1) (say 128 (line ''== %c, write #2 returned %d'') [Char ch, Num n]) k)) (
         exit (50 + (scast ch - 65)) (
         uwrite CHAN_SIO [42, ch, 42] (\<lambda>n.
         if_so (n \<noteq> 3) (say 128 (line ''User %c, write #3 returned %d'') [Char ch, Num n]) (
         Return 99))))))))"

definition progDE :: "u8 list option \<Rightarrow> prog" where
  "progDE args =
     (let (argc, argv) = ARG_PROC 3 args 5
      in switch3 argc argv 30 50 (usage 128 0 argc argv) (\<lambda>count ch.
         swritech ch (\<lambda>n.
         if_so (n \<noteq> 1) (say 128 (line ''== %c, write #1 returned %d'') [Char ch, Num n]) (
         for_loop (nat (sint count)) 0 (\<lambda>i k.
           swritech ch (\<lambda>n.
           if_so (n \<noteq> 1) (say 128 (line ''== %c, write #2 returned %d'') [Char ch, Num n]) k)) (
         Return (60 + (scast ch - 68)))))))"

definition progFG :: "u8 list option \<Rightarrow> prog" where
  "progFG args =
     (let nap = 10; (argc, argv) = ARG_PROC 3 args 5
      in switch3 argc argv 30 51 (usage 128 0 argc argv) (\<lambda>count ch.
         swritech ch (\<lambda>n.
         if_so (n \<noteq> 1) (say 128 (line ''=== %c, write #1 returned %d'') [Char ch, Num n]) (
         uwrite CHAN_SIO [ch] (\<lambda>_.
         for_loop (nat (sint count)) 0 (\<lambda>i k.
           sleep (SEC_TO_MS nap) (uwrite CHAN_SIO [ch] (\<lambda>_. k))) (
         exit 0 (Return 42)))))))"

section \<open>Creating processes\<close>

text \<open>The exit status is the number of failed calls of \<^verbatim>\<open>spawn()\<close>.\<close>

definition progH :: "(uprog \<Rightarrow> u32) \<Rightarrow> u8 list option \<Rightarrow> prog" where
  "progH adr args =
     (let (argc, argv) = ARG_PROC 3 args 5
      in switch3 argc argv 5 104
           (\<lambda>k. string_at argv 0 (\<lambda>name.
              show_args 128 (lit ''%s: argc %d, args: '') [Str name, Num (word_of_int argc)] 0 (\<lambda>i. argc) argc argv k)) (\<lambda>count ch.
         swritech ch (\<lambda>_.
         for_state (nat (sint count)) 0 (\<lambda>i ret k.
           spawn (adr ProgZ) (argstr [lit ''progZ'', lit ''Z'', lit ''10'']) (\<lambda>whom.
           if sint whom < 0
           then say 128 (line ''!! %c spawn() failed, returned %d'') [Char ch, Num whom] (k (ret + 1))
           else k ret)) 0 (\<lambda>ret.
         sleep 0 (
         swritech ch (\<lambda>_.
         exit ret (Return 42)))))))"

definition MAX_CHILDREN :: nat where "MAX_CHILDREN = 50"

text \<open>An entry of an array of children; a new child is stored at the end.\<close>

definition child_at :: "u32 option list \<Rightarrow> int \<Rightarrow> (u32 \<Rightarrow> prog) \<Rightarrow> prog" where
  "child_at children i k =
     (if 0 \<le> i \<and> i < int (length children)
      then case children ! nat i of None \<Rightarrow> Undefined | Some c \<Rightarrow> k c
      else Undefined)"

definition add_child :: "u32 \<Rightarrow> nat \<times> u32 option list \<Rightarrow> (nat \<times> u32 option list \<Rightarrow> prog) \<Rightarrow> prog" where
  "add_child whom s k =
     (let (nkids, children) = s
      in if nkids < length children then k (nkids + 1, children[nkids := Some whom]) else Undefined)"

text \<open>The collecting loop of \<^verbatim>\<open>progI\<close>; it ends when there is no child left.\<close>

fun progI_collect :: "nat \<Rightarrow> u32 \<Rightarrow> u32 \<Rightarrow> u8 \<Rightarrow> u32 option list \<Rightarrow> prog \<Rightarrow> prog" where
  "progI_collect 0 nap count ch children k = Running"
| "progI_collect (Suc fuel) nap count ch children k =
     wait False (\<lambda>(n, _).
       if n = S_NO_CHILD then k
       else
         for_loop (nat (sint count)) 0 (\<lambda>i k.
           child_at children i (\<lambda>c.
           if_so (c = n) (say 128 (line ''== %c: child %d (%d)'') [Char ch, Num (word_of_int i), Num c]) k)) (
         sleep (SEC_TO_MS nap) (
         progI_collect fuel nap count ch children k)))"

definition progI :: "nat \<Rightarrow> (uprog \<Rightarrow> u32) \<Rightarrow> u8 list option \<Rightarrow> prog" where
  "progI fuel adr args =
     (let nap = 5; (argc, argv) = ARG_PROC 3 args 5;
          main = (\<lambda>count ch.
            let ch2 = [42, ch, 42]
            in uwrite CHAN_SIO [ch] (\<lambda>_.
               for_state (nat (sint count)) 0 (\<lambda>i s k.
                 spawn (adr ProgW) (argstr [lit ''progW'', lit ''W'', lit ''10'', lit ''5'']) (\<lambda>whom.
                 if sint whom < 0 then swrites ch2 (\<lambda>_. k s)
                 else swritech ch (\<lambda>_. add_child whom s k))) (0, replicate MAX_CHILDREN None) (\<lambda>(nkids, children).
               sleep (SEC_TO_MS nap) (
               progI_collect fuel nap count ch children (
               exit 0 (Return 42))))))
      in if argc = 1 then main 5 105 else switch3 argc argv 5 105 (usage 128 0 argc argv) main)"

definition progJ :: "(uprog \<Rightarrow> u32) \<Rightarrow> u8 list option \<Rightarrow> prog" where
  "progJ adr args =
     (let (argc, argv) = ARG_PROC 3 args 5
      in switch3 argc argv (2 * of_nat N_PROCS) 106 (usage 128 0 argc argv) (\<lambda>count ch.
         uwrite CHAN_SIO [ch] (\<lambda>_.
         for_loop (nat (sint count)) 0 (\<lambda>i k.
           spawn (adr ProgY) (argstr [lit ''progY'', lit ''Y'', lit ''10'']) (\<lambda>whom.
           if sint whom < 0 then uwrite CHAN_SIO (lit ''!j!'') (\<lambda>_. k)
           else uwrite CHAN_SIO [ch] (\<lambda>_. k))) (
         exit 0 (Return 42)))))"

definition progKL :: "(uprog \<Rightarrow> u32) \<Rightarrow> u8 list option \<Rightarrow> prog" where
  "progKL adr args =
     (let nap = 30; msg2 = lit ''*4*''; (argc, argv) = ARG_PROC 3 args 5
      in switch3 argc argv 5 52
           (show_args 32 (lit ''%s: argc %d, args: '') [Str (lit ''progKL''), Num (word_of_int argc)] 0 (\<lambda>i. i) argc argv) (\<lambda>count ch.
         uwrite CHAN_SIO [ch] (\<lambda>_.
         for_loop (nat (sint count)) 0 (\<lambda>i k.
           uwrite CHAN_SIO [ch] (\<lambda>_.
           usprint 32 (argstr [lit ''progX'', lit ''X'', lit ''%d'']) [Num (100 + word_of_int i)] (\<lambda>buf.
           spawn (adr ProgX) buf (\<lambda>whom.
           (if sint whom < 0 then swrites msg2 else uwrite CHAN_SIO [ch]) (\<lambda>_.
           sleep (SEC_TO_MS nap) k))))) (
         exit 0 (Return 42)))))"

definition progMN :: "(uprog \<Rightarrow> u32) \<Rightarrow> u8 list option \<Rightarrow> prog" where
  "progMN adr args =
     (let (argc, argv) = ARG_PROC 4 args 5
      in switch4 argc argv False (\<lambda>s3. first_char s3 = 116) 5 53 (usage 128 0 argc argv) (\<lambda>alsoZ count ch.
         let msgw = [42, ch, 119, 42]; msgz = [42, ch, 122, 42]
         in uwrite CHAN_SIO [ch] (\<lambda>_.
            for_loop (nat (sint count)) 0 (\<lambda>i k.
              uwrite CHAN_SIO [ch] (\<lambda>_.
              spawn (adr ProgW) (argstr [lit ''progW'', lit ''W'', lit ''15'', lit ''5'']) (\<lambda>whom.
              if_so (sint whom < 1) (\<lambda>k. swrites msgw (\<lambda>_. k)) (
              if_so alsoZ (\<lambda>k.
                spawn (adr ProgZ) (argstr [lit ''progZ'', lit ''Z'', lit ''15'']) (\<lambda>whom.
                if_so (sint whom < 1) (\<lambda>k. swrites msgz (\<lambda>_. k)) k)) k)))) (
            exit 0 (Return 42)))))"

text \<open>The collecting loop of \<^verbatim>\<open>progTUV\<close>, with the number of rounds that are left. On an error the message is
  composed, but the loop is left before it would be written.\<close>

fun progTUV_collect :: "nat \<Rightarrow> u8 \<Rightarrow> nat \<Rightarrow> u32 option list \<Rightarrow> prog \<Rightarrow> prog" where
  "progTUV_collect 0 ch nkids children k = k"
| "progTUV_collect (Suc n) ch nkids children k =
     wait True (\<lambda>(this, st).
       let status = (case st of None \<Rightarrow> 0xcafe | Some s \<Rightarrow> s)
       in if sint this < 1 then
            if this \<noteq> S_NO_CHILD
            then usprint 128 (line ''!! %c: wait() ret %d status %d (%x)'') [Char ch, Num this, Num status, Num status] (\<lambda>_. k)
            else usprint 128 (line ''!! %c: no children'') [Char ch] (\<lambda>_. k)
          else
            (case List.find (\<lambda>i. children ! i = Some this) [0..<nkids] of
               None \<Rightarrow> say 128 (line ''!! %c: child PID %d status %d, NOT FOUND'') [Char ch, Num this, Num status]
             | Some ix \<Rightarrow> say 128 (line ''== %c: child %d (%d) status %d'') [Char ch, Num (of_nat ix), Num this, Num status])
            (progTUV_collect n ch nkids children k))"

definition progTUV :: "(uprog \<Rightarrow> u32) \<Rightarrow> u8 list option \<Rightarrow> prog" where
  "progTUV adr args =
     (let nap = 8; (argc, argv) = ARG_PROC 3 args 5
      in switch3 argc argv 3 54 (usage 128 0 argc argv) (\<lambda>count ch.
         let ch2 = [42, ch, 42]
         in uwrite CHAN_SIO [ch] (\<lambda>_.
            for_state (nat (sint count)) 0 (\<lambda>i s k.
              spawn (adr ProgW) (argstr [lit ''progW'', lit ''W'', lit ''10'', lit ''5'']) (\<lambda>whom.
              if sint whom < 0 then swrites ch2 (\<lambda>_. k s)
              else add_child whom s k)) (0, replicate MAX_CHILDREN None) (\<lambda>(nkids, children).
            sleep (SEC_TO_MS nap) (
            progTUV_collect (max 1 nkids) ch nkids children (
            exit 0 (Return 42)))))))"

section \<open>Reporting\<close>

definition progP :: "u8 list option \<Rightarrow> prog" where
  "progP args =
     (let (argc, argv) = ARG_PROC 4 args 5
      in switch4 argc argv 2 dec_read 3 112 (usage 128 0 argc argv) (\<lambda>nap count ch.
         gettime (\<lambda>now.
         tell 128 (lit '' P@%u'') [Num now] (
         for_loop (nat (sint count)) 0 (\<lambda>i k.
           sleep (SEC_TO_MS nap) (uwrite CHAN_SIO [ch] (\<lambda>_. k))) (
         exit 0 (Return 42))))))"

definition progQ :: "u8 list option \<Rightarrow> prog" where
  "progQ args =
     (let (argc, argv) = ARG_PROC 2 args 5;
          main = (\<lambda>ch.
            uwrite CHAN_SIO [ch] (\<lambda>_.
            bogus (
            say 128 (line ''!!!!! %c returned from bogus syscall!?!?!'') [Char ch] (
            exit 1 (Return 42)))))
      in if argc = 2 then string_at argv 1 (\<lambda>s1. main (first_char s1)) else usage 128 0 argc argv (main 113))"

text \<open>\<^verbatim>\<open>progR\<close> from its label on; the child of a \<^verbatim>\<open>fork()\<close> goes back there.\<close>

definition progR_final :: "u8 \<Rightarrow> u32 \<Rightarrow> prog" where
  "progR_final ch seq =
     getpid (\<lambda>pid. tell 128 (lit '' %c[%d,%d]'') [Char ch, Num seq, Num pid] (exit 0 (Return 42)))"

lemma less_5_step: "sint seq < 5 \<Longrightarrow> sint (seq + 1 :: u32) = sint seq + 1"
  using sint_range [of seq] by (simp add: sint_word_ariths signed_take_bit_int_eq_self)

function progR_restart :: "u8 \<Rightarrow> u32 \<Rightarrow> u32 \<Rightarrow> prog" where
  "progR_restart ch delay seq =
     getpid (\<lambda>pid.
     tell 128 (lit '' %c[%d,%d]'') [Char ch, Num seq, Num pid] (
     sleep (SEC_TO_MS delay) (
     if sint seq < 5 then
       fork PRIO_INHERIT (\<lambda>n.
         if n = -1 then say 128 (line ''** R[%d] fork code %d'') [Num pid, Num n] (progR_final ch (seq + 1))
         else if n = 0 then progR_restart ch delay (seq + 1)
         else sleep (SEC_TO_MS delay) (progR_final ch seq))
     else progR_final ch seq)))"
  by pat_completeness auto
termination
  by (relation "measure (\<lambda>(ch, delay, seq). nat (5 - sint seq))") (auto simp: less_5_step)

declare progR_restart.simps [simp del]

definition progR :: "u8 list option \<Rightarrow> prog" where
  "progR args =
     (let (argc, argv) = ARG_PROC 4 args 5
      in switch4 argc argv 10 dec_read 99 114 (usage 128 0 argc argv) (\<lambda>delay seq ch. progR_restart ch delay seq))"

text \<open>The endless loop of \<^verbatim>\<open>progS\<close>, cut off after \<open>fuel\<close> rounds.\<close>

fun progS_loop :: "nat \<Rightarrow> u32 \<Rightarrow> u8 \<Rightarrow> prog" where
  "progS_loop 0 nap ch = Running"
| "progS_loop (Suc fuel) nap ch = sleep (SEC_TO_MS nap) (uwrite CHAN_SIO [ch] (\<lambda>_. progS_loop fuel nap ch))"

definition progS :: "nat \<Rightarrow> u8 list option \<Rightarrow> prog" where
  "progS fuel args =
     (let (argc, argv) = ARG_PROC 3 args 5
      in switch3 argc argv 20 115 (usage 128 0 argc argv) (\<lambda>nap ch.
         uwrite CHAN_SIO [ch] (\<lambda>_.
         string_at argv 0 (\<lambda>name.
         say 128 (line ''%s sleeping %d(%d)'') [Str name, Num nap, Num (SEC_TO_MS nap)] (
         progS_loop fuel nap ch)))))"

definition progW :: "u8 list option \<Rightarrow> prog" where
  "progW args =
     (let (argc, argv) = ARG_PROC 4 args 5
      in switch4 argc argv 3 dec_read 20 119 (usage 128 0 argc argv) (\<lambda>nap count ch.
         getpid (\<lambda>pid. gettime (\<lambda>now.
         tell 128 (lit '' %c[%d,%u]'') [Char ch, Num pid, Num now] (
         uwrite CHAN_SIO [ch] (\<lambda>_.
         for_loop (nat (sint count)) 0 (\<lambda>i k.
           gettime (\<lambda>now.
           tell 128 (lit '' %c[%d,%u] '') [Char ch, Num pid, Num now] (
           sleep (SEC_TO_MS nap) k))) (
         exit 0 (Return 42))))))))"

definition progX :: "u8 list option \<Rightarrow> prog" where
  "progX args =
     (let (argc, argv) = ARG_PROC 3 args 5
      in switch3 argc argv 20 120 (usage 128 0 argc argv) (\<lambda>count ch.
         getpid (\<lambda>pid.
         usprint 128 (lit '' %c[%d]'') [Char ch, Num pid] (\<lambda>buf.
         swrites buf (\<lambda>_.
         for_loop (nat (sint count)) 0 (\<lambda>i k. swrites buf (\<lambda>_. k)) (
         exit 12 (Return 42)))))))"

definition progY :: "u8 list option \<Rightarrow> prog" where
  "progY args =
     (let (argc, argv) = ARG_PROC 3 args 5
      in switch3 argc argv 10 121
           (show_args 128 (lit ''?: argc %d, args: '') [Num (word_of_int argc)] 0 (\<lambda>i. i) argc argv) (\<lambda>count ch.
         getpid (\<lambda>pid.
         usprint 128 (lit '' %c[%d]'') [Char ch, Num pid] (\<lambda>buf.
         swrites buf (\<lambda>_.
         for_loop (nat (sint count)) 0 (\<lambda>i k. swrites buf (\<lambda>_. sleep (SEC_TO_MS 1) k)) (
         exit 0 (Return 42)))))))"

definition progZ :: "u8 list option \<Rightarrow> prog" where
  "progZ args =
     (let (argc, argv) = ARG_PROC 3 args 5
      in switch3 argc argv 10 122
           (show_args 128 (lit ''?: argc %d, args: '') [Num (word_of_int argc)] 0 (\<lambda>i. i) argc argv) (\<lambda>count ch.
         getpid (\<lambda>pid.
         tell 128 (lit '' %c[%d]'') [Char ch, Num pid] (
         for_loop (nat (sint count)) 0 (\<lambda>i k.
           tell 128 (lit '' %c[%d]'') [Char ch, Num (word_of_int i)] (
           if_so (odd i) (sleep 0) k)) (
         exit 0 (Return 42))))))"

section \<open>Expected arguments\<close>

text \<open>With three parts in the argument string the programs read a number and a character.\<close>

lemma ARG_PROC_3:
  assumes "parts_ok [a, b, c]"
  shows "ARG_PROC 3 (Some (argstr [a, b, c])) 5 = (3, [Some a, Some b, Some c, None, None])"
    and "ARG_PROC 4 (Some (argstr [a, b, c])) 5 = (3, [Some a, Some b, Some c, None, None])"
proof -
  have "replicate (5 - length [a, b, c]) None = [None, None]" by (simp add: numeral_2_eq_2)
  then show "ARG_PROC 3 (Some (argstr [a, b, c])) 5 = (3, [Some a, Some b, Some c, None, None])"
    "ARG_PROC 4 (Some (argstr [a, b, c])) 5 = (3, [Some a, Some b, Some c, None, None])"
    using ARG_PROC_argstr [OF assms, of 3 5] ARG_PROC_argstr [OF assms, of 4 5] by simp_all
qed

lemma ARG_PROC_2:
  assumes "parts_ok [a, b]"
  shows "ARG_PROC 2 (Some (argstr [a, b])) 5 = (2, [Some a, Some b, None, None, None])"
proof -
  have "replicate (5 - length [a, b]) None = [None, None, None]" by (simp add: numeral_3_eq_3)
  then show ?thesis using ARG_PROC_argstr [OF assms, of 2 5] by simp
qed

lemma string_at_simps [simp]:
  "string_at (Some a # es) 0 k = k a"
  "string_at (e # Some a # es) 1 k = k a"
  "string_at (e # e' # Some a # es) 2 k = k a"
  by (simp_all add: string_at_def entry_at_def)

lemma switch_3 [simp]:
  "switch3 3 (e # Some b # Some c # es) count ch other k = k (dec_read c) (first_char b)"
  "switch4 3 (e # Some b # Some c # es) v conv count ch other k4 = k4 v (dec_read c) (first_char b)"
  by (simp_all add: switch3_def switch4_def)

text \<open>The messages fit their buffers.\<close>

lemma message_sizes:
  "fits 128 (line ''== %c, write #1 returned %d'') [None, None]"
  "fits 128 (line ''== %c, write #2 returned %d'') [None, None]"
  "fits 128 (line ''=== %c, write #1 returned %d'') [None, None]"
  "fits 128 (line ''!! %c spawn() failed, returned %d'') [None, None]"
  "fits 128 (line ''!! %c: wait() ret %d status %d (%x)'') [None, None, None, None]"
  "fits 128 (line ''!! %c: no children'') [None]"
  "fits 128 (line ''!! %c: child PID %d status %d, NOT FOUND'') [None, None, None]"
  "fits 128 (line ''== %c: child %d (%d) status %d'') [None, None, None, None]"
  "fits 128 (line ''!!!!! %c returned from bogus syscall!?!?!'') [None]"
  "fits 128 (line ''** R[%d] fork code %d'') [None, None]"
  "fits 512 (line ''Child %d exec(%08x,'%s') failed'') [None, None, Some 15]"
  by code_simp+

lemma report_sizes:
  "fits 128 (lit '' P@%u'') [None]"
  "fits 128 (lit '' %c[%d]'') [None, None]"
  "fits 128 (lit '' %c[%d,%d]'') [None, None, None]"
  "fits 128 (lit '' %c[%d,%u]'') [None, None, None]"
  "fits 128 (lit '' %c[%d,%u] '') [None, None, None]"
  by code_simp+

lemmas serves_msg [serving] = message_sizes [THEN serves_say] report_sizes [THEN serves_tell]

lemma serves_spawn:
  assumes "length (takeWhile (\<lambda>c. 32 \<le> sint c \<and> sint c < 127) args) < 16"
    and "\<And>r. r \<noteq> 0 \<Longrightarrow> serves (k r) Q" and "Q [] (Some S_ERROR)"
  shows "serves (spawn what args k) Q"
proof -
  have "serves (if pid \<noteq> 0 then k pid else exec what args (getpid (\<lambda>pid.
      let pname = takeWhile (\<lambda>c. 32 \<le> sint c \<and> sint c < 127) args
      in if length pname < 16
         then say 512 (line ''Child %d exec(%08x,'%s') failed'') [Num pid, Num what, Str pname] (exit S_ERROR (k 42))
         else Undefined))) Q" for pid
    using assms by (auto simp: Let_def intro!: serving)
  then show ?thesis unfolding spawn_def by (rule serves_fork)
qed

section \<open>What the letter programs write\<close>



section \<open>Every test program ends\<close>

lemma serves_for_plain [serving]:
  assumes "serves k (\<lambda>_. P)" and "\<And>i k. serves k (\<lambda>_. P) \<Longrightarrow> serves (body i k) (\<lambda>_. P)"
  shows "serves (for_loop n i body k) (\<lambda>_. P)"
  by (rule serves_for_any) (use assms in auto)

lemma serves_cond [serving]: "(b \<Longrightarrow> serves p Q) \<Longrightarrow> (\<not> b \<Longrightarrow> serves q Q) \<Longrightarrow> serves (if b then p else q) Q"
  by simp

lemma serves_cond_fun [serving]: "(b \<Longrightarrow> serves (f k) Q) \<Longrightarrow> (\<not> b \<Longrightarrow> serves (g k) Q) \<Longrightarrow> serves ((if b then f else g) k) Q"
  by simp

lemma child_names:
  "length (takeWhile (\<lambda>c. 32 \<le> sint c \<and> sint c < 127) (argstr [lit ''progZ'', lit ''Z'', lit ''10''])) < 16"
  "length (takeWhile (\<lambda>c. 32 \<le> sint c \<and> sint c < 127) (argstr [lit ''progY'', lit ''Y'', lit ''10''])) < 16"
  "length (takeWhile (\<lambda>c. 32 \<le> sint c \<and> sint c < 127) (argstr [lit ''progZ'', lit ''Z'', lit ''15''])) < 16"
  "length (takeWhile (\<lambda>c. 32 \<le> sint c \<and> sint c < 127) (argstr [lit ''progW'', lit ''W'', lit ''10'', lit ''5''])) < 16"
  "length (takeWhile (\<lambda>c. 32 \<le> sint c \<and> sint c < 127) (argstr [lit ''progW'', lit ''W'', lit ''15'', lit ''5''])) < 16"
  by code_simp+

lemmas serves_spawns [serving] = child_names [THEN serves_spawn]

text \<open>The arguments of the children of \<^verbatim>\<open>progKL\<close> are composed.\<close>

lemma progX_args:
  "sprint_text (argstr [lit ''progX'', lit ''X'', lit ''%d''] @ [0]) [Num v] =
    Some (argstr [lit ''progX'', lit ''X''] @ 13 # dec_text (sint v))"
  by (simp add: lit_def ARG_SEP_def sprint_text.simps fmt_spec_def is_conv_def pad_text_def Let_def)

lemma progX_name:
  "takeWhile (\<lambda>c. 32 \<le> sint c \<and> sint c < 127) (argstr [lit ''progX'', lit ''X''] @ 13 # t) = lit ''progX''"
  by (simp add: lit_def ARG_SEP_def)

lemma serves_progX_args [serving]:
  assumes "\<And>r. r \<noteq> 0 \<Longrightarrow> serves (k r) Q" and "Q [] (Some S_ERROR)"
  shows "serves (usprint 32 (argstr [lit ''progX'', lit ''X'', lit ''%d'']) [Num v] (\<lambda>buf. spawn what buf k)) Q"
proof -
  have "length (argstr [lit ''progX'', lit ''X''] @ 13 # dec_text (sint v)) < 32"
    using dec_text_length [of v] by (simp add: lit_def)
  moreover have "length (lit ''progX'') < 16" by (simp add: lit_def)
  ultimately show ?thesis unfolding usprint_def progX_args option.case
    by (simp only: if_True) (rule serves_spawn, simp only: progX_name, use assms in auto)
qed

lemma progR_final_ends: "serves (progR_final ch seq) (\<lambda>_ e. e = Some 0)"
  unfolding progR_final_def by (intro serving) simp_all

lemma progR_ends: "serves (progR_restart ch delay seq) (\<lambda>_ e. e = Some 0)"
proof (induction ch delay seq rule: progR_restart.induct)
  case (1 ch delay seq)
  show ?case by (subst progR_restart.simps) (intro serving progR_final_ends "1"; simp)
qed

lemma progTUV_collect_ends: "serves k (\<lambda>_. P) \<Longrightarrow> serves (progTUV_collect n ch nkids children k) (\<lambda>_. P)"
proof (induction n)
  case (Suc n)
  show ?case unfolding progTUV_collect.simps
    by (intro serving) (auto simp: Let_def split: option.splits
        intro!: serving Suc message_sizes [THEN serves_usprint])
qed simp

text \<open>The children of a program are stored as long as there is room.\<close>

definition kids_upto :: "int \<Rightarrow> nat \<times> u32 option list \<Rightarrow> bool" where
  "kids_upto i s \<longleftrightarrow> int (fst s) \<le> i \<and> length (snd s) = MAX_CHILDREN"

lemma serves_add_child:
  assumes "kids_upto i s" and "i < 50" and "\<And>s'. kids_upto (i + 1) s' \<Longrightarrow> serves (k s') Q"
  shows "serves (add_child whom s k) Q"
  using assms by (auto simp: kids_upto_def add_child_def MAX_CHILDREN_def Let_def split: prod.splits)

lemma kids_upto_0: "kids_upto 0 (0, replicate MAX_CHILDREN None)"
  by (simp add: kids_upto_def)

lemma kids_upto_more: "kids_upto i s \<Longrightarrow> kids_upto (i + 1) s"
  by (simp add: kids_upto_def)

text \<open>A counter in the first \<open>i\<close> rounds of a loop.\<close>

definition tally :: "int \<Rightarrow> u32 \<Rightarrow> bool" where
  "tally i ret \<longleftrightarrow> (\<exists>k. int k \<le> i \<and> ret = of_nat k)"

lemma tally_0: "tally 0 0"
  unfolding tally_def by (rule exI [of _ 0]) simp

lemma tally_more: "tally i ret \<Longrightarrow> tally (i + 1) ret"
  unfolding tally_def by (metis add_increasing2 zero_le_one)

lemma tally_end: "tally (0 + int n) ret \<Longrightarrow> Some ret = Some S_ERROR \<or> (\<exists>k \<le> n. Some ret = Some (of_nat k))"
  unfolding tally_def by auto

lemma tally_Suc: "tally i ret \<Longrightarrow> tally (i + 1) (ret + 1)"
proof -
  assume "tally i ret"
  then obtain k where k: "int k \<le> i" "ret = of_nat k" unfolding tally_def by blast
  have "int (Suc k) \<le> i + 1" "ret + 1 = of_nat (Suc k)" using k by simp_all
  then show ?thesis unfolding tally_def by blast
qed



section \<open>What goes wrong\<close>

text \<open>\<open>goes_wrong p\<close>: under all answers the program does something that C leaves undefined.\<close>

primrec goes_wrong :: "prog \<Rightarrow> bool" where
  "goes_wrong (Return s) = False"
| "goes_wrong (Call q k) = ((\<forall>s. q \<noteq> SysExit s) \<and> (\<forall>r. goes_wrong (k r)))"
| "goes_wrong Undefined = True"
| "goes_wrong Running = False"

lemma goes_wrong_usprint: "(\<And>t. goes_wrong (k t)) \<Longrightarrow> goes_wrong (usprint sz fmt ap k)"
  by (simp add: usprint_def split: option.splits)

lemma goes_wrong_say: "goes_wrong k \<Longrightarrow> goes_wrong (say sz fmt ap k)"
  unfolding say_def by (rule goes_wrong_usprint) (simp add: cwrites_def uwrite_def)

lemma goes_wrong_for:
  assumes "\<And>i k. goes_wrong k \<Longrightarrow> goes_wrong (body i k)" and "\<And>k. goes_wrong (body (i0 + int n) k)"
  shows "goes_wrong (for_loop (Suc n) i0 body k)"
  using assms(2)
proof (induction n arbitrary: i0)
  case (Suc n)
  have "goes_wrong (for_loop (Suc n) (i0 + 1) body k)" by (rule Suc.IH) (use Suc.prems in \<open>simp add: add.assoc\<close>)
  then show ?case using assms(1) by (simp only: for_loop.simps)
qed simp

lemma fields_length: "length (fields n sep xs) \<le> n" and more_fields_length: "more_fields n sep xs \<Longrightarrow> length (fields n sep xs) = n"
  by (induction n arbitrary: xs) auto

lemma usage_beyond:
  assumes "argc = int (length argv)"
  shows "goes_wrong (usage sz 0 argc argv k)"
proof -
  have "goes_wrong (show_args sz fmt ap 0 (\<lambda>i. i) argc argv k)" for fmt ap
  proof -
    have n: "nat (argc + 1 - 0) = Suc (length argv)" using assms by simp
    have "goes_wrong (for_loop (Suc (length argv)) 0 (\<lambda>i k. entry_at argv i (\<lambda>e.
        say sz (lit '' %s'') [case e of None \<Rightarrow> Str (lit ''(null)'') | Some s \<Rightarrow> Str s] k)) k')" for k'
      by (rule goes_wrong_for) (simp_all add: entry_at_def goes_wrong_say)
    then show ?thesis unfolding show_args_def n by (rule goes_wrong_say)
  qed
  then show ?thesis by (simp add: usage_def string_at_def entry_at_def split: option.splits)
qed

text \<open>C35. The programs that take up to four arguments, given more than four: \<^verbatim>\<open>parseArgs()\<close> answers five, and the
  report of the unexpected number reads the entry with index five of an array of five, if one of the
  arguments has not already overflown the buffer of the message.\<close>

theorem too_many_arguments:
  assumes "more_fields 4 ARG_SEP xs"
  shows "goes_wrong (progMN adr (Some xs)) \<and> goes_wrong (progP (Some xs)) \<and> goes_wrong (progR (Some xs)) \<and>
    goes_wrong (progW (Some xs))"
proof -
  let ?argv = "map Some (fields 4 ARG_SEP xs) @ replicate (5 - length (fields 4 ARG_SEP xs)) None"
  have five: "ARG_PROC 4 (Some xs) 5 = (5, ?argv)" "5 = int (length ?argv)"
    using more_fields_length [OF assms] assms by (simp_all add: ARG_PROC_def Let_def)
  show ?thesis unfolding progMN_def progP_def progR_def progW_def five(1) Let_def prod.case switch4_def switch3_def
    using usage_beyond [OF five(2)] by simp
qed

text \<open>Five arguments for \<^verbatim>\<open>progW\<close>.\<close>

theorem too_many_arguments_witness:
  "goes_wrong (progW (Some (argstr [lit ''userW'', lit ''W'', lit ''2'', lit ''3'', lit ''4''])))"
proof -
  have "more_fields 4 ARG_SEP (argstr [lit ''userW'', lit ''W'', lit ''2'', lit ''3'', lit ''4''])" by code_simp
  from too_many_arguments [OF this] show ?thesis by blast
qed

text \<open>\<^verbatim>\<open>progI\<close> looks for the collected child in as many entries as it tried to spawn children, but only those that
  could be spawned are stored: with two attempts of which one fails, the first child that is collected
  makes it read an entry that was never written.\<close>

lemma progI_uninitialised:
  "snd (run_on [(1, None), (5, None), (1, None), (-1, None), (3, None), (0, None), (5, Some 0), (20, None)]
     (progI 9 (\<lambda>_. 0x20000) (Some (argstr [lit ''userI'', lit ''I'', lit ''2''])))) = Undefined"
  by code_simp

end
