(* ===== verification/User_Init.thy ===== *)
theory User_Init
  imports User_Progs
begin

text \<open>
  The programs that never end: the initial process \<^verbatim>\<open>user/init.c\<close>, which starts all others, waits for children
  and restarts the idle process, and \<^verbatim>\<open>user/idle.c\<close>. An endless loop is cut off after a number of rounds that
  is a parameter; what is proved holds for every number. The table of processes is the one of the
  configuration in \<^verbatim>\<open>include/udefs.h\<close>, without the shell. The unreachable code behind the loops is left out.
\<close>

section \<open>The table of processes\<close>

record proc_s =
  pr_entry :: uprog
  pr_args :: "u8 list"
  pr_priority :: u8
  pr_select :: char

definition PROCENT :: "uprog \<Rightarrow> string list \<Rightarrow> u8 \<Rightarrow> char \<Rightarrow> proc_s" where
  "PROCENT e ps prio sel = \<lparr>pr_entry = e, pr_args = argstr (map lit ps), pr_priority = prio, pr_select = sel\<rparr>"

definition in_procs :: "proc_s list" where
  "in_procs =
     [PROCENT Idle [''idle'', ''.''] PRIO_LOW CHR ''!'',
      PROCENT ProgABC [''userA'', ''A'', ''30''] PRIO_STD CHR ''a'',
      PROCENT ProgABC [''userB'', ''B'', ''30''] PRIO_STD CHR ''b'',
      PROCENT ProgABC [''userC'', ''C'', ''30''] PRIO_STD CHR ''c'',
      PROCENT ProgDE [''userD'', ''D'', ''20''] PRIO_STD CHR ''d'',
      PROCENT ProgDE [''userE'', ''E'', ''20''] PRIO_STD CHR ''e'',
      PROCENT ProgFG [''userF'', ''F'', ''20''] PRIO_STD CHR ''f'',
      PROCENT ProgFG [''userG'', ''G'', ''10''] PRIO_STD CHR ''g'',
      PROCENT ProgH [''userH'', ''H'', ''4''] PRIO_STD CHR ''h'',
      PROCENT ProgI [''userI'', ''I''] PRIO_STD CHR ''i'',
      PROCENT ProgJ [''userJ'', ''J''] PRIO_STD CHR ''j'',
      PROCENT ProgKL [''userK'', ''K'', ''8''] PRIO_STD CHR ''k'',
      PROCENT ProgKL [''userL'', ''L'', ''5''] PRIO_STD CHR ''l'']"

definition IN_ENTRIES :: nat where
  "IN_ENTRIES = length in_procs"

section \<open>The initial process\<close>

text \<open>\<open>pids\<close> is the static array of the process numbers. The child of the \<^verbatim>\<open>fork()\<close> goes on in the caller when its
  \<^verbatim>\<open>exec()\<close> fails.\<close>

definition process :: "(uprog \<Rightarrow> u32) \<Rightarrow> int \<Rightarrow> u32 list \<Rightarrow> (u32 list \<Rightarrow> prog) \<Rightarrow> prog" where
  "process adr ix pids k =
     (if ix < 0 \<or> ix \<ge> int IN_ENTRIES
      then say 128 (line ''INIT: process(%d)???'') [Num (word_of_int ix)] (k pids)
      else
        let proc = in_procs ! nat ix
        in fork (pr_priority proc) (\<lambda>p.
           if sint p < 0 then say 128 (line ''INIT: fork for 0x%08x failed'') [Num (adr (pr_entry proc))] (k pids)
           else if p = 0 then
             exec (adr (pr_entry proc)) (pr_args proc) (
             say 128 (line ''INIT: exec(0x%08x) failed'') [Num (adr (pr_entry proc))] (k pids))
           else k (pids[nat ix := p])))"

fun init_wait :: "nat \<Rightarrow> (uprog \<Rightarrow> u32) \<Rightarrow> u8 list \<Rightarrow> u32 list \<Rightarrow> prog" where
  "init_wait 0 adr name pids = Running"
| "init_wait (Suc fuel) adr name pids =
     wait True (\<lambda>(whom, st).
       if sint whom \<le> 0 then
         say 128 (line ''%s: wait() returned %d???'') [Str name, Num whom] (init_wait fuel adr name pids)
       else
         (case st of None \<Rightarrow> Undefined
          | Some status \<Rightarrow>
            say 128 (line ''%s: pid %d exit(%d)'') [Str name, Num whom, Num status] (
            case List.find (\<lambda>ix. pids ! ix = whom) [0..<IN_ENTRIES] of
              None \<Rightarrow> init_wait fuel adr name pids
            | Some ix \<Rightarrow>
              let pids = pids[ix := 0]
              in if ix = 0 then process adr 0 pids (init_wait fuel adr name) else init_wait fuel adr name pids)))"

definition init :: "nat \<Rightarrow> (uprog \<Rightarrow> u32) \<Rightarrow> u8 list option \<Rightarrow> prog" where
  "init fuel adr args =
     (let (argc, argv) = ARG_PROC 2 args 5;
          main =
            swrites ([10, 10] @ lit ''Audio, video, disco!'' @ [10, 10, 13]) (\<lambda>_.
            string_at argv 0 (\<lambda>name.
            say 128 (line ''%s: starting user processes'') [Str name] (
            for_state IN_ENTRIES 0 (process adr) (replicate IN_ENTRIES 0) (\<lambda>pids.
            swrites (lit '' !!!'' @ [13, 10, 10]) (\<lambda>_.
            say 128 (line ''%s: transitioning to wait() mode'') [Str name] (
            init_wait fuel adr name pids))))))
      in if argc = 2 then string_at argv 1 (\<lambda>_. main) else main)"

section \<open>The idle process\<close>

fun idle_loop :: "nat \<Rightarrow> prog" where
  "idle_loop 0 = Running"
| "idle_loop (Suc fuel) = uwrite CHAN_SIO [46] (\<lambda>_. idle_loop fuel)"

definition idle :: "nat \<Rightarrow> u8 list option \<Rightarrow> prog" where
  "idle fuel args =
     getpid (\<lambda>pid. gettime (\<lambda>now. getprio 0 (\<lambda>r.
     let prio = ucast r :: u8
     in say 128 (line ''idle [%d], started @ %u'') [Num pid, Num (ucast prio), Num now] (
        uwrite CHAN_SIO [46] (\<lambda>_.
        idle_loop fuel)))))"

section \<open>Forks and waits\<close>

text \<open>The part of a trace that the supervision of the children is about.\<close>

fun event :: "sysreq \<times> sysans \<Rightarrow> trace" where
  "event (SysFork prio, r) = [(SysFork prio, r)]"
| "event (SysWait b, r) = [(SysWait b, r)]"
| "event x = []"

definition events :: "trace \<Rightarrow> trace" where
  "events t = concat (map event t)"

lemma events_simps [simp]: "events [] = []" "events (x # t) = event x @ events t"
  by (simp_all add: events_def)

definition watches :: "(sysreq \<Rightarrow> sysans \<Rightarrow> bool) \<Rightarrow> prog \<Rightarrow> (trace \<Rightarrow> u32 option \<Rightarrow> bool) \<Rightarrow> bool" where
  "watches E p Q = all_runs p E (\<lambda>t. Q (events t))"

named_theorems watching

lemma watches_Running [watching]: "Q [] None \<Longrightarrow> watches E Running Q"
  and watches_swrites [watching]: "(\<And>r. watches E (k' r) Q) \<Longrightarrow> watches E (swrites str k') Q"
  and watches_cwrites [watching]: "(\<And>r. watches E (k' r) Q) \<Longrightarrow> watches E (cwrites str k') Q"
  and watches_exec [watching]: "(\<And>r. E (SysExec what as) r \<Longrightarrow> watches E k Q) \<Longrightarrow> watches E (exec what as k) Q"
  and watches_fork [watching]: "(\<And>r x. E (SysFork prio) (r, x) \<Longrightarrow> watches E (k' r) (\<lambda>ev. Q ((SysFork prio, r, x) # ev))) \<Longrightarrow>
    watches E (fork prio k') Q"
  and watches_wait [watching]: "(\<And>r x. E (SysWait b) (r, x) \<Longrightarrow> watches E (kw (r, x)) (\<lambda>ev. Q ((SysWait b, r, x) # ev))) \<Longrightarrow>
    watches E (wait b kw) Q"
  by (simp_all add: watches_def exec_def swrites_def uwrite_def cwrites_def fork_def wait_def)

lemma watches_say:
  assumes "fits sz fmt ks" and "list_all2 has_kind ap ks" and "watches E k Q"
  shows "watches E (say sz fmt ap k) Q"
proof -
  obtain n where n: "fmt_size (fmt @ [0]) ks = Some n" "n < sz" using assms(1) by (auto simp: fits_def split: option.splits)
  from sprint_text_size [OF n(1) assms(2)] n(2) assms(3) show ?thesis
    by (auto simp: say_def usprint_def intro: watches_cwrites)
qed

lemma init_messages:
  "fits 128 (line ''INIT: process(%d)???'') [None]"
  "fits 128 (line ''INIT: fork for 0x%08x failed'') [None]"
  "fits 128 (line ''INIT: exec(0x%08x) failed'') [None]"
  "fits 128 (line ''%s: wait() returned %d???'') [Some 4, None]"
  "fits 128 (line ''%s: pid %d exit(%d)'') [Some 4, None, None]"
  "fits 128 (line ''%s: starting user processes'') [Some 4]"
  "fits 128 (line ''%s: transitioning to wait() mode'') [Some 4]"
  by code_simp+

lemmas watches_msg [watching] = init_messages [THEN watches_say]

section \<open>Supervision\<close>

text \<open>What is used of the kernel: \<^verbatim>\<open>wait()\<close> stores a status when it delivers a process; and, where it is said, that
  \<^verbatim>\<open>exec()\<close> does not come back.\<close>

definition stores_status :: "sysreq \<Rightarrow> sysans \<Rightarrow> bool" where
  "stores_status q r \<longleftrightarrow> (case q of SysWait b \<Rightarrow> 0 < sint (fst r) \<longrightarrow> snd r \<noteq> None | _ \<Rightarrow> True)"

definition kernel_answers :: "sysreq \<Rightarrow> sysans \<Rightarrow> bool" where
  "kernel_answers q r \<longleftrightarrow> stores_status q r \<and> (\<forall>what args. q \<noteq> SysExec what args)"

text \<open>The process number of a new process; a failure counts as 0.\<close>

definition pid_of :: "sysans \<Rightarrow> u32" where
  "pid_of r = (if sint (fst r) < 0 then 0 else fst r)"

text \<open>The supervision of the process with number \<open>p\<close>: it is started again, with low priority, whenever it has been
  collected, and no other process is.\<close>

fun supervised :: "u32 \<Rightarrow> trace \<Rightarrow> bool" where
  "supervised p [] = True"
| "supervised p ((SysWait b, r) # t) =
     (if 0 < sint (fst r) \<and> fst r = p
      then (case t of (SysFork prio, r') # t' \<Rightarrow> prio = PRIO_LOW \<and> supervised (pid_of r') t' | _ \<Rightarrow> False)
      else supervised p t)"
| "supervised p (x # t) = False"

definition started :: "nat \<Rightarrow> sysans list \<Rightarrow> trace" where
  "started i rs = zip (map (\<lambda>e. SysFork (pr_priority e)) (drop i in_procs)) rs"

lemma watches_if: "(b \<Longrightarrow> watches E p Q) \<Longrightarrow> (\<not> b \<Longrightarrow> watches E q Q) \<Longrightarrow> watches E (if b then p else q) Q"
  by simp

lemma watches_process:
  assumes "0 \<le> ix" and "ix < int IN_ENTRIES"
    and "\<And>r. watches kernel_answers (k (if sint (fst r) < 0 then pids else pids[nat ix := fst r]))
      (\<lambda>ev. Q ((SysFork (pr_priority (in_procs ! nat ix)), r) # ev))"
  shows "watches kernel_answers (process adr ix pids k) Q"
proof -
  have "watches kernel_answers (k pids) (\<lambda>ev. Q ((SysFork (pr_priority (in_procs ! nat ix)), r, x) # ev))" if "sint r < 0" for r x
    using assms(3) [of "(r, x)"] that by simp
  moreover have "watches kernel_answers (k (pids[nat ix := r])) (\<lambda>ev. Q ((SysFork (pr_priority (in_procs ! nat ix)), r, x) # ev))"
    if "\<not> sint r < 0" for r x
    using assms(3) [of "(r, x)"] that by simp
  ultimately show ?thesis unfolding process_def Let_def using assms(1,2)
    by (intro watches_if watching) (simp_all add: kernel_answers_def)
qed

lemma start_processes:
  assumes "i + n = IN_ENTRIES" and "length pids = IN_ENTRIES" and "i = 0 \<longrightarrow> pids ! 0 = 0"
    and "\<And>rs pids'. length rs = n \<Longrightarrow> length pids' = IN_ENTRIES \<Longrightarrow>
      pids' ! 0 = (if i = 0 \<and> 0 < n then pid_of (hd rs) else pids ! 0) \<Longrightarrow>
      watches kernel_answers (k pids') (\<lambda>ev. Q (started i rs @ ev))"
  shows "watches kernel_answers (for_state n (int i) (process adr) pids k) Q"
  using assms
proof (induction n arbitrary: i pids Q)
  case 0
  then show ?case using "0.prems"(4) [of "[]" pids] by (simp add: started_def)
next
  case (Suc n)
  have i: "i < length in_procs" "length pids = IN_ENTRIES" using Suc.prems(1,2) by (simp_all add: IN_ENTRIES_def)
  have hd: "started i (r # rs) = (SysFork (pr_priority (in_procs ! i)), r) # started (Suc i) rs" for r rs
    unfolding started_def Cons_nth_drop_Suc [OF i(1), symmetric] by simp
  show ?case unfolding for_state.simps
  proof (rule watches_process)
    fix r :: sysans
    let ?pids = "if sint (fst r) < 0 then pids else pids[nat (int i) := fst r]"
    have "watches kernel_answers (for_state n (int (Suc i)) (process adr) ?pids k)
      (\<lambda>ev. Q ((SysFork (pr_priority (in_procs ! nat (int i))), r) # ev))"
    proof (rule Suc.IH)
      fix rs pids'
      assume rs: "length rs = n" "length pids' = IN_ENTRIES" "pids' ! 0 = (if Suc i = 0 \<and> 0 < n then pid_of (hd rs) else ?pids ! 0)"
      have "pids' ! 0 = (if i = 0 \<and> 0 < Suc n then pid_of (hd (r # rs)) else pids ! 0)"
        using rs(3) Suc.prems(3) i by (auto simp: pid_of_def IN_ENTRIES_def)
      from Suc.prems(4) [OF _ rs(2) this] rs(1)
      show "watches kernel_answers (k pids') (\<lambda>ev. Q ((SysFork (pr_priority (in_procs ! nat (int i))), r) # started (Suc i) rs @ ev))"
        by (simp add: hd)
    qed (use Suc.prems(1,2) in simp_all)
    then show "watches kernel_answers (for_state n (int i + 1) (process adr) ?pids k)
      (\<lambda>ev. Q ((SysFork (pr_priority (in_procs ! nat (int i))), r) # ev))" by (simp add: add.commute)
  qed (use Suc.prems(1) in simp_all)
qed

lemma find_first:
  "List.find (\<lambda>i. pids ! i = w) [0..<n] = Some ix \<Longrightarrow> ix < n \<and> pids ! ix = w \<and> (pids ! 0 = w \<longrightarrow> ix = 0)"
  by (cases ix) (auto simp: find_Some_iff)

lemma IN_ENTRIES_13: "IN_ENTRIES = 13"
  by (simp add: IN_ENTRIES_def in_procs_def)

lemma wait_mode:
  assumes "length pids = IN_ENTRIES" and "length name \<le> 4"
  shows "watches kernel_answers (init_wait fuel adr name pids) (\<lambda>ev e. e = None \<and> supervised (pids ! 0) ev)"
  using assms(1)
proof (induction fuel arbitrary: pids)
  case 0
  then show ?case by (simp add: watches_Running)
next
  case (Suc fuel)
  let ?Q = "\<lambda>p ev e. e = None \<and> supervised p ev"
  have body: "watches kernel_answers (case List.find (\<lambda>ix. pids ! ix = whom) [0..<IN_ENTRIES] of
        None \<Rightarrow> init_wait fuel adr name pids
      | Some ix \<Rightarrow> let pids = pids[ix := 0] in
          if ix = 0 then process adr 0 pids (init_wait fuel adr name) else init_wait fuel adr name pids)
      (\<lambda>ev. ?Q (pids ! 0) ((SysWait True, whom, Some status) # ev))" if "\<not> sint whom \<le> 0" for whom status
  proof (cases "List.find (\<lambda>ix. pids ! ix = whom) [0..<IN_ENTRIES]")
    case None
    then have "pids ! 0 \<noteq> whom" by (simp add: find_None_iff IN_ENTRIES_13)
    then show ?thesis using None Suc by simp
  next
    case (Some ix)
    note ix = find_first [OF Some]
    show ?thesis
    proof (cases "ix = 0")
      case True
      have "watches kernel_answers (process adr 0 (pids[0 := 0]) (init_wait fuel adr name))
        (\<lambda>ev. ?Q (pids ! 0) ((SysWait True, whom, Some status) # ev))"
      proof (rule watches_process)
        fix r :: sysans
        let ?pids = "if sint (fst r) < 0 then pids[0 := 0] else pids[0 := 0, nat 0 := fst r]"
        have "length ?pids = IN_ENTRIES" "?pids ! 0 = pid_of r" using Suc.prems by (simp_all add: pid_of_def IN_ENTRIES_13)
        moreover have "pr_priority (in_procs ! nat 0) = PRIO_LOW" by (simp add: in_procs_def PROCENT_def)
        ultimately show "watches kernel_answers (init_wait fuel adr name ?pids)
          (\<lambda>ev. ?Q (pids ! 0) ((SysWait True, whom, Some status) # (SysFork (pr_priority (in_procs ! nat 0)), r) # ev))"
          using Suc.IH [of ?pids] ix True that by simp
      qed (simp_all add: IN_ENTRIES_13)
      then show ?thesis using Some True by (simp add: Let_def)
    next
      case False
      then show ?thesis using Some ix Suc.IH [of "pids[ix := 0]"] Suc.prems by auto
    qed
  qed
  have none: "watches kernel_answers (init_wait fuel adr name pids) (\<lambda>ev. ?Q (pids ! 0) ((SysWait True, whom, st) # ev))"
    if "sint whom \<le> 0" for whom st
    using Suc that by auto
  have "watches kernel_answers (if sint whom \<le> 0 then
         say 128 (line ''%s: wait() returned %d???'') [Str name, Num whom] (init_wait fuel adr name pids)
       else
         (case st of None \<Rightarrow> Undefined
          | Some status \<Rightarrow>
            say 128 (line ''%s: pid %d exit(%d)'') [Str name, Num whom, Num status] (
            case List.find (\<lambda>ix. pids ! ix = whom) [0..<IN_ENTRIES] of
              None \<Rightarrow> init_wait fuel adr name pids
            | Some ix \<Rightarrow>
              let pids = pids[ix := 0]
              in if ix = 0 then process adr 0 pids (init_wait fuel adr name) else init_wait fuel adr name pids)))
       (\<lambda>ev. ?Q (pids ! 0) ((SysWait True, whom, st) # ev))"
    if "kernel_answers (SysWait True) (whom, st)" for whom st
  proof (cases st)
    case None
    then have "sint whom \<le> 0" using that by (auto simp: kernel_answers_def stores_status_def)
    then show ?thesis using none assms(2) by (simp add: watches_msg)
  next
    case (Some status)
    show ?thesis unfolding Some option.case
      by (intro watches_if watches_msg) (use none body assms(2) Some in \<open>simp_all\<close>)
  qed
  then show ?case unfolding init_wait.simps by (intro watches_wait) simp
qed

lemma init_arguments:
  "ARG_PROC 2 (Some (argstr [lit ''init'', lit ''+''])) 5 = (2, [Some (lit ''init''), Some (lit ''+''), None, None, None])"
  by (rule ARG_PROC_2) code_simp


text \<open>An example of one round: process 7 is the idle process and is collected.\<close>

lemma wait_mode_example:
  "map fst (events (fst (run_on [(7, Some 0), (20, None), (9, None)]
     (init_wait 1 (\<lambda>_. 0x20000) (lit ''init'') (7 # replicate 12 0))))) = [SysWait True, SysFork PRIO_LOW]"
  by code_simp

section \<open>Endless programs\<close>

lemma process_goes_on:
  assumes "\<And>pids'. watches stores_status (k pids') (\<lambda>_. P)"
  shows "watches stores_status (process adr ix pids k) (\<lambda>_. P)"
  unfolding process_def Let_def by (intro watches_if watching) (simp_all add: assms)

lemma wait_mode_goes_on:
  assumes "length name \<le> 4"
  shows "watches stores_status (init_wait fuel adr name pids) (\<lambda>_ e. e = None)"
proof (induction fuel arbitrary: pids)
  case 0
  then show ?case by (simp add: watches_Running)
next
  case (Suc fuel)
  show ?case unfolding init_wait.simps
  proof (rule watches_wait, unfold prod.case, rule watches_if)
    fix whom st assume s: "stores_status (SysWait True) (whom, st)"
    show "watches stores_status (say 128 (line ''%s: wait() returned %d???'') [Str name, Num whom] (init_wait fuel adr name pids)) (\<lambda>_ e. e = None)"
      by (intro watching Suc) (use assms in simp_all)
    assume "\<not> sint whom \<le> 0"
    then obtain status where st: "st = Some status" using s by (auto simp: stores_status_def)
    show "watches stores_status (case st of None \<Rightarrow> Undefined
          | Some status \<Rightarrow> say 128 (line ''%s: pid %d exit(%d)'') [Str name, Num whom, Num status]
              (case List.find (\<lambda>ix. pids ! ix = whom) [0..<IN_ENTRIES] of None \<Rightarrow> init_wait fuel adr name pids
               | Some ix \<Rightarrow> let pids = pids[ix := 0] in
                   if ix = 0 then process adr 0 pids (init_wait fuel adr name) else init_wait fuel adr name pids)) (\<lambda>_ e. e = None)"
      unfolding st option.case
      by (intro watching) (use assms Suc process_goes_on [OF Suc] in \<open>simp_all add: Let_def split: option.splits\<close>)
  qed
qed

lemma start_goes_on:
  assumes "\<And>pids'. watches stores_status (k pids') (\<lambda>_. P)"
  shows "watches stores_status (for_state n i (process adr) pids k) (\<lambda>_. P)"
proof (induction n arbitrary: i pids)
  case (Suc n)
  show ?case unfolding for_state.simps by (rule process_goes_on) (rule Suc)
qed (simp add: assms)

lemma endless_messages:
  "fits 128 (line ''idle [%d], started @ %u'') [None, None, None]"
  "fits 128 (line ''%s sleeping %d(%d)'') [Some 80, None, None]"
  by code_simp+

lemmas serves_endless = endless_messages [THEN serves_say]

text \<open>C32. The initial process, the idle process and \<^verbatim>\<open>progS\<close> never end and never do anything undefined: not even
  when \<^verbatim>\<open>fork()\<close>, \<^verbatim>\<open>wait()\<close> or \<^verbatim>\<open>exec()\<close> fails, as long as a successful \<^verbatim>\<open>wait()\<close> has stored the status. What the
  idle process and \<^verbatim>\<open>progS\<close> write is one character for the start and one for every round.\<close>

theorem endless_programs:
  assumes "parts_ok [name, c, n]" and "length name \<le> 80"
  shows "all_runs (init fuel adr (Some (argstr [lit ''init'', lit ''+'']))) stores_status (\<lambda>t e. e = None) \<and>
    serves (idle fuel args) (\<lambda>out e. out = replicate (fuel + 1) 46 \<and> e = None) \<and>
    serves (progS fuel (Some (argstr [name, c, n]))) (\<lambda>out e. out = replicate (fuel + 1) (first_char c) \<and> e = None)"
proof (intro conjI)
  have name: "length (lit ''init'') \<le> 4" by (simp add: lit_def)
  have "watches stores_status (init fuel adr (Some (argstr [lit ''init'', lit ''+'']))) (\<lambda>_ e. e = None)"
    unfolding init_def init_arguments Let_def prod.case string_at_simps if_P [OF refl]
    by (intro watching start_goes_on wait_mode_goes_on) (use name in simp_all)
  then show "all_runs (init fuel adr (Some (argstr [lit ''init'', lit ''+'']))) stores_status (\<lambda>t e. e = None)"
    unfolding watches_def .
  have loop: "serves (idle_loop fuel) (\<lambda>out e. out = replicate fuel 46 \<and> e = None)" for fuel
  proof (induction fuel)
    case (Suc fuel)
    show ?case unfolding idle_loop.simps by (rule serving, rule serves_mono [OF Suc]) simp
  qed (simp add: serving)
  show "serves (idle fuel args) (\<lambda>out e. out = replicate (fuel + 1) 46 \<and> e = None)"
    unfolding idle_def Let_def
    by (intro serving serves_endless serves_mono [OF loop]) simp_all
  have loop: "serves (progS_loop fuel nap ch) (\<lambda>out e. out = replicate fuel ch \<and> e = None)" for fuel nap ch
  proof (induction fuel)
    case (Suc fuel)
    show ?case unfolding progS_loop.simps by (rule serving, rule serving, rule serves_mono [OF Suc]) simp
  qed (simp add: serving)
  show "serves (progS fuel (Some (argstr [name, c, n]))) (\<lambda>out e. out = replicate (fuel + 1) (first_char c) \<and> e = None)"
    unfolding progS_def ARG_PROC_3 [OF assms(1)] Let_def prod.case switch_3 string_at_simps
    by (intro serving serves_endless serves_mono [OF loop]) (use assms(2) in simp_all)
qed

text \<open>With the arguments of the table, and ten rounds.\<close>

theorem endless_programs_witness:
  "serves (progS 10 (Some (argstr [lit ''userS'', lit ''S'', lit ''13'']))) (\<lambda>out e. out = replicate 11 83 \<and> e = None)"
proof -
  have "parts_ok [lit ''userS'', lit ''S'', lit ''13'']" "length (lit ''userS'') \<le> 80" "first_char (lit ''S'') = 83" by code_simp+
  from endless_programs [OF this(1,2), of 10 "\<lambda>_. 0x20000" None] this(3) show ?thesis by simp
qed

end
