(* ===== verification/Build_Image.thy ===== *)
theory Build_Image
  imports Prelude
begin

text \<open>
  The host program \<^verbatim>\<open>util/BuildImage.c\<close>, which writes the disk image the machine boots from: the bootstrap
  and the programs to be loaded, each padded to whole sectors, and in the last bytes of the bootstrap
  the table with the length and the load address of every program.

  The state is the file system with the position in the output file and the global variables of the
  program. A run ends with a value, with an exit status and the state left behind, or in behaviour the C
  language and its library leave open: an \<^verbatim>\<open>int\<close> that overflows, or an input file that is the output file
  and is read while stdio buffers hold part of it. The names of files stand for different files; the
  host can refuse to create a file, and has room for files up to some size. \<^verbatim>\<open>getopt()\<close> is the POSIX
  function, \<^verbatim>\<open>short\<close>, \<^verbatim>\<open>int\<close> and \<^verbatim>\<open>long\<close> have 16, 32 and 64 bits, halfwords are stored in little-endian order.
  Messages on the standard error stream are left out.
\<close>

section \<open>Definitions\<close>

subsection \<open>Files\<close>

record host =
  can_create :: "string \<Rightarrow> bool"
  disk_room :: nat

record build_st =
  files :: "string \<Rightarrow> u8 list option"
  out_pos :: nat
  bootstrap_filename :: "string option"
  output_filename :: "string option"
  drive :: u16
  info :: "u16 list"
  n_info :: nat

datatype abort = Exit int build_st | Undefined

text \<open>The initial values of the globals, over a file system.\<close>

abbreviation (input) DRIVE_FLOPPY :: u16 where "DRIVE_FLOPPY \<equiv> 0x00"
abbreviation (input) DRIVE_USB :: u16 where "DRIVE_USB \<equiv> 0x80"
abbreviation (input) SECT_SIZE :: nat where "SECT_SIZE \<equiv> 512"
abbreviation (input) N_INFO :: nat where "N_INFO \<equiv> 256"

definition initial_st :: "(string \<Rightarrow> u8 list option) \<Rightarrow> build_st" where
  "initial_st fs = \<lparr>files = fs, out_pos = 0, bootstrap_filename = None, output_filename = None,
     drive = DRIVE_USB, info = replicate N_INFO 0, n_info = N_INFO\<rparr>"

text \<open>The contents of the output file.\<close>

definition out_image :: "build_st \<Rightarrow> u8 list" where
  "out_image s = (case output_filename s of None \<Rightarrow> [] | Some f \<Rightarrow> (case files s f of None \<Rightarrow> [] | Some bs \<Rightarrow> bs))"

definition set_out_image :: "u8 list \<Rightarrow> build_st \<Rightarrow> build_st" where
  "set_out_image bs s = (case output_filename s of None \<Rightarrow> s | Some f \<Rightarrow> s\<lparr>files := (files s)(f \<mapsto> bs)\<rparr>)"

text \<open>Bytes written over a file from a position on; a gap in front of them reads as zeros.\<close>

definition overwrite :: "nat \<Rightarrow> u8 list \<Rightarrow> u8 list \<Rightarrow> u8 list" where
  "overwrite p bs f = take p f @ replicate (p - length f) 0 @ bs @ drop (p + length bs) f"

text \<open>\<^verbatim>\<open>fwrite()\<close> to the output file, with the number of bytes it has written.\<close>

definition fwrite :: "host \<Rightarrow> u8 list \<Rightarrow> build_st \<Rightarrow> nat \<times> build_st" where
  "fwrite h bs s =
     (let n = min (length bs) (disk_room h - out_pos s)
      in (n, (set_out_image (overwrite (out_pos s) (take n bs) (out_image s)) s)\<lparr>out_pos := out_pos s + n\<rparr>))"

text \<open>\<^verbatim>\<open>fseek(..., SEEK_SET)\<close>; a negative offset is refused and leaves the position as it is.\<close>

definition fseek :: "int \<Rightarrow> build_st \<Rightarrow> build_st" where
  "fseek off s = (if off < 0 then s else s\<lparr>out_pos := nat off\<rparr>)"

definition le16 :: "u16 \<Rightarrow> u8 list" where
  "le16 w = [ucast w, ucast (drop_bit 8 w)]"

fun halfwords :: "u8 list \<Rightarrow> u16 list" where
  "halfwords (a # b # bs) = (ucast a OR push_bit 8 (ucast b)) # halfwords bs"
| "halfwords bs = []"

text \<open>\<^verbatim>\<open>fread()\<close> of \<open>n\<close> halfwords from the output file.\<close>

definition fread_halfwords :: "nat \<Rightarrow> build_st \<Rightarrow> u16 list \<times> build_st" where
  "fread_halfwords n s =
     (let bs = take (2 * n) (drop (out_pos s) (out_image s))
      in (halfwords bs, s\<lparr>out_pos := out_pos s + length bs\<rparr>))"

text \<open>The result of \<^verbatim>\<open>int\<close> arithmetic.\<close>

definition c_int :: "int \<Rightarrow> abort + int" where
  "c_int z = (if - (2 ^ 31) \<le> z \<and> z < 2 ^ 31 then Inr z else Inl Undefined)"

subsection \<open>Numbers\<close>

text \<open>\<^verbatim>\<open>strtol()\<close> in the C locale: the number and the rest of the text at which it stops.\<close>

definition isspace :: "char \<Rightarrow> bool" where
  "isspace c \<longleftrightarrow> (of_char c :: nat) = 32 \<or> (9 \<le> (of_char c :: nat) \<and> (of_char c :: nat) \<le> 13)"

definition digit_val :: "char \<Rightarrow> nat" where
  "digit_val c =
     (let n = of_char c
      in if 48 \<le> n \<and> n \<le> 57 then n - 48
         else if 65 \<le> n \<and> n \<le> 90 then n - 55
         else if 97 \<le> n \<and> n \<le> 122 then n - 87
         else 36)"

definition hex_prefix :: "string \<Rightarrow> bool" where
  "hex_prefix t \<longleftrightarrow> length t > 2 \<and> t ! 0 = CHR ''0'' \<and> (t ! 1 = CHR ''x'' \<or> t ! 1 = CHR ''X'') \<and> digit_val (t ! 2) < 16"

definition strtol_sign :: "string \<Rightarrow> bool \<times> string" where
  "strtol_sign t = (if t \<noteq> [] \<and> hd t = CHR ''-'' then (True, tl t) else if t \<noteq> [] \<and> hd t = CHR ''+'' then (False, tl t) else (False, t))"

definition strtol_base :: "nat \<Rightarrow> string \<Rightarrow> nat \<times> string" where
  "strtol_base base t =
     (if (base = 0 \<or> base = 16) \<and> hex_prefix t then (16, drop 2 t)
      else if base = 0 then (if t \<noteq> [] \<and> hd t = CHR ''0'' then 8 else 10, t)
      else (base, t))"

definition digits_val :: "nat \<Rightarrow> string \<Rightarrow> nat" where
  "digits_val base ds = foldl (\<lambda>v c. v * base + digit_val c) 0 ds"

definition clamp_long :: "int \<Rightarrow> int" where
  "clamp_long z = max (- (2 ^ 63)) (min (2 ^ 63 - 1) z)"

definition strtol :: "string \<Rightarrow> nat \<Rightarrow> int \<times> string" where
  "strtol str base =
     (let (neg, t) = strtol_sign (dropWhile isspace str);
          (base, t) = strtol_base base t;
          ds = takeWhile (\<lambda>c. digit_val c < base) t;
          v = int (digits_val base ds)
      in if ds = [] then (0, str)
         else (clamp_long (if neg then - v else v), drop (length ds) t))"

text \<open>Conversion to \<^verbatim>\<open>short\<close>.\<close>

definition to_short :: "int \<Rightarrow> int" where
  "to_short z = signed_take_bit 15 z"

subsection \<open>The program\<close>

definition quit :: "build_st \<Rightarrow> abort + 'a" where
  "quit s = Inl (Exit 1 (case output_filename s of None \<Rightarrow> s | Some f \<Rightarrow> s\<lparr>files := (files s)(f := None)\<rparr>))"

definition usage_error :: "build_st \<Rightarrow> abort + 'a" where
  "usage_error s = quit s"

function copy_loop :: "host \<Rightarrow> u8 list \<Rightarrow> int \<Rightarrow> build_st \<Rightarrow> abort + (int \<times> build_st)" where
  "copy_loop h inp n_sectors s =
     (let buf = take SECT_SIZE inp
      in if length buf > 0
         then let buf = buf @ replicate (SECT_SIZE - length buf) 0;
                  (n, s) = fwrite h buf s
              in if n \<noteq> SECT_SIZE then quit s
                 else kbind (c_int (n_sectors + 1)) (\<lambda>n_sectors. copy_loop h (drop SECT_SIZE inp) n_sectors s)
         else Inr (n_sectors, s))"
  by pat_completeness auto
termination
  by (relation "measure (\<lambda>(h, inp, n, s). length inp)") auto

declare copy_loop.simps [simp del]

definition copy_file :: "host \<Rightarrow> u8 list \<Rightarrow> build_st \<Rightarrow> abort + (int \<times> build_st)" where
  "copy_file h inp s = copy_loop h inp 0 s"

text \<open>\<^verbatim>\<open>fopen(name, "rb")\<close> and the contents that \<^verbatim>\<open>copy_file()\<close> will read.\<close>

definition open_input :: "string \<Rightarrow> build_st \<Rightarrow> abort + u8 list" where
  "open_input name s =
     (case files s name of
        None \<Rightarrow> quit s
      | Some inp \<Rightarrow> if output_filename s = Some name \<and> inp \<noteq> [] then Inl Undefined else Inr inp)"

text \<open>The load address: segment, offset, address and whether it is valid; no value for a bad format.\<close>

definition decode_addr :: "string \<Rightarrow> (int \<times> int \<times> int \<times> bool) option" where
  "decode_addr addr =
     (if CHR '':'' \<in> set addr then
        if length addr = 9 \<and> length (takeWhile (\<lambda>c. c \<noteq> CHR '':'') addr) = 4 then
          let (a1, ep1) = strtol addr 16;
              (a2, ep2) = strtol (drop 5 addr) 16;
              segment = to_short a1;
              offset = to_short a2;
              address = segment * 16 + offset
          in Some (segment, offset, address, ep1 = [] \<and> ep2 = [])
        else None
      else
        let (address, ep) = strtol addr 0;
            segment = to_short (drop_bit 4 address);
            offset = to_short (address AND 0xf)
        in Some (segment, offset, address, ep = [] \<and> address \<le> 0x9ffff))"

definition push_info :: "int \<Rightarrow> build_st \<Rightarrow> build_st" where
  "push_info v s = s\<lparr>n_info := n_info s - 1, info := (info s)[n_info s - 1 := word_of_int v]\<rparr>"

definition process_file :: "host \<Rightarrow> string \<Rightarrow> string \<Rightarrow> build_st \<Rightarrow> abort + build_st" where
  "process_file h name addr s =
     kbind (open_input name s) (\<lambda>inp.
     kbind (copy_file h inp s) (\<lambda>(n_sectors, s).
     case decode_addr addr of
       None \<Rightarrow> quit s
     | Some (segment, offset, address, valid_address) \<Rightarrow>
         if \<not> valid_address then quit s
         else kbind (c_int (n_sectors * 512)) (\<lambda>n_bytes.
           if address + n_bytes > 0x9ffff then quit s
           else if n_info s < 3 then quit s
           else Inr (push_info offset (push_info segment (push_info n_sectors s))))))"

text \<open>\<^verbatim>\<open>getopt()\<close> with the option string \<^verbatim>\<open>:d:o:b:\<close>: the option found, and the arguments that are left.\<close>

datatype option_found = Opt char string | Missing | Unrecognized | End_of_options

definition getopt :: "string list \<Rightarrow> option_found \<times> string list" where
  "getopt av =
     (case av of
        [] \<Rightarrow> (End_of_options, [])
      | a # av \<Rightarrow>
          if a = ''--'' then (End_of_options, av)
          else if length a < 2 \<or> a ! 0 \<noteq> CHR ''-'' then (End_of_options, a # av)
          else if a ! 1 \<notin> set ''dob'' then (Unrecognized, av)
          else if length a > 2 then (Opt (a ! 1) (drop 2 a), av)
          else (case av of [] \<Rightarrow> (Missing, []) | b # av \<Rightarrow> (Opt (a ! 1) b, av)))"

function option_loop :: "string list \<Rightarrow> build_st \<Rightarrow> abort + (string list \<times> build_st)" where
  "option_loop av s =
     (case getopt av of
        (End_of_options, av) \<Rightarrow> Inr (av, s)
      | (Missing, av) \<Rightarrow> usage_error s
      | (Unrecognized, av) \<Rightarrow> usage_error s
      | (Opt c optarg, av) \<Rightarrow>
          if c = CHR ''b'' then option_loop av (s\<lparr>bootstrap_filename := Some optarg\<rparr>)
          else if c = CHR ''d'' then
            (if optarg \<noteq> [] \<and> hd optarg = CHR ''f'' then option_loop av (s\<lparr>drive := DRIVE_FLOPPY\<rparr>)
             else if optarg \<noteq> [] \<and> hd optarg = CHR ''u'' then option_loop av (s\<lparr>drive := DRIVE_USB\<rparr>)
             else usage_error s)
          else if c = CHR ''o'' then option_loop av (s\<lparr>output_filename := Some optarg\<rparr>)
          else usage_error s)"
  by pat_completeness auto
termination
  by (relation "measure (\<lambda>(av, s). length av)") (auto simp: getopt_def split: list.splits if_splits)

declare option_loop.simps [simp del]

definition process_args :: "string list \<Rightarrow> build_st \<Rightarrow> abort + (string list \<times> build_st)" where
  "process_args av s =
     kbind (option_loop av s) (\<lambda>(av, s).
       if bootstrap_filename s = None then Inl (Exit 2 s)
       else if output_filename s = None then Inl (Exit 2 s)
       else if length av < 2 \<or> length av mod 2 \<noteq> 0 then usage_error s
       else Inr (av, s))"

fun process_files :: "host \<Rightarrow> string list \<Rightarrow> build_st \<Rightarrow> abort + (string list \<times> build_st)" where
  "process_files h (name # addr # av) s = kbind (process_file h name addr s) (process_files h av)"
| "process_files h av s = Inr (av, s)"

text \<open>The last part of \<^verbatim>\<open>main()\<close>: the table and the drive index.\<close>

definition write_info :: "host \<Rightarrow> int \<Rightarrow> build_st \<Rightarrow> abort + build_st" where
  "write_info h bootimage_size s =
     (let n_words = N_INFO - n_info s;
          n_bytes = int (n_words * 2);
          s = fseek (bootimage_size - n_bytes) s;
          (existing_data, s) = fread_halfwords n_words s
      in if length existing_data \<noteq> n_words then quit s
         else if \<exists>w \<in> set existing_data. w \<noteq> 0 then quit s
         else let s = fseek (bootimage_size - n_bytes) s;
                  (n, s) = fwrite h (concat (map le16 (drop (n_info s) (info s)))) s
              in if n div 2 \<noteq> n_words then quit s
                 else let s = fseek (512 - 4) s
                      in Inr (snd (fwrite h (le16 (drive s)) s)))"

text \<open>\<^verbatim>\<open>main()\<close> once the output file has been created.\<close>

definition build_image :: "host \<Rightarrow> string list \<Rightarrow> build_st \<Rightarrow> abort + build_st" where
  "build_image h av s =
     kbind (open_input (the (bootstrap_filename s)) s) (\<lambda>inp.
     kbind (copy_file h inp s) (\<lambda>(n_sectors, s).
     kbind (c_int (n_sectors * 512)) (\<lambda>bootimage_size.
     kbind (process_files h av s) (\<lambda>(av, s).
       if length av > 0 then usage_error s
       else write_info h bootimage_size s))))"

definition build_main :: "host \<Rightarrow> string list \<Rightarrow> build_st \<Rightarrow> abort + build_st" where
  "build_main h av s =
     kbind (process_args av s) (\<lambda>(av, s).
       let name = the (output_filename s)
       in if \<not> can_create h name then quit s
          else build_image h av (s\<lparr>files := (files s)(name \<mapsto> []), out_pos := 0\<rparr>))"

section \<open>Sectors\<close>

text \<open>The number of sectors that a file takes, and its contents on the disk.\<close>

definition sectors :: "u8 list \<Rightarrow> nat" where
  "sectors bs = (length bs + 511) div 512"

definition padded :: "u8 list \<Rightarrow> u8 list" where
  "padded bs = bs @ replicate (512 * sectors bs - length bs) 0"

lemma sectors_Nil [simp]: "sectors [] = 0"
  by (simp add: sectors_def)

lemma padded_Nil [simp]: "padded [] = []"
  by (simp add: padded_def)

lemma length_padded [simp]: "length (padded bs) = 512 * sectors bs"
proof -
  have "length bs \<le> 512 * sectors bs"
    using mult_div_mod_eq [of 512 "length bs + 511"] mod_less_divisor [of 512 "length bs + 511"]
    unfolding sectors_def by linarith
  then show ?thesis
    by (simp add: padded_def)
qed

lemma sectors_step: "bs \<noteq> [] \<Longrightarrow> sectors bs = Suc (sectors (drop 512 bs))"
proof -
  assume "bs \<noteq> []"
  then have "0 < length bs" by simp
  then show ?thesis
    using le_div_geq [of 512 "length bs + 511"]
    by (cases "512 \<le> length bs") (simp_all add: sectors_def Suc_le_eq)
qed

lemma padded_step:
  assumes "bs \<noteq> []"
  shows "padded bs = take 512 bs @ replicate (512 - length (take 512 bs)) 0 @ padded (drop 512 bs)"
proof (cases "512 \<le> length bs")
  case True
  then show ?thesis
    using sectors_step [OF assms]
    by (simp add: padded_def min_absorb2 add.commute flip: append_assoc)
next
  case False
  then show ?thesis
    using sectors_step [OF assms] by (simp add: padded_def min_absorb1)
qed

lemma sectors_eq_0 [simp]: "sectors bs = 0 \<longleftrightarrow> bs = []"
  by (cases "bs = []") (simp_all add: sectors_step)

section \<open>Writing\<close>

lemma overwrite_end [simp]: "overwrite (length f) bs f = f @ bs"
  by (simp add: overwrite_def)

lemma overwrite_inside:
  assumes "p + length bs \<le> length f"
  shows "length (overwrite p bs f) = length f"
    and "i < length f \<Longrightarrow> overwrite p bs f ! i = (if p \<le> i \<and> i < p + length bs then bs ! (i - p) else f ! i)"
  using assms by (auto simp: overwrite_def nth_append min_def)

text \<open>The output file \<open>f\<close> is open, holds \<open>img\<close>, and the next write goes to its end.\<close>

definition at_end :: "string \<Rightarrow> u8 list \<Rightarrow> build_st \<Rightarrow> bool" where
  "at_end f img s \<longleftrightarrow> output_filename s = Some f \<and> files s f = Some img \<and> out_pos s = length img"

lemma fwrite_at_end:
  assumes "at_end f img s"
  shows "fwrite h bs s =
    (let n = min (length bs) (disk_room h - length img)
     in (n, s\<lparr>files := (files s)(f \<mapsto> img @ take n bs), out_pos := length img + n\<rparr>))"
  using assms by (simp add: fwrite_def at_end_def out_image_def set_out_image_def Let_def)

lemma copy_loop_Nil [simp]: "copy_loop h [] n s = Inr (n, s)"
  by (simp add: copy_loop.simps)

text \<open>One turn of the copying loop at the end of the file.\<close>

lemma copy_loop_turn:
  assumes "at_end f img s" "inp \<noteq> []" "length img + 512 \<le> disk_room h"
  defines "buf \<equiv> take 512 inp @ replicate (512 - length (take 512 inp)) 0"
  shows "copy_loop h inp n s = kbind (c_int (n + 1)) (\<lambda>n. copy_loop h (drop 512 inp) n
           (s\<lparr>files := (files s)(f \<mapsto> img @ buf), out_pos := length (img @ buf)\<rparr>))"
  using assms(1,2,3)
  by (subst copy_loop.simps) (simp add: fwrite_at_end Let_def buf_def)

lemma copy_loop_full:
  assumes "at_end f img s" "inp \<noteq> []" "\<not> length img + 512 \<le> disk_room h"
  shows "\<exists>s'. copy_loop h inp n s = quit s'"
  using assms by (subst copy_loop.simps) (auto simp: fwrite_at_end Let_def min_def)

lemma at_end_append:
  "at_end f img s \<Longrightarrow> at_end f (img @ bs) (s\<lparr>files := (files s)(f \<mapsto> img @ bs), out_pos := length (img @ bs)\<rparr>)"
  by (simp add: at_end_def)

lemma copy_loop_returned:
  assumes "at_end f img s" "copy_loop h inp n s = Inr (n', s')"
  shows "n' = n + int (sectors inp) \<and>
         s' = s\<lparr>files := (files s)(f \<mapsto> img @ padded inp), out_pos := length (img @ padded inp)\<rparr>"
  using assms
proof (induction "length inp" arbitrary: inp n s img rule: less_induct)
  case less
  show ?case
  proof (cases "inp = []")
    case True
    with less.prems show ?thesis
      by (cases s) (auto simp: at_end_def fun_upd_idem)
  next
    case False
    let ?buf = "take 512 inp @ replicate (512 - length (take 512 inp)) 0"
    let ?s = "s\<lparr>files := (files s)(f \<mapsto> img @ ?buf), out_pos := length (img @ ?buf)\<rparr>"
    have room: "length img + 512 \<le> disk_room h"
      using copy_loop_full [OF less.prems(1) False, of h n] less.prems(2) by (auto simp: quit_def)
    have "copy_loop h (drop 512 inp) (n + 1) ?s = Inr (n', s')"
      using less.prems(2) copy_loop_turn [OF less.prems(1) False room, of n]
      by (auto simp: kbind_eq_Inr c_int_def split: if_splits)
    then have "n' = n + 1 + int (sectors (drop 512 inp)) \<and> s' = ?s\<lparr>files := (files ?s)(f \<mapsto> (img @ ?buf) @ padded (drop 512 inp)),
        out_pos := length ((img @ ?buf) @ padded (drop 512 inp))\<rparr>"
      using False by (intro less.hyps at_end_append less.prems) auto
    then show ?thesis
      by (simp add: sectors_step [OF False] padded_step [OF False])
  qed
qed

lemma copy_loop_returns:
  assumes "at_end f img s" "length img + 512 * sectors inp \<le> disk_room h"
    and "- (2 ^ 31) \<le> n" "n + int (sectors inp) < 2 ^ 31"
  shows "copy_loop h inp n s = Inr (n + int (sectors inp),
           s\<lparr>files := (files s)(f \<mapsto> img @ padded inp), out_pos := length (img @ padded inp)\<rparr>)"
proof -
  have "\<exists>r. copy_loop h inp n s = Inr r"
    using assms
  proof (induction "length inp" arbitrary: inp n s img rule: less_induct)
    case less
    show ?case
    proof (cases "inp = []")
      case False
      note st = sectors_step [OF False]
      have room: "length img + 512 \<le> disk_room h"
        using less.prems(2) st by simp
      have c: "c_int (n + 1) = Inr (n + 1)"
        using less.prems(3,4) st by (simp add: c_int_def)
      show ?thesis
        unfolding copy_loop_turn [OF less.prems(1) False room] c kbind_simps
        by (rule less.hyps [OF _ at_end_append [OF less.prems(1)]])
          (use False less.prems(2-4) st in auto)
    qed simp
  qed
  then show ?thesis
    using copy_loop_returned [OF assms(1)] by auto
qed

section \<open>Load addresses\<close>

lemma digit_val_colon [simp]: "digit_val CHR '':'' = 36"
  by (simp add: digit_val_def)

lemma dropWhile_keeps: "x \<in> set xs \<Longrightarrow> \<not> P x \<Longrightarrow> x \<in> set (dropWhile P xs)"
  by (induction xs) auto

lemma drop_takeWhile: "drop (length (takeWhile P xs)) xs = dropWhile P xs"
  by (induction xs) auto

lemma colon_sign: "CHR '':'' \<in> set t \<Longrightarrow> CHR '':'' \<in> set (snd (strtol_sign t))"
  by (cases t) (auto simp: strtol_sign_def)

lemma colon_base: "CHR '':'' \<in> set t \<Longrightarrow> CHR '':'' \<in> set (snd (strtol_base base t))"
  by (cases t; cases "tl t") (auto simp: strtol_base_def hex_prefix_def)

text \<open>\<^verbatim>\<open>strtol()\<close> never reads past a colon.\<close>

lemma strtol_stops:
  assumes "CHR '':'' \<in> set str" "base \<le> 36"
  shows "snd (strtol str base) \<noteq> []"
proof -
  obtain neg t where t: "strtol_sign (dropWhile isspace str) = (neg, t)"
    by force
  obtain b u where u: "strtol_base base t = (b, u)"
    by force
  have "CHR '':'' \<in> set (dropWhile isspace str)"
    using assms(1) by (rule dropWhile_keeps) (simp add: isspace_def)
  then have "CHR '':'' \<in> set u"
    using colon_sign [of "dropWhile isspace str"] colon_base [of t base] t u by simp
  moreover have "b \<le> 36"
    using u assms(2) by (auto simp: strtol_base_def split: if_splits)
  ultimately have "CHR '':'' \<in> set (dropWhile (\<lambda>c. digit_val c < b) u)"
    by (intro dropWhile_keeps) auto
  then have "\<exists>c\<in>set u. \<not> digit_val c < b"
    by (metis dropWhile_eq_Nil_conv empty_iff empty_set)
  then show ?thesis
    using assms(1) by (auto simp: strtol_def t u drop_takeWhile Let_def)
qed

text \<open>An address that is accepted is a plain number; its segment and offset are cut from it.\<close>

lemma decode_addr_valid:
  assumes "decode_addr addr = Some (segment, offset, address, True)"
  shows "CHR '':'' \<notin> set addr \<and> strtol addr 0 = (address, []) \<and> address \<le> 0x9ffff \<and>
         segment = to_short (drop_bit 4 address) \<and> offset = to_short (address AND 0xf)"
proof -
  have "CHR '':'' \<notin> set addr"
    using assms strtol_stops [of addr 16]
    by (auto simp: decode_addr_def Let_def split: if_splits prod.splits)
  then show ?thesis
    using assms by (auto simp: decode_addr_def Let_def split: prod.splits)
qed

lemma word_to_short [simp]: "(word_of_int (to_short z) :: u16) = word_of_int z"
  by (simp add: to_short_def word_of_int_eq_iff take_bit_signed_take_bit)

text \<open>Numbers as they are written, with the digits in a base.\<close>

definition digit_char :: "nat \<Rightarrow> char" where
  "digit_char d = ''0123456789abcdef'' ! d"

fun digits :: "nat \<Rightarrow> nat \<Rightarrow> string" where
  "digits b n = (if n < b \<or> b < 2 then [digit_char n] else digits b (n div b) @ [digit_char (n mod b)])"

declare digits.simps [simp del]

lemma digit_char_facts:
  assumes "d < 16"
  shows "digit_val (digit_char d) = d" "\<not> isspace (digit_char d)" "digit_char d \<notin> {CHR ''-'', CHR ''+'', CHR ''x'', CHR ''X'', CHR '':''}"
    "digit_char d = CHR ''0'' \<longleftrightarrow> d = 0"
proof -
  have "\<forall>d \<in> set [0..<16]. digit_val (digit_char d) = d \<and> \<not> isspace (digit_char d) \<and>
    digit_char d \<notin> {CHR ''-'', CHR ''+'', CHR ''x'', CHR ''X'', CHR '':''} \<and> (digit_char d = CHR ''0'' \<longleftrightarrow> d = 0)"
    by code_simp
  with assms show "digit_val (digit_char d) = d" "\<not> isspace (digit_char d)"
    "digit_char d \<notin> {CHR ''-'', CHR ''+'', CHR ''x'', CHR ''X'', CHR '':''}" "digit_char d = CHR ''0'' \<longleftrightarrow> d = 0"
    by auto
qed

lemma digits_chars: "2 \<le> b \<Longrightarrow> b \<le> 16 \<Longrightarrow> c \<in> set (digits b n) \<Longrightarrow> \<exists>d < b. c = digit_char d"
proof (induction b n rule: digits.induct)
  case (1 b n)
  have "\<exists>d < b. digit_char (n mod b) = digit_char d"
    using 1(2) by (intro exI [of _ "n mod b"]) simp
  with 1 show ?case
    by (auto simp: digits.simps [of b n] split: if_splits)
qed

lemma digits_val_snoc: "digits_val b (ds @ [c]) = digits_val b ds * b + digit_val c"
  by (simp add: digits_val_def)

lemma digits_val_digits: "2 \<le> b \<Longrightarrow> b \<le> 16 \<Longrightarrow> digits_val b (digits b n) = n"
proof (induction b n rule: digits.induct)
  case (1 b n)
  show ?case
  proof (cases "n < b")
    case True
    then show ?thesis
      using 1(3) by (simp add: digits.simps [of b n] digits_val_def digit_char_facts)
  next
    case False
    have "n mod b < 16"
      using 1(2,3) mod_less_divisor [of b n] by linarith
    with False 1 show ?thesis
      by (simp add: digits.simps [of b n] digits_val_snoc digit_char_facts)
  qed
qed

lemma digits_hd: "2 \<le> b \<Longrightarrow> b \<le> 16 \<Longrightarrow> \<exists>d ds. digits b n = digit_char d # ds \<and> d < b \<and> (d = 0 \<longrightarrow> n = 0)"
proof (induction b n rule: digits.induct)
  case (1 b n)
  show ?case
  proof (cases "n < b")
    case False
    then obtain d ds where "digits b (n div b) = digit_char d # ds \<and> d < b \<and> (d = 0 \<longrightarrow> n div b = 0)"
      using 1 by auto
    then show ?thesis
      using False 1(2) by (auto simp: digits.simps [of b n] div_eq_0_iff)
  qed (use 1 in \<open>auto simp: digits.simps [of b n]\<close>)
qed

text \<open>\<^verbatim>\<open>strtol()\<close> reads a run of digits without a sign to its end.\<close>

lemma strtol_run:
  assumes "t \<noteq> []" "\<not> isspace (hd t)" "hd t \<notin> {CHR ''-'', CHR ''+''}" "strtol_base base t = (b, ds)"
    and "ds \<noteq> []" "\<forall>c \<in> set ds. digit_val c < b" "int (digits_val b ds) < 2 ^ 63"
  shows "strtol t base = (int (digits_val b ds), [])"
proof -
  have "dropWhile isspace t = t"
    using assms(1,2) by (cases t) auto
  moreover have "strtol_sign t = (False, t)"
    using assms(3) by (simp add: strtol_sign_def)
  moreover have t: "takeWhile (\<lambda>c. digit_val c < b) ds = ds"
    using assms(6) by (simp add: takeWhile_eq_all_conv)
  ultimately show ?thesis
    unfolding strtol_def using assms(4,5,7) by (simp add: t Let_def clamp_long_def del: takeWhile_eq_all_conv)
qed

lemma strtol_spellings:
  assumes "int n < 2 ^ 63"
  shows "strtol (''0x'' @ digits 16 n) 0 = (int n, [])" "strtol (digits 10 n) 0 = (int n, [])"
    "strtol (CHR ''0'' # digits 8 n) 0 = (int n, [])"
proof -
  have chars: "\<forall>c \<in> set (digits b n). digit_val c < b" if "2 \<le> b" "b \<le> 16" for b
    using digits_chars [OF that] that(2) by (fastforce simp: digit_char_facts)
  have zero: "digit_val CHR ''0'' = 0" "\<not> isspace CHR ''0''"
    by code_simp+
  obtain d ds where hex: "digits 16 n = digit_char d # ds" "d < 16"
    using digits_hd [of 16 n] by auto
  have "strtol (''0x'' @ digits 16 n) 0 = (int (digits_val 16 (digits 16 n)), [])"
    using chars [of 16] assms hex zero digits_val_digits [of 16 n]
    by (intro strtol_run) (auto simp: strtol_base_def hex_prefix_def digit_char_facts digits_val_digits)
  then show "strtol (''0x'' @ digits 16 n) 0 = (int n, [])"
    by (simp add: digits_val_digits)
  obtain d ds where oct: "digits 8 n = digit_char d # ds" "d < 8"
    using digits_hd [of 8 n] by auto
  have v: "digits_val 8 (CHR ''0'' # digits 8 n) = n"
    using digits_val_digits [of 8 n] by (simp add: digits_val_def zero)
  have "strtol (CHR ''0'' # digits 8 n) 0 = (int (digits_val 8 (CHR ''0'' # digits 8 n)), [])"
    using chars [of 8] assms oct zero digit_char_facts(3) [of d] v
    by (intro strtol_run) (auto simp: strtol_base_def hex_prefix_def)
  then show "strtol (CHR ''0'' # digits 8 n) 0 = (int n, [])"
    by (simp add: v)
  obtain d ds where dec: "digits 10 n = digit_char d # ds" "d < 10" "d = 0 \<longrightarrow> n = 0"
    using digits_hd [of 10 n] by auto
  show "strtol (digits 10 n) 0 = (int n, [])"
  proof (cases "n = 0")
    case True
    have "strtol (digits 10 0) 0 = (0, [])"
      by code_simp
    with True show ?thesis
      by simp
  next
    case False
    then have "strtol (digits 10 n) 0 = (int (digits_val 10 (digits 10 n)), [])"
      using chars [of 10] assms dec digit_char_facts [of d] digits_val_digits [of 10 n]
      by (intro strtol_run) (auto simp: strtol_base_def hex_prefix_def digits_val_digits)
    then show ?thesis
      by (simp add: digits_val_digits)
  qed
qed

section \<open>Programs\<close>

text \<open>
  A program is the contents of its file and its load address. Its entry in the table, in the order of
  the addresses in memory: offset, segment and number of sectors.
\<close>

type_synonym program = "u8 list \<times> int"

definition entry :: "program \<Rightarrow> u16 list" where
  "entry = (\<lambda>(inp, address). [word_of_int (address AND 0xf), word_of_int (drop_bit 4 address), of_nat (sectors inp)])"

text \<open>The table that the programs give: the first one last.\<close>

definition table :: "program list \<Rightarrow> u16 list" where
  "table ps = concat (map entry (rev ps))"

lemma length_table [simp]: "length (table ps) = 3 * length ps"
  by (induction ps) (auto simp: table_def entry_def)

text \<open>What a pair of arguments stands for, when the image begins with \<open>img\<close>.\<close>

definition program_of :: "(string \<Rightarrow> u8 list option) \<Rightarrow> string \<Rightarrow> u8 list \<Rightarrow> string \<times> string \<Rightarrow> program \<Rightarrow> bool" where
  "program_of fs f img = (\<lambda>(name, addr) (inp, address).
     (if name = f then img = [] \<and> inp = [] else fs name = Some inp) \<and> CHR '':'' \<notin> set addr \<and> strtol addr 0 = (address, []) \<and>
     address \<le> 0x9ffff \<and> address + 512 * int (sectors inp) \<le> 0x9ffff)"

fun program_args :: "string list \<Rightarrow> (string \<times> string) list" where
  "program_args (name # addr # av) = (name, addr) # program_args av"
| "program_args av = []"

text \<open>The state with programs appended to the image and to the table.\<close>

definition with_programs :: "string \<Rightarrow> u8 list \<Rightarrow> program list \<Rightarrow> build_st \<Rightarrow> build_st" where
  "with_programs f img ps s =
     (let img = img @ concat (map (padded \<circ> fst) ps)
      in s\<lparr>files := (files s)(f \<mapsto> img), out_pos := length img,
           info := take (n_info s - 3 * length ps) (info s) @ table ps @ drop (n_info s) (info s),
           n_info := n_info s - 3 * length ps\<rparr>)"

lemma push_info_three:
  assumes "n_info s \<le> length (info s)" "3 \<le> n_info s"
  shows "push_info a (push_info b (push_info c s)) =
    s\<lparr>info := take (n_info s - 3) (info s) @ [word_of_int a, word_of_int b, word_of_int c] @ drop (n_info s) (info s),
      n_info := n_info s - 3\<rparr>"
proof -
  obtain k where k: "n_info s = k + 3"
    using assms(2) by (metis add.commute le_Suc_ex)
  have "(info s)[k + 2 := w, k + 1 := v, k := u] = take k (info s) @ [u, v, w] @ drop (k + 3) (info s)" for u v w
    using assms(1) k
    by (intro nth_equalityI) (auto simp: nth_append nth_list_update nth_Cons' min_def)
  then show ?thesis
    by (simp add: push_info_def k)
qed

lemma process_file_returned:
  assumes "at_end f img s" "n_info s \<le> length (info s)" "process_file h name addr s = Inr s'"
    and "files s = fs(f \<mapsto> img)"
  shows "\<exists>p. program_of fs f img (name, addr) p \<and> 3 \<le> n_info s \<and> s' = with_programs f img [p] s"
proof -
  have f: "output_filename s = Some f"
    using assms(1) by (simp add: at_end_def)
  obtain inp n s1 where inp: "open_input name s = Inr inp" and copy: "copy_loop h inp 0 s = Inr (n, s1)"
    and rest: "(case decode_addr addr of None \<Rightarrow> quit s1
       | Some (segment, offset, address, valid_address) \<Rightarrow>
         if \<not> valid_address then quit s1
         else kbind (c_int (n * 512)) (\<lambda>n_bytes.
           if address + n_bytes > 0x9ffff then quit s1
           else if n_info s1 < 3 then quit s1
           else Inr (push_info offset (push_info segment (push_info n s1))))) = Inr s'"
    using assms(3) by (auto simp: process_file_def copy_file_def kbind_eq_Inr)
  note c = copy_loop_returned [OF assms(1) copy]
  obtain segment offset address where d: "decode_addr addr = Some (segment, offset, address, True)"
    and fit: "address + n * 512 \<le> 0x9ffff" and room: "3 \<le> n_info s1"
    and s': "s' = push_info offset (push_info segment (push_info n s1))"
    using rest by (auto simp: kbind_eq_Inr quit_def c_int_def not_less split: option.splits if_splits)
  have "program_of fs f img (name, addr) (inp, address)"
    using inp fit c assms(4) f decode_addr_valid [OF d]
    by (auto simp: program_of_def open_input_def quit_def split: option.splits if_splits)
  moreover have "s' = with_programs f img [(inp, address)] s"
    using push_info_three [of s1 offset segment n] room assms(2) c decode_addr_valid [OF d]
    by (simp add: s' with_programs_def table_def entry_def Let_def)
  ultimately show ?thesis
    using room c by auto
qed

lemma with_programs_Nil: "at_end f img s \<Longrightarrow> with_programs f img [] s = s"
  by (cases s) (auto simp: with_programs_def at_end_def Let_def table_def fun_upd_idem)

lemma with_programs_more:
  assumes "n_info s \<le> length (info s)" "3 * length (p # ps) \<le> n_info s"
  shows "with_programs f (img @ padded (fst p)) ps (with_programs f img [p] s) = with_programs f img (p # ps) s"
  using assms by (simp add: with_programs_def Let_def table_def entry_def split_beta min_def drop_take)

lemma process_files_returned:
  assumes "at_end f img s" "n_info s \<le> length (info s)" "process_files h av s = Inr (av', s')"
    and "files s = fs(f \<mapsto> img)"
  shows "\<exists>ps. list_all2 (program_of fs f img) (program_args av) ps \<and> 3 * length ps \<le> n_info s \<and>
    s' = with_programs f img ps s"
  using assms
proof (induction h av s arbitrary: img rule: process_files.induct)
  case (1 h name addr av s)
  obtain s1 where s1: "process_file h name addr s = Inr s1" and rest: "process_files h av s1 = Inr (av', s')"
    using 1(4) by (auto simp: kbind_eq_Inr)
  obtain p where p: "program_of fs f img (name, addr) p" "3 \<le> n_info s" and s1': "s1 = with_programs f img [p] s"
    using process_file_returned [OF 1(2,3) s1 1(5)] by blast
  have "\<exists>ps. list_all2 (program_of fs f (img @ padded (fst p))) (program_args av) ps \<and> 3 * length ps \<le> n_info s1 \<and>
    s' = with_programs f (img @ padded (fst p)) ps s1"
    using 1(2,3,5) p(2) by (intro 1(1) [OF _ _ rest]) (auto simp: s1' with_programs_def at_end_def Let_def)
  then obtain ps where ps: "list_all2 (program_of fs f (img @ padded (fst p))) (program_args av) ps"
    "3 * length ps \<le> n_info s1" "s' = with_programs f (img @ padded (fst p)) ps s1"
    by blast
  have "list_all2 (program_of fs f img) (program_args av) ps"
    using ps(1) by (rule list_all2_mono) (auto simp: program_of_def split: if_splits)
  moreover have "3 * length (p # ps) \<le> n_info s"
    using ps(2) p(2) by (simp add: s1' with_programs_def Let_def)
  ultimately show ?case
    using p(1) ps(3) with_programs_more [OF 1(3), of p ps f img]
    by (intro exI [of _ "p # ps"]) (simp add: s1')
qed (auto simp: with_programs_Nil intro!: exI [of _ "[]"])

section \<open>The table in the image\<close>

lemma halfwords_le16 [simp]: "halfwords (le16 w @ bs) = w # halfwords bs"
proof -
  have "(ucast (ucast w :: u8) :: u16) OR push_bit 8 (ucast (ucast (drop_bit 8 w) :: u8)) = w"
    by (intro bit_word_eqI) (auto simp: bit_simps)
  then show ?thesis
    by (simp add: le16_def)
qed

lemma length_le16 [simp]: "length (le16 w) = 2"
  by (simp add: le16_def)

lemma length_concat_le16 [simp]: "length (concat (map le16 ws)) = 2 * length ws"
  by (induction ws) simp_all

lemma length_halfwords: "length (halfwords bs) = length bs div 2"
  by (induction bs rule: halfwords.induct) simp_all

text \<open>The halfword at a position of the image.\<close>

definition halfword_at :: "u8 list \<Rightarrow> nat \<Rightarrow> u16" where
  "halfword_at bs p = hd (halfwords (drop p bs))"

lemma nth_concat_le16:
  "i < length ws \<Longrightarrow> drop (2 * i) (concat (map le16 ws)) = le16 (ws ! i) @ concat (map le16 (drop (Suc i) ws))"
proof (induction ws arbitrary: i)
  case (Cons w ws)
  then show ?case by (cases i) simp_all
qed simp

lemma halfwords_zero:
  assumes "even (length bs)" "\<forall>w \<in> set (halfwords bs). w = 0"
  shows "\<forall>b \<in> set bs. b = 0"
  using assms
proof (induction bs rule: halfwords.induct)
  case (1 a b bs)
  have z: "(ucast a OR push_bit 8 (ucast b) :: u16) = 0"
    using 1(3) by simp
  have "\<not> bit a n" "\<not> bit b n" for n
    using arg_cong [OF z, of "\<lambda>w. bit w n"] arg_cong [OF z, of "\<lambda>w. bit w (n + 8)"]
      bit_imp_le_length [of a n] bit_imp_le_length [of b n]
    by (auto simp: bit_simps)
  then have "a = 0" "b = 0"
    by (simp_all add: bit_eq_iff)
  with 1 show ?case by simp
qed simp_all

lemma zeros_halfwords: "\<forall>b \<in> set bs. b = 0 \<Longrightarrow> \<forall>w \<in> set (halfwords bs). w = 0"
  by (induction bs rule: halfwords.induct) simp_all

text \<open>What the last part of \<^verbatim>\<open>main()\<close> does to an image when it succeeds.\<close>

definition patched :: "nat \<Rightarrow> u16 \<Rightarrow> u16 list \<Rightarrow> u8 list \<Rightarrow> u8 list" where
  "patched sz drv ws img = overwrite 508 (le16 drv) (overwrite (sz - 2 * length ws) (concat (map le16 ws)) img)"

lemma fwrite_inside:
  assumes "output_filename s = Some f" "files s f = Some img"
    and "length bs \<le> disk_room h - out_pos s"
  shows "fwrite h bs s = (length bs, s\<lparr>files := (files s)(f \<mapsto> overwrite (out_pos s) bs img), out_pos := out_pos s + length bs\<rparr>)"
  using assms by (simp add: fwrite_def out_image_def set_out_image_def Let_def min_def)

lemma fwrite_drive [simp]: "drive (snd (fwrite h bs s)) = drive s"
  by (simp add: fwrite_def set_out_image_def Let_def split: option.splits)

text \<open>A table that is larger than the bootstrap is refused.\<close>

lemma write_info_short:
  assumes "at_end f img s" "n_info s < 256" "sz < 2 * (256 - n_info s)"
  shows "\<exists>s'. write_info h (int sz) s = quit s'"
proof -
  have "fseek (int sz - int ((256 - n_info s) * 2)) s = s"
    using assms(3) by (simp add: fseek_def)
  then show ?thesis
    using assms(1,2)
    by (auto simp: write_info_def Let_def fread_halfwords_def out_image_def at_end_def)
qed

text \<open>Otherwise: the test of the bytes that are there, and the two writes.\<close>

lemma write_info_fits:
  assumes "at_end f img s" "n_info s \<le> 256" "2 * (256 - n_info s) \<le> sz" "sz \<le> length img"
  defines "k \<equiv> 256 - n_info s"
  shows "write_info h (int sz) s =
    (if \<exists>w \<in> set (halfwords (take (2 * k) (drop (sz - 2 * k) img))). w \<noteq> 0 then quit (s\<lparr>out_pos := sz\<rparr>)
     else let w = fwrite h (concat (map le16 (drop (n_info s) (info s)))) (s\<lparr>out_pos := sz - 2 * k\<rparr>)
          in if fst w div 2 \<noteq> k then quit (snd w)
             else Inr (snd (fwrite h (le16 (drive s)) (fseek 508 (snd w)))))"
proof -
  have seek: "fseek (int sz - int (k * 2)) t = t\<lparr>out_pos := sz - 2 * k\<rparr>" for t
    using assms(3) by (auto simp: k_def fseek_def nat_diff_distrib nat_mult_distrib)
  have "fread_halfwords k (s\<lparr>out_pos := sz - 2 * k\<rparr>) =
      (halfwords (take (2 * k) (drop (sz - 2 * k) img)), s\<lparr>out_pos := sz\<rparr>)"
    using assms(1,3,4) by (simp add: fread_halfwords_def out_image_def at_end_def Let_def k_def)
  moreover have "drive (fseek 508 t) = drive t" for t
    by (simp add: fseek_def)
  ultimately show ?thesis
    unfolding write_info_def k_def [symmetric] Let_def seek
    using assms(3,4) by (simp add: seek split_beta length_halfwords k_def [symmetric])
qed

lemma halfwords_zero_iff:
  assumes "p + 2 * k = sz" "sz \<le> length img"
  shows "(\<exists>w \<in> set (halfwords (take (2 * k) (drop p img))). w \<noteq> 0) \<longleftrightarrow> (\<exists>i. p \<le> i \<and> i < sz \<and> img ! i \<noteq> 0)"
proof -
  let ?bs = "take (2 * k) (drop p img)"
  have len: "length ?bs = 2 * k"
    using assms by simp
  have "(\<forall>w \<in> set (halfwords ?bs). w = 0) \<longleftrightarrow> (\<forall>b \<in> set ?bs. b = 0)"
    using halfwords_zero [of ?bs] zeros_halfwords [of ?bs] len by auto
  also have "\<dots> \<longleftrightarrow> (\<forall>j < 2 * k. img ! (p + j) = 0)"
    using assms by (auto simp: all_set_conv_all_nth)
  also have "\<dots> \<longleftrightarrow> (\<forall>i. p \<le> i \<and> i < sz \<longrightarrow> img ! i = 0)"
    using assms(1) by (auto simp: le_iff_add)
  finally show ?thesis by blast
qed

lemma write_info_returned:
  assumes "write_info h (int sz) s = Inr s'" "at_end f img s" "length (info s) = 256" "n_info s < 256"
    and "sz \<le> length img" "512 dvd sz"
  defines "k \<equiv> 256 - n_info s"
  shows "\<exists>pos. s' = s\<lparr>files := (files s)(f \<mapsto> patched sz (drive s) (drop (n_info s) (info s)) img), out_pos := pos\<rparr> \<and>
    2 * k \<le> sz \<and> (\<forall>i. sz - 2 * k \<le> i \<and> i < sz \<longrightarrow> img ! i = 0)"
proof -
  define ws where "ws = drop (n_info s) (info s)"
  let ?s1 = "s\<lparr>out_pos := sz - 2 * k\<rparr>"
  let ?w = "fwrite h (concat (map le16 ws)) ?s1"
  have k: "0 < k" "length ws = k" "n_info s \<le> 256"
    using assms(3,4) by (simp_all add: k_def ws_def)
  have s: "output_filename s = Some f" "files s f = Some img"
    using assms(2) by (auto simp: at_end_def)
  have le: "2 * k \<le> sz"
    using write_info_short [OF assms(2,4), of sz h] assms(1) by (fastforce simp: quit_def k_def)
  have eq: "write_info h (int sz) s =
    (if \<exists>w \<in> set (halfwords (take (2 * k) (drop (sz - 2 * k) img))). w \<noteq> 0 then quit (s\<lparr>out_pos := sz\<rparr>)
     else if fst ?w div 2 \<noteq> k then quit (snd ?w)
     else Inr (snd (fwrite h (le16 (drive s)) (fseek 508 (snd ?w)))))"
    using write_info_fits [OF assms(2) k(3) le [unfolded k_def] assms(5), of h] by (simp add: k_def ws_def Let_def)
  have zero: "\<forall>i. sz - 2 * k \<le> i \<and> i < sz \<longrightarrow> img ! i = 0" and n: "fst ?w div 2 = k"
    and s': "s' = snd (fwrite h (le16 (drive s)) (fseek 508 (snd ?w)))"
    using assms(1) halfwords_zero_iff [of "sz - 2 * k" k sz img] le assms(5)
    unfolding eq by (auto simp: quit_def split: if_splits)
  have room: "2 * k \<le> disk_room h - (sz - 2 * k)"
    using n k by (simp add: fwrite_def Let_def min_def split: if_splits)
  let ?s2 = "s\<lparr>files := (files s)(f \<mapsto> overwrite (sz - 2 * k) (concat (map le16 ws)) img), out_pos := 508\<rparr>"
  have w: "fseek 508 (snd ?w) = ?s2"
    using fwrite_inside [of ?s1 f img "concat (map le16 ws)" h] room s k by (simp add: fseek_def)
  have "512 \<le> sz"
    using dvd_imp_le [OF assms(6)] le k(1) by simp
  then have "s' = s\<lparr>files := (files s)(f \<mapsto> patched sz (drive s) ws img), out_pos := 510\<rparr>"
    using fwrite_inside [of ?s2 f _ "le16 (drive s)" h] room s k by (simp add: patched_def s' w)
  then show ?thesis
    using le zero unfolding ws_def by blast
qed

lemma write_info_returns:
  assumes "at_end f img s" "length (info s) = 256" "n_info s \<le> 256" "2 * (256 - n_info s) \<le> sz"
    and "sz \<le> length img" "sz \<le> disk_room h"
    and "\<forall>i. sz - 2 * (256 - n_info s) \<le> i \<and> i < sz \<longrightarrow> img ! i = 0"
  shows "\<exists>s'. write_info h (int sz) s = Inr s'"
proof -
  let ?p = "sz - 2 * (256 - n_info s)"
  have "?p + 2 * (256 - n_info s) = sz"
    using assms(4) by simp
  moreover have "fst (fwrite h (concat (map le16 (drop (n_info s) (info s)))) (s\<lparr>out_pos := ?p\<rparr>)) = 2 * (256 - n_info s)"
    using assms(2-6) by (simp add: fwrite_def Let_def)
  ultimately show ?thesis
    using write_info_fits [OF assms(1,3,4,5), of h] halfwords_zero_iff [of ?p "256 - n_info s" sz img] assms(5,7)
    by (auto simp: Let_def)
qed

section \<open>Reading the table\<close>

lemma halfword_at_bytes:
  "Suc q < length bs \<Longrightarrow> halfword_at bs q = ucast (bs ! q) OR push_bit 8 (ucast (bs ! Suc q))"
  unfolding halfword_at_def by (simp add: Suc_lessD flip: Cons_nth_drop_Suc)

lemma halfword_at_outside:
  assumes "p + length bs \<le> length f" "Suc q < length f" "q + 2 \<le> p \<or> p + length bs \<le> q"
  shows "halfword_at (overwrite p bs f) q = halfword_at f q"
  using assms by (auto simp: halfword_at_bytes overwrite_inside)

lemma halfword_at_inside:
  assumes "p \<le> length f" "i < length ws"
  shows "halfword_at (overwrite p (concat (map le16 ws)) f) (p + 2 * i) = ws ! i"
  using assms by (simp add: halfword_at_def overwrite_def nth_concat_le16)

lemma halfword_at_drive: "p \<le> length f \<Longrightarrow> halfword_at (overwrite p (le16 w) f) p = w"
  using halfword_at_inside [of p f 0 "[w]"] by simp

lemma nth_table:
  "i < length ps \<Longrightarrow> j < 3 \<Longrightarrow> table ps ! (3 * (length ps - Suc i) + j) = entry (ps ! i) ! j"
proof (induction ps arbitrary: i)
  case (Cons p ps)
  have t: "table (p # ps) = table ps @ entry p"
    by (simp add: table_def)
  show ?case
  proof (cases i)
    case (Suc i')
    then have "3 * (length ps - Suc i') + j < 3 * length ps"
      using Cons.prems by simp
    then show ?thesis
      using Cons Suc by (simp add: t nth_append)
  qed (simp add: t nth_append)
qed simp

text \<open>The table entry of the program with number \<open>i\<close>, the way the bootstrap reads it: backwards from its end.\<close>

definition table_entry :: "u8 list \<Rightarrow> nat \<Rightarrow> nat \<Rightarrow> u16 \<times> u16 \<times> u16" where
  "table_entry img sz i = (halfword_at img (sz - 6 * i - 2), halfword_at img (sz - 6 * i - 4), halfword_at img (sz - 6 * i - 6))"

lemma table_entry_patched:
  assumes "i < length ps" "6 * length ps \<le> sz" "sz \<le> length img" "1024 \<le> sz" "length ps \<le> 85"
  shows "table_entry (patched sz drv (table ps) img) sz i =
    (entry (ps ! i) ! 2, entry (ps ! i) ! 1, entry (ps ! i) ! 0)"
proof -
  let ?p = "sz - 6 * length ps"
  have "halfword_at (patched sz drv (table ps) img) (sz - 6 * i - 6 + 2 * j) = entry (ps ! i) ! j" if j: "j < 3" for j
  proof -
    have q: "sz - 6 * i - 6 + 2 * j = ?p + 2 * (3 * (length ps - Suc i) + j)"
      using assms(1,2) by (simp add: diff_mult_distrib2)
    have "halfword_at (patched sz drv (table ps) img) (sz - 6 * i - 6 + 2 * j) =
      halfword_at (overwrite ?p (concat (map le16 (table ps))) img) (?p + 2 * (3 * (length ps - Suc i) + j))"
      unfolding q [symmetric] patched_def length_table
      using assms j by (subst halfword_at_outside) (auto simp: overwrite_inside)
    also have "\<dots> = table ps ! (3 * (length ps - Suc i) + j)"
      using assms j by (intro halfword_at_inside) auto
    finally show ?thesis
      by (simp add: nth_table assms(1) j)
  qed
  note at = this
  have pos: "sz - 6 * i - 2 = sz - 6 * i - 6 + 2 * 2" "sz - 6 * i - 4 = sz - 6 * i - 6 + 2 * 1"
    using assms(1,2) by simp_all
  show ?thesis
    using at [of 0] at [of 1] at [of 2]
    unfolding table_entry_def pos by simp
qed

section \<open>Whole runs\<close>

text \<open>
  \<open>ends fs f Q r\<close>: a run on the file system \<open>fs\<close> that writes the file \<open>f\<close> either returns with \<open>Q\<close>, or exits with
  a failure and has removed \<open>f\<close>. It composes along sequencing.
\<close>

definition ends :: "(string \<Rightarrow> u8 list option) \<Rightarrow> string \<Rightarrow> ('a \<Rightarrow> bool) \<Rightarrow> abort + 'a \<Rightarrow> bool" where
  "ends fs f Q r \<longleftrightarrow>
     (case r of Inr x \<Rightarrow> Q x | Inl Undefined \<Rightarrow> True
      | Inl (Exit c s) \<Rightarrow> c = 1 \<and> output_filename s = Some f \<and> files s = fs(f := None))"

definition writes_only :: "(string \<Rightarrow> u8 list option) \<Rightarrow> string \<Rightarrow> build_st \<Rightarrow> bool" where
  "writes_only fs f s \<longleftrightarrow> output_filename s = Some f \<and> (\<forall>g. g \<noteq> f \<longrightarrow> files s g = fs g)"

lemma ends_Inr [simp]: "ends fs f Q (Inr x) = Q x"
  by (simp add: ends_def)

lemma ends_Undefined [simp]: "ends fs f Q (Inl Undefined)"
  by (simp add: ends_def)

lemma ends_bind: "ends fs f Q r \<Longrightarrow> (\<And>x. Q x \<Longrightarrow> ends fs f R (k x)) \<Longrightarrow> ends fs f R (kbind r k)"
  by (cases r) (simp_all add: ends_def split: abort.splits)

lemma ends_quit [simp]: "writes_only fs f s \<Longrightarrow> ends fs f Q (quit s)"
  by (auto simp: ends_def quit_def writes_only_def)

lemma ends_int [simp]: "ends fs f (\<lambda>x. True) (c_int z)"
  by (simp add: c_int_def)

lemma ends_fwrite: "writes_only fs f s \<Longrightarrow> writes_only fs f (snd (fwrite h bs s))"
  by (simp add: fwrite_def Let_def writes_only_def set_out_image_def)

lemma ends_fseek: "writes_only fs f s \<Longrightarrow> writes_only fs f (fseek off s)"
  by (simp add: fseek_def writes_only_def)

lemma ends_copy_loop: "writes_only fs f s \<Longrightarrow> ends fs f (\<lambda>(n, s). writes_only fs f s) (copy_loop h inp n s)"
proof (induction "length inp" arbitrary: inp n s rule: less_induct)
  case less
  show ?case
  proof (cases "inp = []")
    case False
    let ?w = "fwrite h (take 512 inp @ replicate (512 - length (take 512 inp)) 0) s"
    have w: "writes_only fs f (snd ?w)"
      using less.prems by (rule ends_fwrite)
    have "copy_loop h inp n s = (if fst ?w \<noteq> 512 then quit (snd ?w)
      else kbind (c_int (n + 1)) (\<lambda>n. copy_loop h (drop 512 inp) n (snd ?w)))"
      using False by (subst copy_loop.simps) (simp add: Let_def split_beta)
    then show ?thesis
      using w False by (auto intro!: ends_bind [OF ends_int] less.hyps)
  qed (use less.prems in simp)
qed

lemma ends_open: "writes_only fs f s \<Longrightarrow> ends fs f (\<lambda>inp. True) (open_input name s)"
  by (auto simp: open_input_def split: option.splits)

lemma ends_process_file: "writes_only fs f s \<Longrightarrow> ends fs f (writes_only fs f) (process_file h name addr s)"
  unfolding process_file_def copy_file_def
  by (rule ends_bind [OF ends_open], assumption, rule ends_bind [OF ends_copy_loop], assumption)
    (auto split: option.splits intro!: ends_bind [OF ends_int] simp: push_info_def writes_only_def)

lemma ends_process_files:
  "writes_only fs f s \<Longrightarrow> ends fs f (\<lambda>(av, s). writes_only fs f s) (process_files h av s)"
  by (induction h av s rule: process_files.induct) (auto intro: ends_bind [OF ends_process_file])

lemma ends_write_info: "writes_only fs f s \<Longrightarrow> ends fs f (writes_only fs f) (write_info h sz s)"
proof -
  assume "writes_only fs f s"
  then have "writes_only fs f (snd (fread_halfwords k (fseek off s)))" for k off
    using ends_fseek [of fs f s off] by (simp add: fread_halfwords_def Let_def writes_only_def)
  then show ?thesis
    by (auto simp: write_info_def Let_def split_beta intro!: ends_quit ends_fwrite ends_fseek)
qed

lemma ends_build_image: "writes_only fs f s \<Longrightarrow> ends fs f (writes_only fs f) (build_image h av s)"
  unfolding build_image_def copy_file_def
  by (auto simp: usage_error_def intro!: ends_bind [OF ends_open] ends_bind [OF ends_copy_loop]
    ends_bind [OF ends_int] ends_write_info ends_bind [OF ends_process_files])

text \<open>The options only set the names and the drive.\<close>

definition options_end :: "build_st \<Rightarrow> abort + (string list \<times> build_st) \<Rightarrow> bool" where
  "options_end s r \<longleftrightarrow>
     (case r of
        Inr (av', s') \<Rightarrow> (files s', info s', n_info s', out_pos s') = (files s, info s, n_info s, out_pos s)
      | Inl e \<Rightarrow> \<exists>s'. files s' = files s \<and> r = quit s')"

lemma options_end_usage: "files s' = files s \<Longrightarrow> options_end s (usage_error s')"
  by (auto simp: options_end_def usage_error_def quit_def)

lemma options_end_cong:
  "options_end t r \<Longrightarrow> (files t, info t, n_info t, out_pos t) = (files s, info s, n_info s, out_pos s) \<Longrightarrow> options_end s r"
  by (auto simp: options_end_def split: sum.splits)

lemma option_loop_ends: "options_end s (option_loop av s)"
proof (induction av s rule: option_loop.induct)
  case (1 av s)
  obtain c av' where g: "getopt av = (c, av')"
    by force
  show ?case
  proof (cases c)
    case (Opt o a)
    note IH = 1 [OF g [symmetric, unfolded Opt]]
    show ?thesis
      unfolding option_loop.simps [of av s] g Opt
      by (auto intro!: options_end_usage options_end_cong [OF IH(1)] options_end_cong [OF IH(2)]
        options_end_cong [OF IH(3)] options_end_cong [OF IH(4)])
  qed (auto simp: option_loop.simps [of av s] g options_end_usage, simp add: options_end_def)
qed

lemma initial_st_sel [simp]:
  "files (initial_st fs) = fs" "info (initial_st fs) = replicate 256 0" "n_info (initial_st fs) = 256"
  "out_pos (initial_st fs) = 0"
  by (simp_all add: initial_st_def)

lemma process_args_returned:
  assumes "process_args av (initial_st fs) = Inr (args, s)"
  shows "\<exists>b f drv. s = (initial_st fs)\<lparr>bootstrap_filename := Some b, output_filename := Some f, drive := drv\<rparr> \<and>
    2 \<le> length args \<and> even (length args)"
proof -
  have l: "option_loop av (initial_st fs) = Inr (args, s)" and n: "bootstrap_filename s \<noteq> None" "output_filename s \<noteq> None"
    and a: "2 \<le> length args" "even (length args)"
    using assms by (auto simp: process_args_def kbind_eq_Inr usage_error_def quit_def split: if_splits)
  have "(files s, info s, n_info s, out_pos s) = (fs, replicate 256 0, 256, 0)"
    using option_loop_ends [of "initial_st fs" av] by (simp add: l options_end_def)
  then show ?thesis
    using n a by (cases s) (auto simp: initial_st_def)
qed

lemma quit_files:
  "Inl (Exit c s) = (quit s0 :: abort + unit) \<Longrightarrow>
     c = 1 \<and> files s = (case output_filename s of None \<Rightarrow> files s0 | Some f \<Rightarrow> (files s0)(f := None))"
  by (auto simp: quit_def split: option.splits)

lemma process_args_failed:
  assumes "process_args av (initial_st fs) = Inl e"
  shows "\<exists>s. files s = fs \<and> (Inl e = (quit s :: abort + unit) \<or> e = Exit 2 s)"
proof (cases "option_loop av (initial_st fs)")
  case (Inl e')
  then show ?thesis
    using assms option_loop_ends [of "initial_st fs" av]
    by (auto simp: process_args_def options_end_def quit_def)
next
  case (Inr r)
  then show ?thesis
    using assms option_loop_ends [of "initial_st fs" av]
    by (cases r) (auto simp: process_args_def options_end_def usage_error_def quit_def split: if_splits)
qed

text \<open>The state in which the bootstrap is copied.\<close>

definition created :: "(string \<Rightarrow> u8 list option) \<Rightarrow> string \<Rightarrow> string \<Rightarrow> u16 \<Rightarrow> build_st" where
  "created fs b f drv = \<lparr>files = fs(f \<mapsto> []), out_pos = 0, bootstrap_filename = Some b, output_filename = Some f,
     drive = drv, info = replicate 256 0, n_info = 256\<rparr>"

lemma created_sel: "bootstrap_filename (created fs b f drv) = Some b"
  by (simp add: created_def)

lemma build_main_after_args:
  assumes "process_args av (initial_st fs) = Inr (args, s)"
  obtains b f drv where "s = (initial_st fs)\<lparr>bootstrap_filename := Some b, output_filename := Some f, drive := drv\<rparr>"
    "2 \<le> length args" "even (length args)"
    "build_main h av (initial_st fs) = (if \<not> can_create h f then quit s else build_image h args (created fs b f drv))"
proof -
  obtain b f drv where s: "s = (initial_st fs)\<lparr>bootstrap_filename := Some b, output_filename := Some f, drive := drv\<rparr>"
    and a: "2 \<le> length args" "even (length args)"
    using process_args_returned [OF assms] by blast
  have c: "s\<lparr>files := (files s)(f \<mapsto> []), out_pos := 0\<rparr> = created fs b f drv"
    by (simp add: s created_def initial_st_def)
  show thesis
    by (rule that [OF s a]) (use c in \<open>simp add: build_main_def assms Let_def s\<close>)
qed

lemma at_end_created: "at_end f [] (created fs b f drv)"
  by (simp add: created_def at_end_def)

lemma length_program_args: "length (program_args av) = length av div 2"
  by (induction av rule: program_args.induct) simp_all

section \<open>The image\<close>

text \<open>A pair of arguments and the program it stands for.\<close>

definition is_program :: "(string \<Rightarrow> u8 list option) \<Rightarrow> string \<Rightarrow> string \<times> string \<Rightarrow> program \<Rightarrow> bool" where
  "is_program fs f = (\<lambda>(name, addr) (inp, address).
     name \<noteq> f \<and> fs name = Some inp \<and> strtol addr 0 = (address, []) \<and> address + 512 * int (sectors inp) \<le> 0x9ffff)"

lemma program_of_is_program: "boot \<noteq> [] \<Longrightarrow> program_of fs f (padded boot) a p \<Longrightarrow> is_program fs f a p"
  by (auto simp: program_of_def is_program_def padded_def split: if_splits)

text \<open>The bootstrap loads \<open>n\<close> sectors to \<open>seg:off\<close>; this is the whole program at its load address.\<close>

definition loads :: "program \<Rightarrow> u16 \<times> u16 \<times> u16 \<Rightarrow> bool" where
  "loads = (\<lambda>(inp, address) (n, seg, off). unat n = sectors inp \<and> 16 * uint seg + uint off = address)"

lemma loads_entry:
  assumes "is_program fs f a (inp, address)" "0 \<le> address"
  shows "loads (inp, address) (entry (inp, address) ! 2, entry (inp, address) ! 1, entry (inp, address) ! 0)"
proof -
  have b: "address + 512 * int (sectors inp) \<le> 0x9ffff"
    using assms(1) by (auto simp: is_program_def)
  then have "unat (of_nat (sectors inp) :: u16) = sectors inp"
    using assms(2) by (simp add: unat_of_nat take_bit_nat_eq_self_iff)
  moreover have "uint (word_of_int (drop_bit 4 address) :: u16) = address div 16"
    using b assms(2) by (simp add: uint_word_of_int drop_bit_eq_div)
  moreover have "address AND 0xf = address mod 16"
    using take_bit_eq_mask [of 4 address] by (simp add: take_bit_eq_mod mask_eq_exp_minus_1)
  then have "uint (word_of_int (address AND 0xf) :: u16) = address mod 16"
    using pos_mod_bound [of 16 address] pos_mod_sign [of 16 address]
    by (simp add: uint_word_of_int mod_pos_pos_trivial)
  ultimately show ?thesis
    by (simp add: loads_def entry_def)
qed

text \<open>
  What a good image is: the bootstrap with the drive and the table patched into it, the table over
  bytes that were zero, and after it the programs in the order of the arguments.
\<close>

definition image_of :: "u8 list \<Rightarrow> u16 \<Rightarrow> program list \<Rightarrow> u8 list \<Rightarrow> bool" where
  "image_of boot drv ps img \<longleftrightarrow>
     (let sz = 512 * sectors boot; tbl = sz - 6 * length ps
      in 6 * length ps \<le> sz \<and> sz \<le> length img \<and> drop sz img = concat (map (padded \<circ> fst) ps) \<and>
         (\<forall>i < tbl. i \<notin> {508, 509} \<longrightarrow> img ! i = padded boot ! i) \<and> (\<forall>i. tbl \<le> i \<and> i < sz \<longrightarrow> padded boot ! i = 0) \<and>
         halfword_at img 508 = drv \<and>
         (1 < sectors boot \<longrightarrow> (\<forall>i < length ps. 0 \<le> snd (ps ! i) \<longrightarrow> loads (ps ! i) (table_entry img sz i))))"

lemma image_of_patched:
  assumes "list_all2 (is_program fs f) as ps" "0 < length ps" "length ps \<le> 85" "6 * length ps \<le> 512 * sectors boot"
    and "\<forall>i. 512 * sectors boot - 6 * length ps \<le> i \<and> i < 512 * sectors boot \<longrightarrow> padded boot ! i = 0"
  shows "image_of boot drv ps (patched (512 * sectors boot) drv (table ps) (padded boot @ concat (map (padded \<circ> fst) ps)))"
proof -
  let ?sz = "512 * sectors boot" and ?img = "padded boot @ concat (map (padded \<circ> fst) ps)"
  let ?res = "patched ?sz drv (table ps) ?img"
  have sz: "512 \<le> ?sz"
    using assms(2,4) by (cases "sectors boot") auto
  let ?mid = "overwrite (?sz - 6 * length ps) (concat (map le16 (table ps))) ?img"
  have mid: "length ?mid = length ?img"
    "i < length ?img \<Longrightarrow> ?mid ! i = (if ?sz - 6 * length ps \<le> i \<and> i < ?sz then concat (map le16 (table ps)) ! (i - (?sz - 6 * length ps)) else ?img ! i)" for i
    using assms(4) by (subst overwrite_inside; simp)+
  have res: "length ?res = length ?img"
    "i < length ?img \<Longrightarrow> ?res ! i = (if i \<in> {508, 509} then le16 drv ! (i - 508) else ?mid ! i)" for i
    using sz mid(1) by (auto simp: patched_def overwrite_inside)
  have "drop ?sz ?res = drop ?sz ?img"
    using sz by (intro nth_equalityI) (auto simp: res mid nth_append)
  moreover have "?res ! i = padded boot ! i" if "i < ?sz - 6 * length ps" "i \<notin> {508, 509}" for i
    using that less_le_trans [OF that(1) diff_le_self] by (simp add: res mid nth_append)
  moreover have "halfword_at ?res 508 = drv"
    unfolding patched_def using sz mid(1) by (intro halfword_at_drive) simp
  moreover have "loads (ps ! i) (table_entry ?res ?sz i)" if "1 < sectors boot" "i < length ps" "0 \<le> snd (ps ! i)" for i
    using that assms loads_entry [of fs f "as ! i" "fst (ps ! i)" "snd (ps ! i)"]
    by (subst table_entry_patched) (auto simp: list_all2_conv_all_nth)
  ultimately show ?thesis
    using assms(4,5) res(1) by (auto simp: image_of_def Let_def)
qed

section \<open>Success\<close>

text \<open>A program whose file can be copied: room on the disk, and a size that fits an \<^verbatim>\<open>int\<close>.\<close>

definition small :: "u8 list \<Rightarrow> bool" where
  "small inp \<longleftrightarrow> 512 * sectors inp < 2 ^ 31"

lemma decode_addr_program:
  assumes "is_program fs f (name, addr) (inp, address)"
  shows "decode_addr addr = Some (to_short (drop_bit 4 address), to_short (address AND 0xf), address, True)"
proof -
  have a: "strtol addr 0 = (address, [])" "address \<le> 0x9ffff"
    using assms by (auto simp: is_program_def)
  then show ?thesis
    using strtol_stops [of addr 0] by (auto simp: decode_addr_def Let_def)
qed

lemma process_file_returns:
  assumes "at_end f img s" "files s = fs(f \<mapsto> img)" "n_info s \<le> length (info s)" "3 \<le> n_info s"
    and p: "is_program fs f (name, addr) (inp, address)" and "small inp" "length img + 512 * sectors inp \<le> disk_room h"
  shows "process_file h name addr s = Inr (with_programs f img [(inp, address)] s)"
proof -
  have sz: "int (sectors inp) * 512 < 2 ^ 31"
    using assms(6) by (simp add: small_def)
  have "open_input name s = Inr inp"
    using p assms(1,2) by (auto simp: open_input_def is_program_def at_end_def)
  moreover have "copy_loop h inp 0 s = Inr (int (sectors inp),
      s\<lparr>files := (files s)(f \<mapsto> img @ padded inp), out_pos := length (img @ padded inp)\<rparr>)"
    using copy_loop_returns [OF assms(1,7), of 0] sz by simp
  moreover have "c_int (int (sectors inp) * 512) = Inr (int (sectors inp) * 512)"
    using sz by (simp add: c_int_def)
  ultimately show ?thesis
    using p assms(3,4) push_info_three
    by (auto simp: process_file_def copy_file_def decode_addr_program [OF p] is_program_def with_programs_def
      table_def entry_def Let_def)
qed

lemma process_files_returns:
  assumes "at_end f img s" "files s = fs(f \<mapsto> img)" "n_info s \<le> length (info s)" "3 * length ps \<le> n_info s"
    and "list_all2 (is_program fs f) (program_args av) ps" "even (length av)" "\<forall>p \<in> set ps. small (fst p)"
    and "length img + length (concat (map (padded \<circ> fst) ps)) \<le> disk_room h"
  shows "process_files h av s = Inr ([], with_programs f img ps s)"
  using assms
proof (induction h av s arbitrary: img ps rule: process_files.induct)
  case (1 h name addr av s)
  obtain p ps' where ps: "ps = p # ps'" and p: "is_program fs f (name, addr) (fst p, snd p)"
    and rest: "list_all2 (is_program fs f) (program_args av) ps'"
    using 1(6) by (auto simp: list_all2_Cons1)
  have "process_file h name addr s = Inr (with_programs f img [p] s)"
    using process_file_returns [OF 1(2-4) _ p] 1 ps by simp
  moreover have "process_files h av (with_programs f img [p] s) = Inr ([], with_programs f (img @ padded (fst p)) ps' (with_programs f img [p] s))"
    using 1(2-5,7-9) rest by (intro 1(1)) (auto simp: ps with_programs_def at_end_def Let_def)
  ultimately show ?case
    using with_programs_more [OF 1(4), of p ps'] 1(5) by (simp add: ps)
qed (auto simp: with_programs_Nil)

lemma build_image_returned:
  assumes "build_image h args (created fs b f drv) = Inr s" "2 \<le> length args"
  shows "\<exists>boot ps img. b \<noteq> f \<and> fs b = Some boot \<and> list_all2 (is_program fs f) (program_args args) ps \<and>
    0 < length ps \<and> length ps \<le> 85 \<and> files s = fs(f \<mapsto> img) \<and> image_of boot drv ps img"
proof -
  note args = assms(2)
  obtain boot n s1 av' s2 where open_boot: "open_input b (created fs b f drv) = Inr boot"
    and copy: "copy_loop h boot 0 (created fs b f drv) = Inr (n, s1)"
    and progs: "process_files h args s1 = Inr (av', s2)"
    and patch: "write_info h (n * 512) s2 = Inr s"
    using assms(1)
    by (auto simp: build_image_def copy_file_def created_sel kbind_eq_Inr quit_def usage_error_def c_int_def split: if_splits)
  have n: "n = int (sectors boot)" and s1: "s1 = (created fs b f drv)\<lparr>files := fs(f \<mapsto> padded boot), out_pos := length (padded boot)\<rparr>"
    using copy_loop_returned [OF at_end_created copy] by (simp_all add: created_def)
  obtain ps where ps: "list_all2 (program_of fs f (padded boot)) (program_args args) ps" "3 * length ps \<le> n_info s1"
    and s2: "s2 = with_programs f (padded boot) ps s1"
    using process_files_returned [of f "padded boot" s1 h args av' s2 fs] progs
    by (auto simp: s1 at_end_def created_def)
  have len: "length ps = length args div 2" "3 * length ps \<le> 256"
    using list_all2_lengthD [OF ps(1)] ps(2) by (simp_all add: length_program_args s1 created_def)
  let ?img = "padded boot @ concat (map (padded \<circ> fst) ps)"
  have n2: "n_info s2 = 256 - 3 * length ps" "drop (n_info s2) (info s2) = table ps" "length (info s2) = 256"
    "drive s2 = drv" "files s2 = fs(f \<mapsto> ?img)" "at_end f ?img s2"
    using len by (simp_all add: s2 with_programs_def s1 created_def Let_def at_end_def)
  then have res: "files s = fs(f \<mapsto> patched (512 * sectors boot) drv (table ps) ?img)" "6 * length ps \<le> 512 * sectors boot"
    "\<forall>i. 512 * sectors boot - 6 * length ps \<le> i \<and> i < 512 * sectors boot \<longrightarrow> ?img ! i = 0"
    using write_info_returned [of h "512 * sectors boot" s2 s f ?img] patch len args
    by (auto simp: n mult.commute)
  have boot: "boot \<noteq> []"
    using res(2) len args by auto
  then have "b \<noteq> f" "fs b = Some boot"
    using open_boot by (auto simp: open_input_def quit_def created_def split: option.splits if_splits)
  moreover have "list_all2 (is_program fs f) (program_args args) ps"
    using ps(1) by (rule list_all2_mono) (rule program_of_is_program [OF boot])
  moreover have "image_of boot drv ps (patched (512 * sectors boot) drv (table ps) ?img)"
    using calculation(3) len args res(2,3) by (intro image_of_patched) (auto simp: nth_append)
  ultimately show ?thesis
    using res(1) len args by auto
qed

lemma build_image_returns:
  assumes "b \<noteq> f" "fs b = Some boot" "list_all2 (is_program fs f) (program_args args) ps" "length ps \<le> 85"
    and "small boot" "\<forall>p \<in> set ps. small (fst p)"
    and "512 * sectors boot + length (concat (map (padded \<circ> fst) ps)) \<le> disk_room h"
    and "6 * length ps \<le> 512 * sectors boot"
    and "\<forall>i. 512 * sectors boot - 6 * length ps \<le> i \<and> i < 512 * sectors boot \<longrightarrow> padded boot ! i = 0"
    and "even (length args)"
  shows "\<exists>s. build_image h args (created fs b f drv) = Inr s"
proof -
  let ?s1 = "(created fs b f drv)\<lparr>files := fs(f \<mapsto> padded boot), out_pos := 512 * sectors boot\<rparr>"
  let ?s2 = "with_programs f (padded boot) ps ?s1"
  have sz: "int (sectors boot) * 512 < 2 ^ 31"
    using assms(5) by (simp add: small_def)
  have "open_input b (created fs b f drv) = Inr boot"
    using assms(1,2) by (simp add: open_input_def created_def)
  moreover have "copy_loop h boot 0 (created fs b f drv) = Inr (int (sectors boot), ?s1)"
    using copy_loop_returns [OF at_end_created, of boot h 0 fs b f drv] sz assms(7) by (simp add: created_def)
  moreover have "c_int (int (sectors boot) * 512) = Inr (int (512 * sectors boot))"
    using sz by (simp add: c_int_def)
  moreover have "process_files h args ?s1 = Inr ([], ?s2)"
    using assms(3,4,6,7,10) by (intro process_files_returns) (auto simp: at_end_def created_def)
  moreover have "\<exists>s. write_info h (int (512 * sectors boot)) ?s2 = Inr s"
    using assms(4,7-9)
    by (intro write_info_returns [of f "padded boot @ concat (map (padded \<circ> fst) ps)"])
      (auto simp: with_programs_def created_def at_end_def Let_def nth_append)
  ultimately show ?thesis
    by (simp add: build_image_def copy_file_def created_sel)
qed

section \<open>Results\<close>

text \<open>The call of the Makefile, with a bootstrap of two sectors and small programs.\<close>

definition disk_args :: "string list" where
  "disk_args = [''-o'', ''disk.img'', ''-b'', ''boot'', ''kernel.b'', ''0x10000'', ''user.b'', ''0x30000'']"

definition disk_files :: "string \<Rightarrow> u8 list option" where
  "disk_files = [''boot'' \<mapsto> 0xfa # replicate 1023 0, ''kernel.b'' \<mapsto> [1, 2, 3], ''user.b'' \<mapsto> [4, 5]]"

definition disk_host :: host where
  "disk_host = \<lparr>can_create = (\<lambda>f. f \<noteq> ''locked''), disk_room = 1000000\<rparr>"

lemma disk_args_parsed:
  "process_args disk_args (initial_st disk_files) =
     Inr ([''kernel.b'', ''0x10000'', ''user.b'', ''0x30000''],
       (initial_st disk_files)\<lparr>bootstrap_filename := Some ''boot'', output_filename := Some ''disk.img''\<rparr>)"
  by (simp add: process_args_def disk_args_def option_loop.simps getopt_def)

lemma disk_main:
  "build_main disk_host disk_args (initial_st disk_files) =
     build_image disk_host [''kernel.b'', ''0x10000'', ''user.b'', ''0x30000''] (created disk_files ''boot'' ''disk.img'' DRIVE_USB)"
proof -
  have "(initial_st disk_files)\<lparr>bootstrap_filename := Some ''boot'', output_filename := Some ''disk.img'',
      files := disk_files(''disk.img'' \<mapsto> []), out_pos := 0\<rparr> = created disk_files ''boot'' ''disk.img'' DRIVE_USB"
    by (simp add: created_def initial_st_def)
  then show ?thesis
    by (simp add: build_main_def disk_args_parsed Let_def) (simp add: disk_host_def)
qed

lemma disk_programs:
  "list_all2 (is_program disk_files ''disk.img'') (program_args [''kernel.b'', ''0x10000'', ''user.b'', ''0x30000''])
     [([1, 2, 3], 0x10000), ([4, 5], 0x30000)]"
proof -
  have "strtol ''0x10000'' 0 = (0x10000, [])" "strtol ''0x30000'' 0 = (0x30000, [])"
    using strtol_spellings(1) [of "0x10000"] strtol_spellings(1) [of "0x30000"]
    by (simp_all add: digits.simps digit_char_def)
  then show ?thesis
    by (simp add: is_program_def disk_files_def sectors_def)
qed

lemma disk_image_built:
  "\<exists>s. build_image disk_host [''kernel.b'', ''0x10000'', ''user.b'', ''0x30000''] (created disk_files ''boot'' ''disk.img'' DRIVE_USB) = Inr s"
  by (rule build_image_returns [OF _ _ disk_programs, where boot = "0xfa # replicate 1023 0"])
    (auto simp: disk_files_def disk_host_def small_def sectors_def padded_def nth_Cons split: nat.splits)

text \<open>C30. A run that fails leaves no partial image behind and touches no other file: it ends with the failure
  status and without the output file, or, when the bootstrap or the output file has not been named, with
  the status 2 and all files as they were.\<close>

theorem build_failure_leaves_nothing:
  assumes "build_main h av (initial_st fs) = Inl (Exit c s)"
  shows "(c = 1 \<and> files s = (case output_filename s of None \<Rightarrow> fs | Some f \<Rightarrow> fs(f := None))) \<or> (c = 2 \<and> files s = fs)"
proof (cases "process_args av (initial_st fs)")
  case (Inl e)
  then show ?thesis
    using process_args_failed [OF Inl] assms quit_files
    by (fastforce simp: build_main_def)
next
  case (Inr r)
  obtain args t where r: "process_args av (initial_st fs) = Inr (args, t)"
    using Inr by (cases r) auto
  obtain b f drv where t: "t = (initial_st fs)\<lparr>bootstrap_filename := Some b, output_filename := Some f, drive := drv\<rparr>"
    and m: "build_main h av (initial_st fs) = (if \<not> can_create h f then quit t else build_image h args (created fs b f drv))"
    by (rule build_main_after_args [OF r, of h])
  have "writes_only fs f t" "writes_only fs f (created fs b f drv)"
    by (simp_all add: t writes_only_def created_def)
  then have "ends fs f (writes_only fs f) (build_main h av (initial_st fs))"
    by (auto simp: m intro: ends_build_image)
  then show ?thesis
    by (simp add: assms ends_def)
qed

theorem build_failure_leaves_nothing_witness:
  "build_main disk_host [''-b'', ''boot'', ''-o'', ''disk.img''] (initial_st disk_files) =
     Inl (Exit 1 ((initial_st disk_files)\<lparr>bootstrap_filename := Some ''boot'', output_filename := Some ''disk.img'',
       files := disk_files(''disk.img'' := None)\<rparr>)) \<and>
   disk_files ''disk.img'' = None"
proof -
  let ?s = "(initial_st disk_files)\<lparr>bootstrap_filename := Some ''boot'', output_filename := Some ''disk.img'',
       files := disk_files(''disk.img'' := None)\<rparr>"
  have run: "build_main disk_host [''-b'', ''boot'', ''-o'', ''disk.img''] (initial_st disk_files) = Inl (Exit 1 ?s)"
    by (simp add: build_main_def process_args_def option_loop.simps getopt_def usage_error_def quit_def)
  have "files ?s = disk_files(''disk.img'' := None)"
    using build_failure_leaves_nothing [OF run] by simp
  with run show ?thesis
    by (simp add: disk_files_def)
qed

text \<open>C28. When \<^verbatim>\<open>BuildImage\<close> succeeds, every argument pair names a program that fits at its address, no file but the
  output file is changed, and the output is the image the bootstrap expects: the bootstrap with the drive
  number and the table in it, the table over bytes that were zero, and then the programs, padded to
  sectors, in the order of the arguments. With a bootstrap of two sectors, what the bootstrap reads from
  the table for each program is its number of sectors and a segment and an offset that give its address.\<close>

theorem build_image_layout:
  assumes "build_main h av (initial_st fs) = Inr s"
  shows "\<exists>args t f b boot ps img.
    process_args av (initial_st fs) = Inr (args, t) \<and> output_filename t = Some f \<and>
    bootstrap_filename t = Some b \<and> b \<noteq> f \<and> fs b = Some boot \<and>
    list_all2 (is_program fs f) (program_args args) ps \<and> 0 < length ps \<and> length ps \<le> 85 \<and>
    files s = fs(f \<mapsto> img) \<and> image_of boot (drive t) ps img"
proof -
  obtain args t where r: "process_args av (initial_st fs) = Inr (args, t)"
    using assms by (auto simp: build_main_def kbind_eq_Inr)
  obtain b f drv where t: "t = (initial_st fs)\<lparr>bootstrap_filename := Some b, output_filename := Some f, drive := drv\<rparr>"
    and args: "2 \<le> length args"
    and m: "build_main h av (initial_st fs) = (if \<not> can_create h f then quit t else build_image h args (created fs b f drv))"
    by (rule build_main_after_args [OF r, of h])
  have "build_image h args (created fs b f drv) = Inr s"
    using assms by (auto simp: m quit_def split: if_splits)
  from build_image_returned [OF this args]
  obtain boot ps img where "b \<noteq> f" "fs b = Some boot" "list_all2 (is_program fs f) (program_args args) ps"
    "0 < length ps" "length ps \<le> 85" "files s = fs(f \<mapsto> img)" "image_of boot drv ps img"
    by blast
  then show ?thesis
    using r t by (intro exI conjI) auto
qed

theorem build_image_layout_witness:
  "\<exists>s ps img. build_main disk_host disk_args (initial_st disk_files) = Inr s \<and>
     list_all2 (is_program disk_files ''disk.img'') [(''kernel.b'', ''0x10000''), (''user.b'', ''0x30000'')] ps \<and>
     files s = disk_files(''disk.img'' \<mapsto> img) \<and> image_of (0xfa # replicate 1023 0) DRIVE_USB ps img"
proof -
  obtain s where s: "build_main disk_host disk_args (initial_st disk_files) = Inr s"
    using disk_image_built disk_main by auto
  show ?thesis
    using build_image_layout [OF s] s unfolding disk_args_parsed
    by (auto simp: disk_files_def initial_st_def)
qed

text \<open>C29. \<^verbatim>\<open>BuildImage\<close> succeeds whenever the arguments are in order and name programs that fit at their
  addresses, the bootstrap ends in enough zeros for the table, and the host creates the file and has room for it.\<close>

theorem build_image_succeeds:
  assumes "process_args av (initial_st fs) = Inr (args, t)" "output_filename t = Some f" "bootstrap_filename t = Some b"
    and "b \<noteq> f" "fs b = Some boot" "list_all2 (is_program fs f) (program_args args) ps" "length ps \<le> 85"
    and "can_create h f" "small boot" "\<forall>p \<in> set ps. small (fst p)"
    and "512 * sectors boot + length (concat (map (padded \<circ> fst) ps)) \<le> disk_room h"
    and "6 * length ps \<le> 512 * sectors boot"
    and "\<forall>i. 512 * sectors boot - 6 * length ps \<le> i \<and> i < 512 * sectors boot \<longrightarrow> padded boot ! i = 0"
  shows "\<exists>s. build_main h av (initial_st fs) = Inr s"
proof -
  obtain b' f' drv where t: "t = (initial_st fs)\<lparr>bootstrap_filename := Some b', output_filename := Some f', drive := drv\<rparr>"
    and even: "even (length args)"
    and m: "build_main h av (initial_st fs) = (if \<not> can_create h f' then quit t else build_image h args (created fs b' f' drv))"
    by (rule build_main_after_args [OF assms(1), of h])
  have n: "b' = b" "f' = f"
    using assms(2,3) by (simp_all add: t)
  show ?thesis
    using build_image_returns [OF assms(4-7,9-13) even] assms(8) by (simp add: m n)
qed

theorem build_image_succeeds_witness: "\<exists>s. build_main disk_host disk_args (initial_st disk_files) = Inr s"
proof (rule build_image_succeeds [OF disk_args_parsed _ _ _ _ disk_programs])
  show "disk_files ''boot'' = Some (0xfa # replicate 1023 0)"
    by (simp add: disk_files_def)
qed (auto simp: disk_host_def small_def sectors_def padded_def nth_Cons split: nat.splits)

text \<open>A load address can be written in hexadecimal, decimal or octal, as the usage message says: all three
  spellings of an address in the usable memory are accepted and give the same segment and offset, which
  make up the address.\<close>

theorem load_address_spellings:
  assumes "n \<le> 0x9ffff"
  shows "\<exists>segment offset. decode_addr (''0x'' @ digits 16 n) = Some (segment, offset, int n, True) \<and>
      decode_addr (digits 10 n) = Some (segment, offset, int n, True) \<and>
      decode_addr (CHR ''0'' # digits 8 n) = Some (segment, offset, int n, True) \<and>
      16 * uint (word_of_int segment :: u16) + uint (word_of_int offset :: u16) = int n"
proof -
  have s: "strtol (''0x'' @ digits 16 n) 0 = (int n, [])" "strtol (digits 10 n) 0 = (int n, [])"
    "strtol (CHR ''0'' # digits 8 n) 0 = (int n, [])"
    using assms by (intro strtol_spellings; simp)+
  have d: "decode_addr addr = Some (to_short (drop_bit 4 (int n)), to_short (int n AND 0xf), int n, True)"
    if "strtol addr 0 = (int n, [])" for addr
    using decode_addr_program [of "\<lambda>_. Some []" "''f''" "''g''" addr "[]" "int n"] that assms
    by (simp add: is_program_def)
  have "16 * uint (word_of_int (drop_bit 4 (int n)) :: u16) + uint (word_of_int (int n AND 0xf) :: u16) = int n"
    using loads_entry [of "\<lambda>_. Some []" "''f''" "(''g'', digits 10 n)" "[]" "int n"] s(2) assms
    by (simp add: is_program_def loads_def entry_def)
  then show ?thesis
    using d [OF s(1)] d [OF s(2)] d [OF s(3)] by simp
qed

theorem load_address_spellings_witness:
  "\<exists>segment offset. decode_addr ''0x10c00'' = Some (segment, offset, 68608, True) \<and>
      decode_addr ''68608'' = Some (segment, offset, 68608, True) \<and>
      decode_addr ''0206000'' = Some (segment, offset, 68608, True) \<and>
      16 * uint (word_of_int segment :: u16) + uint (word_of_int offset :: u16) = 68608"
proof -
  have "digits 16 68608 = ''10c00''" "digits 10 68608 = ''68608''" "digits 8 68608 = ''206000''"
    by (simp_all add: digits.simps digit_char_def)
  then show ?thesis
    using load_address_spellings [of 68608] by simp
qed

text \<open>No address in the form \<^verbatim>\<open>segment:offset\<close> is accepted, although the usage message offers it: \<^verbatim>\<open>strtol()\<close> stops
  at the colon, and the program demands that it reaches the end of the text. The run fails.\<close>

theorem segment_offset_rejected:
  assumes "CHR '':'' \<in> set addr" "open_input name s = Inr inp" "copy_file h inp s = Inr (n_sectors, s')"
  shows "process_file h name addr s = quit s'"
proof (cases "decode_addr addr")
  case (Some r)
  obtain segment offset address valid where r: "r = (segment, offset, address, valid)"
    by (cases r) auto
  have "\<not> valid"
    using decode_addr_valid [of addr segment offset address] assms(1) by (auto simp: Some r)
  then show ?thesis
    using assms(2,3) by (simp add: process_file_def Some r)
qed (use assms in \<open>simp add: process_file_def\<close>)

theorem segment_offset_rejected_witness:
  "\<exists>s'. process_file disk_host ''kernel.b'' ''10c0:0000'' (created disk_files ''boot'' ''disk.img'' DRIVE_USB) = quit s'"
proof -
  let ?s = "created disk_files ''boot'' ''disk.img'' DRIVE_USB"
  have "open_input ''kernel.b'' ?s = Inr [1, 2, 3]"
    by (simp add: open_input_def created_def disk_files_def)
  moreover have "\<exists>r. copy_file disk_host [1, 2, 3] ?s = Inr r"
    using copy_loop_returns [OF at_end_created, of "[1, 2, 3]" disk_host 0]
    by (simp add: copy_file_def sectors_def disk_host_def)
  ultimately show ?thesis
    using segment_offset_rejected [of "''10c0:0000''" "''kernel.b''" ?s "[1, 2, 3]" disk_host] by auto
qed

end
