(* ===== verification/Spec2Isabelle.thy ===== *)
theory Spec2Isabelle
  imports Page_Store Slices Boot Dumps User_Init Build_Image
begin

text \<open>
  A verification library for the kernel and the support library of a small teaching operating system for the x86 (C
  sources under \<^verbatim>\<open>src/\<close>): one address space without paging, twenty-five processes, three scheduling priorities, a VGA console, a
  keyboard, a serial line and a clock.

  \<^bold>\<open>The program.\<close> \<^verbatim>\<open>kernel/kmem.c\<close> manages pages and quarter-page slices; \<^verbatim>\<open>kernel/queues.c\<close> keeps eight queues whose nodes are
  carved from pages; \<^verbatim>\<open>kernel/stacks.c\<close> hands out process stacks; \<^verbatim>\<open>kernel/procs.c\<close> has the process table, the scheduler and
  the dispatcher on top of the queues; \<^verbatim>\<open>kernel/support.c\<close> sets up interrupts; \<^verbatim>\<open>kernel/sio.c\<close> and \<^verbatim>\<open>kernel/cio.c\<close> drive the serial
  line and the console; \<^verbatim>\<open>kernel/clock.c\<close> wakes sleepers and ends time slices; \<^verbatim>\<open>kernel/syscalls.c\<close> has the system calls; \<^verbatim>\<open>kernel/kernel.c\<close>
  brings all of it up and starts the first process. All of them use \<^verbatim>\<open>lib/\<close>. The programs under \<^verbatim>\<open>user/\<close> run on top of the system calls.

  \<^bold>\<open>State.\<close> Every module keeps its static variables in a record that extends the record of the module below it: \<open>machine\<close> (byte memory,
  device input and output), \<open>kmem_st\<close>, \<open>que_st\<close>, \<open>stk_st\<close>, \<open>proc_st\<close>, \<open>sup_st\<close>, \<open>sio_st\<close>, \<open>cio_st\<close>, \<open>clk_st\<close>, \<open>kern_st\<close>. A function is a definition of the same name
  that passes this state, is polymorphic in what lies above, and returns a value of a sum type: \<open>Inl\<close> with \<open>Panic\<close> (an assertion
  or \<^verbatim>\<open>kpanic()\<close>; the text printed before the machine stops is not part of the outcome), \<open>Undef\<close> (undefined behaviour, for instance an
  access outside a static array or through NULL), \<open>Diverge\<close> (a loop that does not end) or \<open>NoInput\<close> (waiting for a device that says nothing
  more), or \<open>Inr\<close>. What devices deliver is a script that \<^verbatim>\<open>inb\<close> consumes, what they get is a trace that \<^verbatim>\<open>outb\<close> extends. The control
  data inside free pages, the queue nodes and the process table are maps and lists of their own, so a user program that
  overwrites them is outside the model; stacks, contexts and the screen are bytes of memory. Pointers to table entries are
  indices, with \<open>None\<close> for NULL. Integers are words of their C width; the conditional compilation is that of the Makefile,
  with the trace options off.

  \<^bold>\<open>Theories.\<close>
  \<^item> \<^verbatim>\<open>Prelude\<close>: words, memory accesses of several widths, outcomes, linked lists; the proof collections.
  \<^item> \<^verbatim>\<open>Lib_Mem\<close>, \<^verbatim>\<open>Lib_Str\<close>, \<^verbatim>\<open>Lib_Conv\<close>, \<^verbatim>\<open>Lib_Sprint\<close>: \<^verbatim>\<open>lib/\<close>. Cell-by-cell effect of the copying loops, strings in memory, and the round
    trips of numbers through text.
  \<^item> \<^verbatim>\<open>Kmem\<close>, \<^verbatim>\<open>Page_Store\<close>, \<^verbatim>\<open>Slices\<close>: the allocator. The free list refines a list of blocks; the interface \<open>page_store\<close> is interpreted
    on it and shows that no page is lost or handed out twice.
  \<^item> \<^verbatim>\<open>Queues\<close>, \<^verbatim>\<open>Queue_Service\<close>: the queues refine eight sequences; the interface \<open>queue_service\<close> gives first-in-first-out.
  \<^item> \<^verbatim>\<open>Stacks\<close>: stack allocation and the initial stack of a process.
  \<^item> \<^verbatim>\<open>Procs\<close>: the scheduling invariant \<open>sched_inv\<close> (every queue entry is a process in the state its queue stands for, no process
    stands in two places, the sleeping queue is sorted, no queue node is lost), kept by every scheduling operation.
  \<^item> \<^verbatim>\<open>Support\<close>: the interrupt tables.
  \<^item> \<^verbatim>\<open>Ring_Buffers\<close>, \<^verbatim>\<open>Sio\<close>, \<^verbatim>\<open>Cio\<close>, \<^verbatim>\<open>Console\<close>, \<^verbatim>\<open>Keyboard\<close>: the interface \<open>ring_buffer\<close>, interpreted on the serial output buffer and on the keyboard
    buffer; order of transmission and input; the geometry of the console, scrolling and the cursor; what console output leaves alone.
  \<^item> \<^verbatim>\<open>Clock\<close>: the clock interrupt refines an abstract tick on the queues and the running process.
  \<^item> \<^verbatim>\<open>Contexts\<close>, \<^verbatim>\<open>Syscalls\<close>: access to saved contexts; the system calls in terms of the queues.
  \<^item> \<^verbatim>\<open>Serial\<close>: the serial interrupt, with the processes that are blocked for input.
  \<^item> \<^verbatim>\<open>Kernel\<close>: \<^verbatim>\<open>main()\<close>; the modules come up one after the other, and the first process is built, scheduled and dispatched.
  \<^item> \<^verbatim>\<open>Devices\<close>, \<^verbatim>\<open>Reachable\<close>: what the device code leaves alone; the step relation \<open>kernel_step\<close> of the whole machine (user code that writes
    any memory, device input, the four interrupt handlers) and the invariant \<open>kinv\<close> of its reachable states: one process runs and no
    other one is lost. The only step that is excluded is a \<^verbatim>\<open>wait()\<close> that collects a child which has already terminated, because the
    code leaves the child in the zombie queue.
  \<^item> \<^verbatim>\<open>Boot_Print\<close>, \<^verbatim>\<open>Boot\<close>: the whole of \<^verbatim>\<open>main()\<close> in one run. The messages are texts of known length, short enough for the serial output buffer, which
    is not emptied before the first process runs; every stage has a frame (\<open>con_frame\<close>, \<open>boot_frame\<close>, \<open>con_view\<close>, \<open>spares\<close>) that says what the later stages can
    rely on. From the memory of the boot loader \<^verbatim>\<open>main()\<close> returns in a state that satisfies \<open>kinv\<close>, so everything that the system reaches is in order.
  \<^item> \<^verbatim>\<open>Dumps\<close>: the reports on the console, of the modules, of faults and of a panic (\<^verbatim>\<open>lib/kextras.c\<close>): they end and change nothing but the screen.
  \<^item> \<^verbatim>\<open>Sprint_Text\<close>, \<^verbatim>\<open>Printf_Text\<close>: the text that a format and its arguments stand for, as a reference definition that \<^verbatim>\<open>sprint()\<close> is shown to implement on
    memory, and a bound for its length that is computed from the format. \<^verbatim>\<open>Printf_Text\<close>: the console's own implementation prints the same text.
  \<^item> \<^verbatim>\<open>User_Lib\<close>, \<^verbatim>\<open>User_Calls\<close>: the argument handling of \<^verbatim>\<open>lib/uextras.c\<close> on memory, and the same over byte lists with a proof that they agree; system
    calls, \<^verbatim>\<open>spawn()\<close> and the short forms of \<^verbatim>\<open>write()\<close>. A user program is an interaction tree (\<open>prog\<close>): its system calls, and how it goes on for
    every answer. \<open>all_runs\<close> states what holds of all runs under all answers; \<open>all_runs_sound\<close> and \<open>all_runs_ends\<close> say what that means for runs on
    lists of answers (\<open>run_on\<close>).
  \<^item> \<^verbatim>\<open>User_Progs\<close>, \<^verbatim>\<open>User_Init\<close>: the programs of \<^verbatim>\<open>user/\<close>: they end with the documented status, or never, and what they write; the initial process
    starts the others and restarts the idle process.
  \<^item> \<^verbatim>\<open>Build_Image\<close>: the host program \<^verbatim>\<open>util/BuildImage.c\<close> over a file system: the image it makes is the one the bootstrap reads, when it
    succeeds, and that it leaves nothing behind when it fails.

  \<^bold>\<open>Loops and bounds.\<close> Loops over lists that may be cyclic, the waking loop, the search for children and the frame loop of \<^verbatim>\<open>fork()\<close> are
  \<open>partial_function (option)\<close>, so not ending is a value, and the theorems say that they end. Loops with a counter recurse on it. Loops
  that poll a device recurse on the length of its script, which every round shortens. The endless loops of user programs are cut off after a
  number of rounds that is a parameter (\<open>Running\<close>); what is proved holds for every number.

  \<^bold>\<open>Not modelled.\<close> Assembly (\<^verbatim>\<open>boot/boot.S\<close>, \<^verbatim>\<open>kernel/entry.S\<close>, \<^verbatim>\<open>kernel/isrs.S\<close>, the code of the stubs in \<^verbatim>\<open>lib/usys.S\<close>): the interrupt stubs are a parameter
  and saving and restoring a context is outside. The interaction trees of the user programs are not run on the kernel: in \<^verbatim>\<open>Reachable\<close> user code may
  write any memory, and in \<^verbatim>\<open>User_Calls\<close> the kernel may answer anything. A panic stands for its outcome; what it prints is described separately in
  \<^verbatim>\<open>Dumps\<close>. \<^verbatim>\<open>util/Offsets.c\<close> (it prints structure offsets of the host compiler) and the programs under \<^verbatim>\<open>misc/\<close>, which the Makefile does not build,
  are left out. Interrupts do not nest in the kernel, so handlers are taken one at a time.
\<close>

end
